(* ===== verification/Kernel_Prelude.thy ===== *)
theory Kernel_Prelude
  imports Main "HOL-Library.Word"
begin

text \<open>
  Shared vocabulary of the development: the machine types of the kernel's C code, the
  error numbers it returns, the result type of an operation that can fail an assertion or
  go to sleep, the macros of \<^verbatim>\<open>include/lib/util.h\<close> and the facts about words, lists and
  word-indexed memory that the component theories share.
\<close>

unbundle bit_operations_syntax

section \<open>Machine types\<close>

type_synonym u8 = "8 word"
type_synonym u32 = "32 word"
type_synonym u64 = "64 word"

text \<open>Byte-addressed memory. Address arithmetic wraps at 64 bits, as \<^verbatim>\<open>uintptr_t\<close> does.\<close>

type_synonym mem = "u64 \<Rightarrow> u8"

text \<open>The collection of unfolding facts for small accessor definitions.\<close>

named_theorems kdefs \<open>definitions unfolded by component proofs\<close>
named_theorems kinv \<open>invariant preservation facts\<close>

section \<open>Error numbers and results\<close>

text \<open>
  The \<^verbatim>\<open>int\<close> results of the code are zero or a positive \<^verbatim>\<open>errno\<close> value; \<open>EOK\<close> is the zero.
\<close>

datatype errno =
    EOK | EPERM | ENOENT | ESRCH | EINTR | EIO | EBADF | EAGAIN | ENOMEM | EFAULT
  | EEXIST | ENOTDIR | EISDIR | EINVAL | EMFILE | ESPIPE | EPIPE | ENOSYS | ENOTEMPTY
  | ELOOP | ETIMEDOUT | ENOTSUP | ECHILD | ENAMETOOLONG | EACCES | EAFNOSUPPORT | ENOTSOCK
  | EOVERFLOW | ENXIO | ENOTTY | ENODEV | EISCONN | ENOTCONN | ECONNREFUSED | EADDRINUSE | ENOEXEC

text \<open>
  \<open>Panic\<close> is a failed \<^verbatim>\<open>KASSERT\<close> (the configuration makes it call \<^verbatim>\<open>com_sys_panic\<close>);
  \<open>Blocked\<close> is a call that has not returned: it spins on a held lock or sleeps on a
  waitlist and nothing in the run at hand wakes it.
\<close>

datatype 'a res = Ok 'a | Panic | Blocked

fun res_bind :: "'a res \<Rightarrow> ('a \<Rightarrow> 'b res) \<Rightarrow> 'b res" where
  "res_bind (Ok x) f = f x"
| "res_bind Panic f = Panic"
| "res_bind Blocked f = Blocked"

definition kassert :: "bool \<Rightarrow> 'a res \<Rightarrow> 'a res" where
  "kassert b r = (if b then r else Panic)"

lemma kassert_simps [simp]:
  "kassert True r = r"
  "kassert False r = Panic"
  by (simp_all add: kassert_def)

lemma kassert_eq_Ok [simp]: "kassert b r = Ok x \<longleftrightarrow> b \<and> r = Ok x"
  by (simp add: kassert_def)

lemma res_bind_eq_Ok: "res_bind r f = Ok y \<longleftrightarrow> (\<exists>x. r = Ok x \<and> f x = Ok y)"
  by (cases r) auto

section \<open>Macros of util.h\<close>

definition KMIN :: "'a::linorder \<Rightarrow> 'a \<Rightarrow> 'a" where
  "KMIN x y = (if x < y then x else y)"

definition KMAX :: "'a::linorder \<Rightarrow> 'a \<Rightarrow> 'a" where
  "KMAX x y = (if y < x then x else y)"

definition KMOD_FAST :: "u64 \<Rightarrow> u64 \<Rightarrow> u64" where
  "KMOD_FAST value multiple = value AND (multiple - 1)"

lemma KMIN_min: "KMIN x y = min x y"
  by (auto simp: KMIN_def min_def)

lemma KMAX_max: "KMAX x y = max x y"
  by (auto simp: KMAX_def max_def)

lemma unat_KMIN: "unat (KMIN (x::'a::len word) y) = min (unat x) (unat y)"
  by (auto simp: KMIN_def word_less_nat_alt)

section \<open>Facts about words\<close>

lemma unat_lt64: "unat (x::u64) < 2 ^ 64"
  using unsigned_less [of x] by simp

lemma unat_add_no_wrap:
  "unat (x::u64) + unat y < 2 ^ 64 \<Longrightarrow> unat (x + y) = unat x + unat y"
  by (simp add: unat_word_ariths)

lemma unat_sub_le: "(y::'a::len word) \<le> x \<Longrightarrow> unat (x - y) = unat x - unat y"
  by (rule unat_sub)

lemma unat_of_nat64: "n < 2 ^ 64 \<Longrightarrow> unat (of_nat n :: u64) = n"
  by (simp add: unat_of_nat take_bit_nat_eq_self)

lemma of_nat_unat64 [simp]: "(of_nat (unat (x::u64)) :: u64) = x"
  by simp

lemma unat_pred_Suc:
  fixes x :: u64
  assumes "x \<noteq> 0"
  shows "Suc (unat (x - 1)) = unat x"
proof -
  have "1 \<le> x" using assms by (simp add: word_le_nat_alt Suc_leI unat_gt_0)
  then show ?thesis using assms by (simp add: unat_sub unat_gt_0 Suc_leI)
qed

text \<open>Two's complement distance: \<open>a - d\<close> is the offset of \<open>a\<close> in a region starting at \<open>d\<close>.\<close>

lemma unat_minus_one_max: "unat ((d::u64) - (d + 1)) = 2 ^ 64 - 1"
  by (simp add: unsigned_minus_1_eq_mask mask_eq_exp_minus_1)

lemma KMOD_FAST_pow2:
  assumes "k < 64" and "unat n = 2 ^ k"
  shows "unat (KMOD_FAST v n) = unat v mod unat n"
proof -
  have "n = 2 ^ k"
    using assms by (metis of_nat_unat64 of_nat_numeral of_nat_power)
  then have "KMOD_FAST v n = take_bit k v"
    by (simp add: KMOD_FAST_def mask_eq_exp_minus_1 [symmetric] take_bit_eq_mask)
  then have "unat (KMOD_FAST v n) = take_bit k (unat v)"
    by (simp add: unsigned_take_bit_eq)
  then show ?thesis
    using assms(2) by (simp only: take_bit_eq_mod)
qed

section \<open>Arrays\<close>

text \<open>
  An array that the code copies into with \<^verbatim>\<open>kmemcpy\<close> is a list; \<open>blit xs off ys\<close> overwrites
  the part that starts at \<open>off\<close> with \<open>ys\<close>.
\<close>

definition blit :: "'a list \<Rightarrow> nat \<Rightarrow> 'a list \<Rightarrow> 'a list" where
  "blit xs off ys = take off xs @ ys @ drop (off + length ys) xs"

lemma length_blit: "off + length ys \<le> length xs \<Longrightarrow> length (blit xs off ys) = length xs"
  by (simp add: blit_def)

lemma nth_blit:
  assumes "off + length ys \<le> length xs" and "p < length xs"
  shows "blit xs off ys ! p = (if off \<le> p \<and> p < off + length ys then ys ! (p - off) else xs ! p)"
  using assms by (auto simp: blit_def nth_append min_def)

text \<open>
  Positions in a circular array: \<open>(idx + j) mod S\<close> for \<open>j < n \<le> S\<close> are the positions a copy
  with one wrap-around touches.
\<close>

lemma circular_split:
  fixes idx j S :: nat
  assumes "idx < S" and "j < S"
  shows "(idx + j) mod S = (if idx + j < S then idx + j else idx + j - S)"
  using assms by (simp add: mod_if)

lemma mod_add_cancel_eq:
  fixes r i j S :: nat
  assumes "(r + i) mod S = (r + j) mod S" and "i < S" and "j < S"
  shows "i = j"
proof -
  obtain q1 q2 where "r + i + S * q1 = r + j + S * q2"
    using assms(1) by (auto simp: nat_mod_eq_iff)
  then have "i + S * q1 = j + S * q2" by simp
  then have "i mod S = j mod S" by (auto simp: nat_mod_eq_iff)
  with assms(2,3) show ?thesis by simp
qed

lemma unat_add_mod_pow2:
  fixes x :: u64
  assumes "k < 64"
  shows "unat (x + of_nat i) mod 2 ^ k = (unat x + i) mod 2 ^ k"
proof -
  have dvd: "(2::nat) ^ k dvd 2 ^ 64" using assms by (intro le_imp_power_dvd) simp
  have "unat (x + of_nat i) = (unat x + i) mod 2 ^ 64"
    by (simp add: unat_word_ariths unat_of_nat take_bit_eq_mod mod_add_right_eq)
  then show ?thesis using dvd by (simp only: mod_mod_cancel)
qed

text \<open>A copy into a circular array of \<open>length xs\<close> cells that starts at \<open>idx\<close> and wraps once.\<close>

definition wrap_blit :: "'a list \<Rightarrow> nat \<Rightarrow> 'a list \<Rightarrow> nat \<Rightarrow> 'a list" where
  "wrap_blit xs idx ys n =
     (let left = length xs - idx; b1 = blit xs idx (take (min n left) ys)
      in if left < n then blit b1 0 (take (n - left) (drop left ys)) else b1)"

lemma length_wrap_first:
  assumes "idx < length xs" and "n \<le> length ys"
  shows "length (blit xs idx (take (min n (length xs - idx)) ys)) = length xs"
  using assms by (intro length_blit) auto

lemma length_wrap_blit:
  assumes "idx < length xs" and "n \<le> length xs" and "n \<le> length ys"
  shows "length (wrap_blit xs idx ys n) = length xs"
  using assms length_wrap_first [OF assms(1,3)]
  by (auto simp: wrap_blit_def Let_def length_blit)

lemma nth_wrap_blit:
  assumes "idx < length xs" and "n \<le> length xs" and "n \<le> length ys" and "p < length xs"
  shows "wrap_blit xs idx ys n ! p =
    (if (p + length xs - idx) mod length xs < n
     then ys ! ((p + length xs - idx) mod length xs) else xs ! p)"
proof -
  let ?left = "length xs - idx"
  define b1 where "b1 = blit xs idx (take (min n ?left) ys)"
  have len: "length b1 = length xs"
    unfolding b1_def using assms(1,3) by (rule length_wrap_first)
  have b1: "b1 ! p = (if idx \<le> p \<and> p < idx + n then ys ! (p - idx) else xs ! p)"
    unfolding b1_def using assms by (subst nth_blit) (auto intro!: nth_take)
  have w: "wrap_blit xs idx ys n ! p = (if ?left < n \<and> p < n - ?left then ys ! (?left + p) else b1 ! p)"
  proof (cases "?left < n")
    case True
    then have "wrap_blit xs idx ys n = blit b1 0 (take (n - ?left) (drop ?left ys))"
      by (simp only: wrap_blit_def Let_def b1_def if_True)
    with True assms len show ?thesis by (simp add: nth_blit)
  next
    case False
    then have "wrap_blit xs idx ys n = b1" by (simp only: wrap_blit_def Let_def b1_def if_False)
    with False show ?thesis by simp
  qed
  show ?thesis
  proof (cases "idx \<le> p")
    case True
    then have "(p + length xs - idx) mod length xs = p - idx"
      using assms by (simp add: mod_if)
    with True w b1 assms show ?thesis by auto
  next
    case False
    then have "(p + length xs - idx) mod length xs = ?left + p"
      using assms by simp
    with False w b1 assms show ?thesis by auto
  qed
qed

lemma circular_offset:
  fixes r a i S :: nat
  assumes "a \<le> S" and "0 < S"
  shows "((r + i) mod S + S - (r + a) mod S) mod S = (i + S - a) mod S"
proof -
  let ?x = "(r + i) mod S" and ?y = "(r + a) mod S"
  have y: "?y < S" using assms(2) by simp
  have "(r + a + (?x + S - ?y) mod S) mod S = (?y + (?x + S - ?y)) mod S"
    by (metis mod_add_eq mod_mod_trivial)
  also have "\<dots> = (r + i) mod S" using y by simp
  also have "\<dots> = (r + i + S) mod S" by simp
  also have "\<dots> = (r + a + (i + S - a)) mod S"
    using assms(1) by (intro arg_cong [where f = "\<lambda>x. x mod S"]) simp
  also have "\<dots> = (r + a + (i + S - a) mod S) mod S" by (rule mod_add_right_eq [symmetric])
  finally show ?thesis by (rule mod_add_cancel_eq) (use assms(2) in simp_all)
qed

lemma replicate_num [simp]: "replicate (numeral n) x = x # replicate (pred_numeral n) x"
  by (simp add: numeral_eq_Suc)

lemma unat_inc_less:
  fixes a b :: "'a::len word"
  assumes "a < b"
  shows "unat (a + 1) = Suc (unat a)"
proof -
  have "Suc (unat a) \<le> unat b" using assms by (simp add: word_less_nat_alt)
  also have "\<dots> < 2 ^ LENGTH('a)" by (rule unsigned_less)
  finally have "Suc (unat a) < 2 ^ LENGTH('a)" .
  then show ?thesis by (simp add: unat_word_ariths)
qed

lemma unat_ucast_u8 [simp]: "unat (ucast (x :: u8) :: u64) = unat x"
proof -
  have "unat x < 2 ^ 8" using unsigned_less [of x] by simp
  then have "unat x < 2 ^ 64" by simp
  then show ?thesis by (simp add: unsigned_ucast_eq take_bit_nat_eq_self)
qed

lemma unat_diff64:
  "unat (x - c :: u64) = (if unat c \<le> unat x then unat x - unat c else 2 ^ 64 + unat x - unat c)"
  by (simp add: unat_sub_if' word_le_nat_alt) linarith

lemma unat_word_of_int64: "0 \<le> i \<Longrightarrow> i < 2 ^ 64 \<Longrightarrow> unat (word_of_int i :: u64) = nat i"
  by (simp add: unat_eq_nat_uint uint_word_of_int_eq take_bit_int_eq_self)

end
