(* ===== verification/Mem.thy ===== *)
theory Mem
  imports Kernel_Prelude
begin

text \<open>
  The memory routines of \<^verbatim>\<open>src/com/lib/mem.c\<close> over a flat byte memory. The x86-64 build
  replaces the portable loops by string instructions (\<^verbatim>\<open>arch/libhelp.h\<close>); both variants
  are modelled where they differ. The profiler calls around each body are left out.
\<close>

section \<open>Copy loops\<close>

text \<open>
  \<open>copy_fwd m d s n\<close> is the loop that moves \<open>n\<close> bytes with ascending addresses: the portable
  body of \<^verbatim>\<open>kmemcpy\<close>, and \<^verbatim>\<open>cld; rep movsb\<close>. \<open>copy_desc\<close> descends from the addresses it is
  given: that is \<^verbatim>\<open>std; rep movsb\<close>.
\<close>

fun copy_fwd :: "mem \<Rightarrow> u64 \<Rightarrow> u64 \<Rightarrow> nat \<Rightarrow> mem" where
  "copy_fwd m d s 0 = m"
| "copy_fwd m d s (Suc n) = copy_fwd (m(d := m s)) (d + 1) (s + 1) n"

fun copy_desc :: "mem \<Rightarrow> u64 \<Rightarrow> u64 \<Rightarrow> nat \<Rightarrow> mem" where
  "copy_desc m d s 0 = m"
| "copy_desc m d s (Suc n) = copy_desc (m(d := m s)) (d - 1) (s - 1) n"

text \<open>The portable backward loop of \<^verbatim>\<open>kmemmove\<close>: \<^verbatim>\<open>for (i = n; i > 0; i--) pdest[i-1] = psrc[i-1]\<close>.\<close>

fun copy_bwd :: "mem \<Rightarrow> u64 \<Rightarrow> u64 \<Rightarrow> nat \<Rightarrow> mem" where
  "copy_bwd m d s 0 = m"
| "copy_bwd m d s (Suc n) = copy_bwd (m(d + of_nat n := m (s + of_nat n))) d s n"

fun set_fwd :: "mem \<Rightarrow> u64 \<Rightarrow> nat \<Rightarrow> u8 \<Rightarrow> mem" where
  "set_fwd m d 0 v = m"
| "set_fwd m d (Suc n) v = set_fwd (m(d := v)) (d + 1) n v"

section \<open>The routines\<close>

definition kmemset :: "mem \<Rightarrow> u64 \<Rightarrow> u64 \<Rightarrow> u8 \<Rightarrow> mem" where
  "kmemset m buff buffsize val = set_fwd m buff (unat buffsize) val"

fun cmp_loop :: "mem \<Rightarrow> u64 \<Rightarrow> u64 \<Rightarrow> nat \<Rightarrow> int" where
  "cmp_loop m b1 b2 0 = 0"
| "cmp_loop m b1 b2 (Suc n) = (if m b1 \<noteq> m b2 then -1 else cmp_loop m (b1 + 1) (b2 + 1) n)"

definition kmemcmp :: "mem \<Rightarrow> u64 \<Rightarrow> u64 \<Rightarrow> u64 \<Rightarrow> int" where
  "kmemcmp m buff1 buff2 buffsize = cmp_loop m buff1 buff2 (unat buffsize)"

definition kmemcpy :: "mem \<Rightarrow> u64 \<Rightarrow> u64 \<Rightarrow> u64 \<Rightarrow> mem" where
  "kmemcpy m dst src buffsize = copy_fwd m dst src (unat buffsize)"

text \<open>A pointer result is \<open>None\<close> for \<^verbatim>\<open>NULL\<close>. \<^verbatim>\<open>kmemchr\<close> compares the \<^verbatim>\<open>int\<close> argument unconverted.\<close>

fun chr_loop :: "mem \<Rightarrow> u64 \<Rightarrow> int \<Rightarrow> nat \<Rightarrow> u64 option" where
  "chr_loop m s c 0 = None"
| "chr_loop m s c (Suc n) = (if c = uint (m s) then Some s else chr_loop m (s + 1) c n)"

definition kmemchr :: "mem \<Rightarrow> u64 \<Rightarrow> int \<Rightarrow> u64 \<Rightarrow> u64 option" where
  "kmemchr m str c n = chr_loop m str c (unat n)"

fun rchr_loop :: "mem \<Rightarrow> u64 \<Rightarrow> u8 \<Rightarrow> nat \<Rightarrow> u64 option" where
  "rchr_loop m s c 0 = None"
| "rchr_loop m s c (Suc n) =
     (if m (s + of_nat n) = c then Some (s + of_nat n) else rchr_loop m s c n)"

definition kmemrchr :: "mem \<Rightarrow> u64 \<Rightarrow> int \<Rightarrow> u64 \<Rightarrow> u64 option" where
  "kmemrchr m str c n = rchr_loop m str (word_of_int c) (unat n)"

definition kmemmove_generic :: "mem \<Rightarrow> u64 \<Rightarrow> u64 \<Rightarrow> u64 \<Rightarrow> mem" where
  "kmemmove_generic m dst src n =
     (if dst < src then kmemcpy m dst src n
      else if src < dst then copy_bwd m dst src (unat n)
      else m)"

text \<open>
  The routine as the x86-64 configuration compiles it: the \<^verbatim>\<open>src < dst\<close> branch is
  \<^verbatim>\<open>ARCH_LIBHELP_FAST_REVERSE_MEMCPY(dst, src, n)\<close>, which starts a descending copy at \<open>dst\<close>
  and \<open>src\<close> themselves.
\<close>

definition kmemmove :: "mem \<Rightarrow> u64 \<Rightarrow> u64 \<Rightarrow> u64 \<Rightarrow> mem" where
  "kmemmove m dst src n =
     (if dst < src then kmemcpy m dst src n
      else if src < dst then copy_desc m dst src (unat n)
      else m)"

text \<open>
  The doubling loop of \<^verbatim>\<open>kmemrepcpy\<close>. The counters are \<^verbatim>\<open>size_t\<close>; a total of more than half
  the address space makes \<^verbatim>\<open>copied + to_copy\<close> wrap, so the loop is a partial function.
\<close>

partial_function (option) repcpy_loop :: "mem \<Rightarrow> u64 \<Rightarrow> u64 \<Rightarrow> u64 \<Rightarrow> mem option" where
  "repcpy_loop m dst copied dst_size =
     (if copied < dst_size then
        let to_copy = (if copied + copied > dst_size then dst_size - copied else copied)
        in repcpy_loop (kmemcpy m (dst + copied) dst to_copy) dst (copied + to_copy) dst_size
      else Some m)"

text \<open>The outer option is termination, the inner one is the returned pointer (\<open>None\<close> is \<^verbatim>\<open>NULL\<close>).\<close>

definition kmemrepcpy :: "mem \<Rightarrow> u64 \<Rightarrow> u64 \<Rightarrow> u64 \<Rightarrow> u64 \<Rightarrow> (mem \<times> u64 option) option" where
  "kmemrepcpy m dst src buffsize rep =
     (if rep = 0 \<or> buffsize = 0 then Some (m, None)
      else map_option (\<lambda>m'. (m', Some dst))
             (repcpy_loop (kmemcpy m dst src buffsize) dst buffsize (buffsize * rep)))"

section \<open>What the loops compute\<close>

lemma unat_offset_Suc:
  fixes a d :: u64
  assumes "a \<noteq> d"
  shows "unat (a - d) = Suc (unat (a - (d + 1)))"
proof -
  have "a - d \<noteq> 0" using assms by simp
  then have "Suc (unat (a - d - 1)) = unat (a - d)" by (rule unat_pred_Suc)
  then show ?thesis by (simp add: diff_diff_eq)
qed

text \<open>
  The forward loop is a snapshot copy unless the destination starts strictly inside the
  source: \<open>d - s\<close> is the distance from source to destination, modulo \<open>2 ^ 64\<close>.
\<close>

lemma copy_fwd_snapshot:
  assumes "n \<le> 2 ^ 64" and "d = s \<or> n \<le> unat (d - s)"
  shows "copy_fwd m d s n a = (if unat (a - d) < n then m (s + (a - d)) else m a)"
  using assms
proof (induction n arbitrary: m d s)
  case 0
  then show ?case by simp
next
  case (Suc n)
  let ?m = "m(d := m s)"
  have dist: "(d + 1) - (s + 1) = d - s" by simp
  have IH: "copy_fwd ?m (d + 1) (s + 1) n a
      = (if unat (a - (d + 1)) < n then ?m (s + 1 + (a - (d + 1))) else ?m a)"
    using Suc.prems by (intro Suc.IH) (auto simp: dist)
  show ?case
  proof (cases "a = d")
    case True
    then have "unat (a - (d + 1)) = 2 ^ 64 - 1" using unat_minus_one_max by simp
    with IH Suc.prems(1) True show ?thesis by simp
  next
    case False
    have off: "unat (a - d) = Suc (unat (a - (d + 1)))" using False by (rule unat_offset_Suc)
    have "s + (a - d) \<noteq> d" if "unat (a - d) < Suc n"
    proof
      assume eq: "s + (a - d) = d"
      then have "d - s = a - d" by (metis add_diff_cancel_left')
      with that off Suc.prems(2) False eq show False by auto
    qed
    with IH off False show ?thesis by (simp add: algebra_simps)
  qed
qed

lemma set_fwd_eq:
  assumes "n \<le> 2 ^ 64"
  shows "set_fwd m d n v a = (if unat (a - d) < n then v else m a)"
  using assms
proof (induction n arbitrary: m d)
  case 0
  then show ?case by simp
next
  case (Suc n)
  show ?case
  proof (cases "a = d")
    case True
    with Suc show ?thesis by (simp add: unat_minus_one_max)
  next
    case False
    with Suc show ?thesis by (simp add: unat_offset_Suc)
  qed
qed

lemma copy_bwd_snapshot:
  assumes "n \<le> 2 ^ 64" and "d = s \<or> n \<le> unat (s - d)"
  shows "copy_bwd m d s n a = (if unat (a - d) < n then m (s + (a - d)) else m a)"
  using assms
proof (induction n arbitrary: m)
  case 0
  then show ?case by simp
next
  case (Suc n)
  let ?m = "m(d + of_nat n := m (s + of_nat n))"
  have IH: "copy_bwd ?m d s n a = (if unat (a - d) < n then ?m (s + (a - d)) else ?m a)"
    using Suc.prems by (intro Suc.IH) auto
  have n: "unat (of_nat n :: u64) = n" using Suc.prems(1) by (intro unat_of_nat64) simp
  show ?case
  proof (cases "a - d = of_nat n")
    case True
    then have "a = d + of_nat n" by (simp add: diff_eq_eq add.commute)
    with IH n True show ?thesis by simp
  next
    case False
    then have neq: "unat (a - d) \<noteq> n" and a: "a \<noteq> d + of_nat n"
      by (metis of_nat_unat64, simp add: algebra_simps)
    have "s + (a - d) \<noteq> d + of_nat n" if lt: "unat (a - d) < n"
    proof
      assume eq: "s + (a - d) = d + of_nat n"
      then have sd: "s - d = of_nat n - (a - d)" by (simp add: algebra_simps)
      have "a - d \<le> of_nat n" using lt n by (simp add: word_le_nat_alt)
      then have "unat (s - d) = n - unat (a - d)" unfolding sd using n by (simp only: unat_sub)
      then have "d = s" using Suc.prems(2) by linarith
      with eq False show False by simp
    qed
    with IH neq a show ?thesis by (auto simp: less_Suc_eq)
  qed
qed

lemma copy_desc_frame:
  assumes "n \<le> unat (d - a)"
  shows "copy_desc m d s n a = m a"
  using assms
proof (induction n arbitrary: m d s)
  case 0
  then show ?case by simp
next
  case (Suc n)
  then have "d - a \<noteq> 0" by (metis not_less_eq_eq unat_0 zero_le)
  then have "Suc (unat (d - a - 1)) = unat (d - a)" by (rule unat_pred_Suc)
  with Suc.prems have "n \<le> unat ((d - 1) - a)" by (simp add: algebra_simps)
  with Suc.IH \<open>d - a \<noteq> 0\<close> show ?case by auto
qed

lemma wrapped_distance:
  fixes x y :: u64
  assumes "x < y" and "unat y + n \<le> 2 ^ 64"
  shows "n \<le> unat (x - y)"
proof -
  have "unat (x - y) = 2 ^ 64 - (unat y - unat x)"
    using assms(1) by (simp add: unat_sub_if' word_less_nat_alt word_le_nat_alt)
  moreover have "unat x < unat y" using assms(1) by (simp add: word_less_nat_alt)
  ultimately show ?thesis using assms(2) by linarith
qed

lemma unat_flip_distance:
  fixes x y :: u64
  assumes "x \<noteq> y"
  shows "unat (x - y) = 2 ^ 64 - unat (y - x)"
proof (cases "x < y")
  case True
  then have "unat x < unat y" by (simp add: word_less_nat_alt)
  with unat_lt64 [of y] show ?thesis by (simp add: unat_sub_if')
next
  case False
  with assms have "unat y < unat x" by (simp add: word_less_nat_alt word_unat_eq_iff)
  with unat_lt64 [of x] show ?thesis by (simp add: unat_sub_if')
qed

section \<open>Correctness of the routines\<close>

lemma kmemcpy_snapshot:
  assumes "dst = src \<or> unat n \<le> unat (dst - src)"
  shows "kmemcpy m dst src n a = (if unat (a - dst) < unat n then m (src + (a - dst)) else m a)"
  unfolding kmemcpy_def using assms unat_lt64 [of n] by (intro copy_fwd_snapshot) simp_all

lemma kmemset_eq:
  "kmemset m buff n v a = (if unat (a - buff) < unat n then v else m a)"
  unfolding kmemset_def using unat_lt64 [of n] by (intro set_fwd_eq) simp

lemma cmp_loop_eq_0:
  assumes "n \<le> 2 ^ 64"
  shows "cmp_loop m b1 b2 n = 0 \<longleftrightarrow> (\<forall>i<n. m (b1 + of_nat i) = m (b2 + of_nat i))"
  using assms
proof (induction n arbitrary: b1 b2)
  case 0
  then show ?case by simp
next
  case (Suc n)
  have "(\<forall>i<Suc n. P i) \<longleftrightarrow> P 0 \<and> (\<forall>i<n. P (Suc i))" for P
    by (auto simp: less_Suc_eq_0_disj)
  with Suc show ?case by (simp add: algebra_simps)
qed

lemma kmemcmp_eq_0:
  "kmemcmp m b1 b2 n = 0 \<longleftrightarrow> (\<forall>i<unat n. m (b1 + of_nat i) = m (b2 + of_nat i))"
  unfolding kmemcmp_def using unat_lt64 [of n] by (intro cmp_loop_eq_0) simp

lemma rchr_loop_last:
  assumes "n \<le> 2 ^ 64"
  shows "rchr_loop m s c n =
    (if \<exists>i<n. m (s + of_nat i) = c
     then Some (s + of_nat (Max {i. i < n \<and> m (s + of_nat i) = c})) else None)"
  using assms
proof (induction n)
  case 0
  then show ?case by simp
next
  case (Suc n)
  let ?A = "\<lambda>k. {i. i < k \<and> m (s + of_nat i) = c}"
  show ?case
  proof (cases "m (s + of_nat n) = c")
    case True
    then have "Max (?A (Suc n)) = n" by (intro Max_eqI) auto
    with True show ?thesis by auto
  next
    case False
    then have "?A (Suc n) = ?A n" by (auto simp: less_Suc_eq)
    with False Suc show ?thesis by (auto simp: less_Suc_eq)
  qed
qed

lemma mod_diff_dvd:
  fixes x c sz :: nat
  assumes "sz dvd c" and "c \<le> x"
  shows "(x - c) mod sz = x mod sz"
proof -
  obtain k where "c = sz * k" using assms(1) by (rule dvdE)
  with assms(2) have "x = (x - c) + sz * k" by simp
  then show ?thesis by (metis mod_mult_self2)
qed

text \<open>
  One round of the doubling loop: the first \<open>copied\<close> bytes are whole periods of the pattern,
  and copying a prefix of them right behind them extends the pattern.
\<close>

lemma repcpy_round:
  fixes f :: "nat \<Rightarrow> u8"
  assumes inv: "\<And>a. unat (a - dst) < unat copied \<Longrightarrow> m a = f (unat (a - dst) mod sz)"
    and sz: "sz dvd unat copied"
    and le: "to_copy \<le> copied" and top: "unat copied + unat to_copy \<le> 2 ^ 63"
  shows "kmemcpy m (dst + copied) dst to_copy a =
    (if unat (a - dst) < unat copied + unat to_copy then f (unat (a - dst) mod sz) else m a)"
proof -
  have le': "unat to_copy \<le> unat copied" using le by (simp add: word_le_nat_alt)
  then have cpy: "kmemcpy m (dst + copied) dst to_copy a =
      (if unat (a - (dst + copied)) < unat to_copy then m (dst + (a - (dst + copied))) else m a)"
    by (intro kmemcpy_snapshot) simp
  have shift: "a - (dst + copied) = (a - dst) - copied" by (simp add: algebra_simps)
  show ?thesis
  proof (cases "unat (a - dst) < unat copied")
    case True
    then have "unat ((a - dst) - copied) = 2 ^ 64 - (unat copied - unat (a - dst))"
      by (simp add: unat_sub_if' word_le_nat_alt)
    with True cpy shift inv top show ?thesis by simp
  next
    case False
    then have off: "unat ((a - dst) - copied) = unat (a - dst) - unat copied"
      by (intro unat_sub) (simp add: word_le_nat_alt)
    have "m (dst + ((a - dst) - copied)) = f (unat (a - dst) mod sz)"
      if "unat (a - dst) < unat copied + unat to_copy"
    proof -
      let ?b = "dst + ((a - dst) - copied)"
      have b: "unat (?b - dst) = unat (a - dst) - unat copied"
        using off by (simp only: add_diff_cancel_left')
      with that le' False have "m ?b = f ((unat (a - dst) - unat copied) mod sz)"
        using inv [of ?b] by simp
      also have "(unat (a - dst) - unat copied) mod sz = unat (a - dst) mod sz"
        using sz False by (intro mod_diff_dvd) simp_all
      finally show ?thesis .
    qed
    with cpy shift off False show ?thesis by auto
  qed
qed

lemma repcpy_loop_correct:
  fixes f :: "nat \<Rightarrow> u8"
  assumes "\<And>a. unat (a - dst) < unat copied \<Longrightarrow> m a = f (unat (a - dst) mod sz)"
    and "sz dvd unat copied" and "sz dvd unat dst_size"
    and "0 < unat copied" and "copied \<le> dst_size" and "unat dst_size \<le> 2 ^ 63"
  shows "\<exists>m'. repcpy_loop m dst copied dst_size = Some m' \<and>
    (\<forall>a. m' a = (if unat (a - dst) < unat dst_size then f (unat (a - dst) mod sz) else m a))"
  using assms
proof (induction "unat dst_size - unat copied" arbitrary: m copied rule: less_induct)
  case less
  show ?case
  proof (cases "copied < dst_size")
    case False
    with less.prems(5) have "copied = dst_size" by simp
    with less.prems(1) False show ?thesis by (subst repcpy_loop.simps) auto
  next
    case True
    define t where "t = (if copied + copied > dst_size then dst_size - copied else copied)"
    have c: "unat copied < unat dst_size" using True by (simp add: word_less_nat_alt)
    have cc: "unat (copied + copied) = unat copied + unat copied"
      using c less.prems(6) by (intro unat_add_no_wrap) simp
    have t: "unat t = min (unat copied) (unat dst_size - unat copied)"
      using c cc by (auto simp: t_def unat_sub_le word_le_nat_alt word_less_nat_alt)
    have sum: "unat (copied + t) = unat copied + unat t"
      using t c less.prems(6) by (intro unat_add_no_wrap) simp
    have dvd: "sz dvd unat t" using less.prems(2,3) t by (simp add: min_def)
    let ?m = "kmemcpy m (dst + copied) dst t"
    have round: "?m a = (if unat (a - dst) < unat copied + unat t
        then f (unat (a - dst) mod sz) else m a)" for a
      using less.prems(1,2,6) t c by (intro repcpy_round) (auto simp: word_le_nat_alt)
    have "\<exists>m'. repcpy_loop ?m dst (copied + t) dst_size = Some m' \<and>
      (\<forall>a. m' a = (if unat (a - dst) < unat dst_size then f (unat (a - dst) mod sz) else ?m a))"
    proof (rule less.hyps)
      show "unat dst_size - unat (copied + t) < unat dst_size - unat copied"
        using sum t c less.prems(4) by simp
      show "?m a = f (unat (a - dst) mod sz)" if "unat (a - dst) < unat (copied + t)" for a
        using that round sum by simp
      show "sz dvd unat (copied + t)" using sum dvd less.prems(2) by simp
      show "copied + t \<le> dst_size" using sum t c by (simp add: word_le_nat_alt)
    qed (use sum less.prems in simp_all)
    moreover have "repcpy_loop m dst copied dst_size = repcpy_loop ?m dst (copied + t) dst_size"
      using True by (subst repcpy_loop.simps) (simp add: t_def Let_def)
    ultimately show ?thesis using round sum t c by auto
  qed
qed

text \<open>
  The portable \<^verbatim>\<open>kmemmove\<close> is a snapshot copy for every pair of regions that do not wrap
  around the end of the address space, overlapping or not: each destination byte gets the
  source byte as it was before the call, and no other byte changes.
\<close>

theorem kmemmove_generic_snapshot:
  assumes "unat dst + unat n \<le> 2 ^ 64" and "unat src + unat n \<le> 2 ^ 64"
  shows "kmemmove_generic m dst src n a =
    (if unat (a - dst) < unat n then m (src + (a - dst)) else m a)"
proof (cases dst src rule: linorder_cases)
  case less
  with assms(2) show ?thesis
    by (simp add: kmemmove_generic_def kmemcpy_snapshot wrapped_distance)
next
  case equal
  then show ?thesis by (simp add: kmemmove_generic_def)
next
  case greater
  then have "copy_bwd m dst src (unat n) a =
      (if unat (a - dst) < unat n then m (src + (a - dst)) else m a)"
    using assms(1) unat_lt64 [of n] by (intro copy_bwd_snapshot) (simp_all add: wrapped_distance)
  moreover from greater have "\<not> dst < src" by (rule less_not_sym)
  ultimately show ?thesis using greater by (simp only: kmemmove_generic_def if_True if_False)
qed

theorem kmemmove_generic_snapshot_witness:
  "kmemmove_generic (\<lambda>a. ucast a) 101 100 3 103 = 102"
  using kmemmove_generic_snapshot [of 101 3 100 "\<lambda>a. ucast a" 103] by simp



text \<open>
  \<^verbatim>\<open>kmemrepcpy\<close> terminates and fills \<open>rep\<close> consecutive copies of the source block, byte
  \<open>i\<close> of the destination being byte \<open>i mod buffsize\<close> of the source, and changes nothing else.
  The total size must stay within half the address space and the destination must not start
  inside the source block.
\<close>

theorem kmemrepcpy_repeats:
  assumes "rep \<noteq> 0" and "buffsize \<noteq> 0" and "unat buffsize * unat rep \<le> 2 ^ 63"
    and "dst = src \<or> unat buffsize \<le> unat (dst - src)"
  shows "\<exists>m'. kmemrepcpy m dst src buffsize rep = Some (m', Some dst) \<and>
    (\<forall>a. m' a = (if unat (a - dst) < unat buffsize * unat rep
                 then m (src + of_nat (unat (a - dst) mod unat buffsize)) else m a))"
proof -
  let ?f = "\<lambda>i. m (src + of_nat i)" and ?m = "kmemcpy m dst src buffsize"
  have cpy: "?m a = (if unat (a - dst) < unat buffsize then m (src + (a - dst)) else m a)" for a
    using assms(4) by (rule kmemcpy_snapshot)
  have tot: "unat (buffsize * rep) = unat buffsize * unat rep"
    using assms(3) by (simp add: unat_word_ariths)
  have one: "unat buffsize \<le> unat buffsize * unat rep"
    using assms(1) by (simp add: unat_gt_0 Suc_leI)
  have "\<exists>m'. repcpy_loop ?m dst buffsize (buffsize * rep) = Some m' \<and>
    (\<forall>a. m' a = (if unat (a - dst) < unat (buffsize * rep)
                 then ?f (unat (a - dst) mod unat buffsize) else ?m a))"
  proof (rule repcpy_loop_correct)
    show "?m a = ?f (unat (a - dst) mod unat buffsize)" if "unat (a - dst) < unat buffsize" for a
      using cpy [of a] that by simp
    show "0 < unat buffsize" using assms(2) by (simp add: unat_gt_0)
    show "buffsize \<le> buffsize * rep" using one tot by (simp only: word_le_nat_alt)
    show "unat (buffsize * rep) \<le> 2 ^ 63" using assms(3) by (simp only: tot)
    show "unat buffsize dvd unat (buffsize * rep)" unfolding tot by (rule dvd_triv_left)
  qed (rule dvd_refl)
  then obtain m' where loop: "repcpy_loop ?m dst buffsize (buffsize * rep) = Some m'"
    and eq: "\<And>a. m' a = (if unat (a - dst) < unat buffsize * unat rep
      then ?f (unat (a - dst) mod unat buffsize) else ?m a)"
    unfolding tot by auto
  have "m' a = (if unat (a - dst) < unat buffsize * unat rep
      then ?f (unat (a - dst) mod unat buffsize) else m a)" for a
    using eq [of a] cpy [of a] order_less_le_trans [OF _ one, of "unat (a - dst)"]
    by (auto simp del: mult_le_cancel1)
  with loop assms(1,2) show ?thesis by (simp add: kmemrepcpy_def)
qed

theorem kmemrepcpy_repeats_witness:
  "\<exists>m'. kmemrepcpy (\<lambda>a. ucast a) 1000 10 3 5 = Some (m', Some 1000) \<and> m' 1013 = 11"
proof -
  obtain m' where "kmemrepcpy (\<lambda>a. ucast a) 1000 10 3 5 = Some (m', Some 1000)"
    and "\<forall>a. m' a = (if unat (a - 1000) < unat (3 :: u64) * unat (5 :: u64)
      then ucast ((10 :: u64) + of_nat (unat (a - 1000) mod unat (3 :: u64))) else ucast a)"
    using kmemrepcpy_repeats [of 5 3 1000 10 "\<lambda>a. ucast a"] by auto
  then show ?thesis by simp
qed

end
