(* ===== verification/Str.thy ===== *)
theory Str
  imports Mem
begin

text \<open>
  The string routines of \<^verbatim>\<open>src/com/lib/str.c\<close> on byte memory. The loops that look for a
  terminating zero are partial functions: on memory without a zero they do not end. The number
  printers write from the last digit backwards; their digit loops are shared by the three bases
  and parametrised by the base, the digit encoder and the address of the last digit.
\<close>

section \<open>Strings\<close>

partial_function (option) kstrcmp :: "mem \<Rightarrow> u64 \<Rightarrow> u64 \<Rightarrow> int option" where
  "kstrcmp m s1 s2 =
     (if 0 \<noteq> m s1 \<or> 0 \<noteq> m s2
      then if m s1 \<noteq> m s2 then Some (-1) else kstrcmp m (s1 + 1) (s2 + 1)
      else Some 0)"

partial_function (option) strlen_loop :: "mem \<Rightarrow> u64 \<Rightarrow> u64 \<Rightarrow> u64 option" where
  "strlen_loop m s n = (if 0 \<noteq> m s then strlen_loop m (s + 1) (n + 1) else Some n)"

definition kstrlen :: "mem \<Rightarrow> u64 \<Rightarrow> u64 option" where
  "kstrlen m s = strlen_loop m s 0"

partial_function (option) strcpy_loop :: "mem \<Rightarrow> u64 \<Rightarrow> u64 \<Rightarrow> u64 \<Rightarrow> mem option" where
  "strcpy_loop m dst src n =
     (if 0 \<noteq> m (src + n) then strcpy_loop (m(dst + n := m (src + n))) dst src (n + 1)
      else Some (m(dst + n := 0)))"

definition kstrcpy :: "mem \<Rightarrow> u64 \<Rightarrow> u64 \<Rightarrow> mem option" where
  "kstrcpy m dst src = strcpy_loop m dst src 0"

text \<open>With \<open>len = 0\<close> the bound \<open>len - 1\<close> wraps to the largest word.\<close>

partial_function (option) strncpy_loop :: "mem \<Rightarrow> u64 \<Rightarrow> u64 \<Rightarrow> u64 \<Rightarrow> u64 \<Rightarrow> mem option" where
  "strncpy_loop m dst src len n =
     (if 0 \<noteq> m (src + n) \<and> n < len - 1
      then strncpy_loop (m(dst + n := m (src + n))) dst src len (n + 1)
      else Some (m(dst + n := 0)))"

definition kstrncpy :: "mem \<Rightarrow> u64 \<Rightarrow> u64 \<Rightarrow> u64 \<Rightarrow> mem option" where
  "kstrncpy m dst src len = strncpy_loop m dst src len 0"

section \<open>Numbers\<close>

function size_loop :: "u64 \<Rightarrow> u64 \<Rightarrow> u8 \<Rightarrow> u8" where
  "size_loop base size_test sz =
     (if 1 < base \<and> base \<le> size_test then size_loop base (size_test div base) (sz + 1) else sz)"
  by auto

termination
  by (relation "measure (\<lambda>(base, t, sz). unat t)")
    (auto simp: unat_div word_less_nat_alt word_le_nat_alt intro!: div_less_dividend)

declare size_loop.simps [simp del]

function digit_loop ::
  "u64 \<Rightarrow> (u64 \<Rightarrow> u8) \<Rightarrow> u64 \<Rightarrow> mem \<Rightarrow> u64 \<Rightarrow> u8 \<Rightarrow> u8 \<Rightarrow> mem \<times> u64 \<times> u8" where
  "digit_loop base enc lastp m val sz idx =
     (if idx < sz
      then digit_loop base enc lastp (m(lastp - ucast idx := enc (val mod base))) (val div base) sz (idx + 1)
      else (m, val, idx))"
  by auto

termination
  by (relation "measure (\<lambda>(base, enc, lastp, m, val, sz, idx). unat sz - unat idx)")
    (auto simp: unat_inc_less word_less_nat_alt intro!: diff_less_mono2)

declare digit_loop.simps [simp del]

definition dec_char :: "u64 \<Rightarrow> u8" where
  "dec_char rem = ucast rem + 48"

definition hex_char :: "u64 \<Rightarrow> u8" where
  "hex_char rem = (if rem < 10 then ucast rem + 48 else ucast rem - 10 + 65)"

definition kuitoa :: "u64 \<Rightarrow> mem \<Rightarrow> u64 \<Rightarrow> mem" where
  "kuitoa val m s =
     (let sz = size_loop 10 val 0 in
      case digit_loop 10 dec_char (s + ucast sz) m val sz 0 of (m1, val1, idx) \<Rightarrow>
        let m2 = m1(s + ucast sz - ucast idx := dec_char (val1 mod 10))
        in m2(s + ucast sz + 1 := 0))"

partial_function (option) itoa_size_loop :: "u64 \<Rightarrow> u64 \<Rightarrow> u8 \<Rightarrow> u8 option" where
  "itoa_size_loop val size_test sz =
     (if size_test = 0 then None
      else if 0 < val div size_test then itoa_size_loop val (size_test * 10) (sz + 1)
      else Some sz)"

text \<open>
  \<open>val\<close> ranges over \<^verbatim>\<open>int64_t\<close>. The negation of the least value overflows, which C leaves
  undefined: no result. A zero \<^verbatim>\<open>size_test\<close> would be a division by zero.
\<close>

definition kitoa :: "int \<Rightarrow> mem \<Rightarrow> u64 \<Rightarrow> mem option" where
  "kitoa val m s =
     (let is_negative = (if val < 0 then 1 else 0) :: u64;
          m0 = m(s := if val < 0 then 45 else 43)
      in if val = - (2 ^ 63) then None
         else let v = word_of_int (if val < 0 then val * (-1) else val)
              in case itoa_size_loop v 10 0 of
                   None \<Rightarrow> None
                 | Some sz \<Rightarrow>
                     case digit_loop 10 dec_char (s + is_negative + ucast sz) m0 v sz 0 of (m1, val1, idx) \<Rightarrow>
                       let m2 = m1(s + is_negative + ucast sz - ucast idx := dec_char (val1 mod 10))
                       in Some (m2(s + is_negative + ucast sz + 1 := 0)))"

definition kxuitoa :: "u64 \<Rightarrow> mem \<Rightarrow> u64 \<Rightarrow> bool \<Rightarrow> mem" where
  "kxuitoa val m s have_leading =
     (let sz = size_loop 16 val 0;
          print_size = (if have_leading then 15 else ucast sz);
          m0 = (if have_leading then set_fwd m s (unat (16 - ucast sz :: u64)) 48 else m)
      in case digit_loop 16 hex_char (s + print_size) m0 val sz 0 of (m1, val1, idx) \<Rightarrow>
           let m2 = m1(s + print_size - ucast idx := hex_char (val1 mod 16))
           in m2(s + print_size + 1 := 0))"

section \<open>Paths\<close>

fun strip_slashes :: "mem \<Rightarrow> u64 \<Rightarrow> nat \<Rightarrow> nat" where
  "strip_slashes m s 0 = 0"
| "strip_slashes m s (Suc n) = (if m (s + of_nat n) = 47 then strip_slashes m s n else Suc n)"

text \<open>The three outputs; a caller that passes \<^verbatim>\<open>NULL\<close> ignores the component.\<close>

definition kstrpathpenult :: "mem \<Rightarrow> u64 \<Rightarrow> u64 \<Rightarrow> u64 \<times> u64 \<times> u64" where
  "kstrpathpenult m s len0 =
     (let len = of_nat (strip_slashes m s (unat len0))
      in case kmemrchr m s 47 len of
           None \<Rightarrow> (0, 0, len)
         | Some e \<Rightarrow> let plen = e - s; eidx = plen + 1 in (plen, eidx, len - eidx))"

section \<open>Specifications\<close>

text \<open>Memory holds the zero-terminated string \<open>xs\<close> at an address.\<close>

fun cstr :: "mem \<Rightarrow> u64 \<Rightarrow> u8 list \<Rightarrow> bool" where
  "cstr m a [] = (m a = 0)"
| "cstr m a (x # xs) = (x \<noteq> 0 \<and> m a = x \<and> cstr m (a + 1) xs)"

fun nat_digits :: "nat \<Rightarrow> nat \<Rightarrow> nat list" where
  "nat_digits b n = (if b \<le> 1 \<or> n < b then [n] else nat_digits b (n div b) @ [n mod b])"

declare nat_digits.simps [simp del]

definition digits_value :: "nat \<Rightarrow> nat list \<Rightarrow> nat" where
  "digits_value b ds = foldl (\<lambda>acc d. acc * b + d) 0 ds"

text \<open>Reading a digit character back.\<close>

definition char_digit :: "u8 \<Rightarrow> nat" where
  "char_digit c = (if 65 \<le> c then unat c - 55 else unat c - 48)"

text \<open>The memory a printer leaves, from the position \<open>q\<close> of the first digit.\<close>

definition prints :: "mem \<Rightarrow> mem \<Rightarrow> u64 \<Rightarrow> u8 list \<Rightarrow> bool" where
  "prints m m' q str \<longleftrightarrow> cstr m' q str \<and> (\<forall>a. length str < unat (a - q) \<longrightarrow> m' a = m a)"

section \<open>Facts about strings\<close>

lemma kstrcmp_cstr:
  "cstr m s1 xs \<Longrightarrow> cstr m s2 ys \<Longrightarrow> kstrcmp m s1 s2 = Some (if xs = ys then 0 else -1)"
proof (induction xs arbitrary: s1 s2 ys)
  case Nil
  then show ?case by (cases ys) (auto simp: kstrcmp.simps [of m s1 s2])
next
  case (Cons x xs)
  then show ?case by (cases ys) (auto simp: kstrcmp.simps [of m s1 s2])
qed

lemma strlen_loop_cstr: "cstr m s xs \<Longrightarrow> strlen_loop m s n = Some (n + of_nat (length xs))"
  by (induction xs arbitrary: s n) (auto simp: strlen_loop.simps [of m])

lemma cstr_cong:
  "(\<And>i. i \<le> length xs \<Longrightarrow> m' (a + of_nat i) = m (a + of_nat i)) \<Longrightarrow> cstr m' a xs = cstr m a xs"
proof (induction xs arbitrary: a)
  case Nil
  then show ?case using Nil [of 0] by simp
next
  case (Cons x xs)
  have "m' (a + 1 + of_nat i) = m (a + 1 + of_nat i)" if "i \<le> length xs" for i
    using Cons.prems [of "Suc i"] that by (simp add: add.assoc)
  with Cons.IH [of "a + 1"] Cons.prems [of 0] show ?case by simp
qed

lemma cstr_nonzero: "cstr m a xs \<Longrightarrow> i < length xs \<Longrightarrow> m (a + of_nat i) = xs ! i \<and> xs ! i \<noteq> 0"
proof (induction xs arbitrary: a i)
  case Nil
  then show ?case by simp
next
  case (Cons x xs)
  then show ?case by (cases i) (auto simp: add.assoc [symmetric])
qed

lemma cstr_end: "cstr m a xs \<Longrightarrow> m (a + of_nat (length xs)) = 0"
  by (induction xs arbitrary: a) (auto simp: add.assoc [symmetric])

lemma cstrI:
  assumes "\<And>i. i < length xs \<Longrightarrow> m (a + of_nat i) = xs ! i" and "0 \<notin> set xs"
    and "m (a + of_nat (length xs)) = 0"
  shows "cstr m a xs"
  using assms
proof (induction xs arbitrary: a)
  case Nil
  then show ?case by simp
next
  case (Cons x xs)
  have "m (a + 1 + of_nat i) = xs ! i" if "i < length xs" for i
    using Cons.prems(1) [of "Suc i"] that by (simp add: add.assoc)
  with Cons.IH [of "a + 1"] Cons.prems(1) [of 0] Cons.prems(2,3) show ?case
    by (simp add: add.assoc)
qed

text \<open>
  The bounded copy from position \<open>n\<close> on, over regions that do not meet: it stops at the
  terminator or one byte before the bound.
\<close>

lemma strncpy_loop_copies:
  assumes "cstr m (src + of_nat n) xs" and "len \<noteq> 0" and "n + length xs < 2 ^ 64" and "n < unat len"
    and "\<And>i j. i \<le> n + length xs \<Longrightarrow> j \<le> n + length xs \<Longrightarrow> dst + of_nat i \<noteq> src + of_nat j"
  shows "\<exists>m'. strncpy_loop m dst src len (of_nat n) = Some m' \<and>
    cstr m' (dst + of_nat n) (take (unat len - 1 - n) xs) \<and>
    (\<forall>a. (\<forall>i. n \<le> i \<and> i \<le> n + min (length xs) (unat len - 1 - n) \<longrightarrow> a \<noteq> dst + of_nat i) \<longrightarrow> m' a = m a)"
  using assms
proof (induction xs arbitrary: m n)
  case Nil
  then show ?case by (simp add: strncpy_loop.simps [of m])
next
  case (Cons x xs)
  have n: "unat (of_nat n :: u64) = n" using Cons.prems(3) by (simp add: unat_of_nat64)
  have bound: "(of_nat n < len - 1) = (n < unat len - 1)"
    unfolding word_less_nat_alt n using unat_pred_Suc [OF Cons.prems(2)] by linarith
  show ?case
  proof (cases "n < unat len - 1")
    case False
    with Cons.prems(4) have "unat len = Suc n" by simp
    with bound show ?thesis by (simp add: strncpy_loop.simps [of m])
  next
    case True
    let ?m = "m(dst + of_nat n := m (src + of_nat n))"
    have "cstr ?m (src + of_nat (Suc n)) xs = cstr m (src + of_nat (Suc n)) xs"
    proof (rule cstr_cong)
      fix i assume "i \<le> length xs"
      then show "?m (src + of_nat (Suc n) + of_nat i) = m (src + of_nat (Suc n) + of_nat i)"
        using Cons.prems(5) [of n "Suc n + i"] by (auto simp: add.assoc)
    qed
    with Cons.prems(1) have str: "cstr ?m (src + of_nat (Suc n)) xs" by (simp add: ac_simps)
    obtain m' where m': "strncpy_loop ?m dst src len (of_nat (Suc n)) = Some m'"
      "cstr m' (dst + of_nat (Suc n)) (take (unat len - 1 - Suc n) xs)"
      "\<And>a. \<forall>i. Suc n \<le> i \<and> i \<le> Suc n + min (length xs) (unat len - 1 - Suc n) \<longrightarrow> a \<noteq> dst + of_nat i
        \<Longrightarrow> m' a = ?m a"
    proof -
      have "\<exists>m'. strncpy_loop ?m dst src len (of_nat (Suc n)) = Some m' \<and>
        cstr m' (dst + of_nat (Suc n)) (take (unat len - 1 - Suc n) xs) \<and>
        (\<forall>a. (\<forall>i. Suc n \<le> i \<and> i \<le> Suc n + min (length xs) (unat len - 1 - Suc n) \<longrightarrow>
          a \<noteq> dst + of_nat i) \<longrightarrow> m' a = ?m a)"
        by (rule Cons.IH [OF str Cons.prems(2)]) (use Cons.prems(3-5) True in auto)
      then show ?thesis using that by blast
    qed
    have "strncpy_loop m dst src len (of_nat n) = Some m'"
      using m'(1) bound True Cons.prems(1) by (simp add: strncpy_loop.simps [of m] ac_simps)
    moreover have "m' (dst + of_nat n) = ?m (dst + of_nat n)"
    proof (rule m'(3), intro allI impI)
      fix i assume "Suc n \<le> i \<and> i \<le> Suc n + min (length xs) (unat len - 1 - Suc n)"
      then have "n < i" "i < 2 ^ 64" using Cons.prems(3) by auto
      then show "dst + of_nat n \<noteq> dst + of_nat i" using n unat_of_nat64 [of i] by auto
    qed
    then have "cstr m' (dst + of_nat n) (take (unat len - 1 - n) (x # xs))"
      using m'(2) Cons.prems(1) Suc_diff_Suc [OF True] by (auto simp: ac_simps dest!: sym [of "Suc _"])
    moreover have "m' a = m a"
      if "\<forall>i. n \<le> i \<and> i \<le> n + min (length (x # xs)) (unat len - 1 - n) \<longrightarrow> a \<noteq> dst + of_nat i" for a
    proof -
      have "Suc n + min (length xs) (unat len - 1 - Suc n) = n + min (length (x # xs)) (unat len - 1 - n)"
        using True by auto
      then have "m' a = ?m a" by (intro m'(3)) (use that in auto)
      with that True show ?thesis by auto
    qed
    ultimately show ?thesis by blast
  qed
qed

section \<open>Facts about digits\<close>

lemma nat_digits_nonempty [simp]: "nat_digits b n \<noteq> []"
  by (subst nat_digits.simps) simp

lemma digits_value_nat_digits: "digits_value b (nat_digits b n) = n"
proof (induction b n rule: nat_digits.induct)
  case (1 b n)
  then show ?case
    by (subst nat_digits.simps) (auto simp: digits_value_def)
qed

lemma nat_digits_less: "1 < b \<Longrightarrow> d \<in> set (nat_digits b n) \<Longrightarrow> d < b"
proof (induction b n rule: nat_digits.induct)
  case (1 b n)
  then show ?case by (subst (asm) (2) nat_digits.simps) (auto split: if_splits)
qed

lemma length_nat_digits: "1 < b \<Longrightarrow> 0 < k \<Longrightarrow> n < b ^ k \<Longrightarrow> length (nat_digits b n) \<le> k"
proof (induction k arbitrary: n)
  case 0
  then show ?case by simp
next
  case (Suc k)
  show ?case
  proof (cases "n < b")
    case True
    then show ?thesis by (subst nat_digits.simps) simp
  next
    case False
    with Suc.prems have "0 < k" by (cases k) auto
    moreover have "n div b < b ^ k"
      using Suc.prems by (simp add: div_less_iff_less_mult mult.commute)
    ultimately show ?thesis
      using Suc.IH [of "n div b"] Suc.prems False by (subst nat_digits.simps) simp
  qed
qed

text \<open>The digit of weight \<open>b ^ i\<close>.\<close>

lemma nth_nat_digits:
  "1 < b \<Longrightarrow> i < length (nat_digits b n) \<Longrightarrow>
    nat_digits b n ! (length (nat_digits b n) - 1 - i) = n div b ^ i mod b"
proof (induction b n arbitrary: i rule: nat_digits.induct)
  case (1 b n)
  show ?case
  proof (cases "n < b")
    case True
    with 1 show ?thesis by (simp add: nat_digits.simps [of b n])
  next
    case False
    let ?ds = "nat_digits b (n div b)"
    have ds: "nat_digits b n = ?ds @ [n mod b]"
      using False 1 by (subst nat_digits.simps) simp
    show ?thesis
    proof (cases i)
      case 0
      then show ?thesis by (simp add: ds)
    next
      case (Suc j)
      then have "j < length ?ds" using 1 ds by simp
      moreover from this have "length ?ds - Suc j < length ?ds" by simp
      ultimately show ?thesis
        using 1 False Suc by (simp add: ds nth_append div_mult2_eq)
    qed
  qed
qed

lemma size_loop_digits:
  assumes "1 < base" and "unat sz + length (nat_digits (unat base) (unat v)) \<le> 256"
  shows "unat (size_loop base v sz) = unat sz + length (nat_digits (unat base) (unat v)) - 1"
  using assms
proof (induction base v sz rule: size_loop.induct)
  case (1 base v sz)
  have b: "1 < unat base" using 1 by (simp add: word_less_nat_alt)
  show ?case
  proof (cases "base \<le> v")
    case True
    let ?d = "nat_digits (unat base) (unat (v div base))"
    have ds: "nat_digits (unat base) (unat v) = ?d @ [unat v mod unat base]"
      using True b by (subst nat_digits.simps) (simp add: word_le_nat_alt unat_div)
    have L: "0 < length ?d" by simp
    have "unat sz + Suc (length ?d) \<le> 256" using 1(3) by (simp only: ds) simp
    with L have "Suc (unat sz) < 256" by linarith
    then have "unat (sz + 1) = Suc (unat sz)" by (simp add: unat_word_ariths)
    with 1 True ds L show ?thesis by (simp add: size_loop.simps [of base v sz])
  next
    case False
    then show ?thesis using b
      by (simp add: size_loop.simps [of base v sz] nat_digits.simps [of _ "unat v"] word_le_nat_alt)
  qed
qed

text \<open>The digit loop writes the digits of weights \<open>idx\<close> to \<open>sz - 1\<close> below the last position.\<close>

lemma digit_loop_writes:
  assumes "digit_loop base enc lastp m val sz idx = (m', val', idx')" and "idx \<le> sz"
  shows "idx' = sz \<and> unat val' = unat val div unat base ^ (unat sz - unat idx) \<and>
    m' a = (if unat idx \<le> unat (lastp - a) \<and> unat (lastp - a) < unat sz
      then enc (of_nat (unat val div unat base ^ (unat (lastp - a) - unat idx) mod unat base)) else m a)"
  using assms
proof (induction base enc lastp m val sz idx rule: digit_loop.induct)
  case (1 base enc lastp m val sz idx)
  show ?case
  proof (cases "idx < sz")
    case False
    then have "m' = m \<and> val' = val \<and> idx' = idx" "idx = sz"
      using 1(2,3) by (auto simp: digit_loop.simps [of base enc lastp m])
    then show ?thesis by auto
  next
    case True
    let ?m = "m(lastp - ucast idx := enc (val mod base))" and ?d = "unat (lastp - a)"
    have inc: "unat (idx + 1) = Suc (unat idx)" using True by (rule unat_inc_less)
    have le: "idx + 1 \<le> sz" and lt: "unat idx < unat sz"
      using True inc by (simp_all add: word_le_nat_alt word_less_nat_alt)
    have rec: "digit_loop base enc lastp ?m (val div base) sz (idx + 1) = (m', val', idx')"
      using 1(2) True by (subst (asm) digit_loop.simps) simp
    note IH = 1(1) [OF True rec le, unfolded inc unat_div]
    have "(lastp - a = ucast idx) = (?d = unat idx)"
      by (simp add: word_unat_eq_iff)
    then have at: "(a = lastp - ucast idx) = (?d = unat idx)"
      by (auto simp: algebra_simps)
    have pow: "unat val div unat base div unat base ^ (k - Suc (unat idx)) =
        unat val div unat base ^ (k - unat idx)" if "unat idx < k" for k
      using that by (simp add: div_mult2_eq [symmetric] power_Suc [symmetric] Suc_diff_Suc del: power_Suc)
    show ?thesis
    proof (cases "?d = unat idx")
      case True
      with IH at pow [OF lt] lt show ?thesis by (simp add: unat_mod [symmetric])
    next
      case False
      with IH at pow [OF lt] pow [of ?d] show ?thesis by auto
    qed
  qed
qed

text \<open>
  A number printed with its last digit at \<open>lastp\<close>: the digits, most significant first, start
  \<open>length - 1\<close> bytes earlier.
\<close>

lemma print_digits:
  assumes "1 < base" and "length (nat_digits (unat base) (unat val)) = Suc (unat sz)"
    and "digit_loop base enc lastp m val sz 0 = (m1, val1, idx)"
  shows "(m1(lastp - ucast idx := enc (val1 mod base))) a =
    (if unat (a - (lastp - ucast sz)) \<le> unat sz
     then enc (of_nat (nat_digits (unat base) (unat val) ! unat (a - (lastp - ucast sz)))) else m a)"
proof -
  let ?ds = "nat_digits (unat base) (unat val)" and ?d = "unat (lastp - a)"
  have b: "1 < unat base" using assms(1) by (simp add: word_less_nat_alt)
  note w = digit_loop_writes [OF assms(3), of a]
  have dig: "?ds ! (unat sz - i) = unat val div unat base ^ i mod unat base" if "i \<le> unat sz" for i
    using nth_nat_digits [OF b, of i "unat val"] that assms(2) by simp
  have "(lastp - a = ucast sz) = (?d = unat sz)" by (simp add: word_unat_eq_iff)
  then have at: "(a = lastp - ucast sz) = (?d = unat sz)" by (auto simp: algebra_simps)
  have flip: "a - (lastp - ucast sz) = ucast sz - (lastp - a)" by simp
  have pos: "unat (a - (lastp - ucast sz)) = unat sz - ?d" if "?d \<le> unat sz"
    unfolding flip using that by (subst unat_sub) (simp_all add: word_le_nat_alt)
  have out: "\<not> unat (a - (lastp - ucast sz)) \<le> unat sz" if "\<not> ?d \<le> unat sz"
  proof -
    have "unat (ucast sz :: u64) < ?d" using that by simp
    then have "unat (ucast sz - (lastp - a)) = 2 ^ 64 + unat sz - ?d"
      by (simp add: unat_sub_if')
    then show ?thesis unfolding flip using unat_lt64 [of "lastp - a"] by simp
  qed
  consider "?d = unat sz" | "?d < unat sz" | "unat sz < ?d" by linarith
  then show ?thesis
  proof cases
    case 1
    have "val1 mod base = of_nat (unat val1 mod unat base)"
      by (simp flip: unat_mod)
    with 1 show ?thesis using w at pos dig [of "unat sz"] by simp
  next
    case 2
    then show ?thesis using w at pos dig [of ?d] by simp
  next
    case 3
    then show ?thesis using w at out by simp
  qed
qed

lemma digits10: "length (nat_digits 10 (unat (v :: u64))) \<le> 20"
  using unat_lt64 [of v] by (intro length_nat_digits) simp_all

lemma digits16: "length (nat_digits 16 (unat (v :: u64))) \<le> 16"
  using unat_lt64 [of v] by (intro length_nat_digits) simp_all

lemma char_digit_dec: "d < 10 \<Longrightarrow> dec_char (of_nat d) \<noteq> 0 \<and> char_digit (dec_char (of_nat d)) = d"
proof -
  have "list_all (\<lambda>d. dec_char (of_nat d) \<noteq> 0 \<and> char_digit (dec_char (of_nat d)) = d) [0..<10]"
    by code_simp
  then show "d < 10 \<Longrightarrow> ?thesis" by (auto simp: list_all_iff)
qed

lemma char_digit_hex: "d < 16 \<Longrightarrow> hex_char (of_nat d) \<noteq> 0 \<and> char_digit (hex_char (of_nat d)) = d"
proof -
  have "list_all (\<lambda>d. hex_char (of_nat d) \<noteq> 0 \<and> char_digit (hex_char (of_nat d)) = d) [0..<16]"
    by code_simp
  then show "d < 16 \<Longrightarrow> ?thesis" by (auto simp: list_all_iff)
qed

lemma printed_digits:
  assumes "1 < base" and "length (nat_digits (unat base) (unat val)) = Suc (unat sz)"
    and "digit_loop base enc (q + ucast sz) m val sz 0 = (m1, val1, idx)"
    and "\<And>d. d < unat base \<Longrightarrow> enc (of_nat d) \<noteq> 0"
  shows "prints m ((m1(q + ucast sz - ucast idx := enc (val1 mod base)))(q + ucast sz + 1 := 0)) q
    (map (\<lambda>d. enc (of_nat d)) (nat_digits (unat base) (unat val)))"
proof -
  let ?ds = "nat_digits (unat base) (unat val)"
  let ?m1 = "m1(q + ucast sz - ucast idx := enc (val1 mod base))"
  let ?m2 = "?m1(q + ucast sz + 1 := 0)"
  have b: "1 < unat base" using assms(1) by (simp add: word_less_nat_alt)
  have sz: "unat sz < 256" using unsigned_less [of sz] by simp
  have endp: "q + ucast sz + 1 = q + of_nat (length ?ds)" using assms(2) by (simp add: ac_simps)
  have dig: "?m1 a = (if unat (a - q) \<le> unat sz then enc (of_nat (?ds ! unat (a - q))) else m a)" for a
    using print_digits [OF assms(1-3), of a] by simp
  have ne: "q + of_nat i \<noteq> q + of_nat (length ?ds)" and u: "unat (of_nat i :: u64) = i"
    if "i < length ?ds" for i
    using that assms(2) sz unat_of_nat64 [of i] unat_of_nat64 [of "length ?ds"] by auto
  have "?m2 (q + of_nat i) = enc (of_nat (?ds ! i))" if "i < length ?ds" for i
    using dig [of "q + of_nat i"] ne [OF that] u [OF that] that assms(2) by (simp add: endp)
  moreover have "enc (of_nat d) \<noteq> 0" if "d \<in> set ?ds" for d
    using assms(4) nat_digits_less [OF b that] by simp
  ultimately have "cstr ?m2 q (map (\<lambda>d. enc (of_nat d)) ?ds)"
    by (intro cstrI) (auto simp: endp)
  moreover have "?m2 a = m a" if "length ?ds < unat (a - q)" for a
    using dig [of a] that assms(2) u [of "length ?ds - 1"] sz unat_of_nat64 [of "length ?ds"]
    by (auto simp: endp)
  ultimately show ?thesis by (simp add: prints_def)
qed

lemma size_loop_length:
  assumes "1 < base" and "length (nat_digits (unat base) (unat v)) \<le> 256"
  shows "length (nat_digits (unat base) (unat v)) = Suc (unat (size_loop base v 0))"
proof -
  have "0 < length (nat_digits (unat base) (unat v))" by simp
  then show ?thesis using size_loop_digits [of base 0 v] assms by simp
qed

lemma kuitoa_prints: "prints m (kuitoa val m s) s (map (\<lambda>d. dec_char (of_nat d)) (nat_digits 10 (unat val)))"
proof -
  define sz where "sz = size_loop 10 val 0"
  obtain m1 val1 idx where l: "digit_loop 10 dec_char (s + ucast sz) m val sz 0 = (m1, val1, idx)"
    by (metis prod_cases3)
  have "length (nat_digits (unat (10 :: u64)) (unat val)) = Suc (unat sz)"
    unfolding sz_def by (rule size_loop_length) (use digits10 [of val] in simp_all)
  from printed_digits [OF _ this l] l char_digit_dec show ?thesis
    by (simp add: kuitoa_def sz_def Let_def)
qed

lemma cstr_replicate:
  "c \<noteq> 0 \<Longrightarrow> (\<And>i. i < n \<Longrightarrow> m (a + of_nat i) = c) \<Longrightarrow> cstr m (a + of_nat n) xs \<Longrightarrow>
    cstr m a (replicate n c @ xs)"
proof (induction n arbitrary: a)
  case 0
  then show ?case by simp
next
  case (Suc n)
  have "m (a + 1 + of_nat i) = c" if "i < n" for i
    using Suc.prems(2) [of "Suc i"] that by (simp add: add.assoc)
  with Suc.IH [of "a + 1"] Suc.prems(2) [of 0] Suc.prems show ?case by (simp add: add.assoc)
qed

lemma size16_length: "length (nat_digits (unat (16 :: u64)) (unat val)) = Suc (unat (size_loop 16 val 0))"
  by (rule size_loop_length) (use digits16 [of val] in simp_all)

lemma kxuitoa_prints:
  "prints m (kxuitoa val m s False) s (map (\<lambda>d. hex_char (of_nat d)) (nat_digits 16 (unat val)))"
proof -
  obtain m1 val1 idx where l: "digit_loop 16 hex_char (s + ucast (size_loop 16 val 0)) m val
      (size_loop 16 val 0) 0 = (m1, val1, idx)" by (metis prod_cases3)
  from printed_digits [OF _ size16_length l] l char_digit_hex show ?thesis
    by (simp add: kxuitoa_def Let_def)
qed

lemma kxuitoa_prints_leading:
  "prints m (kxuitoa val m s True) s
     (replicate (16 - length (nat_digits 16 (unat val))) 48 @
      map (\<lambda>d. hex_char (of_nat d)) (nat_digits 16 (unat val)))"
proof -
  let ?ds = "nat_digits 16 (unat val)" and ?m' = "kxuitoa val m s True"
  define sz where "sz = size_loop 16 val 0"
  define z where "z = 15 - unat sz"
  define q where "q = s + of_nat z"
  define m0 where "m0 = set_fwd m s (Suc z) 48"
  have len: "length ?ds = Suc (unat sz)" using size16_length [of val] by (simp add: sz_def)
  then have sz: "unat sz \<le> 15" using digits16 [of val] by simp
  then have z: "z + unat sz = 15" by (simp add: z_def)
  then have "(of_nat (z + unat sz) :: u64) = 15" by simp
  then have last: "s + 15 = q + ucast sz" by (simp add: q_def ac_simps)
  have "(16 :: u64) - ucast sz = of_nat (Suc z)"
    using last by (simp add: q_def algebra_simps)
  then have "unat ((16 :: u64) - ucast sz) = Suc z"
    using z by (simp add: unat_of_nat64 del: of_nat_Suc)
  then have m0: "m0 = set_fwd m s (unat ((16 :: u64) - ucast sz)) 48" by (simp add: m0_def)
  obtain m1 val1 idx where l: "digit_loop 16 hex_char (q + ucast sz) m0 val sz 0 = (m1, val1, idx)"
    by (metis prod_cases3)
  have p: "prints m0 ?m' q (map (\<lambda>d. hex_char (of_nat d)) ?ds)"
    using printed_digits [OF _ _ l] l char_digit_hex len
    by (simp add: kxuitoa_def Let_def sz_def [symmetric] m0 [symmetric] last)
  have fill: "m0 a = (if unat (a - s) < Suc z then 48 else m a)" for a
    unfolding m0_def using z by (intro set_fwd_eq) simp
  have before: "length ?ds < unat (a - q)" if "unat (a - s) < z" for a
  proof -
    have "a - q = (a - s) - of_nat z" by (simp add: q_def)
    then have "unat (a - q) = 2 ^ 64 + unat (a - s) - z"
      using that z by (simp only: unat_diff64 [of "a - s"]) (simp add: unat_of_nat64)
    then show ?thesis using z len by simp
  qed
  have "?m' (s + of_nat i) = 48" if "i < z" for i
    using p before [of "s + of_nat i"] fill [of "s + of_nat i"] that z
    by (simp add: prints_def unat_of_nat64)
  with p have "cstr ?m' s (replicate z 48 @ map (\<lambda>d. hex_char (of_nat d)) ?ds)"
    by (intro cstr_replicate) (simp_all add: prints_def q_def)
  moreover have "?m' a = m a" if "16 < unat (a - s)" for a
  proof -
    have "a - q = (a - s) - of_nat z" by (simp add: q_def)
    then have "unat (a - q) = unat (a - s) - z"
      using that z by (simp only: unat_diff64 [of "a - s"]) (simp add: unat_of_nat64)
    with that z len p fill [of a] show ?thesis by (simp add: prints_def)
  qed
  moreover have "16 - length ?ds = z" "z + length ?ds = 16" using len z by simp_all
  ultimately show ?thesis by (simp add: prints_def)
qed

text \<open>The size loop of the signed printer compares with growing powers of ten.\<close>

lemma less_pow_length: "1 < b \<Longrightarrow> n < b ^ length (nat_digits b n)"
proof (induction b n rule: nat_digits.induct)
  case (1 b n)
  show ?case
  proof (cases "n < b")
    case True
    then show ?thesis by (simp add: nat_digits.simps [of b n])
  next
    case False
    with 1 have "n div b < b ^ length (nat_digits b (n div b))" by simp
    with 1 False show ?thesis
      by (simp add: nat_digits.simps [of b n] div_less_iff_less_mult mult.commute)
  qed
qed

lemma unat_pow10: "k \<le> 19 \<Longrightarrow> unat (10 ^ k :: u64) = 10 ^ k"
proof -
  assume "k \<le> 19"
  then have "(10 :: nat) ^ k \<le> 10 ^ 19" by (intro power_increasing) auto
  then have "(10 :: nat) ^ k < 2 ^ 64" by simp
  then have "unat (of_nat (10 ^ k) :: u64) = 10 ^ k" by (rule unat_of_nat64)
  then show ?thesis by simp
qed

lemma itoa_size_loop_digits:
  assumes "length (nat_digits 10 (unat v)) = k + j" and "0 < k" and "k + j \<le> 19"
  shows "itoa_size_loop v (10 ^ k) sz = Some (sz + of_nat j)"
  using assms
proof (induction j arbitrary: k sz)
  case 0
  have "unat v < 10 ^ k" using less_pow_length [of 10 "unat v"] 0 by simp
  moreover have u: "unat (10 ^ k :: u64) = 10 ^ k" using 0 by (intro unat_pow10) simp
  ultimately have "v div 10 ^ k = 0" by (simp add: word_unat_eq_iff unat_div)
  moreover have "(10 ^ k :: u64) \<noteq> 0" using u by (metis power_eq_0_iff unat_0 zero_neq_numeral)
  ultimately show ?case by (simp add: itoa_size_loop.simps [of v])
next
  case (Suc j)
  have u: "unat (10 ^ k :: u64) = 10 ^ k" using Suc.prems by (intro unat_pow10) simp
  have "\<not> unat v < 10 ^ k"
    using length_nat_digits [of 10 k "unat v"] Suc.prems by auto
  then have "0 < v div 10 ^ k" by (simp add: word_less_nat_alt unat_div u div_greater_zero_iff)
  moreover have "(10 ^ k :: u64) \<noteq> 0" using u by (metis power_eq_0_iff unat_0 zero_neq_numeral)
  moreover have "itoa_size_loop v (10 ^ Suc k) (sz + 1) = Some (sz + 1 + of_nat j)"
    using Suc.prems by (intro Suc.IH) simp_all
  ultimately show ?case by (simp add: itoa_size_loop.simps [of v "10 ^ k"] ac_simps)
qed

text \<open>The sign is written only for negative numbers: for the others the first digit replaces it.\<close>

lemma kitoa_prints:
  assumes "- (2 ^ 63) < val" and "val < 2 ^ 63"
  shows "\<exists>m'. kitoa val m s = Some m' \<and> prints m m' s
    ((if val < 0 then [45] else []) @ map (\<lambda>d. dec_char (of_nat d)) (nat_digits 10 (nat \<bar>val\<bar>)))"
proof -
  let ?ds = "nat_digits 10 (nat \<bar>val\<bar>)" and ?g = "(if val < 0 then 1 else 0) :: u64"
  let ?m0 = "m(s := if val < 0 then 45 else 43)"
  define v :: u64 where "v = word_of_int \<bar>val\<bar>"
  define sz where "sz = (of_nat (length ?ds - 1) :: u8)"
  have v: "unat v = nat \<bar>val\<bar>"
    using assms by (simp add: v_def unat_word_of_int64)
  have L: "0 < length ?ds" "length ?ds \<le> 19"
    using assms by (auto intro: length_nat_digits)
  have "itoa_size_loop v (10 ^ 1) 0 = Some (0 + of_nat (length ?ds - 1))"
    by (rule itoa_size_loop_digits) (use v L in simp_all)
  then have loop: "itoa_size_loop v 10 0 = Some sz" by (simp add: sz_def)
  have len: "length (nat_digits (unat (10 :: u64)) (unat v)) = Suc (unat sz)"
    using L v by (simp add: sz_def unat_of_nat take_bit_nat_eq_self)
  obtain m1 val1 idx where l: "digit_loop 10 dec_char (s + ?g + ucast sz) ?m0 v sz 0 = (m1, val1, idx)"
    by (metis prod_cases3)
  define m' where "m' = (m1(s + ?g + ucast sz - ucast idx := dec_char (val1 mod 10)))(s + ?g + ucast sz + 1 := 0)"
  have p: "prints ?m0 m' (s + ?g) (map (\<lambda>d. dec_char (of_nat d)) ?ds)"
    using printed_digits [OF _ len l] char_digit_dec v by (simp add: m'_def)
  have "kitoa val m s = Some m'"
    using assms loop l by (auto simp: kitoa_def Let_def v_def abs_if m'_def)
  moreover have "prints m m' s ((if val < 0 then [45] else []) @ map (\<lambda>d. dec_char (of_nat d)) ?ds)"
  proof (cases "val < 0")
    case True
    then have p1: "prints ?m0 m' (s + 1) (map (\<lambda>d. dec_char (of_nat d)) ?ds)" using p by simp
    have "unat (s - (s + 1)) = 2 ^ 64 - 1" using unat_minus_one_max by simp
    with p1 L True have "m' s = 45" by (simp add: prints_def)
    moreover have "m' a = m a" if far: "Suc (length ?ds) < unat (a - s)" for a
    proof -
      have "a \<noteq> s" using far by auto
      with unat_offset_Suc [OF this] far p1 show ?thesis by (simp add: prints_def)
    qed
    ultimately show ?thesis using p1 True by (simp add: prints_def)
  next
    case False
    then show ?thesis using p by (auto simp: prints_def)
  qed
  ultimately show ?thesis by blast
qed

section \<open>Paths\<close>

lemma strip_slashes_le: "strip_slashes m s n \<le> n"
  by (induction n) auto

lemma strip_slashes_suffix: "strip_slashes m s n \<le> i \<Longrightarrow> i < n \<Longrightarrow> m (s + of_nat i) = 47"
  by (induction n) (auto split: if_splits simp: less_Suc_eq)

lemma strip_slashes_last:
  "strip_slashes m s n = Suc k \<Longrightarrow> m (s + of_nat k) \<noteq> 47"
  by (induction n) (auto split: if_splits)

section \<open>Properties\<close>



text \<open>
  comparison, length and bounded copy agree with the strings that memory holds: comparison
  returns zero exactly for equal strings, the length is the number of bytes before the terminator,
  and the bounded copy between separate regions, for a bound of at least one, leaves the source
  cut to one byte less than the bound, zero-terminated, and touches no byte beyond the bound.
\<close>

theorem kstr_ops_cstr:
  assumes "cstr m s1 xs" and "cstr m s2 ys"
  shows "kstrcmp m s1 s2 = Some (if xs = ys then 0 else -1) \<and>
    kstrlen m s1 = Some (of_nat (length xs)) \<and>
    (len \<noteq> 0 \<and> length xs < 2 ^ 64 \<and>
       (\<forall>i j. i \<le> length xs \<longrightarrow> j \<le> length xs \<longrightarrow> dst + of_nat i \<noteq> s1 + of_nat j) \<longrightarrow>
     (\<exists>m'. kstrncpy m dst s1 len = Some m' \<and> cstr m' dst (take (unat len - 1) xs) \<and>
       (\<forall>a. unat len \<le> unat (a - dst) \<longrightarrow> m' a = m a)))"
proof (intro conjI impI)
  show "kstrcmp m s1 s2 = Some (if xs = ys then 0 else -1)" using assms by (rule kstrcmp_cstr)
  show "kstrlen m s1 = Some (of_nat (length xs))"
    using strlen_loop_cstr [OF assms(1)] by (simp add: kstrlen_def)
  assume a: "len \<noteq> 0 \<and> length xs < 2 ^ 64 \<and>
    (\<forall>i j. i \<le> length xs \<longrightarrow> j \<le> length xs \<longrightarrow> dst + of_nat i \<noteq> s1 + of_nat j)"
  obtain m' where "kstrncpy m dst s1 len = Some m'" "cstr m' dst (take (unat len - 1) xs)"
    and fr: "\<And>a. \<forall>i \<le> min (length xs) (unat len - 1). a \<noteq> dst + of_nat i \<Longrightarrow> m' a = m a"
    using strncpy_loop_copies [of m s1 0 xs len dst] assms(1) a
    by (auto simp: kstrncpy_def unat_gt_0)
  moreover have "m' b = m b" if far: "unat len \<le> unat (b - dst)" for b
  proof (rule fr, intro allI impI)
    fix i assume "i \<le> min (length xs) (unat len - 1)"
    then have "i < unat len" using a by (auto simp: word_unat_eq_iff)
    then have "unat (of_nat i :: u64) < unat len" using unat_lt64 [of len] by (simp add: unat_of_nat64)
    with far show "b \<noteq> dst + of_nat i" by auto
  qed
  ultimately show "\<exists>m'. kstrncpy m dst s1 len = Some m' \<and> cstr m' dst (take (unat len - 1) xs) \<and>
       (\<forall>a. unat len \<le> unat (a - dst) \<longrightarrow> m' a = m a)" by blast
qed

theorem kstr_ops_cstr_witness:
  "kstrcmp ((\<lambda>_. 0)(10 := 97, 11 := 98, 20 := 97)) 10 20 = Some (-1) \<and>
   kstrlen ((\<lambda>_. 0)(10 := 97, 11 := 98, 20 := 97)) 10 = Some 2"
  using kstr_ops_cstr [of "(\<lambda>_. 0)(10 := 97, 11 := 98, 20 := 97)" 10 "[97, 98]" 20 "[97]" 0 0] by simp

text \<open>
  splitting a path into the directory part and the last component. After trailing slashes are
  dropped, the last component runs to the end and has no slash; it is empty only if the path has
  no byte but slashes; when it does not start the path, the byte before it is a slash and the
  directory part ends there, and otherwise the directory part is empty.
\<close>

theorem kstrpathpenult_splits:
  assumes "kstrpathpenult m s len = (plen, eidx, elen)"
  shows "unat eidx + unat elen \<le> unat len \<and>
    (\<forall>i. unat eidx + unat elen \<le> i \<and> i < unat len \<longrightarrow> m (s + of_nat i) = 47) \<and>
    (\<forall>i. unat eidx \<le> i \<and> i < unat eidx + unat elen \<longrightarrow> m (s + of_nat i) \<noteq> 47) \<and>
    (elen = 0 \<longleftrightarrow> (\<forall>i < unat len. m (s + of_nat i) = 47)) \<and>
    (if eidx = 0 then plen = 0 else eidx = plen + 1 \<and> m (s + plen) = 47)"
proof -
  define n where "n = strip_slashes m s (unat len)"
  have n: "n \<le> unat len" "n < 2 ^ 64"
    using strip_slashes_le [of m s "unat len"] unat_lt64 [of len] by (auto simp: n_def)
  have un: "unat (of_nat n :: u64) = n" using n by (simp add: unat_of_nat64)
  have suf: "m (s + of_nat i) = 47" if "n \<le> i" "i < unat len" for i
    using strip_slashes_suffix that by (auto simp: n_def)
  have last: "m (s + of_nat (n - 1)) \<noteq> 47" if "0 < n"
    using strip_slashes_last [of m s "unat len" "n - 1"] that by (simp add: n_def)
  have zero: "(\<forall>i < unat len. m (s + of_nat i) = 47) \<longleftrightarrow> n = 0"
  proof
    assume "\<forall>i < unat len. m (s + of_nat i) = 47"
    then have "\<not> n - 1 < unat len \<or> n = 0" using last by blast
    then show "n = 0" using n by auto
  qed (use suf in auto)
  let ?S = "{i. i < n \<and> m (s + of_nat i) = 47}"
  have find: "rchr_loop m s 47 n = (if \<exists>i<n. m (s + of_nat i) = 47 then Some (s + of_nat (Max ?S)) else None)"
    using n by (intro rchr_loop_last) simp
  have res: "(plen, eidx, elen) = (case rchr_loop m s 47 n of None \<Rightarrow> (0, 0, of_nat n)
      | Some e \<Rightarrow> (e - s, e - s + 1, of_nat n - (e - s + 1)))"
    using assms
    by (auto simp: kstrpathpenult_def Let_def kmemrchr_def n_def [symmetric] un split: option.splits)
  show ?thesis
  proof (cases "\<exists>i<n. m (s + of_nat i) = 47")
    case False
    have "rchr_loop m s 47 n = None" unfolding find using False by (rule if_not_P)
    then have "plen = 0" "eidx = 0" "elen = of_nat n"
      using res by simp_all
    then show ?thesis
      using n(1) un suf False unfolding zero by (auto simp: word_unat_eq_iff)
  next
    case True
    define k where "k = Max ?S"
    have S: "finite ?S" "?S \<noteq> {}" using True by auto
    then have k: "k \<in> ?S" unfolding k_def by (rule Max_in)
    have top: "i \<le> k" if "i \<in> ?S" for i unfolding k_def using S(1) that by (rule Max_ge)
    have kn: "Suc k < n" using k last by (cases "Suc k = n") auto
    have uk: "unat (of_nat (Suc k) :: u64) = Suc k" using kn n by (intro unat_of_nat64) simp
    have out: "plen = of_nat k" "eidx = of_nat (Suc k)" "elen = of_nat n - of_nat (Suc k)"
      using res find [unfolded if_P [OF True]] by (simp_all add: k_def ac_simps)
    then have ue: "unat eidx = Suc k" "unat elen = n - Suc k"
      using uk un kn by (auto simp: unat_diff64 simp del: of_nat_Suc)
    have "m (s + of_nat i) \<noteq> 47" if "Suc k \<le> i" "i < n" for i
      using top [of i] that by auto
    moreover have "elen \<noteq> 0" "eidx \<noteq> 0" using ue kn by auto
    ultimately show ?thesis
      using ue out n(1) kn suf k unfolding zero by (auto simp: ac_simps)
  qed
qed

theorem kstrpathpenult_splits_witness:
  "kstrpathpenult (\<lambda>a. if a = 3 \<or> a = 5 then 47 else 97) 0 6 = (3, 4, 1) \<and>
    (if (of_nat 4 :: u64) = 3 \<or> (of_nat 4 :: u64) = 5 then 47 else 97) \<noteq> (47 :: u8)"
proof -
  have eq: "kstrpathpenult (\<lambda>a. if a = 3 \<or> a = 5 then 47 else 97) 0 6 = (3, 4, 1)"
    by code_simp
  have "unat (4 :: u64) \<le> 4" "4 < unat (4 :: u64) + unat (1 :: u64)" by simp_all
  then show ?thesis
    using eq conjunct1 [OF conjunct2 [OF conjunct2 [OF kstrpathpenult_splits [OF eq]]]] by auto
qed

end
