(* ===== verification/Interfaces.thy ===== *)
theory Interfaces
  imports Kernel_Prelude
begin

text \<open>
  The contracts between the kernel's components, stated once as locales and discharged by
  the components that provide them. A client proves its facts from the contract; the
  interpretation of the locale on a component's model turns them into facts about that model.
\<close>

section \<open>Byte channels\<close>

text \<open>
  A channel accepts a prefix of what is offered and delivers bytes in order. A run is a
  sequence of offers and requests; it yields the final channel, all bytes the channel accepted
  and all bytes it delivered.
\<close>

datatype 'b chan_op = Put "'b list" | Get nat

fun chan_run ::
  "('s \<Rightarrow> 'b list \<Rightarrow> nat \<times> 's) \<Rightarrow> ('s \<Rightarrow> nat \<Rightarrow> 'b list \<times> 's) \<Rightarrow> 's \<Rightarrow> 'b chan_op list
   \<Rightarrow> 's \<times> 'b list \<times> 'b list" where
  "chan_run put get s [] = (s, [], [])"
| "chan_run put get s (Put xs # ops) =
     (case put s xs of (n, s1) \<Rightarrow>
        case chan_run put get s1 ops of (s2, win, rout) \<Rightarrow> (s2, take n xs @ win, rout))"
| "chan_run put get s (Get n # ops) =
     (case get s n of (ys, s1) \<Rightarrow>
        case chan_run put get s1 ops of (s2, win, rout) \<Rightarrow> (s2, win, ys @ rout))"

locale byte_channel =
  fixes chan_ok :: "'s \<Rightarrow> bool"
    and pending :: "'s \<Rightarrow> 'b list"
    and capacity :: "'s \<Rightarrow> nat"
    and put :: "'s \<Rightarrow> 'b list \<Rightarrow> nat \<times> 's"
    and get :: "'s \<Rightarrow> nat \<Rightarrow> 'b list \<times> 's"
  assumes bounded: "chan_ok s \<Longrightarrow> length (pending s) \<le> capacity s"
    and put_appends: "chan_ok s \<Longrightarrow> put s xs = (n, s') \<Longrightarrow>
      chan_ok s' \<and> capacity s' = capacity s \<and> pending s' = pending s @ take n xs"
    and get_removes: "chan_ok s \<Longrightarrow> get s n = (ys, s') \<Longrightarrow>
      chan_ok s' \<and> capacity s' = capacity s \<and> pending s = ys @ pending s' \<and> length ys \<le> n"
begin

lemma run_stream:
  assumes "chan_ok s" and "chan_run put get s ops = (s', win, rout)"
  shows "chan_ok s' \<and> capacity s' = capacity s \<and> pending s @ win = rout @ pending s'"
  using assms
proof (induction ops arbitrary: s s' win rout)
  case Nil
  then show ?case by simp
next
  case (Cons op ops)
  show ?case
  proof (cases op)
    case (Put xs)
    obtain n s1 win1 where 1: "put s xs = (n, s1)"
      and 2: "chan_run put get s1 ops = (s', win1, rout)" and "win = take n xs @ win1"
      using Cons.prems(2) Put by (auto split: prod.splits)
    with Cons.IH [OF _ 2] put_appends [OF Cons.prems(1) 1] show ?thesis by simp
  next
    case (Get n)
    obtain ys s1 rout1 where 1: "get s n = (ys, s1)"
      and 2: "chan_run put get s1 ops = (s', win, rout1)" and "rout = ys @ rout1"
      using Cons.prems(2) Get by (auto split: prod.splits)
    with Cons.IH [OF _ 2] get_removes [OF Cons.prems(1) 1] show ?thesis by simp
  qed
qed

text \<open>Started empty, the channel delivers a prefix of what it accepted and holds the rest.\<close>

lemma run_from_empty:
  assumes "chan_ok s" and "pending s = []" and "chan_run put get s ops = (s', win, rout)"
  shows "win = rout @ pending s' \<and> length (pending s') \<le> capacity s"
  using run_stream [OF assms(1,3)] bounded [of s'] assms(2) by simp

end

section \<open>Key-value stores\<close>

text \<open>
  The kernel keeps processes, process groups, cached pages and futexes in two kinds of table.
  A run is a sequence of updates; it is undefined when an update reports an error or fails an
  assertion. The reference is a partial map.
\<close>

datatype ('k, 'v) store_op = Insert 'k 'v | Remove 'k

fun op_key :: "('k, 'v) store_op \<Rightarrow> 'k" where
  "op_key (Insert k v) = k"
| "op_key (Remove k) = k"

fun store_run ::
  "('s \<Rightarrow> 'k \<Rightarrow> 'v \<Rightarrow> 's option) \<Rightarrow> ('s \<Rightarrow> 'k \<Rightarrow> 's option) \<Rightarrow> 's \<Rightarrow> ('k, 'v) store_op list \<Rightarrow> 's option" where
  "store_run put remove s [] = Some s"
| "store_run put remove s (Insert k v # ops) =
     (case put s k v of None \<Rightarrow> None | Some s1 \<Rightarrow> store_run put remove s1 ops)"
| "store_run put remove s (Remove k # ops) =
     (case remove s k of None \<Rightarrow> None | Some s1 \<Rightarrow> store_run put remove s1 ops)"

fun map_run :: "('k \<rightharpoonup> 'v) \<Rightarrow> ('k, 'v) store_op list \<Rightarrow> ('k \<rightharpoonup> 'v)" where
  "map_run m [] = m"
| "map_run m (Insert k v # ops) = map_run (m(k \<mapsto> v)) ops"
| "map_run m (Remove k # ops) = map_run (m(k := None)) ops"

text \<open>
  The runs a store must complete: a removed key is present; an inserted key is absent, unless
  the store overwrites.
\<close>

fun run_allowed :: "bool \<Rightarrow> ('k \<rightharpoonup> 'v) \<Rightarrow> ('k, 'v) store_op list \<Rightarrow> bool" where
  "run_allowed overwrite m [] = True"
| "run_allowed overwrite m (Insert k v # ops) =
     ((overwrite \<or> m k = None) \<and> run_allowed overwrite (m(k \<mapsto> v)) ops)"
| "run_allowed overwrite m (Remove k # ops) =
     (m k \<noteq> None \<and> run_allowed overwrite (m(k := None)) ops)"

lemma map_run_cong:
  assumes "\<And>k. P k \<Longrightarrow> m k = m' k" and "P k"
  shows "map_run m ops k = map_run m' ops k"
  using assms
proof (induction ops arbitrary: m m')
  case Nil
  then show ?case by simp
next
  case (Cons op ops)
  show ?case
    by (cases op) (use Cons.prems in \<open>auto intro!: Cons.IH\<close>)
qed

locale kv_store =
  fixes store_ok :: "'s \<Rightarrow> bool"
    and key_ok :: "'k \<Rightarrow> bool"
    and lookup :: "'s \<Rightarrow> 'k \<Rightarrow> 'v option"
    and put :: "'s \<Rightarrow> 'k \<Rightarrow> 'v \<Rightarrow> 's option"
    and remove :: "'s \<Rightarrow> 'k \<Rightarrow> 's option"
  assumes put_law: "store_ok s \<Longrightarrow> key_ok k \<Longrightarrow> put s k v = Some s' \<Longrightarrow>
      store_ok s' \<and> (\<forall>k'. key_ok k' \<longrightarrow> lookup s' k' = (if k' = k then Some v else lookup s k'))"
    and remove_law: "store_ok s \<Longrightarrow> key_ok k \<Longrightarrow> remove s k = Some s' \<Longrightarrow>
      store_ok s' \<and> (\<forall>k'. key_ok k' \<longrightarrow> lookup s' k' = (if k' = k then None else lookup s k'))"
begin

lemma run_refines_map:
  assumes "store_ok s" and "\<And>op. op \<in> set ops \<Longrightarrow> key_ok (op_key op)"
    and "store_run put remove s ops = Some s'"
  shows "store_ok s' \<and> (\<forall>k. key_ok k \<longrightarrow> lookup s' k = map_run (lookup s) ops k)"
  using assms
proof (induction ops arbitrary: s)
  case Nil
  then show ?case by simp
next
  case (Cons op ops)
  have k: "key_ok (op_key op)" using Cons.prems(2) by simp
  show ?case
  proof (cases op)
    case (Insert k v)
    obtain s1 where put: "put s k v = Some s1" and run: "store_run put remove s1 ops = Some s'"
      using Cons.prems(3) Insert by (auto split: option.splits)
    from put_law [OF Cons.prems(1) _ put] k Insert
    have s1: "store_ok s1" "\<And>k'. key_ok k' \<Longrightarrow> lookup s1 k' = ((lookup s)(k \<mapsto> v)) k'"
      by auto
    then have "map_run (lookup s1) ops k' = map_run ((lookup s)(k \<mapsto> v)) ops k'" if "key_ok k'" for k'
      using that by (intro map_run_cong [of key_ok]) auto
    with Cons.IH [OF s1(1) _ run] Cons.prems(2) Insert show ?thesis by simp
  next
    case (Remove k)
    obtain s1 where rem: "remove s k = Some s1" and run: "store_run put remove s1 ops = Some s'"
      using Cons.prems(3) Remove by (auto split: option.splits)
    from remove_law [OF Cons.prems(1) _ rem] k Remove
    have s1: "store_ok s1" "\<And>k'. key_ok k' \<Longrightarrow> lookup s1 k' = ((lookup s)(k := None)) k'"
      by auto
    then have "map_run (lookup s1) ops k' = map_run ((lookup s)(k := None)) ops k'" if "key_ok k'" for k'
      using that by (intro map_run_cong [of key_ok]) auto
    with Cons.IH [OF s1(1) _ run] Cons.prems(2) Remove show ?thesis by simp
  qed
qed

end

text \<open>A store whose allowed runs complete.\<close>

locale total_store = kv_store +
  fixes overwrite :: bool
  assumes put_total: "store_ok s \<Longrightarrow> key_ok k \<Longrightarrow> overwrite \<or> lookup s k = None \<Longrightarrow>
      \<exists>s'. put s k v = Some s'"
    and remove_total: "store_ok s \<Longrightarrow> key_ok k \<Longrightarrow> lookup s k \<noteq> None \<Longrightarrow> \<exists>s'. remove s k = Some s'"
begin

lemma run_completes:
  assumes "store_ok s" and "\<And>op. op \<in> set ops \<Longrightarrow> key_ok (op_key op)"
    and "run_allowed overwrite m ops" and "\<And>k. key_ok k \<Longrightarrow> lookup s k = m k"
  shows "\<exists>s'. store_run put remove s ops = Some s'"
  using assms
proof (induction ops arbitrary: s m)
  case Nil
  then show ?case by simp
next
  case (Cons op ops)
  have k: "key_ok (op_key op)" using Cons.prems(2) by simp
  show ?case
  proof (cases op)
    case (Insert k v)
    with Cons.prems k obtain s1 where put: "put s k v = Some s1" using put_total [of s k v] by auto
    note s1 = put_law [OF Cons.prems(1) _ put]
    have "\<exists>s'. store_run put remove s1 ops = Some s'"
    proof (rule Cons.IH)
      show "run_allowed overwrite (m(k \<mapsto> v)) ops" using Cons.prems(3) Insert by simp
    qed (use s1 k Insert Cons.prems in \<open>auto\<close>)
    with put Insert show ?thesis by simp
  next
    case (Remove k)
    with Cons.prems k obtain s1 where rem: "remove s k = Some s1" using remove_total [of s k] by auto
    note s1 = remove_law [OF Cons.prems(1) _ rem]
    have "\<exists>s'. store_run put remove s1 ops = Some s'"
    proof (rule Cons.IH)
      show "run_allowed overwrite (m(k := None)) ops" using Cons.prems(3) Remove by simp
    qed (use s1 k Remove Cons.prems in \<open>auto\<close>)
    with rem Remove show ?thesis by simp
  qed
qed

text \<open>An allowed run from an empty store ends in the map that the reference computes.\<close>

lemma run_total_refines:
  assumes "store_ok s" and "\<And>op. op \<in> set ops \<Longrightarrow> key_ok (op_key op)"
    and "run_allowed overwrite (lookup s) ops"
  shows "\<exists>s'. store_run put remove s ops = Some s' \<and> store_ok s' \<and>
    (\<forall>k. key_ok k \<longrightarrow> lookup s' k = map_run (lookup s) ops k)"
  using run_completes [OF assms] run_refines_map [OF assms(1,2)] by blast

end

section \<open>Page sources\<close>

text \<open>
  Clients draw single pages from the page allocator or from a per-CPU cache in front of it. What
  they rely on: a page comes from the pages available, and is not available afterwards.
\<close>

fun draw :: "('s \<Rightarrow> ('p \<times> 's) option) \<Rightarrow> 's \<Rightarrow> nat \<Rightarrow> ('p list \<times> 's) option" where
  "draw alloc s 0 = Some ([], s)"
| "draw alloc s (Suc n) =
     (case alloc s of None \<Rightarrow> None
      | Some (p, s1) \<Rightarrow> (case draw alloc s1 n of None \<Rightarrow> None | Some (ps, s2) \<Rightarrow> Some (p # ps, s2)))"

locale page_source =
  fixes source_ok :: "'s \<Rightarrow> bool"
    and avail :: "'s \<Rightarrow> 'p set"
    and alloc :: "'s \<Rightarrow> ('p \<times> 's) option"
  assumes finite_avail: "source_ok s \<Longrightarrow> finite (avail s)"
    and alloc_takes: "source_ok s \<Longrightarrow> alloc s = Some (p, s') \<Longrightarrow>
      source_ok s' \<and> p \<in> avail s \<and> avail s' = avail s - {p}"
    and alloc_total: "source_ok s \<Longrightarrow> avail s \<noteq> {} \<Longrightarrow> \<exists>p s'. alloc s = Some (p, s')"
begin

text \<open>As many pages as are available can be drawn, all different.\<close>

lemma draw_distinct:
  assumes "source_ok s" and "n \<le> card (avail s)"
  shows "\<exists>ps s'. draw alloc s n = Some (ps, s') \<and> source_ok s' \<and> distinct ps \<and> length ps = n \<and>
    set ps \<subseteq> avail s \<and> avail s' = avail s - set ps"
  using assms
proof (induction n arbitrary: s)
  case 0
  then show ?case by simp
next
  case (Suc n)
  have "avail s \<noteq> {}" using Suc.prems(2) by auto
  then obtain p s1 where p: "alloc s = Some (p, s1)" using alloc_total [OF Suc.prems(1)] by blast
  with alloc_takes [OF Suc.prems(1) p] Suc.prems(2) finite_avail [OF Suc.prems(1)]
  have s1: "source_ok s1" "p \<in> avail s" "avail s1 = avail s - {p}" "n \<le> card (avail s1)" by auto
  obtain ps s' where "draw alloc s1 n = Some (ps, s')" "source_ok s'" "distinct ps" "length ps = n"
    "set ps \<subseteq> avail s1" "avail s' = avail s1 - set ps"
    using Suc.IH [OF s1(1,4)] by blast
  with p s1 show ?case by auto
qed

end

end
