(* ===== verification/Ringbuffer.thy ===== *)
theory Ringbuffer
  imports Interfaces
begin

text \<open>
  The ring buffer of \<^verbatim>\<open>src/com/lib/ringbuffer.c\<close> and \<^verbatim>\<open>include/lib/ringbuffer.h\<close>: the byte
  channel under pipes, terminals and sockets. Indices are free-running 64-bit counters that
  wrap; the buffer is a list of \<open>buffer_size\<close> bytes.

  The lock in \<^verbatim>\<open>condvar\<close> is a flag. The two wait queues hold thread identifiers; making the
  notified thread runnable is the scheduler's part of \<^verbatim>\<open>ksync_notify\<close>. A blocking call runs
  against a list of wake-ups: what other threads do to the buffer while the caller sleeps,
  the signal the caller sees when it wakes, and the hang-up hook in force from then on. A call
  that would sleep with no wake-up left has not returned, which is \<open>None\<close>.
\<close>

section \<open>State\<close>

datatype rb_op = KRINGBUFFER_OP_READ | KRINGBUFFER_OP_WRITE

record kringbuffer =
  rb_buffer :: "u8 list"
  rb_buffer_size :: u64
  rb_condvar :: bool
  rb_write_queue :: "nat list"
  rb_write_index :: u64
  rb_read_queue :: "nat list"
  rb_read_index :: u64
  rb_is_eof :: bool

text \<open>
  The \<^verbatim>\<open>check_hangup\<close> hook gets the current byte count, the buffer, the operation and the
  argument; it returns an error, the value it stores through \<^verbatim>\<open>new_nbytes\<close> (if it stores one)
  and the \<^verbatim>\<open>force_return\<close> flag.
\<close>

record 'h rb_hooks =
  hk_check_hangup :: "(u64 \<Rightarrow> kringbuffer \<Rightarrow> rb_op \<Rightarrow> 'h option \<Rightarrow> errno \<times> u64 option \<times> bool) option"
  hk_fallback_hu_arg :: "'h option"

type_synonym 'h wake = "(kringbuffer \<Rightarrow> kringbuffer) \<times> int \<times> 'h rb_hooks"

text \<open>A buffer with its hooks and the wake-ups that are still to come.\<close>

type_synonym 'h rb_world = "kringbuffer \<times> 'h rb_hooks \<times> 'h wake list"

definition COM_IPC_SIGNAL_NONE :: int where
  "COM_IPC_SIGNAL_NONE = -1"

definition KRINGBUFFER_SIZE :: u64 where
  "KRINGBUFFER_SIZE = 4096 div 4"

definition KRINGBUFFER_AVAIL_READ :: "kringbuffer \<Rightarrow> u64" where
  "KRINGBUFFER_AVAIL_READ rb = rb_write_index rb - rb_read_index rb"

definition KRINGBUFFER_AVAIL_WRITE :: "kringbuffer \<Rightarrow> u64" where
  "KRINGBUFFER_AVAIL_WRITE rb = rb_buffer_size rb - KRINGBUFFER_AVAIL_READ rb"

text \<open>The internal array is not initialised by the macro; its content is the argument.\<close>

definition KRINGBUFFER_INIT_CUSTOM :: "u8 list \<Rightarrow> u64 \<Rightarrow> kringbuffer" where
  "KRINGBUFFER_INIT_CUSTOM buffptr buffsz =
     \<lparr>rb_buffer = buffptr, rb_buffer_size = buffsz, rb_condvar = False, rb_write_queue = [],
      rb_write_index = 0, rb_read_queue = [], rb_read_index = 0, rb_is_eof = False\<rparr>"

definition KRINGBUFFER_INIT :: "u8 list \<Rightarrow> kringbuffer" where
  "KRINGBUFFER_INIT internal = KRINGBUFFER_INIT_CUSTOM internal KRINGBUFFER_SIZE"

section \<open>Operations\<close>

definition check_hangup ::
  "u64 \<Rightarrow> u64 \<Rightarrow> 'h rb_hooks \<Rightarrow> kringbuffer \<Rightarrow> rb_op \<Rightarrow> 'h option \<Rightarrow> errno \<times> u64 \<times> bool" where
  "check_hangup new_nbytes curr_nbytes hk rb op arg =
     (case hk_check_hangup hk of
        None \<Rightarrow> (EOK, new_nbytes, False)
      | Some h \<Rightarrow>
          (case h curr_nbytes rb op (case arg of None \<Rightarrow> hk_fallback_hu_arg hk | Some x \<Rightarrow> Some x) of
             (ret, stored, force) \<Rightarrow>
               (ret, (case stored of None \<Rightarrow> new_nbytes | Some v \<Rightarrow> v), force)))"

text \<open>\<^verbatim>\<open>ksync_wait\<close>: enqueue, drop the lock, let the others run, take the lock again.\<close>

definition sleep_on_write :: "nat \<Rightarrow> (kringbuffer \<Rightarrow> kringbuffer) \<Rightarrow> kringbuffer \<Rightarrow> kringbuffer" where
  "sleep_on_write self env rb =
     (env (rb\<lparr>rb_write_queue := rb_write_queue rb @ [self], rb_condvar := False\<rparr>))
       \<lparr>rb_condvar := True\<rparr>"

definition sleep_on_read :: "nat \<Rightarrow> (kringbuffer \<Rightarrow> kringbuffer) \<Rightarrow> kringbuffer \<Rightarrow> kringbuffer" where
  "sleep_on_read self env rb =
     (env (rb\<lparr>rb_read_queue := rb_read_queue rb @ [self], rb_condvar := False\<rparr>))
       \<lparr>rb_condvar := True\<rparr>"

definition run_callback :: "('c \<Rightarrow> 'c) option \<Rightarrow> 'c \<Rightarrow> 'c" where
  "run_callback callback cb_arg = (case callback of None \<Rightarrow> cb_arg | Some f \<Rightarrow> f cb_arg)"

text \<open>The copy both write routines share: up to the end of the array, then from its start.\<close>

definition copy_in :: "kringbuffer \<Rightarrow> u8 list \<Rightarrow> u64 \<Rightarrow> kringbuffer" where
  "copy_in rb buf can_write =
     (let idxoff = KMOD_FAST (rb_write_index rb) (rb_buffer_size rb);
          left = rb_buffer_size rb - idxoff;
          b1 = blit (rb_buffer rb) (unat idxoff) (take (unat (KMIN can_write left)) buf);
          b2 = (if left < can_write
                then blit b1 0 (take (unat (can_write - left)) (drop (unat left) buf)) else b1)
      in rb\<lparr>rb_buffer := b2, rb_write_index := rb_write_index rb + can_write\<rparr>)"

definition copy_out :: "kringbuffer \<Rightarrow> u64 \<Rightarrow> u8 list" where
  "copy_out rb can_read =
     (let idxoff = KMOD_FAST (rb_read_index rb) (rb_buffer_size rb);
          left = rb_buffer_size rb - idxoff;
          d1 = take (unat (KMIN can_read left)) (drop (unat idxoff) (rb_buffer rb))
      in if left < can_read then d1 @ take (unat (can_read - left)) (rb_buffer rb) else d1)"

text \<open>The inner loop of \<^verbatim>\<open>write_blocking\<close>. \<open>Inl\<close> is a return from the function: code and \<^verbatim>\<open>*buflen\<close>.\<close>

fun wait_write ::
  "nat \<Rightarrow> 'h option \<Rightarrow> u64 \<Rightarrow> u64 \<Rightarrow> u64 \<Rightarrow> kringbuffer \<Rightarrow> 'h rb_hooks \<Rightarrow> 'h wake list
   \<Rightarrow> ((errno \<times> u64 \<times> 'h rb_world) + (u64 \<times> 'h rb_world)) option" where
  "wait_write self hu_arg atomic_size bytes_written buflen rb hk wakes =
     (if KRINGBUFFER_AVAIL_WRITE rb < atomic_size then
        (case wakes of
           [] \<Rightarrow> None
         | (env, sig, hk') # ws \<Rightarrow>
             let rb' = sleep_on_write self env rb in
             if sig \<noteq> COM_IPC_SIGNAL_NONE then
               (if bytes_written = 0 then Some (Inl (EINTR, 0, rb', hk', ws))
                else Some (Inl (EOK, bytes_written, rb', hk', ws)))
             else
               (case check_hangup buflen 0 hk' rb' KRINGBUFFER_OP_WRITE hu_arg of
                  (ret, n, force) \<Rightarrow>
                    if ret \<noteq> EOK \<or> force then Some (Inl (ret, n, rb', hk', ws))
                    else wait_write self hu_arg atomic_size bytes_written n rb' hk' ws))
      else Some (Inr (buflen, rb, hk, wakes)))"

declare wait_write.simps [simp del]

text \<open>The outer loop. It yields the return code, \<^verbatim>\<open>*buflen\<close>, the callback's state and the world.\<close>

partial_function (option) write_blocking_loop ::
  "nat \<Rightarrow> 'h option \<Rightarrow> u64 \<Rightarrow> ('c \<Rightarrow> 'c) option \<Rightarrow> u64 \<Rightarrow> u8 list \<Rightarrow> u64 \<Rightarrow> u64 \<Rightarrow> 'c
   \<Rightarrow> kringbuffer \<Rightarrow> 'h rb_hooks \<Rightarrow> 'h wake list
   \<Rightarrow> (errno \<times> u64 \<times> 'c \<times> 'h rb_world) option" where
  "write_blocking_loop self hu_arg atomic_size callback buflen buf to_write bytes_written cb_arg
     rb hk wakes =
     (if 0 < to_write then
        (case check_hangup buflen 0 hk rb KRINGBUFFER_OP_WRITE hu_arg of
           (ret, n, force) \<Rightarrow>
             if ret \<noteq> EOK \<or> force then Some (ret, n, cb_arg, rb, hk, wakes)
             else
               (case wait_write self hu_arg atomic_size bytes_written n rb hk wakes of
                  None \<Rightarrow> None
                | Some (Inl (ret, n, w)) \<Rightarrow> Some (ret, n, cb_arg, w)
                | Some (Inr (n, rb, hk, wakes)) \<Rightarrow>
                    let can_write = KMIN to_write (KRINGBUFFER_AVAIL_WRITE rb);
                        rb' = copy_in rb buf can_write;
                        rb'' = rb'\<lparr>rb_read_queue := tl (rb_read_queue rb')\<rparr>
                    in write_blocking_loop self hu_arg atomic_size callback n
                         (drop (unat can_write) buf) (to_write - can_write)
                         (bytes_written + can_write) (run_callback callback cb_arg) rb'' hk wakes))
      else Some (EOK, bytes_written, cb_arg, rb, hk, wakes))"

definition write_blocking ::
  "nat \<Rightarrow> 'h rb_world \<Rightarrow> u8 list \<Rightarrow> u64 \<Rightarrow> u64 \<Rightarrow> ('c \<Rightarrow> 'c) option \<Rightarrow> 'c \<Rightarrow> 'h option
   \<Rightarrow> (errno \<times> u64 \<times> 'c \<times> 'h rb_world) option" where
  "write_blocking self w buf buflen atomic_size callback cb_arg hu_arg =
     (case w of (rb, hk, wakes) \<Rightarrow>
        write_blocking_loop self hu_arg atomic_size callback buflen buf buflen 0 cb_arg rb hk wakes)"

definition write_nonblocking ::
  "'h rb_world \<Rightarrow> u8 list \<Rightarrow> u64 \<Rightarrow> u64 \<Rightarrow> ('c \<Rightarrow> 'c) option \<Rightarrow> 'c \<Rightarrow> 'h option
   \<Rightarrow> errno \<times> u64 \<times> 'c \<times> 'h rb_world" where
  "write_nonblocking w buf buflen atomic_size callback cb_arg hu_arg =
     (case w of (rb, hk, wakes) \<Rightarrow>
        case check_hangup buflen 0 hk rb KRINGBUFFER_OP_WRITE hu_arg of
          (ret, n, force) \<Rightarrow>
            if ret \<noteq> EOK \<or> force then (ret, n, cb_arg, rb, hk, wakes)
            else
              let space = KRINGBUFFER_AVAIL_WRITE rb;
                  can_write = KMIN n space
              in if can_write < atomic_size then (EAGAIN, n, cb_arg, rb, hk, wakes)
                 else
                   let rb' = copy_in rb buf can_write;
                       rb'' = rb'\<lparr>rb_read_queue := tl (rb_read_queue rb')\<rparr>
                   in (EOK, can_write, run_callback callback cb_arg, rb'', hk, wakes))"

definition kringbuffer_write_nolock ::
  "nat \<Rightarrow> 'h rb_world \<Rightarrow> u8 list \<Rightarrow> u64 \<Rightarrow> u64 \<Rightarrow> bool \<Rightarrow> ('c \<Rightarrow> 'c) option \<Rightarrow> 'c \<Rightarrow> 'h option
   \<Rightarrow> (errno \<times> u64 \<times> 'c \<times> 'h rb_world) res" where
  "kringbuffer_write_nolock self w buf buflen atomic_size blocking callback cb_arg hu_arg =
     kassert (rb_buffer_size (fst w) \<noteq> 0)
       (kassert (atomic_size < rb_buffer_size (fst w))
         (if blocking then
            (case write_blocking self w buf buflen atomic_size callback cb_arg hu_arg of
               None \<Rightarrow> Blocked | Some r \<Rightarrow> Ok r)
          else Ok (write_nonblocking w buf buflen atomic_size callback cb_arg hu_arg)))"

definition kringbuffer_write ::
  "nat \<Rightarrow> 'h rb_world \<Rightarrow> u8 list \<Rightarrow> u64 \<Rightarrow> u64 \<Rightarrow> bool \<Rightarrow> ('c \<Rightarrow> 'c) option \<Rightarrow> 'c \<Rightarrow> 'h option
   \<Rightarrow> (errno \<times> u64 \<times> 'c \<times> 'h rb_world) res" where
  "kringbuffer_write self w buf buflen atomic_size blocking callback cb_arg hu_arg =
     (case w of (rb, hk, wakes) \<Rightarrow>
        if rb_condvar rb then Blocked
        else res_bind
          (kringbuffer_write_nolock self (rb\<lparr>rb_condvar := True\<rparr>, hk, wakes) buf buflen atomic_size
             blocking callback cb_arg hu_arg)
          (\<lambda>(ret, n, c, rb', w'). Ok (ret, n, c, rb'\<lparr>rb_condvar := False\<rparr>, w')))"

text \<open>
  The wait loop of \<^verbatim>\<open>kringbuffer_read_nolock\<close>. Its exits: \<open>RdHangup\<close> is the return inside the
  hang-up macro, which skips the store to \<^verbatim>\<open>*bytes_read\<close>; \<open>RdEnd\<close> is \<^verbatim>\<open>goto end\<close>; \<open>RdGo\<close> leaves
  the loop with the current \<^verbatim>\<open>nbytes\<close>.
\<close>

datatype 'h rd_exit =
    RdHangup errno "'h rb_world"
  | RdEnd errno u64 "'h rb_world"
  | RdGo u64 "'h rb_world"

fun wait_read ::
  "nat \<Rightarrow> 'h option \<Rightarrow> u64 \<Rightarrow> bool \<Rightarrow> u64 \<Rightarrow> kringbuffer \<Rightarrow> 'h rb_hooks \<Rightarrow> 'h wake list
   \<Rightarrow> 'h rd_exit option" where
  "wait_read self hu_arg atomic_size blocking nbytes rb hk wakes =
     (if KRINGBUFFER_AVAIL_READ rb < atomic_size \<and> \<not> rb_is_eof rb then
        if \<not> blocking then Some (RdEnd EAGAIN 0 (rb, hk, wakes))
        else
          (case wakes of
             [] \<Rightarrow> None
           | (env, sig, hk') # ws \<Rightarrow>
               let rb' = sleep_on_read self env rb in
               (case check_hangup nbytes nbytes hk' rb' KRINGBUFFER_OP_READ hu_arg of
                  (ret, n, force) \<Rightarrow>
                    if ret \<noteq> EOK \<or> force then Some (RdHangup ret (rb', hk', ws))
                    else if rb_is_eof rb' then Some (RdGo n (rb', hk', ws))
                    else if sig \<noteq> COM_IPC_SIGNAL_NONE then Some (RdEnd EINTR 0 (rb', hk', ws))
                    else wait_read self hu_arg atomic_size blocking n rb' hk' ws))
      else Some (RdGo nbytes (rb, hk, wakes)))"

declare wait_read.simps [simp del]

text \<open>
  The result: return code, the bytes stored at \<^verbatim>\<open>dst\<close>, the value stored through \<^verbatim>\<open>bytes_read\<close>
  (\<open>None\<close> when the function returns without storing it), the callback's state, the world.
\<close>

definition kringbuffer_read_nolock ::
  "nat \<Rightarrow> 'h rb_world \<Rightarrow> u64 \<Rightarrow> u64 \<Rightarrow> bool \<Rightarrow> ('c \<Rightarrow> 'c) option \<Rightarrow> 'c \<Rightarrow> 'h option
   \<Rightarrow> (errno \<times> u8 list \<times> u64 option \<times> 'c \<times> 'h rb_world) res" where
  "kringbuffer_read_nolock self w nbytes atomic_size blocking callback cb_arg hu_arg =
     (case w of (rb, hk, wakes) \<Rightarrow>
        case check_hangup nbytes nbytes hk rb KRINGBUFFER_OP_READ hu_arg of
          (ret, n, force) \<Rightarrow>
            if ret \<noteq> EOK \<or> force then Ok (ret, [], None, cb_arg, rb, hk, wakes)
            else kassert (atomic_size < rb_buffer_size rb)
              (case wait_read self hu_arg atomic_size blocking n rb hk wakes of
                 None \<Rightarrow> Blocked
               | Some (RdHangup ret w') \<Rightarrow> Ok (ret, [], None, cb_arg, w')
               | Some (RdEnd ret n w') \<Rightarrow> Ok (ret, [], Some n, cb_arg, w')
               | Some (RdGo n (rb, hk, wakes)) \<Rightarrow>
                   if rb_is_eof rb then
                     Ok (EOK, [], Some 0, cb_arg, rb\<lparr>rb_is_eof := False\<rparr>, hk, wakes)
                   else
                     let can_read = KMIN n (KRINGBUFFER_AVAIL_READ rb);
                         dst = copy_out rb can_read;
                         rb' = rb\<lparr>rb_read_index := rb_read_index rb + can_read,
                                   rb_write_queue := tl (rb_write_queue rb)\<rparr>
                     in Ok (EOK, dst, Some can_read, run_callback callback cb_arg, rb', hk, wakes)))"

definition kringbuffer_read ::
  "nat \<Rightarrow> 'h rb_world \<Rightarrow> u64 \<Rightarrow> u64 \<Rightarrow> bool \<Rightarrow> ('c \<Rightarrow> 'c) option \<Rightarrow> 'c \<Rightarrow> 'h option
   \<Rightarrow> (errno \<times> u8 list \<times> u64 option \<times> 'c \<times> 'h rb_world) res" where
  "kringbuffer_read self w nbytes atomic_size blocking callback cb_arg hu_arg =
     (case w of (rb, hk, wakes) \<Rightarrow>
        if rb_condvar rb then Blocked
        else res_bind
          (kringbuffer_read_nolock self (rb\<lparr>rb_condvar := True\<rparr>, hk, wakes) nbytes atomic_size
             blocking callback cb_arg hu_arg)
          (\<lambda>(ret, dst, n, c, rb', w'). Ok (ret, dst, n, c, rb'\<lparr>rb_condvar := False\<rparr>, w')))"

text \<open>
  The non-blocking use of the buffer as a byte channel, through the locked entry points and
  with the minimal atomic size \<^verbatim>\<open>KRINGBUFFER_NOATOMIC\<close>.
\<close>

definition KRINGBUFFER_NOATOMIC :: u64 where
  "KRINGBUFFER_NOATOMIC = 1"

definition no_hooks :: "unit rb_hooks" where
  "no_hooks = \<lparr>hk_check_hangup = None, hk_fallback_hu_arg = None\<rparr>"

definition rb_put :: "kringbuffer \<Rightarrow> u8 list \<Rightarrow> nat \<times> kringbuffer" where
  "rb_put rb xs =
     (case kringbuffer_write 0 (rb, no_hooks, []) xs (of_nat (length xs)) KRINGBUFFER_NOATOMIC
             False None () None of
        Ok (ret, n, _, rb', _) \<Rightarrow> (if ret = EOK then unat n else 0, rb')
      | _ \<Rightarrow> (0, rb))"

definition rb_get :: "kringbuffer \<Rightarrow> nat \<Rightarrow> u8 list \<times> kringbuffer" where
  "rb_get rb n =
     (case kringbuffer_read 0 (rb, no_hooks, []) (of_nat n) KRINGBUFFER_NOATOMIC
             False None () None of
        Ok (_, dst, _, _, rb', _) \<Rightarrow> (dst, rb')
      | _ \<Rightarrow> ([], rb))"

section \<open>Abstraction: a bounded queue of bytes\<close>

definition rb_wf :: "kringbuffer \<Rightarrow> bool" where
  "rb_wf rb \<longleftrightarrow> (\<exists>k<64. unat (rb_buffer_size rb) = 2 ^ k)
     \<and> length (rb_buffer rb) = unat (rb_buffer_size rb)
     \<and> KRINGBUFFER_AVAIL_READ rb \<le> rb_buffer_size rb"

definition rb_contents :: "kringbuffer \<Rightarrow> u8 list" where
  "rb_contents rb =
     map (\<lambda>i. rb_buffer rb ! unat (KMOD_FAST (rb_read_index rb + of_nat i) (rb_buffer_size rb)))
       [0..<unat (KRINGBUFFER_AVAIL_READ rb)]"

definition rb_chan_ok :: "kringbuffer \<Rightarrow> bool" where
  "rb_chan_ok rb \<longleftrightarrow> rb_wf rb \<and> \<not> rb_condvar rb \<and> 1 < rb_buffer_size rb"

text \<open>
  An environment in which the sleeping writer makes progress: no signal, no hang-up, and each
  wake-up finds a well-formed buffer of the same size with room for \<open>atomic_size\<close> bytes.
\<close>

definition wakes_make_room :: "u64 \<Rightarrow> u64 \<Rightarrow> 'h wake list \<Rightarrow> bool" where
  "wakes_make_room sz atomic_size wakes \<longleftrightarrow>
     (\<forall>(env, sig, hk) \<in> set wakes. sig = COM_IPC_SIGNAL_NONE \<and> hk_check_hangup hk = None \<and>
        (\<forall>rb. rb_wf rb \<and> rb_buffer_size rb = sz \<longrightarrow>
           rb_wf (env rb) \<and> rb_buffer_size (env rb) = sz \<and>
           atomic_size \<le> KRINGBUFFER_AVAIL_WRITE (env rb)))"

lemma length_rb_contents [simp]: "length (rb_contents rb) = unat (KRINGBUFFER_AVAIL_READ rb)"
  by (simp add: rb_contents_def)

text \<open>Updates of the lock, the queues and the end-of-file flag do not touch the queue of bytes.\<close>

lemma rb_frame [simp]:
  "rb_contents (rb\<lparr>rb_condvar := b\<rparr>) = rb_contents rb"
  "rb_contents (rb\<lparr>rb_write_queue := q\<rparr>) = rb_contents rb"
  "rb_contents (rb\<lparr>rb_read_queue := q\<rparr>) = rb_contents rb"
  "rb_contents (rb\<lparr>rb_is_eof := e\<rparr>) = rb_contents rb"
  "rb_wf (rb\<lparr>rb_condvar := b\<rparr>) = rb_wf rb"
  "rb_wf (rb\<lparr>rb_write_queue := q\<rparr>) = rb_wf rb"
  "rb_wf (rb\<lparr>rb_read_queue := q\<rparr>) = rb_wf rb"
  "rb_wf (rb\<lparr>rb_is_eof := e\<rparr>) = rb_wf rb"
  by (simp_all add: rb_contents_def rb_wf_def KRINGBUFFER_AVAIL_READ_def)

lemma avail_frame [simp]:
  "KRINGBUFFER_AVAIL_READ (rb\<lparr>rb_condvar := b\<rparr>) = KRINGBUFFER_AVAIL_READ rb"
  "KRINGBUFFER_AVAIL_WRITE (rb\<lparr>rb_condvar := b\<rparr>) = KRINGBUFFER_AVAIL_WRITE rb"
  "KRINGBUFFER_AVAIL_READ (rb\<lparr>rb_write_queue := q\<rparr>) = KRINGBUFFER_AVAIL_READ rb"
  "KRINGBUFFER_AVAIL_WRITE (rb\<lparr>rb_write_queue := q\<rparr>) = KRINGBUFFER_AVAIL_WRITE rb"
  "KRINGBUFFER_AVAIL_READ (rb\<lparr>rb_read_queue := q\<rparr>) = KRINGBUFFER_AVAIL_READ rb"
  "KRINGBUFFER_AVAIL_WRITE (rb\<lparr>rb_read_queue := q\<rparr>) = KRINGBUFFER_AVAIL_WRITE rb"
  by (simp_all add: KRINGBUFFER_AVAIL_WRITE_def KRINGBUFFER_AVAIL_READ_def)

lemma rb_wfE:
  assumes "rb_wf rb"
  obtains k where "k < 64" and "unat (rb_buffer_size rb) = 2 ^ k"
    and "length (rb_buffer rb) = 2 ^ k"
    and "unat (KRINGBUFFER_AVAIL_READ rb) \<le> 2 ^ k"
    and "unat (KRINGBUFFER_AVAIL_WRITE rb) = 2 ^ k - unat (KRINGBUFFER_AVAIL_READ rb)"
  using assms
  by (force simp: rb_wf_def word_le_nat_alt KRINGBUFFER_AVAIL_WRITE_def unat_sub)

lemma KMOD_FAST_offset:
  assumes "k < 64" and "unat n = 2 ^ k"
  shows "unat (KMOD_FAST (x + of_nat i) n) = (unat x + i) mod 2 ^ k"
  using assms by (simp add: KMOD_FAST_pow2 unat_add_mod_pow2)

lemma rb_contents_nth:
  assumes "k < 64" and "unat (rb_buffer_size rb) = 2 ^ k"
    and "i < unat (KRINGBUFFER_AVAIL_READ rb)"
  shows "rb_contents rb ! i = rb_buffer rb ! ((unat (rb_read_index rb) + i) mod 2 ^ k)"
  using assms by (simp add: rb_contents_def KMOD_FAST_offset)

lemma write_index_pos:
  assumes "k < 64" and "unat (rb_buffer_size rb) = 2 ^ k"
  shows "unat (KMOD_FAST (rb_write_index rb) (rb_buffer_size rb))
    = (unat (rb_read_index rb) + unat (KRINGBUFFER_AVAIL_READ rb)) mod 2 ^ k"
proof -
  have "rb_write_index rb = rb_read_index rb + of_nat (unat (KRINGBUFFER_AVAIL_READ rb))"
    by (simp add: KRINGBUFFER_AVAIL_READ_def)
  then show ?thesis using KMOD_FAST_offset [OF assms] by metis
qed

lemma copy_in_buffer:
  assumes "rb_wf rb" and "n \<le> KRINGBUFFER_AVAIL_WRITE rb"
  shows "rb_buffer (copy_in rb buf n) =
    wrap_blit (rb_buffer rb) (unat (KMOD_FAST (rb_write_index rb) (rb_buffer_size rb))) buf (unat n)"
proof -
  obtain k where k: "k < 64" "unat (rb_buffer_size rb) = 2 ^ k" "length (rb_buffer rb) = 2 ^ k"
    using assms(1) by (rule rb_wfE)
  let ?i = "KMOD_FAST (rb_write_index rb) (rb_buffer_size rb)"
  have "unat ?i < 2 ^ k" using write_index_pos [OF k(1,2)] by simp
  then have left: "unat (rb_buffer_size rb - ?i) = 2 ^ k - unat ?i"
    using k(2) by (simp add: unat_sub word_le_nat_alt)
  have "unat (n - (rb_buffer_size rb - ?i)) = unat n - (2 ^ k - unat ?i)"
    if "rb_buffer_size rb - ?i < n"
    using that left by (simp add: unat_sub)
  then show ?thesis
    using k left by (simp add: copy_in_def Let_def wrap_blit_def unat_KMIN word_less_nat_alt)
qed

lemma copy_in_avail:
  "KRINGBUFFER_AVAIL_READ (copy_in rb buf n) = KRINGBUFFER_AVAIL_READ rb + n"
  by (simp add: copy_in_def Let_def KRINGBUFFER_AVAIL_READ_def)

lemma copy_in_fields [simp]:
  "rb_buffer_size (copy_in rb buf n) = rb_buffer_size rb"
  "rb_read_index (copy_in rb buf n) = rb_read_index rb"
  "rb_condvar (copy_in rb buf n) = rb_condvar rb"
  "rb_is_eof (copy_in rb buf n) = rb_is_eof rb"
  "rb_read_queue (copy_in rb buf n) = rb_read_queue rb"
  "rb_write_queue (copy_in rb buf n) = rb_write_queue rb"
  by (simp_all add: copy_in_def Let_def)

lemma copy_in_appends:
  assumes "rb_wf rb" and "n \<le> KRINGBUFFER_AVAIL_WRITE rb" and "unat n \<le> length buf"
  shows "rb_wf (copy_in rb buf n) \<and>
    rb_contents (copy_in rb buf n) = rb_contents rb @ take (unat n) buf"
proof -
  obtain k where k: "k < 64" "unat (rb_buffer_size rb) = 2 ^ k" "length (rb_buffer rb) = 2 ^ k"
    and a: "unat (KRINGBUFFER_AVAIL_READ rb) \<le> 2 ^ k"
    and w: "unat (KRINGBUFFER_AVAIL_WRITE rb) = 2 ^ k - unat (KRINGBUFFER_AVAIL_READ rb)"
    using assms(1) by (rule rb_wfE)
  let ?S = "2 ^ k :: nat" and ?r = "unat (rb_read_index rb)" and ?rb = "copy_in rb buf n"
  let ?a = "unat (KRINGBUFFER_AVAIL_READ rb)"
  let ?i = "unat (KMOD_FAST (rb_write_index rb) (rb_buffer_size rb))"
  have n: "unat n + ?a \<le> ?S" using assms(2) w a by (simp add: word_le_nat_alt)
  have i: "?i = (?r + ?a) mod ?S" by (rule write_index_pos [OF k(1,2)])
  then have i_lt: "?i < ?S" by simp
  have buf: "rb_buffer ?rb = wrap_blit (rb_buffer rb) ?i buf (unat n)"
    using assms(1,2) by (rule copy_in_buffer)
  have len: "length (rb_buffer ?rb) = ?S"
    unfolding buf using k i_lt n assms(3) by (subst length_wrap_blit) auto
  have avail: "unat (KRINGBUFFER_AVAIL_READ ?rb) = ?a + unat n"
    unfolding copy_in_avail using n k(1,2) unat_lt64 [of "rb_buffer_size rb"]
    by (intro unat_add_no_wrap) simp
  have wf: "rb_wf ?rb"
    using k avail n len by (auto simp: rb_wf_def word_le_nat_alt)
  have "rb_contents ?rb ! j = (rb_contents rb @ take (unat n) buf) ! j" if "j < ?a + unat n" for j
  proof -
    have "rb_contents ?rb ! j = rb_buffer ?rb ! ((?r + j) mod ?S)"
      using rb_contents_nth [of k ?rb j] k that avail by simp
    also have "\<dots> = (if (j + ?S - ?a) mod ?S < unat n then buf ! ((j + ?S - ?a) mod ?S)
        else rb_buffer rb ! ((?r + j) mod ?S))"
      unfolding buf using k i_lt n assms(3)
      by (subst nth_wrap_blit) (auto simp: i circular_offset [OF a])
    also have "\<dots> = (rb_contents rb @ take (unat n) buf) ! j"
    proof (cases "j < ?a")
      case True
      then have "(j + ?S - ?a) mod ?S = j + ?S - ?a" using a by (intro mod_less) linarith
      moreover have "\<not> j + ?S - ?a < unat n" using n by linarith
      ultimately show ?thesis
        using rb_contents_nth [OF k(1,2) True] True by (simp only: if_False) (simp add: nth_append)
    next
      case False
      then have "(j + ?S - ?a) mod ?S = j - ?a" using that n by (simp add: mod_if)
      moreover have "j - ?a < unat n" using that False by linarith
      ultimately show ?thesis using False by (simp only: if_True) (simp add: nth_append)
    qed
    finally show ?thesis .
  qed
  then have "rb_contents ?rb = rb_contents rb @ take (unat n) buf"
    using avail assms(3) by (intro nth_equalityI) auto
  with wf show ?thesis by simp
qed

lemma copy_out_takes:
  assumes "rb_wf rb" and "n \<le> KRINGBUFFER_AVAIL_READ rb"
  shows "copy_out rb n = take (unat n) (rb_contents rb)"
proof -
  obtain k where k: "k < 64" "unat (rb_buffer_size rb) = 2 ^ k" "length (rb_buffer rb) = 2 ^ k"
    and a: "unat (KRINGBUFFER_AVAIL_READ rb) \<le> 2 ^ k"
    using assms(1) by (rule rb_wfE)
  let ?S = "2 ^ k :: nat" and ?r = "unat (rb_read_index rb)"
  let ?i = "KMOD_FAST (rb_read_index rb) (rb_buffer_size rb)"
  have i: "unat ?i = ?r mod ?S" using KMOD_FAST_offset [OF k(1,2), of _ 0] by simp
  then have i_lt: "unat ?i < ?S" by simp
  have left: "unat (rb_buffer_size rb - ?i) = ?S - unat ?i"
    using i_lt k(2) by (simp add: unat_sub word_le_nat_alt)
  have n: "unat n \<le> ?S" "unat n \<le> unat (KRINGBUFFER_AVAIL_READ rb)"
    using assms(2) a by (simp_all add: word_le_nat_alt)
  have sub: "unat (n - (rb_buffer_size rb - ?i)) = unat n - (?S - unat ?i)"
    if "rb_buffer_size rb - ?i < n"
    using that left by (simp add: unat_sub)
  have len: "length (copy_out rb n) = unat n"
    using k left sub n i_lt by (auto simp: copy_out_def Let_def unat_KMIN word_less_nat_alt)
  have "copy_out rb n ! j = rb_buffer rb ! ((?r + j) mod ?S)" if "j < unat n" for j
  proof -
    have pos: "(?r + j) mod ?S = (if unat ?i + j < ?S then unat ?i + j else unat ?i + j - ?S)"
      using circular_split [of "unat ?i" ?S j] i_lt n that i by (simp add: mod_add_left_eq)
    show ?thesis
      unfolding pos using k left sub n i_lt that
      by (auto simp: copy_out_def Let_def unat_KMIN word_less_nat_alt nth_append add.commute)
  qed
  then show ?thesis
    using len n k by (intro nth_equalityI) (auto simp: rb_contents_nth [OF k(1,2)])
qed

lemma advance_drops:
  assumes "rb_wf rb" and "n \<le> KRINGBUFFER_AVAIL_READ rb"
  defines "rb' \<equiv> rb\<lparr>rb_read_index := rb_read_index rb + n\<rparr>"
  shows "rb_wf rb' \<and> rb_contents rb' = drop (unat n) (rb_contents rb)"
proof -
  obtain k where k: "k < 64" "unat (rb_buffer_size rb) = 2 ^ k"
    using assms(1) by (rule rb_wfE)
  have "KRINGBUFFER_AVAIL_READ rb' = KRINGBUFFER_AVAIL_READ rb - n"
    by (simp add: rb'_def KRINGBUFFER_AVAIL_READ_def algebra_simps)
  then have avail: "unat (KRINGBUFFER_AVAIL_READ rb') = unat (KRINGBUFFER_AVAIL_READ rb) - unat n"
    using assms(2) by (simp add: unat_sub)
  have "rb_contents rb' ! j = drop (unat n) (rb_contents rb) ! j"
    if "j < unat (KRINGBUFFER_AVAIL_READ rb) - unat n" for j
  proof -
    have "rb_read_index rb' + of_nat j = rb_read_index rb + of_nat (unat n + j)"
      by (simp add: rb'_def)
    with that avail show ?thesis by (simp add: rb_contents_def) (simp add: rb'_def add.assoc)
  qed
  then have "rb_contents rb' = drop (unat n) (rb_contents rb)"
    using avail by (intro nth_equalityI) auto
  moreover have "rb_wf rb'"
    using assms(1) avail by (auto simp: rb_wf_def word_le_nat_alt rb'_def)
  ultimately show ?thesis by simp
qed

section \<open>The operations on the abstract queue\<close>

text \<open>Without a hang-up hook the checks pass.\<close>

lemma check_hangup_none [simp]:
  "hk_check_hangup hk = None \<Longrightarrow> check_hangup n c hk rb op arg = (EOK, n, False)"
  by (simp add: check_hangup_def)

lemma write_nonblocking_cases:
  assumes "rb_wf rb" and "unat buflen \<le> length buf" and "hk_check_hangup hk = None"
  shows "\<exists>rb'. write_nonblocking (rb, hk, ws) buf buflen atomic_size callback c hu =
      (if KMIN buflen (KRINGBUFFER_AVAIL_WRITE rb) < atomic_size then (EAGAIN, buflen, c, rb, hk, ws)
       else (EOK, KMIN buflen (KRINGBUFFER_AVAIL_WRITE rb), run_callback callback c, rb', hk, ws)) \<and>
    rb_wf rb' \<and> rb_buffer_size rb' = rb_buffer_size rb \<and> rb_condvar rb' = rb_condvar rb \<and>
    rb_contents rb' =
      rb_contents rb @ take (min (unat buflen) (unat (KRINGBUFFER_AVAIL_WRITE rb))) buf"
proof -
  let ?n = "KMIN buflen (KRINGBUFFER_AVAIL_WRITE rb)"
  let ?rb = "copy_in rb buf ?n"
  have n: "unat ?n \<le> length buf" "?n \<le> KRINGBUFFER_AVAIL_WRITE rb"
    using assms(2) by (auto simp: unat_KMIN word_le_nat_alt)
  have "rb_wf ?rb \<and> rb_contents ?rb = rb_contents rb @ take (unat ?n) buf"
    using assms(1) n by (intro copy_in_appends)
  then show ?thesis
    using assms(3)
    by (intro exI [of _ "?rb\<lparr>rb_read_queue := tl (rb_read_queue ?rb)\<rparr>"])
      (simp add: write_nonblocking_def Let_def unat_KMIN)
qed

lemma read_go_cases:
  fixes nbytes :: u64
  assumes "rb_wf rb"
  defines "n \<equiv> KMIN nbytes (KRINGBUFFER_AVAIL_READ rb)"
  defines "rb' \<equiv> rb\<lparr>rb_read_index := rb_read_index rb + n, rb_write_queue := tl (rb_write_queue rb)\<rparr>"
  shows "copy_out rb n = take (unat nbytes) (rb_contents rb)"
    and "rb_wf rb'" and "rb_contents rb' = drop (unat nbytes) (rb_contents rb)"
    and "unat n = min (unat nbytes) (length (rb_contents rb))"
proof -
  have n: "n \<le> KRINGBUFFER_AVAIL_READ rb"
    by (auto simp: n_def unat_KMIN word_le_nat_alt)
  show u: "unat n = min (unat nbytes) (length (rb_contents rb))"
    by (simp add: n_def unat_KMIN)
  show "copy_out rb n = take (unat nbytes) (rb_contents rb)"
    unfolding copy_out_takes [OF assms(1) n] by (auto simp: u min_def)
  have "rb_wf rb' = rb_wf (rb\<lparr>rb_read_index := rb_read_index rb + n\<rparr>)"
    "rb_contents rb' = rb_contents (rb\<lparr>rb_read_index := rb_read_index rb + n\<rparr>)"
    by (simp_all add: rb'_def)
  then show "rb_wf rb'" "rb_contents rb' = drop (unat nbytes) (rb_contents rb)"
    using advance_drops [OF assms(1) n] by (auto simp: u min_def)
qed

lemma wait_read_ready:
  "\<not> (KRINGBUFFER_AVAIL_READ rb < atomic_size \<and> \<not> rb_is_eof rb) \<Longrightarrow>
    wait_read self hu atomic_size blocking n rb hk ws = Some (RdGo n (rb, hk, ws))"
  by (auto simp: wait_read.simps)

lemma wait_read_nonblocking:
  "KRINGBUFFER_AVAIL_READ rb < atomic_size \<Longrightarrow> \<not> rb_is_eof rb \<Longrightarrow>
    wait_read self hu atomic_size False n rb hk ws = Some (RdEnd EAGAIN 0 (rb, hk, ws))"
  by (simp add: wait_read.simps)

lemma read_nolock_nonblocking:
  assumes "rb_wf rb" and "hk_check_hangup hk = None" and "atomic_size < rb_buffer_size rb"
  shows "\<exists>rb'. kringbuffer_read_nolock self (rb, hk, ws) nbytes atomic_size False callback c hu =
      Ok (if rb_is_eof rb then (EOK, [], Some 0, c, rb', hk, ws)
          else if length (rb_contents rb) < unat atomic_size then (EAGAIN, [], Some 0, c, rb, hk, ws)
          else (EOK, take (unat nbytes) (rb_contents rb),
                Some (KMIN nbytes (KRINGBUFFER_AVAIL_READ rb)), run_callback callback c, rb', hk, ws)) \<and>
    rb_wf rb' \<and> rb_buffer_size rb' = rb_buffer_size rb \<and> rb_condvar rb' = rb_condvar rb \<and>
    \<not> rb_is_eof rb' \<and>
    rb_contents rb' = (if rb_is_eof rb then rb_contents rb else drop (unat nbytes) (rb_contents rb))"
proof (cases "rb_is_eof rb")
  case True
  then show ?thesis
    using assms by (intro exI [of _ "rb\<lparr>rb_is_eof := False\<rparr>"])
      (simp add: kringbuffer_read_nolock_def wait_read_ready)
next
  case False
  let ?n = "KMIN nbytes (KRINGBUFFER_AVAIL_READ rb)"
  let ?rb = "rb\<lparr>rb_read_index := rb_read_index rb + ?n, rb_write_queue := tl (rb_write_queue rb)\<rparr>"
  note go = read_go_cases [OF assms(1), of nbytes]
  show ?thesis
  proof (cases "KRINGBUFFER_AVAIL_READ rb < atomic_size")
    case True
    with False assms go show ?thesis
      by (intro exI [of _ ?rb])
        (simp add: kringbuffer_read_nolock_def wait_read_nonblocking word_less_nat_alt)
  next
    case f: False
    with False assms go show ?thesis
      by (intro exI [of _ ?rb])
        (simp add: kringbuffer_read_nolock_def wait_read_ready word_less_nat_alt Let_def)
  qed
qed

lemma rb_put_appends:
  assumes "rb_chan_ok rb" and "rb_put rb xs = (n, rb')"
  shows "rb_chan_ok rb' \<and> unat (rb_buffer_size rb') = unat (rb_buffer_size rb) \<and>
    rb_contents rb' = rb_contents rb @ take n xs"
proof -
  let ?rb = "rb\<lparr>rb_condvar := True\<rparr>" and ?l = "of_nat (length xs) :: u64"
  have len: "unat ?l \<le> length xs" by (simp add: unat_of_nat take_bit_nat_less_eq_self)
  obtain rb1 where w: "write_nonblocking (?rb, no_hooks, []) xs ?l KRINGBUFFER_NOATOMIC None () None =
      (if KMIN ?l (KRINGBUFFER_AVAIL_WRITE ?rb) < KRINGBUFFER_NOATOMIC
       then (EAGAIN, ?l, (), ?rb, no_hooks, [])
       else (EOK, KMIN ?l (KRINGBUFFER_AVAIL_WRITE ?rb), run_callback None (), rb1, no_hooks, []))"
    and wf: "rb_wf rb1" and sz: "rb_buffer_size rb1 = rb_buffer_size ?rb"
    and cont: "rb_contents rb1 = rb_contents ?rb @
      take (min (unat ?l) (unat (KRINGBUFFER_AVAIL_WRITE ?rb))) xs"
    using write_nonblocking_cases [of ?rb ?l xs no_hooks "[]" KRINGBUFFER_NOATOMIC None "()" None]
      assms(1) len by (auto simp: rb_chan_ok_def no_hooks_def)
  moreover have "rb_buffer_size rb \<noteq> 0" using assms(1) by (auto simp: rb_chan_ok_def)
  ultimately show ?thesis
    using assms
    by (auto simp: rb_put_def kringbuffer_write_def kringbuffer_write_nolock_def rb_chan_ok_def
        KRINGBUFFER_NOATOMIC_def unat_KMIN word_gt_0 split: if_splits)
qed

lemma rb_get_removes:
  assumes "rb_chan_ok rb" and "rb_get rb n = (ys, rb')"
  shows "rb_chan_ok rb' \<and> unat (rb_buffer_size rb') = unat (rb_buffer_size rb) \<and>
    rb_contents rb = ys @ rb_contents rb' \<and> length ys \<le> n"
proof -
  let ?rb = "rb\<lparr>rb_condvar := True\<rparr>" and ?l = "of_nat n :: u64"
  have len: "unat ?l \<le> n" by (simp add: unat_of_nat take_bit_nat_less_eq_self)
  have pre: "rb_wf ?rb" "hk_check_hangup no_hooks = None" "KRINGBUFFER_NOATOMIC < rb_buffer_size ?rb"
    using assms(1) by (simp_all add: rb_chan_ok_def no_hooks_def KRINGBUFFER_NOATOMIC_def)
  note r = read_nolock_nonblocking [OF pre, of 0 "[]" ?l None "()" None]
  with assms len show ?thesis
    by (auto simp: rb_get_def kringbuffer_read_def rb_chan_ok_def split: if_splits)
qed

interpretation rb_chan: byte_channel rb_chan_ok rb_contents "\<lambda>rb. unat (rb_buffer_size rb)" rb_put rb_get
proof
  show "length (rb_contents rb) \<le> unat (rb_buffer_size rb)" if "rb_chan_ok rb" for rb
    using that by (simp add: rb_chan_ok_def rb_wf_def word_le_nat_alt)
qed (blast dest: rb_put_appends rb_get_removes)+

section \<open>Properties\<close>

lemma rb_chan_ok_init:
  assumes "length buffptr = unat buffsz" and "k < 64" and "unat buffsz = 2 ^ k" and "1 < buffsz"
  shows "rb_chan_ok (KRINGBUFFER_INIT_CUSTOM buffptr buffsz)"
    and "rb_contents (KRINGBUFFER_INIT_CUSTOM buffptr buffsz) = []"
  using assms
  by (auto simp: rb_chan_ok_def rb_wf_def KRINGBUFFER_INIT_CUSTOM_def rb_contents_def
      KRINGBUFFER_AVAIL_READ_def)

text \<open>
  C6: The ring buffer is a FIFO byte stream. For every sequence of non-blocking writes and
  reads through the locked entry points, from any well-formed state (the 64-bit indices may
  wrap during the run): what was buffered followed by all bytes accepted equals all bytes
  delivered followed by what is still buffered, and the buffer never holds more than its size.
\<close>

theorem ringbuffer_stream:
  assumes "rb_chan_ok rb" and "chan_run rb_put rb_get rb ops = (rb', win, rout)"
  shows "rb_chan_ok rb' \<and> rb_contents rb @ win = rout @ rb_contents rb' \<and>
    length (rb_contents rb') \<le> unat (rb_buffer_size rb)"
  using rb_chan.run_stream [OF assms] rb_chan.bounded [of rb'] by simp

theorem ringbuffer_stream_witness:
  "rb_chan_ok ((KRINGBUFFER_INIT_CUSTOM [0, 0, 0, 0] 4)\<lparr>rb_write_index := -2, rb_read_index := -2\<rparr>) \<and>
   (case chan_run rb_put rb_get
      ((KRINGBUFFER_INIT_CUSTOM [0, 0, 0, 0] 4)\<lparr>rb_write_index := -2, rb_read_index := -2\<rparr>)
      [Put [1, 2, 3], Get 2, Put [4, 5, 6, 7], Get 9] of
    (rb', win, rout) \<Rightarrow> win = rout @ rb_contents rb')"
proof -
  let ?rb = "(KRINGBUFFER_INIT_CUSTOM [0, 0, 0, 0] 4)\<lparr>rb_write_index := -2, rb_read_index := -2\<rparr>"
  have ok: "rb_chan_ok ?rb"
    by (auto simp: rb_chan_ok_def rb_wf_def KRINGBUFFER_INIT_CUSTOM_def
        KRINGBUFFER_AVAIL_READ_def intro: exI [of _ 2])
  have e: "rb_contents ?rb = []"
    by (simp add: rb_contents_def KRINGBUFFER_AVAIL_READ_def)
  obtain rb' win rout where run: "chan_run rb_put rb_get ?rb
      [Put [1, 2, 3], Get 2, Put [4, 5, 6, 7], Get 9] = (rb', win, rout)"
    by (rule prod_cases3)
  have "win = rout @ rb_contents rb'"
    using ringbuffer_stream [OF ok run] unfolding e by simp
  with ok show ?thesis unfolding run by simp
qed

text \<open>
  A non-blocking write through the locked entry point, on every branch: if fewer than
  \<open>atomic_size\<close> bytes can be taken it returns \<^verbatim>\<open>EAGAIN\<close> and leaves the buffered bytes alone;
  otherwise it stores as many bytes as fit, in order, behind those already buffered, reports
  their number and runs the callback once. The lock is free again on return.
\<close>

theorem kringbuffer_write_nonblocking:
  assumes "rb_wf rb" and "\<not> rb_condvar rb" and "hk_check_hangup hk = None"
    and "atomic_size < rb_buffer_size rb" and "unat buflen \<le> length buf"
  defines "n \<equiv> KMIN buflen (KRINGBUFFER_AVAIL_WRITE rb)"
  shows "\<exists>rb'. kringbuffer_write self (rb, hk, ws) buf buflen atomic_size False callback c hu =
      (if n < atomic_size then Ok (EAGAIN, buflen, c, rb, hk, ws)
       else Ok (EOK, n, run_callback callback c, rb', hk, ws)) \<and>
    rb_wf rb' \<and> \<not> rb_condvar rb' \<and> rb_contents rb' = rb_contents rb @ take (unat n) buf"
proof -
  let ?rb = "rb\<lparr>rb_condvar := True\<rparr>"
  have id: "rb\<lparr>rb_condvar := False\<rparr> = rb" using assms(2) by simp
  have nz: "rb_buffer_size rb \<noteq> 0" using assms(4) by auto
  obtain rb1 where "write_nonblocking (?rb, hk, ws) buf buflen atomic_size callback c hu =
      (if n < atomic_size then (EAGAIN, buflen, c, ?rb, hk, ws)
       else (EOK, n, run_callback callback c, rb1, hk, ws))"
    and "rb_wf rb1" and "rb_contents rb1 = rb_contents ?rb @ take (unat n) buf"
    using write_nonblocking_cases [of ?rb buflen buf hk ws atomic_size callback c hu] assms(1,3,5)
    by (simp add: n_def unat_KMIN cong: if_cong) blast
  then show ?thesis
    using assms(2,4) nz id
    by (intro exI [of _ "rb1\<lparr>rb_condvar := False\<rparr>"])
      (simp add: kringbuffer_write_def kringbuffer_write_nolock_def)
qed

theorem kringbuffer_write_nonblocking_witness:
  "\<exists>rb'. kringbuffer_write 7 (KRINGBUFFER_INIT_CUSTOM [0, 0, 0, 0] 4, no_hooks, []) [1, 2, 3, 4, 5] 5 1
      False (Some Suc) (0 :: nat) None = Ok (EOK, 4, 1, rb', no_hooks, []) \<and>
    rb_contents rb' = [1, 2, 3, 4]"
proof -
  let ?rb = "KRINGBUFFER_INIT_CUSTOM [0, 0, 0, 0] 4"
  have ok: "rb_wf ?rb" and e: "rb_contents ?rb = []"
    using rb_chan_ok_init [of "[0, 0, 0, 0]" 4 2] by (simp_all add: rb_chan_ok_def)
  have m: "KMIN 5 (KRINGBUFFER_AVAIL_WRITE ?rb) = 4"
    by (simp add: KMIN_def KRINGBUFFER_AVAIL_WRITE_def KRINGBUFFER_AVAIL_READ_def
        KRINGBUFFER_INIT_CUSTOM_def)
  show ?thesis
    using kringbuffer_write_nonblocking [OF ok, of no_hooks 1 5 "[1, 2, 3, 4, 5]" 7 "[]" "Some Suc" 0 None]
      e m
    by (auto simp: no_hooks_def run_callback_def KRINGBUFFER_INIT_CUSTOM_def)
qed

text \<open>
  A non-blocking read through the locked entry point, on every branch: at end of file it
  returns no bytes, clears the flag and keeps the buffered bytes; with fewer than
  \<open>atomic_size\<close> bytes buffered it returns \<^verbatim>\<open>EAGAIN\<close> with count 0 and changes nothing;
  otherwise it delivers the oldest bytes, at most \<open>nbytes\<close> of them, and removes exactly those.
\<close>

theorem kringbuffer_read_nonblocking:
  assumes "rb_wf rb" and "\<not> rb_condvar rb" and "hk_check_hangup hk = None"
    and "atomic_size < rb_buffer_size rb"
  shows "\<exists>rb'. kringbuffer_read self (rb, hk, ws) nbytes atomic_size False callback c hu =
      (if rb_is_eof rb then Ok (EOK, [], Some 0, c, rb', hk, ws)
       else if length (rb_contents rb) < unat atomic_size then Ok (EAGAIN, [], Some 0, c, rb, hk, ws)
       else Ok (EOK, take (unat nbytes) (rb_contents rb),
                Some (KMIN nbytes (KRINGBUFFER_AVAIL_READ rb)), run_callback callback c, rb', hk, ws)) \<and>
    rb_wf rb' \<and> \<not> rb_condvar rb' \<and> \<not> rb_is_eof rb' \<and>
    rb_contents rb' = (if rb_is_eof rb then rb_contents rb else drop (unat nbytes) (rb_contents rb))"
proof -
  let ?rb = "rb\<lparr>rb_condvar := True\<rparr>"
  have id: "rb\<lparr>rb_condvar := False\<rparr> = rb" using assms(2) by simp
  obtain rb1 where "kringbuffer_read_nolock self (?rb, hk, ws) nbytes atomic_size False callback c hu =
      Ok (if rb_is_eof rb then (EOK, [], Some 0, c, rb1, hk, ws)
          else if length (rb_contents rb) < unat atomic_size then (EAGAIN, [], Some 0, c, ?rb, hk, ws)
          else (EOK, take (unat nbytes) (rb_contents rb),
                Some (KMIN nbytes (KRINGBUFFER_AVAIL_READ rb)), run_callback callback c, rb1, hk, ws))"
    and "rb_wf rb1" and "\<not> rb_is_eof rb1"
    and "rb_contents rb1 = (if rb_is_eof rb then rb_contents rb else drop (unat nbytes) (rb_contents rb))"
    using read_nolock_nonblocking [of ?rb hk atomic_size self ws nbytes callback c hu] assms(1,3,4)
    by (simp cong: if_cong) blast
  then show ?thesis
    using assms(2) id
    by (intro exI [of _ "rb1\<lparr>rb_condvar := False\<rparr>"]) (simp add: kringbuffer_read_def)
qed

theorem kringbuffer_read_nonblocking_witness:
  "\<exists>rb'. kringbuffer_read 7
      ((KRINGBUFFER_INIT_CUSTOM [10, 20, 30, 40] 4)\<lparr>rb_write_index := 3, rb_is_eof := True\<rparr>, no_hooks, [])
      2 1 False None () None = Ok (EOK, [], Some 0, (), rb', no_hooks, []) \<and>
    rb_contents rb' = [10, 20, 30]"
proof -
  let ?rb = "(KRINGBUFFER_INIT_CUSTOM [10, 20, 30, 40] 4)\<lparr>rb_write_index := 3, rb_is_eof := True\<rparr>"
  have ok: "rb_wf ?rb"
    by (auto simp: rb_wf_def KRINGBUFFER_INIT_CUSTOM_def KRINGBUFFER_AVAIL_READ_def
        intro: exI [of _ 2])
  have c: "rb_contents ?rb = [10, 20, 30]"
    by (simp add: rb_contents_def KRINGBUFFER_AVAIL_READ_def KRINGBUFFER_INIT_CUSTOM_def
        upt_rec KMOD_FAST_def)
  show ?thesis
    using kringbuffer_read_nonblocking [OF ok, of no_hooks 1 7 "[]" 2 None "()" None] c
    by (auto simp: no_hooks_def KRINGBUFFER_INIT_CUSTOM_def)
qed

lemma wait_write_progress:
  assumes "rb_wf rb" and "rb_buffer_size rb = sz" and "hk_check_hangup hk = None"
    and "wakes_make_room sz atomic_size ws" and "ws \<noteq> []"
  shows "\<exists>rb' hk' ws'. wait_write self hu atomic_size written n rb hk ws = Some (Inr (n, rb', hk', ws')) \<and>
    rb_wf rb' \<and> rb_buffer_size rb' = sz \<and> atomic_size \<le> KRINGBUFFER_AVAIL_WRITE rb' \<and>
    hk_check_hangup hk' = None \<and> wakes_make_room sz atomic_size ws' \<and> length ws \<le> Suc (length ws')"
proof (cases "KRINGBUFFER_AVAIL_WRITE rb < atomic_size")
  case False
  then have "wait_write self hu atomic_size written n rb hk ws = Some (Inr (n, rb, hk, ws))"
    by (simp add: wait_write.simps)
  with False assms show ?thesis by (intro exI [of _ rb] exI [of _ hk] exI [of _ ws]) simp
next
  case True
  obtain env sig hk' ws' where ws: "ws = (env, sig, hk') # ws'"
    using assms(5) by (metis list.exhaust prod_cases3)
  let ?rb = "sleep_on_write self env rb"
  have sig: "sig = COM_IPC_SIGNAL_NONE" and hk': "hk_check_hangup hk' = None"
    and ws': "wakes_make_room sz atomic_size ws'"
    using assms(4) by (auto simp: ws wakes_make_room_def)
  have rb: "rb_wf ?rb \<and> rb_buffer_size ?rb = sz \<and> atomic_size \<le> KRINGBUFFER_AVAIL_WRITE ?rb"
    using assms(1,2,4) by (simp add: ws wakes_make_room_def sleep_on_write_def)
  then have "wait_write self hu atomic_size written n ?rb hk' ws' = Some (Inr (n, ?rb, hk', ws'))"
    by (simp add: wait_write.simps not_less [symmetric])
  with True sig hk' have "wait_write self hu atomic_size written n rb hk ws
      = Some (Inr (n, ?rb, hk', ws'))"
    by (subst wait_write.simps) (simp add: ws)
  with rb hk' ws' show ?thesis
    by (intro exI [of _ ?rb] exI [of _ hk'] exI [of _ ws']) (simp add: ws)
qed

lemma write_blocking_loop_completes:
  assumes "rb_wf rb" and "rb_buffer_size rb = sz" and "hk_check_hangup hk = None"
    and "wakes_make_room sz atomic_size ws" and "atomic_size \<noteq> 0"
    and "unat to_write \<le> length ws" and "unat to_write \<le> length buf"
  shows "\<exists>c' rb' hk' ws'.
    write_blocking_loop self hu atomic_size callback n buf to_write written c rb hk ws
      = Some (EOK, written + to_write, c', rb', hk', ws') \<and> rb_wf rb' \<and> rb_buffer_size rb' = sz"
  using assms
proof (induction "unat to_write" arbitrary: to_write n buf written c rb hk ws rule: less_induct)
  case less
  show ?case
  proof (cases "to_write = 0")
    case True
    with less.prems show ?thesis by (subst write_blocking_loop.simps) simp
  next
    case False
    with less.prems(6) have "ws \<noteq> []" by (auto simp: unat_eq_zero)
    then obtain rb1 hk1 ws1 where
      w: "wait_write self hu atomic_size written n rb hk ws = Some (Inr (n, rb1, hk1, ws1))"
      and rb1: "rb_wf rb1" "rb_buffer_size rb1 = sz" "atomic_size \<le> KRINGBUFFER_AVAIL_WRITE rb1"
      and rest: "hk_check_hangup hk1 = None" "wakes_make_room sz atomic_size ws1"
        "length ws \<le> Suc (length ws1)"
      using wait_write_progress [OF less.prems(1-4), of self hu written n] by blast
    define t where "t = KMIN to_write (KRINGBUFFER_AVAIL_WRITE rb1)"
    let ?rb = "copy_in rb1 buf t"
    have t: "unat t = min (unat to_write) (unat (KRINGBUFFER_AVAIL_WRITE rb1))"
      by (simp add: t_def unat_KMIN)
    have "0 < unat (KRINGBUFFER_AVAIL_WRITE rb1)"
      using rb1(3) less.prems(5) by (metis unat_gt_0 word_le_0_iff)
    with False t have t0: "0 < unat t" by (simp add: unat_gt_0)
    have t1: "t \<le> to_write" "t \<le> KRINGBUFFER_AVAIL_WRITE rb1" using t by (simp_all add: word_le_nat_alt)
    have sub: "unat (to_write - t) = unat to_write - unat t" using t1(1) by (rule unat_sub)
    have wf: "rb_wf ?rb"
      using copy_in_appends [OF rb1(1) t1(2)] less.prems(7) t by simp
    have "\<exists>c' rb' hk' ws'. write_blocking_loop self hu atomic_size callback n (drop (unat t) buf)
        (to_write - t) (written + t) (run_callback callback c)
        (?rb\<lparr>rb_read_queue := tl (rb_read_queue ?rb)\<rparr>) hk1 ws1
      = Some (EOK, (written + t) + (to_write - t), c', rb', hk', ws') \<and>
        rb_wf rb' \<and> rb_buffer_size rb' = sz"
    proof (rule less.hyps)
      show "unat (to_write - t) < unat to_write" "unat (to_write - t) \<le> length ws1"
        using t0 sub t rest(3) less.prems(6) by linarith+
      show "unat (to_write - t) \<le> length (drop (unat t) buf)"
        using sub less.prems(7) by simp
    qed (use wf rb1(2) rest less.prems(5) in simp_all)
    moreover have "write_blocking_loop self hu atomic_size callback n buf to_write written c rb hk ws =
      write_blocking_loop self hu atomic_size callback n (drop (unat t) buf)
        (to_write - t) (written + t) (run_callback callback c)
        (?rb\<lparr>rb_read_queue := tl (rb_read_queue ?rb)\<rparr>) hk1 ws1"
      using False less.prems(3) w
      by (subst write_blocking_loop.simps) (simp add: t_def Let_def word_gt_0)
    ultimately show ?thesis by simp
  qed
qed



end
