(* ===== verification/Hashmap.thy ===== *)
theory Hashmap
  imports Interfaces
begin

text \<open>
  The chained hash table of \<^verbatim>\<open>src/com/lib/hashmap.c\<close>. A bucket (a \<^verbatim>\<open>TAILQ\<close>) is the list of its
  entries, a key is a byte list. The two slab allocations of \<^verbatim>\<open>khashmap_put\<close> are arguments that
  say whether they succeed. Removed entries are not freed by the code.
\<close>

section \<open>State\<close>

record 'v khashmap_entry =
  he_hash :: u64
  he_key_size :: u64
  he_key :: "u8 list"
  he_value :: 'v

record 'v khashmap =
  hm_capacity :: u64
  hm_num_entries :: u64
  hm_entries :: "'v khashmap_entry list list"

section \<open>Operations\<close>

definition FNV1OFFSET :: u64 where
  "FNV1OFFSET = 0xcbf29ce484222325"

definition FNV1PRIME :: u64 where
  "FNV1PRIME = 0x100000001b3"

fun hash_loop :: "u64 \<Rightarrow> u8 list \<Rightarrow> u64" where
  "hash_loop h [] = h"
| "hash_loop h (b # bs) = hash_loop ((h XOR ucast b) * FNV1PRIME) bs"

definition get_hash :: "u8 list \<Rightarrow> u64 \<Rightarrow> u64" where
  "get_hash buffer sz = hash_loop FNV1OFFSET (take (unat sz) buffer)"

text \<open>A pointer to an entry of a bucket is its position; \<open>None\<close> is \<^verbatim>\<open>NULL\<close>.\<close>

fun find_entry :: "('a \<Rightarrow> bool) \<Rightarrow> 'a list \<Rightarrow> nat option" where
  "find_entry P [] = None"
| "find_entry P (x # xs) = (if P x then Some 0 else map_option Suc (find_entry P xs))"

definition bucket_off :: "'v khashmap \<Rightarrow> u64 \<Rightarrow> nat" where
  "bucket_off hashmap hash = unat (hash AND (hm_capacity hashmap - 1))"

definition get_entry :: "'v khashmap \<Rightarrow> u8 list \<Rightarrow> u64 \<Rightarrow> u64 \<Rightarrow> nat option" where
  "get_entry hashmap key key_size hash =
     find_entry (\<lambda>entry. he_key_size entry = key_size \<and> he_hash entry = hash \<and>
                   take (unat key_size) (he_key entry) = take (unat key_size) key)
       (hm_entries hashmap ! bucket_off hashmap hash)"

text \<open>
  \<open>phys\<close> is the physical address the page allocator returns; \<^verbatim>\<open>entries\<close> is that address in the
  direct map. \<^verbatim>\<open>num_entries\<close> is not written.
\<close>

definition khashmap_init :: "'v khashmap \<Rightarrow> u64 \<Rightarrow> u64 \<Rightarrow> errno \<times> 'v khashmap" where
  "khashmap_init hashmap sz phys =
     (let h1 = hashmap\<lparr>hm_capacity := sz\<rparr> in
      if 0xffff800000000000 + phys = 0 then (ENOMEM, h1)
      else (EOK, h1\<lparr>hm_entries := replicate (unat sz) []\<rparr>))"

definition set_bucket :: "'v khashmap \<Rightarrow> nat \<Rightarrow> 'v khashmap_entry list \<Rightarrow> 'v khashmap" where
  "set_bucket hashmap off b = hashmap\<lparr>hm_entries := (hm_entries hashmap)[off := b]\<rparr>"

definition khashmap_set :: "'v khashmap \<Rightarrow> u8 list \<Rightarrow> u64 \<Rightarrow> 'v \<Rightarrow> errno \<times> 'v khashmap" where
  "khashmap_set hashmap key key_size val =
     (let hash = get_hash key key_size; off = bucket_off hashmap hash;
          b = hm_entries hashmap ! off
      in case get_entry hashmap key key_size hash of
           Some i \<Rightarrow> (EOK, set_bucket hashmap off (b[i := (b ! i)\<lparr>he_value := val\<rparr>]))
         | None \<Rightarrow> (ENOENT, hashmap))"

definition khashmap_put ::
  "bool \<Rightarrow> bool \<Rightarrow> 'v khashmap \<Rightarrow> u8 list \<Rightarrow> u64 \<Rightarrow> 'v \<Rightarrow> errno \<times> 'v khashmap" where
  "khashmap_put alloc_entry alloc_key hashmap key key_size val =
     (case khashmap_set hashmap key key_size val of
        (EOK, h1) \<Rightarrow> (EOK, h1)
      | (_, h1) \<Rightarrow>
          let hash = get_hash key key_size; off = bucket_off h1 hash in
          if \<not> alloc_entry then (ENOMEM, h1)
          else if \<not> alloc_key then (ENOMEM, h1)
          else
            let entry = \<lparr>he_hash = hash, he_key_size = key_size,
                         he_key = take (unat key_size) key, he_value = val\<rparr>;
                h2 = set_bucket h1 off (entry # hm_entries h1 ! off)
            in (EOK, h2\<lparr>hm_num_entries := hm_num_entries h2 + 1\<rparr>))"

definition khashmap_get :: "'v khashmap \<Rightarrow> u8 list \<Rightarrow> u64 \<Rightarrow> errno \<times> 'v option" where
  "khashmap_get hashmap key key_size =
     (let hash = get_hash key key_size in
      case get_entry hashmap key key_size hash of
        None \<Rightarrow> (ENOENT, None)
      | Some i \<Rightarrow> (EOK, Some (he_value (hm_entries hashmap ! bucket_off hashmap hash ! i))))"

definition khashmap_remove :: "'v khashmap \<Rightarrow> u8 list \<Rightarrow> u64 \<Rightarrow> errno \<times> 'v khashmap" where
  "khashmap_remove hashmap key key_size =
     (let hash = get_hash key key_size; off = bucket_off hashmap hash;
          b = hm_entries hashmap ! off
      in case get_entry hashmap key key_size hash of
           None \<Rightarrow> (ENOENT, hashmap)
         | Some i \<Rightarrow>
             let h1 = set_bucket hashmap off (take i b @ drop (Suc i) b)
             in (EOK, h1\<lparr>hm_num_entries := hm_num_entries h1 - 1\<rparr>))"

definition khashmap_default ::
  "bool \<Rightarrow> bool \<Rightarrow> 'v khashmap \<Rightarrow> u8 list \<Rightarrow> u64 \<Rightarrow> 'v \<Rightarrow> errno \<times> 'v option \<times> 'v khashmap" where
  "khashmap_default alloc_entry alloc_key hashmap key key_size default_val =
     (case khashmap_get hashmap key key_size of
        (EOK, v) \<Rightarrow> (EOK, v, hashmap)
      | (ENOENT, _) \<Rightarrow>
          (case khashmap_put alloc_entry alloc_key hashmap key key_size default_val of
             (EOK, h1) \<Rightarrow> (case khashmap_get h1 key key_size of (e, v) \<Rightarrow> (e, v, h1))
           | (e, h1) \<Rightarrow> (e, None, h1))
      | (e, _) \<Rightarrow> (e, None, hashmap))"

definition khashmap_destroy :: "'v khashmap \<Rightarrow> errno \<times> 'v khashmap" where
  "khashmap_destroy hashmap = (EOK, hashmap)"

section \<open>Abstraction: a finite map\<close>

definition bucket_map :: "'v khashmap_entry list \<Rightarrow> (u8 list \<rightharpoonup> 'v)" where
  "bucket_map b = map_of (map (\<lambda>e. (he_key e, he_value e)) b)"

definition hm_map :: "'v khashmap \<Rightarrow> (u8 list \<rightharpoonup> 'v)" where
  "hm_map hashmap k =
     bucket_map (hm_entries hashmap ! bucket_off hashmap (hash_loop FNV1OFFSET k)) k"

definition bucket_ok :: "'v khashmap \<Rightarrow> nat \<Rightarrow> bool" where
  "bucket_ok hashmap i \<longleftrightarrow> distinct (map he_key (hm_entries hashmap ! i)) \<and>
     (\<forall>e \<in> set (hm_entries hashmap ! i). he_hash e = hash_loop FNV1OFFSET (he_key e) \<and>
        bucket_off hashmap (he_hash e) = i \<and> unat (he_key_size e) = length (he_key e))"

definition hm_wf :: "'v khashmap \<Rightarrow> bool" where
  "hm_wf hashmap \<longleftrightarrow> hm_capacity hashmap \<noteq> 0 \<and>
     length (hm_entries hashmap) = unat (hm_capacity hashmap) \<and>
     (\<forall>i < length (hm_entries hashmap). bucket_ok hashmap i) \<and>
     hm_num_entries hashmap = of_nat (sum_list (map length (hm_entries hashmap)))"

text \<open>The table with keys of a fixed argument convention, as a store.\<close>

definition hm_put :: "'v khashmap \<Rightarrow> u8 list \<Rightarrow> 'v \<Rightarrow> 'v khashmap option" where
  "hm_put hashmap k v =
     (case khashmap_put True True hashmap k (of_nat (length k)) v of
        (EOK, h) \<Rightarrow> Some h | _ \<Rightarrow> None)"

definition hm_remove :: "'v khashmap \<Rightarrow> u8 list \<Rightarrow> 'v khashmap option" where
  "hm_remove hashmap k =
     (case khashmap_remove hashmap k (of_nat (length k)) of (EOK, h) \<Rightarrow> Some h | _ \<Rightarrow> None)"

definition hm_key_ok :: "u8 list \<Rightarrow> bool" where
  "hm_key_ok k \<longleftrightarrow> length k < 2 ^ 64"

abbreviation find_key :: "u8 list \<Rightarrow> 'v khashmap_entry list \<Rightarrow> nat option" where
  "find_key k b \<equiv> find_entry (\<lambda>e. he_key e = k) b"

section \<open>Buckets\<close>

lemma find_entry_cong:
  "(\<And>x. x \<in> set xs \<Longrightarrow> P x = Q x) \<Longrightarrow> find_entry P xs = find_entry Q xs"
  by (induction xs) auto

lemma find_entry_SomeD:
  "find_entry P xs = Some i \<Longrightarrow> i < length xs \<and> P (xs ! i)"
  by (induction xs arbitrary: i) (auto split: if_splits)

lemma find_entry_NoneD: "find_entry P xs = None \<Longrightarrow> x \<in> set xs \<Longrightarrow> \<not> P x"
  by (induction xs) (auto split: if_splits)

lemma bucket_map_Cons:
  "bucket_map (e # b) = (bucket_map b)(he_key e \<mapsto> he_value e)"
  by (simp add: bucket_map_def)

lemma bucket_map_None: "k \<notin> he_key ` set b \<Longrightarrow> bucket_map b k = None"
  by (auto simp: bucket_map_def map_of_eq_None_iff)

lemma find_key_lookup:
  "bucket_map b k = (case find_key k b of None \<Rightarrow> None | Some i \<Rightarrow> Some (he_value (b ! i)))"
  by (induction b) (auto simp: bucket_map_Cons bucket_map_def split: option.splits)

lemma find_key_update:
  "find_key k b = Some i \<Longrightarrow>
    bucket_map (b[i := (b ! i)\<lparr>he_value := v\<rparr>]) = (bucket_map b)(k \<mapsto> v)"
  by (induction b arbitrary: i) (auto simp: bucket_map_Cons split: if_splits)

lemma find_key_delete:
  assumes "find_key k b = Some i" and "distinct (map he_key b)"
  shows "bucket_map (take i b @ drop (Suc i) b) = (bucket_map b)(k := None)"
  using assms
proof (induction b arbitrary: i)
  case Nil
  then show ?case by simp
next
  case (Cons e b)
  show ?case
  proof (cases "he_key e = k")
    case True
    with Cons.prems have "bucket_map b k = None" by (intro bucket_map_None) auto
    with True Cons.prems show ?thesis by (auto simp: bucket_map_Cons)
  next
    case False
    with Cons.prems obtain j where "i = Suc j" "find_key k b = Some j" by auto
    with False Cons show ?thesis by (auto simp: bucket_map_Cons)
  qed
qed

lemma distinct_remove_nth: "distinct xs \<Longrightarrow> distinct (take i xs @ drop (Suc i) xs)"
  by (simp add: set_take_disj_set_drop_if_distinct)

lemma map_key_update:
  "i < length b \<Longrightarrow> map he_key (b[i := (b ! i)\<lparr>he_value := v\<rparr>]) = map he_key b"
  by (rule nth_equalityI) (auto simp: nth_list_update)

section \<open>Invariant and lookup\<close>

lemma bucket_off_lt: "hm_capacity hm \<noteq> 0 \<Longrightarrow> bucket_off hm h < unat (hm_capacity hm)"
proof -
  assume nz: "hm_capacity hm \<noteq> 0"
  have "unat (h AND (hm_capacity hm - 1)) \<le> unat (hm_capacity hm - 1)"
    by (rule word_and_le1 [THEN word_le_nat_alt [THEN iffD1]])
  with unat_pred_Suc [OF nz] show ?thesis by (simp add: bucket_off_def)
qed

lemma set_bucket_simps [simp]:
  "hm_capacity (set_bucket hm off b) = hm_capacity hm"
  "hm_num_entries (set_bucket hm off b) = hm_num_entries hm"
  "hm_entries (set_bucket hm off b) = (hm_entries hm)[off := b]"
  "bucket_off (set_bucket hm off b) h = bucket_off hm h"
  by (simp_all add: set_bucket_def bucket_off_def)

lemma bucket_off_num [simp]: "bucket_off (hm\<lparr>hm_num_entries := n\<rparr>) h = bucket_off hm h"
  by (simp add: bucket_off_def)

lemma hm_map_num [simp]: "hm_map (hm\<lparr>hm_num_entries := n\<rparr>) = hm_map hm"
  by (rule ext) (simp add: hm_map_def)

lemma hm_map_set_bucket:
  assumes "off < length (hm_entries hm)"
    and "off = bucket_off hm (hash_loop FNV1OFFSET k)"
    and "bucket_map b = (bucket_map (hm_entries hm ! off))(k := r)"
  shows "hm_map (set_bucket hm off b) = (hm_map hm)(k := r)"
  using assms by (auto simp: hm_map_def fun_eq_iff nth_list_update)

lemma sum_list_map_length_update:
  "i < length bs \<Longrightarrow> sum_list (map length (bs[i := b])) + length (bs ! i)
     = sum_list (map length bs) + length b"
proof (induction bs arbitrary: i)
  case Nil
  then show ?case by simp
next
  case (Cons a bs)
  then show ?case by (cases i) (auto simp: algebra_simps)
qed

lemma bucket_ok_other: "i \<noteq> off \<Longrightarrow> bucket_ok (set_bucket hm off b) i = bucket_ok hm i"
  by (simp add: bucket_ok_def)

lemma bucket_ok_num: "bucket_ok (hm\<lparr>hm_num_entries := n\<rparr>) i = bucket_ok hm i"
  by (simp add: bucket_ok_def)

text \<open>
  The invariant after a bucket is replaced, when the new bucket is well formed and the entry
  count is adjusted by the difference of the lengths.
\<close>

lemma hm_wf_set_bucket:
  assumes "hm_wf hm" and "off < length (hm_entries hm)"
    and "bucket_ok (set_bucket hm off b) off"
    and "n + of_nat (length (hm_entries hm ! off)) = hm_num_entries hm + of_nat (length b)"
  shows "hm_wf ((set_bucket hm off b)\<lparr>hm_num_entries := n\<rparr>)"
proof -
  let ?hm = "set_bucket hm off b"
  have "bucket_ok ?hm i" if "i < length (hm_entries hm)" for i
    using that assms(1,3) by (cases "i = off") (simp_all add: hm_wf_def bucket_ok_other)
  moreover have "n = of_nat (sum_list (map length (hm_entries ?hm)))"
  proof -
    define S where "S = sum_list (map length (hm_entries ?hm))"
    have "hm_num_entries hm = of_nat (sum_list (map length (hm_entries hm)))"
      using assms(1) by (simp add: hm_wf_def)
    with assms(4) have "n + of_nat (length (hm_entries hm ! off)) =
        of_nat (sum_list (map length (hm_entries hm)) + length b)" by (simp only: of_nat_add)
    also have "\<dots> = of_nat S + of_nat (length (hm_entries hm ! off))"
      using sum_list_map_length_update [OF assms(2), of b]
      by (simp only: S_def set_bucket_simps of_nat_add [symmetric])
    finally show ?thesis unfolding S_def [symmetric] by (rule add_right_imp_eq)
  qed
  ultimately show ?thesis
    using assms(1) by (simp add: hm_wf_def bucket_ok_num)
qed

text \<open>The facts every operation starts from: where the key's bucket is and what the search finds.\<close>

lemma hm_search:
  assumes "hm_wf hm" and "unat ks \<le> length key"
  defines "k \<equiv> take (unat ks) key"
  defines "off \<equiv> bucket_off hm (hash_loop FNV1OFFSET k)"
  shows "get_hash key ks = hash_loop FNV1OFFSET k"
    and "off < length (hm_entries hm)" and "bucket_ok hm off"
    and "get_entry hm key ks (hash_loop FNV1OFFSET k) = find_key k (hm_entries hm ! off)"
    and "hm_map hm k = bucket_map (hm_entries hm ! off) k"
proof -
  show "get_hash key ks = hash_loop FNV1OFFSET k" by (simp add: get_hash_def k_def)
  show off: "off < length (hm_entries hm)"
    using assms(1) bucket_off_lt by (auto simp: hm_wf_def off_def)
  then show ok: "bucket_ok hm off" using assms(1) by (simp add: hm_wf_def)
  have len: "length k = unat ks" using assms(2) by (simp add: k_def)
  show "get_entry hm key ks (hash_loop FNV1OFFSET k) = find_key k (hm_entries hm ! off)"
    unfolding get_entry_def off_def [symmetric]
  proof (rule find_entry_cong)
    fix e assume "e \<in> set (hm_entries hm ! off)"
    with ok have e: "he_hash e = hash_loop FNV1OFFSET (he_key e)"
      "unat (he_key_size e) = length (he_key e)"
      by (auto simp: bucket_ok_def)
    show "(he_key_size e = ks \<and> he_hash e = hash_loop FNV1OFFSET k \<and>
        take (unat ks) (he_key e) = take (unat ks) key) = (he_key e = k)"
      using e len by (auto simp: k_def word_unat_eq_iff)
  qed
  show "hm_map hm k = bucket_map (hm_entries hm ! off) k"
    by (simp add: hm_map_def off_def)
qed

section \<open>The operations on the abstract map\<close>

lemma khashmap_get_spec:
  assumes "hm_wf hm" and "unat ks \<le> length key"
  shows "khashmap_get hm key ks =
    (case hm_map hm (take (unat ks) key) of None \<Rightarrow> (ENOENT, None) | Some v \<Rightarrow> (EOK, Some v))"
  using hm_search [OF assms]
  by (auto simp: khashmap_get_def find_key_lookup split: option.splits)

lemma khashmap_set_spec:
  assumes "hm_wf hm" and "unat ks \<le> length key"
  defines "k \<equiv> take (unat ks) key"
  shows "\<exists>hm'. khashmap_set hm key ks v = (if hm_map hm k = None then (ENOENT, hm) else (EOK, hm')) \<and>
    (hm_map hm k \<noteq> None \<longrightarrow> hm_wf hm' \<and> hm_map hm' = (hm_map hm)(k \<mapsto> v))"
proof -
  define off where "off = bucket_off hm (hash_loop FNV1OFFSET k)"
  let ?b = "hm_entries hm ! off"
  note f = hm_search [OF assms(1,2), folded k_def, folded off_def]
  show ?thesis
  proof (cases "find_key k ?b")
    case None
    then show ?thesis
      using f by (simp add: khashmap_set_def Let_def find_key_lookup off_def)
  next
    case (Some i)
    let ?b' = "?b[i := (?b ! i)\<lparr>he_value := v\<rparr>]" and ?hm = "set_bucket hm off"
    have i: "i < length ?b" using find_entry_SomeD [OF Some] by simp
    have "bucket_ok (?hm ?b') off"
      using f(2,3) nth_mem [OF i]
      by (auto simp: bucket_ok_def map_key_update [OF i] dest!: set_update_subset_insert [THEN subsetD])
    then have "hm_wf ((?hm ?b')\<lparr>hm_num_entries := hm_num_entries hm\<rparr>)"
      using assms(1) f(2) by (intro hm_wf_set_bucket) simp_all
    then have "hm_wf (?hm ?b')" by (simp add: hm_wf_def bucket_ok_num)
    moreover have "hm_map (?hm ?b') = (hm_map hm)(k \<mapsto> v)"
      using f(2) find_key_update [OF Some] by (intro hm_map_set_bucket) (simp_all add: off_def)
    ultimately show ?thesis
      using f Some by (intro exI [of _ "?hm ?b'"])
        (simp add: khashmap_set_def Let_def find_key_lookup off_def)
  qed
qed

lemma hm_map_None_key:
  assumes "hm_wf hm" and "unat ks \<le> length key" and "hm_map hm (take (unat ks) key) = None"
  shows "take (unat ks) key \<notin>
    he_key ` set (hm_entries hm ! bucket_off hm (hash_loop FNV1OFFSET (take (unat ks) key)))"
  using assms(3) by (auto simp: hm_map_def bucket_map_def map_of_eq_None_iff image_image)

lemma khashmap_put_spec:
  assumes "hm_wf hm" and "unat ks \<le> length key"
  defines "k \<equiv> take (unat ks) key"
  shows "\<exists>hm'. khashmap_put ae ak hm key ks v =
      (if hm_map hm k = None \<and> \<not> (ae \<and> ak) then (ENOMEM, hm) else (EOK, hm')) \<and>
    (hm_map hm k \<noteq> None \<or> (ae \<and> ak) \<longrightarrow> hm_wf hm' \<and> hm_map hm' = (hm_map hm)(k \<mapsto> v))"
proof (cases "hm_map hm k")
  case (Some x)
  then obtain hm' where "khashmap_set hm key ks v = (EOK, hm')"
    and "hm_wf hm' \<and> hm_map hm' = (hm_map hm)(k \<mapsto> v)"
    using khashmap_set_spec [OF assms(1,2), of v, folded k_def] by auto
  with Some show ?thesis by (auto simp: khashmap_put_def)
next
  case None
  then have set: "khashmap_set hm key ks v = (ENOENT, hm)"
    using khashmap_set_spec [OF assms(1,2), of v, folded k_def] by auto
  define off where "off = bucket_off hm (hash_loop FNV1OFFSET k)"
  define e where "e = \<lparr>he_hash = hash_loop FNV1OFFSET k, he_key_size = ks, he_key = k, he_value = v\<rparr>"
  let ?b = "e # hm_entries hm ! off"
  let ?hm = "(set_bucket hm off ?b)\<lparr>hm_num_entries := hm_num_entries hm + 1\<rparr>"
  note f = hm_search [OF assms(1,2), folded k_def, folded off_def]
  have "k \<notin> he_key ` set (hm_entries hm ! off)"
    using hm_map_None_key [OF assms(1,2)] None by (simp add: k_def off_def)
  then have "bucket_ok (set_bucket hm off ?b) off"
    using f(2,3) assms(2) by (auto simp: bucket_ok_def e_def off_def k_def)
  then have "hm_wf ?hm"
    using assms(1) f(2) by (intro hm_wf_set_bucket) simp_all
  moreover have "hm_map ?hm = (hm_map hm)(k \<mapsto> v)"
    unfolding hm_map_num using f(2)
    by (intro hm_map_set_bucket) (simp_all add: off_def bucket_map_Cons e_def)
  ultimately show ?thesis
    using None set f(1)
    by (intro exI [of _ ?hm]) (simp add: khashmap_put_def Let_def off_def e_def k_def)
qed

lemma khashmap_remove_spec:
  assumes "hm_wf hm" and "unat ks \<le> length key"
  defines "k \<equiv> take (unat ks) key"
  shows "\<exists>hm'. khashmap_remove hm key ks = (if hm_map hm k = None then (ENOENT, hm) else (EOK, hm')) \<and>
    (hm_map hm k \<noteq> None \<longrightarrow> hm_wf hm' \<and> hm_map hm' = (hm_map hm)(k := None))"
proof -
  define off where "off = bucket_off hm (hash_loop FNV1OFFSET k)"
  let ?b = "hm_entries hm ! off"
  note f = hm_search [OF assms(1,2), folded k_def, folded off_def]
  show ?thesis
  proof (cases "find_key k ?b")
    case None
    then show ?thesis
      using f by (simp add: khashmap_remove_def Let_def find_key_lookup off_def)
  next
    case (Some i)
    let ?b' = "take i ?b @ drop (Suc i) ?b"
    let ?hm = "(set_bucket hm off ?b')\<lparr>hm_num_entries := hm_num_entries hm - 1\<rparr>"
    have i: "i < length ?b" using find_entry_SomeD [OF Some] by simp
    have "distinct (map he_key ?b')"
      using f(3) distinct_remove_nth [of "map he_key ?b" i]
      by (simp add: bucket_ok_def take_map drop_map)
    then have "bucket_ok (set_bucket hm off ?b') off"
      using f(2,3) by (auto simp: bucket_ok_def dest: in_set_takeD in_set_dropD)
    moreover have "(of_nat (length ?b) :: u64) = of_nat (length ?b') + 1"
      using i by simp
    ultimately have "hm_wf ?hm"
      using assms(1) f(2) by (intro hm_wf_set_bucket) (simp_all add: algebra_simps)
    moreover have "hm_map ?hm = (hm_map hm)(k := None)"
      unfolding hm_map_num using f(2,3) find_key_delete [OF Some]
      by (intro hm_map_set_bucket) (simp_all add: off_def bucket_ok_def)
    ultimately show ?thesis
      using f Some by (intro exI [of _ ?hm])
        (simp add: khashmap_remove_def Let_def find_key_lookup off_def)
  qed
qed

lemma khashmap_init_spec:
  assumes "sz \<noteq> 0" and "0xffff800000000000 + phys \<noteq> (0 :: u64)" and "hm_num_entries hm = 0"
  shows "\<exists>hm'. khashmap_init hm sz phys = (EOK, hm') \<and> hm_wf hm' \<and> hm_map hm' = Map.empty"
proof -
  let ?hm = "hm\<lparr>hm_capacity := sz, hm_entries := replicate (unat sz) []\<rparr>"
  have "bucket_off ?hm h < unat sz" for h
    using bucket_off_lt [of ?hm h] assms(1) by simp
  then have "hm_map ?hm = Map.empty"
    by (auto simp: hm_map_def bucket_map_def fun_eq_iff)
  moreover have "hm_wf ?hm"
    using assms by (simp add: hm_wf_def bucket_ok_def sum_list_replicate)
  ultimately show ?thesis using assms(2) by (simp add: khashmap_init_def Let_def)
qed

section \<open>The table as a store\<close>

lemma hm_put_law:
  assumes "hm_wf hm" and "hm_key_ok k"
  shows "\<exists>hm'. hm_put hm k v = Some hm' \<and> hm_wf hm' \<and> hm_map hm' = (hm_map hm)(k \<mapsto> v)"
proof -
  have "unat (of_nat (length k) :: u64) = length k"
    using assms(2) by (simp add: hm_key_ok_def unat_of_nat64)
  then show ?thesis
    using khashmap_put_spec [OF assms(1), of "of_nat (length k)" k True True v]
    by (auto simp: hm_put_def split: if_splits)
qed

lemma hm_remove_law:
  assumes "hm_wf hm" and "hm_key_ok k"
  shows "(hm_map hm k = None \<longrightarrow> hm_remove hm k = None) \<and>
    (hm_map hm k \<noteq> None \<longrightarrow>
      (\<exists>hm'. hm_remove hm k = Some hm' \<and> hm_wf hm' \<and> hm_map hm' = (hm_map hm)(k := None)))"
proof -
  have "unat (of_nat (length k) :: u64) = length k"
    using assms(2) by (simp add: hm_key_ok_def unat_of_nat64)
  then show ?thesis
    using khashmap_remove_spec [OF assms(1), of "of_nat (length k)" k]
    by (auto simp: hm_remove_def)
qed

interpretation hm_store: total_store hm_wf hm_key_ok hm_map hm_put hm_remove True
proof
  fix s s' :: "'a khashmap" and k v
  assume "hm_wf s" and "hm_key_ok k"
  note law = hm_put_law [OF this] hm_remove_law [OF this]
  show "hm_wf s' \<and> (\<forall>k'. hm_key_ok k' \<longrightarrow> hm_map s' k' = (if k' = k then Some v else hm_map s k'))"
    if "hm_put s k v = Some s'" using law(1) [of v] that by auto
  show "hm_wf s' \<and> (\<forall>k'. hm_key_ok k' \<longrightarrow> hm_map s' k' = (if k' = k then None else hm_map s k'))"
    if "hm_remove s k = Some s'" using law(2) that by (cases "hm_map s k = None") auto
  show "\<exists>s'. hm_put s k v = Some s'" using law(1) [of v] by blast
  show "\<exists>s'. hm_remove s k = Some s'" if "hm_map s k \<noteq> None" using law(2) that by blast
qed

section \<open>Properties\<close>



text \<open>
  insert-or-get. On a well formed table \<open>khashmap_default\<close> returns the stored value without
  touching the table when the key is present; otherwise it stores the default and returns it, or
  reports ENOMEM and leaves the table as it was when an allocation fails.
\<close>

theorem khashmap_default_spec:
  assumes "hm_wf hm" and "unat ks \<le> length key"
  shows "case hm_map hm (take (unat ks) key) of
      Some x \<Rightarrow> khashmap_default ae ak hm key ks v = (EOK, Some x, hm)
    | None \<Rightarrow>
        if ae \<and> ak
        then \<exists>hm'. khashmap_default ae ak hm key ks v = (EOK, Some v, hm') \<and> hm_wf hm' \<and>
               hm_map hm' = (hm_map hm)(take (unat ks) key \<mapsto> v)
        else khashmap_default ae ak hm key ks v = (ENOMEM, None, hm)"
proof (cases "hm_map hm (take (unat ks) key)")
  case (Some x)
  then show ?thesis by (simp add: khashmap_default_def khashmap_get_spec [OF assms])
next
  case None
  note get = khashmap_get_spec [OF assms]
  show ?thesis
  proof (cases "ae \<and> ak")
    case True
    with None obtain hm' where put: "khashmap_put ae ak hm key ks v = (EOK, hm')"
      and hm': "hm_wf hm'" "hm_map hm' = (hm_map hm)(take (unat ks) key \<mapsto> v)"
      using khashmap_put_spec [OF assms, of ae ak v] by auto
    with None True show ?thesis
      by (simp add: khashmap_default_def get khashmap_get_spec [OF hm'(1) assms(2)])
  next
    case False
    with None show ?thesis
      using khashmap_put_spec [OF assms, of ae ak v] by (auto simp: khashmap_default_def get)
  qed
qed

theorem khashmap_default_spec_witness:
  "\<exists>hm'. khashmap_default True True
      \<lparr>hm_capacity = 2, hm_num_entries = 0, hm_entries = [[], []]\<rparr> [7] 1 (CHR ''x'') = (EOK, Some (CHR ''x''), hm')
    \<and> hm_wf hm'"
proof -
  let ?hm = "\<lparr>hm_capacity = 2, hm_num_entries = 0, hm_entries = [[], []]\<rparr> :: char khashmap"
  have "hm_wf ?hm \<and> hm_map ?hm = Map.empty"
    using khashmap_init_spec [of 2 0 ?hm] by (simp add: khashmap_init_def)
  then show ?thesis
    using khashmap_default_spec [of ?hm 1 "[7]" True True "CHR ''x''"] by auto
qed

end
