(* ===== verification/Radixtree.thy ===== *)
theory Radixtree
  imports Interfaces
begin

text \<open>
  The radix tree of \<^verbatim>\<open>src/com/lib/radixtree.c\<close> that holds processes, process groups and cached
  pages. A node is one page, a union of an array of branch pointers and an array of data
  pointers: the model keeps one array of words, each of them \<^verbatim>\<open>NULL\<close>, a pointer to a page or a
  data pointer. Following a data pointer as a page, or returning a page as data, is a wild access;
  the model counts it as \<open>Panic\<close>, and the invariant \<open>page_ok\<close> excludes it. The pages
  come from \<^verbatim>\<open>com_mm_pmm_alloc_zero\<close>, which panics when none is left: the operations that
  allocate thread the number of free pages.
\<close>

section \<open>State\<close>

datatype 'v slot = Null | Branch "u64 \<Rightarrow> 'v slot" | Leaf 'v

type_synonym 'v kradixtree_back = "u64 \<Rightarrow> 'v slot"

record 'v kradixtree =
  rt_num_layers :: u64
  rt_back :: "'v kradixtree_back"
  rt_lock :: bool

section \<open>Operations\<close>

definition KRADIXTREE_LAYER_SIZE :: u64 where
  "KRADIXTREE_LAYER_SIZE = 4096 div 8"

definition KRADIXTREE_INDEX_BITS :: nat where
  "KRADIXTREE_INDEX_BITS = 9"

definition KRADIXTREE_INDEX_MASK :: u64 where
  "KRADIXTREE_INDEX_MASK = KRADIXTREE_LAYER_SIZE - 1"

definition KRADIXTREE_MAX_LAYERS :: u64 where
  "KRADIXTREE_MAX_LAYERS = 64 div of_nat KRADIXTREE_INDEX_BITS"

definition zero_page :: "'v kradixtree_back" where
  "zero_page = (\<lambda>_. Null)"

definition KRADIXTREE_INIT :: "nat \<Rightarrow> u64 \<Rightarrow> ('v kradixtree \<times> nat) res" where
  "KRADIXTREE_INIT free layers =
     kassert (layers \<le> KRADIXTREE_MAX_LAYERS)
       (kassert (0 < free)
         (Ok (\<lparr>rt_num_layers = layers, rt_back = zero_page, rt_lock = False\<rparr>, free - 1)))"

definition split_index :: "u64 \<Rightarrow> u64 \<Rightarrow> u64 list" where
  "split_index index num_layers =
     map (\<lambda>i. drop_bit (KRADIXTREE_INDEX_BITS * (unat num_layers - i - 1)) index AND KRADIXTREE_INDEX_MASK)
       [0..<unat num_layers]"

text \<open>The slab allocation of the header is taken to succeed.\<close>

definition kradixtree_new :: "nat \<Rightarrow> u64 \<Rightarrow> ('v kradixtree \<times> nat) res" where
  "kradixtree_new free num_layers = KRADIXTREE_INIT free num_layers"

text \<open>
  The loops walk the index array; the last index selects the leaf. With no layer at all
  \<^verbatim>\<open>last_layer\<close> wraps around and the loop leaves the array.
\<close>

fun get_walk :: "'v kradixtree_back \<Rightarrow> u64 list \<Rightarrow> (errno \<times> 'v option) res" where
  "get_walk root [] = Panic"
| "get_walk root [i] =
     (case root i of Null \<Rightarrow> Ok (ENOENT, None) | Leaf v \<Rightarrow> Ok (EOK, Some v) | Branch _ \<Rightarrow> Panic)"
| "get_walk root (i # is) =
     (case root i of Null \<Rightarrow> Ok (ENOENT, None) | Branch p \<Rightarrow> get_walk p is | Leaf _ \<Rightarrow> Panic)"

definition kradixtree_get_nolock :: "'v kradixtree \<Rightarrow> u64 \<Rightarrow> (errno \<times> 'v option) res" where
  "kradixtree_get_nolock rxtree index =
     get_walk (rt_back rxtree) (split_index index (rt_num_layers rxtree))"

definition kradixtree_get :: "'v kradixtree \<Rightarrow> u64 \<Rightarrow> ((errno \<times> 'v option) \<times> 'v kradixtree) res" where
  "kradixtree_get rxtree index =
     (if rt_lock rxtree then Blocked
      else let t1 = rxtree\<lparr>rt_lock := True\<rparr> in
        res_bind (kradixtree_get_nolock t1 index) (\<lambda>ret. Ok (ret, t1\<lparr>rt_lock := False\<rparr>)))"

text \<open>\<open>data\<close> is the pointer stored; \<open>None\<close> is \<^verbatim>\<open>NULL\<close>.\<close>

fun put_walk ::
  "nat \<Rightarrow> 'v kradixtree_back \<Rightarrow> u64 list \<Rightarrow> 'v option \<Rightarrow> ('v kradixtree_back \<times> nat) res" where
  "put_walk free root [] data = Panic"
| "put_walk free root [i] data =
     kassert (root i = Null)
       (Ok (root(i := (case data of None \<Rightarrow> Null | Some v \<Rightarrow> Leaf v)), free))"
| "put_walk free root (i # is) data =
     (case root i of
        Null \<Rightarrow>
          kassert (0 < free)
            (res_bind (put_walk (free - 1) zero_page is data)
              (\<lambda>(tmp, free'). Ok (root(i := Branch tmp), free')))
      | Branch tmp \<Rightarrow>
          res_bind (put_walk free tmp is data) (\<lambda>(tmp', free'). Ok (root(i := Branch tmp'), free'))
      | Leaf _ \<Rightarrow> Panic)"

definition kradixtree_put_nolock ::
  "nat \<Rightarrow> 'v kradixtree \<Rightarrow> u64 \<Rightarrow> 'v option \<Rightarrow> (errno \<times> 'v kradixtree \<times> nat) res" where
  "kradixtree_put_nolock free rxtree index data =
     res_bind (put_walk free (rt_back rxtree) (split_index index (rt_num_layers rxtree)) data)
       (\<lambda>(back, free'). Ok (EOK, rxtree\<lparr>rt_back := back\<rparr>, free'))"

definition kradixtree_put ::
  "nat \<Rightarrow> 'v kradixtree \<Rightarrow> u64 \<Rightarrow> 'v option \<Rightarrow> (errno \<times> 'v kradixtree \<times> nat) res" where
  "kradixtree_put free rxtree index data =
     (if rt_lock rxtree then Blocked
      else res_bind (kradixtree_put_nolock free (rxtree\<lparr>rt_lock := True\<rparr>) index data)
        (\<lambda>(ret, t1, free'). Ok (ret, t1\<lparr>rt_lock := False\<rparr>, free')))"

fun remove_walk :: "'v kradixtree_back \<Rightarrow> u64 list \<Rightarrow> (errno \<times> 'v kradixtree_back) res" where
  "remove_walk root [] = Panic"
| "remove_walk root [i] = kassert (root i \<noteq> Null) (Ok (EOK, root(i := Null)))"
| "remove_walk root (i # is) =
     (case root i of
        Null \<Rightarrow> Ok (ENOENT, root)
      | Branch p \<Rightarrow> res_bind (remove_walk p is) (\<lambda>(ret, p'). Ok (ret, root(i := Branch p')))
      | Leaf _ \<Rightarrow> Panic)"

definition kradixtree_remove_nolock :: "'v kradixtree \<Rightarrow> u64 \<Rightarrow> (errno \<times> 'v kradixtree) res" where
  "kradixtree_remove_nolock rxtree index =
     res_bind (remove_walk (rt_back rxtree) (split_index index (rt_num_layers rxtree)))
       (\<lambda>(ret, back). Ok (ret, rxtree\<lparr>rt_back := back\<rparr>))"

definition kradixtree_remove :: "'v kradixtree \<Rightarrow> u64 \<Rightarrow> (errno \<times> 'v kradixtree) res" where
  "kradixtree_remove rxtree index =
     (if rt_lock rxtree then Blocked
      else res_bind (kradixtree_remove_nolock (rxtree\<lparr>rt_lock := True\<rparr>) index)
        (\<lambda>(ret, t1). Ok (ret, t1\<lparr>rt_lock := False\<rparr>)))"

section \<open>Invariant and abstraction\<close>

text \<open>A page with \<open>n\<close> layers below and including it.\<close>

fun page_ok :: "nat \<Rightarrow> 'v kradixtree_back \<Rightarrow> bool" where
  "page_ok 0 p = False"
| "page_ok (Suc 0) p = (\<forall>i. case p i of Branch _ \<Rightarrow> False | _ \<Rightarrow> True)"
| "page_ok (Suc (Suc n)) p =
     (\<forall>i. case p i of Null \<Rightarrow> True | Branch q \<Rightarrow> page_ok (Suc n) q | Leaf _ \<Rightarrow> False)"

fun lookup_walk :: "'v kradixtree_back \<Rightarrow> u64 list \<Rightarrow> 'v option" where
  "lookup_walk p [] = None"
| "lookup_walk p [i] = (case p i of Leaf v \<Rightarrow> Some v | _ \<Rightarrow> None)"
| "lookup_walk p (i # is) = (case p i of Branch q \<Rightarrow> lookup_walk q is | _ \<Rightarrow> None)"

text \<open>Whether the pages on the path to a leaf exist.\<close>

fun path_exists :: "'v kradixtree_back \<Rightarrow> u64 list \<Rightarrow> bool" where
  "path_exists p [] = False"
| "path_exists p [i] = True"
| "path_exists p (i # is) = (case p i of Branch q \<Rightarrow> path_exists q is | _ \<Rightarrow> False)"

definition rt_ok :: "u64 \<Rightarrow> 'v kradixtree \<Rightarrow> bool" where
  "rt_ok n t \<longleftrightarrow> 0 < n \<and> n \<le> KRADIXTREE_MAX_LAYERS \<and> rt_num_layers t = n \<and> \<not> rt_lock t \<and>
     page_ok (unat n) (rt_back t)"

definition rt_key :: "u64 \<Rightarrow> u64 \<Rightarrow> bool" where
  "rt_key n k \<longleftrightarrow> unat k < 2 ^ (KRADIXTREE_INDEX_BITS * unat n)"

definition rt_lookup :: "'v kradixtree \<Rightarrow> u64 \<Rightarrow> 'v option" where
  "rt_lookup t k = lookup_walk (rt_back t) (split_index k (rt_num_layers t))"

text \<open>The tree as a store, with a page free for each layer of an insertion.\<close>

definition rt_put :: "'v kradixtree \<Rightarrow> u64 \<Rightarrow> 'v \<Rightarrow> 'v kradixtree option" where
  "rt_put t k v =
     (case kradixtree_put (unat (rt_num_layers t)) t k (Some v) of
        Ok (EOK, t', _) \<Rightarrow> Some t' | _ \<Rightarrow> None)"

definition rt_remove :: "'v kradixtree \<Rightarrow> u64 \<Rightarrow> 'v kradixtree option" where
  "rt_remove t k = (case kradixtree_remove t k of Ok (EOK, t') \<Rightarrow> Some t' | _ \<Rightarrow> None)"

section \<open>Walks\<close>

lemma page_ok_zero [simp]: "0 < n \<Longrightarrow> page_ok n zero_page"
  by (cases "(n, zero_page)" rule: page_ok.cases) (auto simp: zero_page_def)

lemma lookup_zero [simp]: "lookup_walk zero_page is = None"
  by (cases "(zero_page, is)" rule: lookup_walk.cases) (auto simp: zero_page_def)

lemma get_walk_eq:
  "page_ok (length is) p \<Longrightarrow>
    get_walk p is = Ok (case lookup_walk p is of None \<Rightarrow> (ENOENT, None) | Some v \<Rightarrow> (EOK, Some v))"
  by (induction p "is" rule: get_walk.induct)
    (auto split: slot.splits dest: spec [of _ i for i])

lemma lookup_walk_Cons:
  "is \<noteq> [] \<Longrightarrow> lookup_walk p (i # is) = (case p i of Branch q \<Rightarrow> lookup_walk q is | _ \<Rightarrow> None)"
  by (cases "is") auto

lemma page_ok_step:
  "0 < n \<Longrightarrow> page_ok (Suc n) p =
    (\<forall>i. case p i of Null \<Rightarrow> True | Branch q \<Rightarrow> page_ok n q | Leaf _ \<Rightarrow> False)"
  by (cases n) auto

lemma lookup_walk_update:
  assumes "js \<noteq> []" and "length js = length is"
    and "\<And>js. length js = length is \<Longrightarrow> lookup_walk q' js =
      (if js = is then r else (case p i of Branch q \<Rightarrow> lookup_walk q js | _ \<Rightarrow> None))"
  shows "lookup_walk (p(i := Branch q')) (j # js) = (if j # js = i # is then r else lookup_walk p (j # js))"
  using assms by (auto simp: lookup_walk_Cons)

text \<open>Insertion of an absent key, with a page available for every missing layer.\<close>

lemma put_walk_absent:
  assumes "page_ok (length is) p" and "lookup_walk p is = None" and "length is \<le> Suc free"
  shows "\<exists>p' free'. put_walk free p is (Some v) = Ok (p', free') \<and> page_ok (length is) p' \<and>
    (\<forall>js. length js = length is \<longrightarrow> lookup_walk p' js = (if js = is then Some v else lookup_walk p js))"
  using assms
proof (induction "is" arbitrary: p free)
  case Nil
  then show ?case by simp
next
  case (Cons i "is")
  show ?case
  proof (cases "is = []")
    case True
    with Cons.prems show ?thesis
      by (auto split: slot.splits if_splits simp: length_Suc_conv)
  next
    case False
    then have len: "0 < length is" by simp
    have ok: "\<And>i. case p i of Null \<Rightarrow> True | Branch q \<Rightarrow> page_ok (length is) q | Leaf _ \<Rightarrow> False"
      using Cons.prems(1) by (simp add: page_ok_step [OF len])
    define q where "q = (case p i of Branch q \<Rightarrow> q | _ \<Rightarrow> zero_page)"
    define f where "f = (if p i = Null then free - 1 else free)"
    have q: "page_ok (length is) q" "lookup_walk q is = None" "length is \<le> Suc f"
      using ok [of i] Cons.prems(2,3) False len
      by (auto simp: q_def f_def lookup_walk_Cons split: slot.splits)
    obtain q' f' where put: "put_walk f q is (Some v) = Ok (q', f')" and "page_ok (length is) q'"
      and look: "\<And>js. length js = length is \<Longrightarrow>
        lookup_walk q' js = (if js = is then Some v else lookup_walk q js)"
      using Cons.IH [OF q] by blast
    then have "page_ok (length (i # is)) (p(i := Branch q'))"
      using ok by (simp add: page_ok_step [OF len])
    moreover have "put_walk free p (i # is) (Some v) = Ok (p(i := Branch q'), f')"
      using put False ok [of i] Cons.prems(3)
      by (cases "is") (auto simp: q_def f_def kassert_def split: slot.splits)
    moreover have "lookup_walk (p(i := Branch q')) js =
        (if js = i # is then Some v else lookup_walk p js)" if js: "length js = length (i # is)" for js
    proof -
      obtain j js' where js': "js = j # js'" using js by (cases js) auto
      show ?thesis unfolding js'
        by (rule lookup_walk_update) (use js js' len look in \<open>auto simp: q_def split: slot.splits\<close>)
    qed
    ultimately show ?thesis by blast
  qed
qed

lemma put_walk_present:
  "page_ok (length is) p \<Longrightarrow> lookup_walk p is \<noteq> None \<Longrightarrow> put_walk free p is data = Panic"
  by (induction free p "is" data rule: put_walk.induct)
    (auto split: slot.splits dest: spec [of _ i for i])

lemma remove_walk_present:
  assumes "page_ok (length is) p" and "lookup_walk p is \<noteq> None"
  shows "\<exists>p'. remove_walk p is = Ok (EOK, p') \<and> page_ok (length is) p' \<and>
    (\<forall>js. length js = length is \<longrightarrow> lookup_walk p' js = (if js = is then None else lookup_walk p js))"
  using assms
proof (induction "is" arbitrary: p)
  case Nil
  then show ?case by simp
next
  case (Cons i "is")
  show ?case
  proof (cases "is = []")
    case True
    with Cons.prems show ?thesis by (auto split: slot.splits if_splits simp: length_Suc_conv)
  next
    case False
    then have len: "0 < length is" by simp
    have ok: "\<And>i. case p i of Null \<Rightarrow> True | Branch q \<Rightarrow> page_ok (length is) q | Leaf _ \<Rightarrow> False"
      using Cons.prems(1) by (simp add: page_ok_step [OF len])
    obtain q where q: "p i = Branch q" "lookup_walk q is \<noteq> None"
      using Cons.prems(2) False by (auto simp: lookup_walk_Cons split: slot.splits)
    with ok [of i] obtain q' where rem: "remove_walk q is = Ok (EOK, q')" and "page_ok (length is) q'"
      and look: "\<And>js. length js = length is \<Longrightarrow>
        lookup_walk q' js = (if js = is then None else lookup_walk q js)"
      using Cons.IH [of q] by auto
    then have "page_ok (length (i # is)) (p(i := Branch q'))"
      using ok by (simp add: page_ok_step [OF len])
    moreover have "remove_walk p (i # is) = Ok (EOK, p(i := Branch q'))"
      using rem False q by (cases "is") auto
    moreover have "lookup_walk (p(i := Branch q')) js =
        (if js = i # is then None else lookup_walk p js)" if js: "length js = length (i # is)" for js
    proof -
      obtain j js' where js': "js = j # js'" using js by (cases js) auto
      show ?thesis unfolding js'
        by (rule lookup_walk_update) (use js js' len look q in auto)
    qed
    ultimately show ?thesis by blast
  qed
qed

text \<open>An absent key: an error when a page of its path is missing, a failed assertion otherwise.\<close>

lemma remove_walk_absent:
  "page_ok (length is) p \<Longrightarrow> lookup_walk p is = None \<Longrightarrow>
    remove_walk p is = (if path_exists p is then Panic else Ok (ENOENT, p))"
  by (induction p "is" rule: remove_walk.induct)
    (auto split: slot.splits simp: fun_upd_idem dest: spec [of _ i for i])

section \<open>Index splitting\<close>

lemma index_mask: "KRADIXTREE_INDEX_MASK = mask KRADIXTREE_INDEX_BITS"
  by (simp add: KRADIXTREE_INDEX_MASK_def KRADIXTREE_LAYER_SIZE_def KRADIXTREE_INDEX_BITS_def mask_eq_exp_minus_1)

lemma max_layers: "KRADIXTREE_MAX_LAYERS = 7"
  by (simp add: KRADIXTREE_MAX_LAYERS_def KRADIXTREE_INDEX_BITS_def)

lemma length_split_index [simp]: "length (split_index k n) = unat n"
  by (simp add: split_index_def)

lemma bit_split_index:
  assumes "i < unat n" and "j < 9"
  shows "bit (split_index k n ! i) j = bit k (9 * (unat n - i - 1) + j)"
  using assms
  by (simp add: split_index_def index_mask bit_and_iff bit_mask_iff bit_drop_bit_eq KRADIXTREE_INDEX_BITS_def)

lemma rt_key_bit:
  assumes "rt_key n k" and "9 * unat n \<le> b"
  shows "\<not> bit k b"
proof -
  have "unat k < 2 ^ (9 * unat n)" using assms(1) by (simp add: rt_key_def KRADIXTREE_INDEX_BITS_def)
  also have "\<dots> \<le> 2 ^ b" using assms(2) by (intro power_increasing) auto
  finally have "\<not> bit (unat k) b" by (simp add: bit_iff_odd)
  then show ?thesis by (simp add: bit_unsigned_iff)
qed

text \<open>Keys that fit the layers have distinct paths.\<close>

lemma split_index_inj:
  assumes "rt_key n k" and "rt_key n k'" and "split_index k n = split_index k' n"
  shows "k = k'"
proof (rule bit_word_eqI)
  fix b assume "b < LENGTH(64)"
  show "bit k b = bit k' b"
  proof (cases "b < 9 * unat n")
    case True
    let ?i = "unat n - b div 9 - 1"
    have d: "b div 9 < unat n" using True by (simp add: div_less_iff_less_mult mult.commute)
    then have "9 * (unat n - ?i - 1) + b mod 9 = b" by simp
    with bit_split_index [of ?i n "b mod 9" k] bit_split_index [of ?i n "b mod 9" k'] d assms(3)
    show ?thesis by simp
  next
    case False
    with assms(1,2) show ?thesis by (simp add: rt_key_bit)
  qed
qed

section \<open>The operations on the abstract map\<close>

lemma rt_ok_page: "rt_ok n t \<Longrightarrow> page_ok (length (split_index k (rt_num_layers t))) (rt_back t)"
  by (simp add: rt_ok_def)

lemma kradixtree_get_spec:
  assumes "rt_ok n t"
  shows "kradixtree_get t k =
    Ok (case rt_lookup t k of None \<Rightarrow> (ENOENT, None) | Some v \<Rightarrow> (EOK, Some v), t)"
  using assms get_walk_eq [OF rt_ok_page [OF assms]]
  by (simp add: kradixtree_get_def kradixtree_get_nolock_def rt_lookup_def rt_ok_def)

lemma kradixtree_put_absent:
  assumes "rt_ok n t" and "rt_lookup t k = None" and "unat n \<le> Suc free"
  shows "\<exists>t' free'. kradixtree_put free t k (Some v) = Ok (EOK, t', free') \<and> rt_ok n t' \<and>
    (\<forall>k'. split_index k' n = split_index k n \<longrightarrow> rt_lookup t' k' = Some v) \<and>
    (\<forall>k'. split_index k' n \<noteq> split_index k n \<longrightarrow> rt_lookup t' k' = rt_lookup t k')"
  using put_walk_absent [OF rt_ok_page [OF assms(1)], of k free v] assms
  by (auto simp: kradixtree_put_def kradixtree_put_nolock_def rt_lookup_def rt_ok_def)

lemma kradixtree_put_present:
  assumes "rt_ok n t" and "rt_lookup t k \<noteq> None"
  shows "kradixtree_put free t k data = Panic"
  using put_walk_present [OF rt_ok_page [OF assms(1)], of k free data] assms
  by (simp add: kradixtree_put_def kradixtree_put_nolock_def rt_lookup_def rt_ok_def)

lemma kradixtree_remove_present:
  assumes "rt_ok n t" and "rt_lookup t k \<noteq> None"
  shows "\<exists>t'. kradixtree_remove t k = Ok (EOK, t') \<and> rt_ok n t' \<and>
    (\<forall>k'. split_index k' n = split_index k n \<longrightarrow> rt_lookup t' k' = None) \<and>
    (\<forall>k'. split_index k' n \<noteq> split_index k n \<longrightarrow> rt_lookup t' k' = rt_lookup t k')"
  using remove_walk_present [OF rt_ok_page [OF assms(1)], of k] assms
  by (auto simp: kradixtree_remove_def kradixtree_remove_nolock_def rt_lookup_def rt_ok_def)

lemma kradixtree_remove_absent:
  assumes "rt_ok n t" and "rt_lookup t k = None"
  shows "kradixtree_remove t k =
    (if path_exists (rt_back t) (split_index k n) then Panic else Ok (ENOENT, t))"
  using remove_walk_absent [OF rt_ok_page [OF assms(1)], of k] assms
  by (auto simp: kradixtree_remove_def kradixtree_remove_nolock_def rt_lookup_def rt_ok_def)

lemma KRADIXTREE_INIT_spec:
  assumes "KRADIXTREE_INIT free n = Ok (t, free')" and "0 < n"
  shows "rt_ok n t \<and> rt_lookup t = Map.empty"
  using assms
  by (auto simp: KRADIXTREE_INIT_def kassert_def rt_ok_def rt_lookup_def fun_eq_iff unat_gt_0 word_gt_0
      split: if_splits)

section \<open>The tree as a store\<close>

interpretation rt_store: total_store "rt_ok n" "rt_key n" rt_lookup rt_put rt_remove False
  for n
proof
  fix s s' :: "'a kradixtree" and k v
  assume ok: "rt_ok n s" and key: "rt_key n k"
  then have n: "rt_num_layers s = n" by (simp add: rt_ok_def)
  have eq: "(split_index k' n = split_index k n) = (k' = k)" if "rt_key n k'" for k'
    using split_index_inj that key by blast
  note laws = kradixtree_put_absent [OF ok, of k "unat n" v] kradixtree_put_present [OF ok, of k]
    kradixtree_remove_present [OF ok, of k] kradixtree_remove_absent [OF ok, of k]
  show "rt_ok n s' \<and> (\<forall>k'. rt_key n k' \<longrightarrow> rt_lookup s' k' = (if k' = k then Some v else rt_lookup s k'))"
    if "rt_put s k v = Some s'"
    using that laws(1,2) eq by (cases "rt_lookup s k") (auto simp: rt_put_def n)
  show "rt_ok n s' \<and> (\<forall>k'. rt_key n k' \<longrightarrow> rt_lookup s' k' = (if k' = k then None else rt_lookup s k'))"
    if "rt_remove s k = Some s'"
    using that laws(3,4) eq by (cases "rt_lookup s k") (auto simp: rt_remove_def split: if_splits)
  show "\<exists>s'. rt_put s k v = Some s'" if "False \<or> rt_lookup s k = None"
    using that laws(1) by (auto simp: rt_put_def n)
  show "\<exists>s'. rt_remove s k = Some s'" if "rt_lookup s k \<noteq> None"
    using that laws(3) by (auto simp: rt_remove_def)
qed

section \<open>Properties\<close>

text \<open>
  C5: a radix tree of one to seven layers is a finite map on the keys its layers can address:
  from initialisation, every sequence of insertions of absent keys and removals of present keys
  completes without a failed assertion, and a locked get afterwards returns what the map holds
  and releases the lock.
\<close>

theorem kradixtree_refines_map:
  assumes "KRADIXTREE_INIT free n = Ok (t0, free')" and "0 < n"
    and "\<forall>op \<in> set ops. rt_key n (op_key op)" and "run_allowed False Map.empty ops"
  shows "\<exists>t. store_run rt_put rt_remove t0 ops = Some t \<and>
    (\<forall>k. rt_key n k \<longrightarrow> kradixtree_get t k =
      Ok (case map_run Map.empty ops k of None \<Rightarrow> (ENOENT, None) | Some v \<Rightarrow> (EOK, Some v), t))"
proof -
  have "rt_ok n t0" and "rt_lookup t0 = Map.empty" using KRADIXTREE_INIT_spec [OF assms(1,2)] by auto
  then obtain t where "store_run rt_put rt_remove t0 ops = Some t" and t: "rt_ok n t"
    and "\<And>k. rt_key n k \<Longrightarrow> rt_lookup t k = map_run Map.empty ops k"
    using rt_store.run_total_refines [of n t0 ops] assms(3,4) by auto
  then show ?thesis by (auto simp: kradixtree_get_spec [OF t])
qed

theorem kradixtree_refines_map_witness:
  "\<exists>t. store_run rt_put rt_remove \<lparr>rt_num_layers = 2, rt_back = zero_page, rt_lock = False\<rparr>
      [Insert 3 True, Insert 600 False, Remove 3] = Some t \<and>
    (\<forall>k. rt_key 2 k \<longrightarrow> kradixtree_get t k =
      Ok (case map_run Map.empty [Insert 3 True, Insert 600 False, Remove 3] k of
            None \<Rightarrow> (ENOENT, None) | Some v \<Rightarrow> (EOK, Some v), t))"
  by (rule kradixtree_refines_map [of 1 2 _ 0])
    (simp_all add: KRADIXTREE_INIT_def max_layers rt_key_def KRADIXTREE_INDEX_BITS_def)

text \<open>
  the outcomes on the other keys. Inserting over a present key fails the assertion; removing
  an absent key reports ENOENT only while a page of its path has never been allocated, and fails
  the assertion once a neighbouring key has had its pages created, even after that key is gone.
\<close>

theorem kradixtree_misuse:
  assumes "rt_ok n t"
  shows "(rt_lookup t k \<noteq> None \<longrightarrow> kradixtree_put free t k data = Panic) \<and>
    (rt_lookup t k = None \<longrightarrow> kradixtree_remove t k =
      (if path_exists (rt_back t) (split_index k n) then Panic else Ok (ENOENT, t)))"
  using kradixtree_put_present [OF assms] kradixtree_remove_absent [OF assms] by blast

theorem kradixtree_misuse_witness:
  "kradixtree_remove \<lparr>rt_num_layers = 2, rt_back = zero_page, rt_lock = False\<rparr> 5 =
      Ok (ENOENT, \<lparr>rt_num_layers = 2, rt_back = zero_page :: bool kradixtree_back, rt_lock = False\<rparr>) \<and>
   kradixtree_remove \<lparr>rt_num_layers = 2, rt_back = zero_page(0 := Branch zero_page :: bool slot),
      rt_lock = False\<rparr> 5 = Panic"
proof -
  let ?a = "\<lparr>rt_num_layers = 2, rt_back = zero_page, rt_lock = False\<rparr> :: bool kradixtree"
  let ?b = "\<lparr>rt_num_layers = 2, rt_back = zero_page(0 := Branch zero_page), rt_lock = False\<rparr> :: bool kradixtree"
  have idx: "split_index 5 2 = [0, 5]"
    by (simp add: split_index_def upt_rec KRADIXTREE_INDEX_BITS_def KRADIXTREE_INDEX_MASK_def
        KRADIXTREE_LAYER_SIZE_def)
  have "page_ok (Suc 1) (rt_back ?b)"
    unfolding page_ok_step [OF zero_less_one] by (auto simp: zero_page_def)
  then have "page_ok 2 (rt_back ?b)" by (simp only: Suc_1)
  then have "rt_ok 2 ?a" "rt_ok 2 ?b" by (simp_all add: rt_ok_def max_layers)
  then show ?thesis
    using kradixtree_misuse [of 2 ?a 5 0 None] kradixtree_misuse [of 2 ?b 5 0 None]
    by (simp add: rt_lookup_def idx) (simp add: zero_page_def)
qed

end
