(* ===== verification/Pmm.thy ===== *)
theory Pmm
  imports Interfaces
begin

text \<open>
  The physical memory manager of \<^verbatim>\<open>src/com/mm/pmm.c\<close>. A block of the free list is the pair of its
  address and page count; the code reaches it through the direct map, the model keeps its
  physical address, and addresses are natural numbers (physical memory is far below the width of
  a word). The page metadata array is a list; the metadata of every page above it is one shared
  fake entry. Clearing the header of a block that is still linked in the list, and writing
  metadata past the array, corrupt the allocator: the model counts both as \<open>Panic\<close>. The
  contents of pages are not modelled; the profiler and the log calls are left out.
\<close>

section \<open>State\<close>

definition ARCH_PAGE_SIZE :: nat where
  "ARCH_PAGE_SIZE = 4096"

record freelist_entry =
  fe_base :: nat
  fe_pages :: nat

datatype page_state = E_PAGE_STATE_FREE | E_PAGE_STATE_RESERVED | E_PAGE_STATE_TAKEN

datatype page_type = E_PAGE_TYPE_ANONYMOUS | E_PAGE_TYPE_FILE

record page_meta =
  pm_state :: page_state
  pm_num_ref :: u64
  pm_type :: page_type

record com_pmm_stats =
  st_total :: u64
  st_usable :: u64
  st_reserved :: u64
  st_free :: u64
  st_used :: u64

record pmm =
  pmm_list :: "freelist_entry list"
  pmm_lock :: bool
  pmm_meta :: "page_meta list"
  pmm_len :: nat
  pmm_reserved_start :: nat
  pmm_extended_len :: nat
  pmm_fake :: page_meta
  pmm_stats :: com_pmm_stats

section \<open>Free list\<close>

fun insert_by_size :: "freelist_entry \<Rightarrow> freelist_entry list \<Rightarrow> freelist_entry list" where
  "insert_by_size entry [] = [entry]"
| "insert_by_size entry (cur # fl) =
     (if fe_pages entry \<ge> fe_pages cur then entry # cur # fl else cur # insert_by_size entry fl)"

definition freelist_add_ordered_nolock ::
  "freelist_entry list \<Rightarrow> freelist_entry \<Rightarrow> freelist_entry list" where
  "freelist_add_ordered_nolock fl entry =
     (if fe_pages entry = 1 then
        (if fl = [] then [entry]
         else let curr_last = last fl in
           if fe_base entry = fe_base curr_last + fe_pages curr_last * ARCH_PAGE_SIZE
           then butlast fl @ [curr_last\<lparr>fe_pages := fe_pages curr_last + 1\<rparr>]
           else if fe_base curr_last = fe_base entry + ARCH_PAGE_SIZE
           then butlast fl @ [entry\<lparr>fe_pages := fe_pages entry + fe_pages curr_last\<rparr>]
           else fl @ [entry])
      else insert_by_size entry fl)"

text \<open>
  The merging insertion, which no caller uses at present. The end of the current block is
  computed from the page count of the new entry, as the code does.
\<close>

fun merge_loop :: "freelist_entry \<Rightarrow> freelist_entry list \<Rightarrow> freelist_entry list option" where
  "merge_loop entry [] = None"
| "merge_loop entry (cur # fl) =
     (let entry_last = fe_base entry + (fe_pages entry - 1) * ARCH_PAGE_SIZE;
          curr_last = fe_base cur + (fe_pages entry - 1) * ARCH_PAGE_SIZE
      in if fe_base cur = entry_last + ARCH_PAGE_SIZE
         then Some (entry\<lparr>fe_pages := fe_pages entry + fe_pages cur\<rparr> # fl)
         else if curr_last + ARCH_PAGE_SIZE = fe_base entry
         then Some (cur\<lparr>fe_pages := fe_pages cur + fe_pages entry\<rparr> # fl)
         else map_option (\<lambda>fl'. cur # fl') (merge_loop entry fl))"

definition freelist_add_merged_nolock ::
  "freelist_entry list \<Rightarrow> freelist_entry \<Rightarrow> freelist_entry list" where
  "freelist_add_merged_nolock fl entry =
     (case merge_loop entry fl of Some fl' \<Rightarrow> fl' | None \<Rightarrow> freelist_add_ordered_nolock fl entry)"

definition freelist_pop_rear_nolock :: "freelist_entry list \<Rightarrow> (nat \<times> freelist_entry list) res" where
  "freelist_pop_rear_nolock fl =
     kassert (fl \<noteq> [])
       (let l = last fl in
        if fe_pages l = 1 then Ok (fe_base l, butlast fl)
        else let p = fe_pages l - 1
             in Ok (fe_base l + ARCH_PAGE_SIZE * p, butlast fl @ [l\<lparr>fe_pages := p\<rparr>]))"

text \<open>
  The result is the allocated page count, the address and the list. When the first block is used
  up it leaves the list, and the second removal of it is without effect; the comparison with
  the next block then still reads its old size.
\<close>

definition freelist_pop_front_nolock ::
  "freelist_entry list \<Rightarrow> nat \<Rightarrow> (nat \<times> nat \<times> freelist_entry list) res" where
  "freelist_pop_front_nolock fl num_pages =
     kassert (fl \<noteq> [])
       (let entry = hd fl; rest = tl fl;
            alloc_size = KMIN num_pages (fe_pages entry);
            full = (alloc_size = fe_pages entry);
            entry' = (if full then entry else entry\<lparr>fe_pages := fe_pages entry - alloc_size\<rparr>);
            ret = (if full then fe_base entry else fe_base entry + ARCH_PAGE_SIZE * fe_pages entry');
            fl1 = (if full then rest else entry' # rest);
            fl2 = (if rest \<noteq> [] \<and> fe_pages (hd rest) > fe_pages entry'
                   then freelist_add_ordered_nolock rest entry' else fl1)
        in Ok (alloc_size, ret, fl2))"

section \<open>Page metadata\<close>

definition PHYS_TO_META_INDEX :: "nat \<Rightarrow> nat" where
  "PHYS_TO_META_INDEX page_phys = page_phys div ARCH_PAGE_SIZE"

datatype meta_ref = Entry nat | FakeEntry

definition page_meta_get :: "pmm \<Rightarrow> nat \<Rightarrow> meta_ref res" where
  "page_meta_get s phys_addr =
     (let index = PHYS_TO_META_INDEX phys_addr in
      kassert (index < pmm_extended_len s)
        (Ok (if index < pmm_reserved_start s then Entry index else FakeEntry)))"

definition read_meta :: "pmm \<Rightarrow> meta_ref \<Rightarrow> page_meta" where
  "read_meta s r = (case r of Entry i \<Rightarrow> pmm_meta s ! i | FakeEntry \<Rightarrow> pmm_fake s)"

definition write_meta :: "pmm \<Rightarrow> meta_ref \<Rightarrow> page_meta \<Rightarrow> pmm" where
  "write_meta s r m = (case r of Entry i \<Rightarrow> s\<lparr>pmm_meta := (pmm_meta s)[i := m]\<rparr> | FakeEntry \<Rightarrow> s\<lparr>pmm_fake := m\<rparr>)"

text \<open>\<open>n\<close> consecutive entries from a pointer on.\<close>

definition fill_meta :: "pmm \<Rightarrow> meta_ref \<Rightarrow> nat \<Rightarrow> page_meta \<Rightarrow> pmm res" where
  "fill_meta s r n m =
     (if n = 0 then Ok s
      else case r of
        FakeEntry \<Rightarrow> Panic
      | Entry i \<Rightarrow> if i + n \<le> length (pmm_meta s)
                   then Ok (s\<lparr>pmm_meta := take i (pmm_meta s) @ replicate n m @ drop (i + n) (pmm_meta s)\<rparr>)
                   else Panic)"

definition page_meta_set :: "pmm \<Rightarrow> nat \<Rightarrow> page_meta \<Rightarrow> nat \<Rightarrow> pmm res" where
  "page_meta_set s page_phys tocopy num_pages =
     (let end_addr = page_phys + num_pages * ARCH_PAGE_SIZE;
          index1 = PHYS_TO_META_INDEX page_phys;
          index2 = PHYS_TO_META_INDEX end_addr
      in kassert (index1 < pmm_len s) (kassert (0 < index2 \<and> index2 - 1 < pmm_len s)
           (res_bind (page_meta_get s page_phys) (\<lambda>r. fill_meta s r num_pages tocopy))))"

section \<open>Interface\<close>

definition add_used :: "pmm \<Rightarrow> nat \<Rightarrow> pmm" where
  "add_used s n = s\<lparr>pmm_stats := (pmm_stats s)
     \<lparr>st_used := st_used (pmm_stats s) + of_nat (n * ARCH_PAGE_SIZE),
      st_free := st_free (pmm_stats s) - of_nat (n * ARCH_PAGE_SIZE)\<rparr>\<rparr>"

definition clear_header :: "pmm \<Rightarrow> nat \<Rightarrow> pmm res" where
  "clear_header s a = kassert (a \<notin> fe_base ` set (pmm_list s)) (Ok s)"

definition com_mm_pmm_alloc :: "pmm \<Rightarrow> (nat \<times> pmm) res" where
  "com_mm_pmm_alloc s =
     (if pmm_lock s then Blocked else
      res_bind (freelist_pop_rear_nolock (pmm_list s)) (\<lambda>(phys, fl).
      res_bind (clear_header (s\<lparr>pmm_list := fl\<rparr>) phys) (\<lambda>s1.
      res_bind (page_meta_get s1 phys) (\<lambda>r.
        let pm = read_meta s1 r in
        kassert (pm_state pm = E_PAGE_STATE_FREE) (kassert (pm_num_ref pm = 0)
          (Ok (phys, add_used (write_meta s1 r
             \<lparr>pm_state = E_PAGE_STATE_TAKEN, pm_num_ref = 1, pm_type = E_PAGE_TYPE_ANONYMOUS\<rparr>) 1)))))))"

definition taken_model :: page_meta where
  "taken_model = \<lparr>pm_state = E_PAGE_STATE_TAKEN, pm_num_ref = 1, pm_type = E_PAGE_TYPE_ANONYMOUS\<rparr>"

definition com_mm_pmm_alloc_many :: "pmm \<Rightarrow> nat \<Rightarrow> (nat \<times> pmm) res" where
  "com_mm_pmm_alloc_many s pages =
     (if pages = 1 then com_mm_pmm_alloc s
      else if pmm_lock s then Blocked else
      res_bind (freelist_pop_front_nolock (pmm_list s) pages) (\<lambda>(alloc_size, phys, fl).
        kassert (alloc_size = pages)
          (res_bind (clear_header (s\<lparr>pmm_list := fl\<rparr>) phys) (\<lambda>s1.
           res_bind (page_meta_set s1 phys taken_model pages) (\<lambda>s2.
           Ok (phys, add_used s2 pages))))))"

definition com_mm_pmm_alloc_zero :: "pmm \<Rightarrow> (nat \<times> pmm) res" where
  "com_mm_pmm_alloc_zero s = com_mm_pmm_alloc s"

definition com_mm_pmm_alloc_many_zero :: "pmm \<Rightarrow> nat \<Rightarrow> (nat \<times> pmm) res" where
  "com_mm_pmm_alloc_many_zero s pages = com_mm_pmm_alloc_many s pages"

text \<open>
  The page count goes out through a pointer; for a request of one page it is not written, so the
  caller keeps what its variable held.
\<close>

definition com_mm_pmm_alloc_max :: "pmm \<Rightarrow> nat \<Rightarrow> nat \<Rightarrow> (nat \<times> nat \<times> pmm) res" where
  "com_mm_pmm_alloc_max s old_size pages =
     (if pages = 1 then res_bind (com_mm_pmm_alloc s) (\<lambda>(phys, s1). Ok (old_size, phys, s1))
      else if pmm_lock s then Blocked else
      res_bind (freelist_pop_front_nolock (pmm_list s) pages) (\<lambda>(alloc_size, phys, fl).
      res_bind (clear_header (s\<lparr>pmm_list := fl\<rparr>) phys) (\<lambda>s1.
      res_bind (page_meta_set s1 phys taken_model alloc_size) (\<lambda>s2.
      Ok (alloc_size, phys, add_used s2 alloc_size)))))"

definition com_mm_pmm_alloc_max_zero :: "pmm \<Rightarrow> nat \<Rightarrow> nat \<Rightarrow> (nat \<times> nat \<times> pmm) res" where
  "com_mm_pmm_alloc_max_zero s old_size pages = com_mm_pmm_alloc_max s old_size pages"

definition com_mm_pmm_hold :: "pmm \<Rightarrow> nat \<Rightarrow> pmm res" where
  "com_mm_pmm_hold s page =
     res_bind (page_meta_get s page) (\<lambda>r.
       let pm = read_meta s r in
       kassert (pm_state pm \<noteq> E_PAGE_STATE_FREE)
         (Ok (write_meta s r (pm\<lparr>pm_num_ref := pm_num_ref pm + 1\<rparr>))))"

definition com_mm_pmm_is_shared :: "pmm \<Rightarrow> nat \<Rightarrow> bool res" where
  "com_mm_pmm_is_shared s page =
     res_bind (page_meta_get s page) (\<lambda>r.
       let pm = read_meta s r in
       kassert (pm_state pm \<noteq> E_PAGE_STATE_FREE) (Ok (pm_num_ref pm > 1)))"

text \<open>A page whose last reference goes is not given back: the code leaves that open.\<close>

definition com_mm_pmm_free :: "pmm \<Rightarrow> nat \<Rightarrow> pmm res" where
  "com_mm_pmm_free s page =
     res_bind (page_meta_get s page) (\<lambda>r.
       let pm = read_meta s r in
       if pm_state pm \<noteq> E_PAGE_STATE_TAKEN then Ok s
       else Ok (write_meta s r (pm\<lparr>pm_num_ref := pm_num_ref pm - 1\<rparr>)))"

fun free_loop :: "pmm \<Rightarrow> nat \<Rightarrow> nat \<Rightarrow> pmm res" where
  "free_loop s base 0 = Ok s"
| "free_loop s base (Suc n) =
     res_bind (com_mm_pmm_free s base) (\<lambda>s1. free_loop s1 (base + ARCH_PAGE_SIZE) n)"

definition com_mm_pmm_free_many :: "pmm \<Rightarrow> nat \<Rightarrow> nat \<Rightarrow> pmm res" where
  "com_mm_pmm_free_many s base pages = free_loop s base pages"

definition free_meta :: page_meta where
  "free_meta = \<lparr>pm_state = E_PAGE_STATE_FREE, pm_num_ref = 0, pm_type = E_PAGE_TYPE_ANONYMOUS\<rparr>"

definition com_mm_pmm_unreserve_many :: "pmm \<Rightarrow> nat \<Rightarrow> nat \<Rightarrow> pmm res" where
  "com_mm_pmm_unreserve_many s base pages =
     res_bind (page_meta_get s base) (\<lambda>r.
     res_bind (fill_meta s r pages free_meta) (\<lambda>s1.
       if pmm_lock s1 then Blocked
       else let s2 = s1\<lparr>pmm_list := freelist_add_ordered_nolock (pmm_list s1)
                          \<lparr>fe_base = base, fe_pages = pages\<rparr>\<rparr>
            in Ok (s2\<lparr>pmm_stats := (pmm_stats s2)
                 \<lparr>st_reserved := st_reserved (pmm_stats s2) - of_nat (pages * ARCH_PAGE_SIZE),
                  st_free := st_free (pmm_stats s2) + of_nat (pages * ARCH_PAGE_SIZE)\<rparr>\<rparr>)))"

definition com_mm_pmm_get_stats :: "pmm \<Rightarrow> com_pmm_stats" where
  "com_mm_pmm_get_stats s = pmm_stats s"

section \<open>Initialisation\<close>

datatype memmap_type =
    LIMINE_MEMMAP_USABLE | LIMINE_MEMMAP_RESERVED | LIMINE_MEMMAP_ACPI_RECLAIMABLE
  | LIMINE_MEMMAP_ACPI_NVS | LIMINE_MEMMAP_BAD_MEMORY | LIMINE_MEMMAP_BOOTLOADER_RECLAIMABLE
  | LIMINE_MEMMAP_KERNEL_AND_MODULES | LIMINE_MEMMAP_FRAMEBUFFER

record arch_memmap_entry =
  mm_base :: nat
  mm_length :: nat
  mm_type :: memmap_type

definition ARCH_MEMMAP_IS_USABLE :: "arch_memmap_entry \<Rightarrow> bool" where
  "ARCH_MEMMAP_IS_USABLE entry \<longleftrightarrow> mm_type entry = LIMINE_MEMMAP_USABLE"

definition ARCH_MEMMAP_IS_RECLAIMABLE :: "arch_memmap_entry \<Rightarrow> bool" where
  "ARCH_MEMMAP_IS_RECLAIMABLE entry \<longleftrightarrow>
     mm_type entry = LIMINE_MEMMAP_BOOTLOADER_RECLAIMABLE \<or> mm_type entry = LIMINE_MEMMAP_KERNEL_AND_MODULES"

record memmap_scan =
  sc_highest_addr :: nat
  sc_highest_indexed_addr :: nat
  sc_reserved :: nat
  sc_usable :: nat

fun scan_memmap :: "memmap_scan \<Rightarrow> arch_memmap_entry list \<Rightarrow> memmap_scan" where
  "scan_memmap sc [] = sc"
| "scan_memmap sc (entry # es) =
     (let seg_top = mm_base entry + mm_length entry;
          sc1 = sc\<lparr>sc_highest_addr := KMAX (sc_highest_addr sc) seg_top\<rparr>;
          sc2 = (if ARCH_MEMMAP_IS_RECLAIMABLE entry
                 then sc1\<lparr>sc_highest_indexed_addr := KMAX (sc_highest_indexed_addr sc1) seg_top\<rparr> else sc1);
          sc3 = (if ARCH_MEMMAP_IS_USABLE entry
                 then sc2\<lparr>sc_usable := sc_usable sc2 + mm_length entry,
                          sc_highest_indexed_addr := KMAX (sc_highest_indexed_addr sc2) seg_top\<rparr>
                 else sc2\<lparr>sc_reserved := sc_reserved sc2 + mm_length entry\<rparr>)
      in scan_memmap sc3 es)"

text \<open>\<^verbatim>\<open>sizeof(struct page_meta)\<close> is 24 on x86-64.\<close>

definition PAGE_META_ARRAY_LEN :: "nat \<Rightarrow> nat" where
  "PAGE_META_ARRAY_LEN memsize = memsize div ARCH_PAGE_SIZE"

definition PAGE_META_ARRAY_SIZE :: "nat \<Rightarrow> nat" where
  "PAGE_META_ARRAY_SIZE memsize = PAGE_META_ARRAY_LEN memsize * 24"

definition add_block :: "pmm \<Rightarrow> nat \<Rightarrow> nat \<Rightarrow> pmm" where
  "add_block s base pages =
     s\<lparr>pmm_list := freelist_add_ordered_nolock (pmm_list s) \<lparr>fe_base = base, fe_pages = pages\<rparr>\<rparr>"

definition reserved_model :: page_meta where
  "reserved_model = \<lparr>pm_state = E_PAGE_STATE_RESERVED, pm_num_ref = 1, pm_type = E_PAGE_TYPE_ANONYMOUS\<rparr>"

text \<open>The second loop: \<open>placed\<close> says whether \<^verbatim>\<open>PageMeta.buffer\<close> has been set.\<close>

fun place_loop :: "nat \<Rightarrow> nat \<Rightarrow> nat \<Rightarrow> bool \<Rightarrow> pmm \<Rightarrow> arch_memmap_entry list \<Rightarrow> pmm res" where
  "place_loop hia ha meta_pages placed s [] = Ok s"
| "place_loop hia ha meta_pages placed s (entry # es) =
     (let aligned = meta_pages * ARCH_PAGE_SIZE in
      if \<not> ARCH_MEMMAP_IS_USABLE entry then place_loop hia ha meta_pages placed s es
      else if \<not> placed \<and> mm_length entry \<ge> aligned then
        res_bind (page_meta_set
            (s\<lparr>pmm_meta := replicate (PAGE_META_ARRAY_LEN hia) free_meta,
               pmm_len := PAGE_META_ARRAY_LEN hia,
               pmm_reserved_start := PHYS_TO_META_INDEX hia,
               pmm_extended_len := PAGE_META_ARRAY_LEN ha\<rparr>)
            (mm_base entry) reserved_model meta_pages)
          (\<lambda>s1.
             let s2 = s1\<lparr>pmm_stats := (pmm_stats s1)
                        \<lparr>st_usable := st_usable (pmm_stats s1) - of_nat aligned,
                         st_reserved := st_reserved (pmm_stats s1) + of_nat aligned\<rparr>\<rparr>;
                 s3 = (if mm_length entry \<ge> aligned + ARCH_PAGE_SIZE
                       then add_block s2 (mm_base entry + aligned)
                              ((mm_length entry - aligned) div ARCH_PAGE_SIZE)
                       else s2)
             in place_loop hia ha meta_pages True s3 es)
      else place_loop hia ha meta_pages placed
             (add_block s (mm_base entry) (mm_length entry div ARCH_PAGE_SIZE)) es)"

fun reserve_loop :: "nat \<Rightarrow> pmm \<Rightarrow> arch_memmap_entry list \<Rightarrow> pmm res" where
  "reserve_loop hia s [] = Ok s"
| "reserve_loop hia s (entry # es) =
     (if \<not> ARCH_MEMMAP_IS_USABLE entry \<and> mm_base entry + mm_length entry < hia
      then res_bind (page_meta_set s (mm_base entry) reserved_model
             ((mm_length entry + ARCH_PAGE_SIZE - 1) div ARCH_PAGE_SIZE))
             (\<lambda>s1. reserve_loop hia s1 es)
      else reserve_loop hia s es)"

definition com_mm_pmm_init :: "arch_memmap_entry list \<Rightarrow> pmm res" where
  "com_mm_pmm_init memmap =
     (let sc = scan_memmap \<lparr>sc_highest_addr = 0, sc_highest_indexed_addr = 0,
                            sc_reserved = 0, sc_usable = 0\<rparr> memmap;
          hia = sc_highest_indexed_addr sc; ha = sc_highest_addr sc;
          meta_pages = (PAGE_META_ARRAY_SIZE hia + ARCH_PAGE_SIZE - 1) div ARCH_PAGE_SIZE;
          s0 = \<lparr>pmm_list = [], pmm_lock = False, pmm_meta = [], pmm_len = 0, pmm_reserved_start = 0,
                pmm_extended_len = 0, pmm_fake = reserved_model,
                pmm_stats = \<lparr>st_total = of_nat ha, st_usable = of_nat (sc_usable sc),
                  st_reserved = of_nat (sc_reserved sc), st_free = 0, st_used = 0\<rparr>\<rparr>
      in res_bind (place_loop hia ha meta_pages False s0 memmap) (\<lambda>s1.
         res_bind (reserve_loop hia s1 memmap) (\<lambda>s2.
         Ok (s2\<lparr>pmm_stats := (pmm_stats s2)\<lparr>st_free := st_usable (pmm_stats s2)\<rparr>\<rparr>))))"

section \<open>Invariant\<close>

definition first_frame :: "freelist_entry \<Rightarrow> nat" where
  "first_frame e = fe_base e div ARCH_PAGE_SIZE"

definition frames :: "freelist_entry \<Rightarrow> nat set" where
  "frames e = {first_frame e ..< first_frame e + fe_pages e}"

definition free_frames :: "freelist_entry list \<Rightarrow> nat set" where
  "free_frames fl = (\<Union>e \<in> set fl. frames e)"

definition block_ok :: "freelist_entry \<Rightarrow> bool" where
  "block_ok e \<longleftrightarrow> 0 < fe_pages e \<and> ARCH_PAGE_SIZE dvd fe_base e"

text \<open>Two blocks with at least one page between them.\<close>

definition apart :: "freelist_entry \<Rightarrow> freelist_entry \<Rightarrow> bool" where
  "apart e f \<longleftrightarrow> first_frame e + fe_pages e < first_frame f \<or> first_frame f + fe_pages f < first_frame e"

definition fl_ok :: "freelist_entry list \<Rightarrow> bool" where
  "fl_ok fl \<longleftrightarrow> (\<forall>e \<in> set fl. block_ok e) \<and>
     sorted_wrt (\<lambda>a b. fe_pages b \<le> fe_pages a \<and> apart a b) fl"

definition page_free :: "pmm \<Rightarrow> nat \<Rightarrow> bool" where
  "page_free s f \<longleftrightarrow> f < length (pmm_meta s) \<and> pm_state (pmm_meta s ! f) = E_PAGE_STATE_FREE \<and>
     pm_num_ref (pmm_meta s ! f) = 0"

definition meta_dims :: "pmm \<Rightarrow> bool" where
  "meta_dims s \<longleftrightarrow> pmm_len s = length (pmm_meta s) \<and> pmm_reserved_start s = length (pmm_meta s) \<and>
     length (pmm_meta s) \<le> pmm_extended_len s"

definition pmm_wf :: "pmm \<Rightarrow> bool" where
  "pmm_wf s \<longleftrightarrow> fl_ok (pmm_list s) \<and> \<not> pmm_lock s \<and> meta_dims s \<and>
     (\<forall>f \<in> free_frames (pmm_list s). page_free s f)"

text \<open>What an allocation of the pages \<open>F\<close> does to a well formed allocator.\<close>

definition takes :: "pmm \<Rightarrow> nat set \<Rightarrow> pmm \<Rightarrow> bool" where
  "takes s F s' \<longleftrightarrow> pmm_wf s' \<and> F \<subseteq> free_frames (pmm_list s) \<and>
     free_frames (pmm_list s') = free_frames (pmm_list s) - F \<and>
     length (pmm_meta s') = length (pmm_meta s) \<and>
     (\<forall>f < length (pmm_meta s). pmm_meta s' ! f = (if f \<in> F then taken_model else pmm_meta s ! f)) \<and>
     st_used (pmm_stats s') = st_used (pmm_stats s) + of_nat (card F * ARCH_PAGE_SIZE) \<and>
     st_free (pmm_stats s') = st_free (pmm_stats s) - of_nat (card F * ARCH_PAGE_SIZE)"

text \<open>
  Sequences of calls: \<open>pmm_run s0 Fs s\<close> leads from \<open>s0\<close> to \<open>s\<close> and hands out the page
  sets \<open>Fs\<close>, in order. Calls that panic or block are not steps.
\<close>

inductive pmm_run :: "pmm \<Rightarrow> nat set list \<Rightarrow> pmm \<Rightarrow> bool" for s0 where
  start: "pmm_run s0 [] s0"
| alloc: "pmm_run s0 Fs s \<Longrightarrow> com_mm_pmm_alloc s = Ok (a, s') \<Longrightarrow>
    pmm_run s0 (Fs @ [{a div ARCH_PAGE_SIZE}]) s'"
| alloc_many: "pmm_run s0 Fs s \<Longrightarrow> 0 < n \<Longrightarrow> com_mm_pmm_alloc_many s n = Ok (a, s') \<Longrightarrow>
    pmm_run s0 (Fs @ [{a div ARCH_PAGE_SIZE ..< a div ARCH_PAGE_SIZE + n}]) s'"
| alloc_max: "pmm_run s0 Fs s \<Longrightarrow> 1 < n \<Longrightarrow> com_mm_pmm_alloc_max s old n = Ok (k, a, s') \<Longrightarrow>
    pmm_run s0 (Fs @ [{a div ARCH_PAGE_SIZE ..< a div ARCH_PAGE_SIZE + k}]) s'"
| hold: "pmm_run s0 Fs s \<Longrightarrow> com_mm_pmm_hold s a = Ok s' \<Longrightarrow> pmm_run s0 Fs s'"
| free: "pmm_run s0 Fs s \<Longrightarrow> com_mm_pmm_free s a = Ok s' \<Longrightarrow> pmm_run s0 Fs s'"

definition handed_out :: "pmm \<Rightarrow> nat set list \<Rightarrow> pmm \<Rightarrow> bool" where
  "handed_out s0 Fs s \<longleftrightarrow> pmm_wf s \<and> (\<forall>i j. i < j \<and> j < length Fs \<longrightarrow> Fs ! i \<inter> Fs ! j = {}) \<and>
     \<Union> (set Fs) \<subseteq> free_frames (pmm_list s0) \<and>
     free_frames (pmm_list s) = free_frames (pmm_list s0) - \<Union> (set Fs)"

text \<open>
  What the boot loader promises of its memory map: usable and reclaimable entries are made of
  whole pages, no entry is empty, usable entries do not touch each other, and no other entry
  reaches into the pages of a usable one.
\<close>

definition entry_block :: "arch_memmap_entry \<Rightarrow> freelist_entry" where
  "entry_block e = \<lparr>fe_base = mm_base e, fe_pages = mm_length e div ARCH_PAGE_SIZE\<rparr>"

definition usable_blocks :: "arch_memmap_entry list \<Rightarrow> freelist_entry list" where
  "usable_blocks es = map entry_block (filter ARCH_MEMMAP_IS_USABLE es)"

definition reserved_range :: "arch_memmap_entry \<Rightarrow> nat set" where
  "reserved_range r = {mm_base r div ARCH_PAGE_SIZE ..<
     mm_base r div ARCH_PAGE_SIZE + (mm_length r + ARCH_PAGE_SIZE - 1) div ARCH_PAGE_SIZE}"

definition memmap_ok :: "arch_memmap_entry list \<Rightarrow> bool" where
  "memmap_ok es \<longleftrightarrow>
     (\<forall>e \<in> set es. 0 < mm_length e \<and> (ARCH_MEMMAP_IS_USABLE e \<or> ARCH_MEMMAP_IS_RECLAIMABLE e \<longrightarrow>
        ARCH_PAGE_SIZE dvd mm_base e \<and> ARCH_PAGE_SIZE dvd mm_length e)) \<and>
     sorted_wrt apart (usable_blocks es) \<and>
     (\<forall>u \<in> set es. \<forall>r \<in> set es. ARCH_MEMMAP_IS_USABLE u \<and> \<not> ARCH_MEMMAP_IS_USABLE r \<longrightarrow>
        frames (entry_block u) \<inter> reserved_range r = {})"

definition memmap_hia :: "arch_memmap_entry list \<Rightarrow> nat" where
  "memmap_hia es = sc_highest_indexed_addr (scan_memmap \<lparr>sc_highest_addr = 0,
     sc_highest_indexed_addr = 0, sc_reserved = 0, sc_usable = 0\<rparr> es)"

definition memmap_meta_pages :: "arch_memmap_entry list \<Rightarrow> nat" where
  "memmap_meta_pages es = (PAGE_META_ARRAY_SIZE (memmap_hia es) + ARCH_PAGE_SIZE - 1) div ARCH_PAGE_SIZE"

definition meta_frames :: "nat \<Rightarrow> arch_memmap_entry \<Rightarrow> nat set" where
  "meta_frames mp e = {first_frame (entry_block e) ..< first_frame (entry_block e) + mp}"

definition placed_state :: "nat \<Rightarrow> nat \<Rightarrow> nat \<Rightarrow> pmm \<Rightarrow> arch_memmap_entry \<Rightarrow> freelist_entry list \<Rightarrow> pmm" where
  "placed_state hia ha mp s e fl =
     s\<lparr>pmm_meta := take (mm_base e div ARCH_PAGE_SIZE) (replicate (hia div ARCH_PAGE_SIZE) free_meta) @
         replicate mp reserved_model @
         drop (mm_base e div ARCH_PAGE_SIZE + mp) (replicate (hia div ARCH_PAGE_SIZE) free_meta),
       pmm_len := hia div ARCH_PAGE_SIZE, pmm_reserved_start := hia div ARCH_PAGE_SIZE,
       pmm_extended_len := ha div ARCH_PAGE_SIZE,
       pmm_stats := (pmm_stats s)\<lparr>st_usable := st_usable (pmm_stats s) - of_nat (mp * ARCH_PAGE_SIZE),
         st_reserved := st_reserved (pmm_stats s) + of_nat (mp * ARCH_PAGE_SIZE)\<rparr>,
       pmm_list := fl\<rparr>"

text \<open>What is left of the entry that carries the metadata array.\<close>

definition rest_block :: "nat \<Rightarrow> arch_memmap_entry \<Rightarrow> freelist_entry" where
  "rest_block mp e = \<lparr>fe_base = mm_base e + mp * ARCH_PAGE_SIZE,
     fe_pages = (mm_length e - mp * ARCH_PAGE_SIZE) div ARCH_PAGE_SIZE\<rparr>"

text \<open>Single pages, by frame number.\<close>

definition pmm_page :: "pmm \<Rightarrow> (nat \<times> pmm) option" where
  "pmm_page s = (case com_mm_pmm_alloc s of Ok (a, s') \<Rightarrow> Some (a div ARCH_PAGE_SIZE, s') | _ \<Rightarrow> None)"

text \<open>A memory map for concrete runs.\<close>

definition small_map :: "arch_memmap_entry list" where
  "small_map =
     [\<lparr>mm_base = 4096, mm_length = 8192, mm_type = LIMINE_MEMMAP_USABLE\<rparr>,
      \<lparr>mm_base = 16384, mm_length = 100, mm_type = LIMINE_MEMMAP_RESERVED\<rparr>,
      \<lparr>mm_base = 32768, mm_length = 16384, mm_type = LIMINE_MEMMAP_USABLE\<rparr>]"

lemmas fl_defs = first_frame_def frames_def free_frames_def block_ok_def apart_def

section \<open>Free list facts\<close>

lemma page_size_pos [simp]: "0 < ARCH_PAGE_SIZE" "ARCH_PAGE_SIZE \<noteq> 0"
  by (simp_all add: ARCH_PAGE_SIZE_def)

lemma apart_sym: "apart e f \<Longrightarrow> apart f e"
  by (auto simp: apart_def)

lemma base_frame: "block_ok e \<Longrightarrow> fe_base e = first_frame e * ARCH_PAGE_SIZE"
  by (auto simp: block_ok_def first_frame_def)

lemma first_frame_update [simp]: "first_frame (e\<lparr>fe_pages := p\<rparr>) = first_frame e"
  by (simp add: first_frame_def)

lemma apart_shrink: "apart e f \<Longrightarrow> p \<le> fe_pages e \<Longrightarrow> apart (e\<lparr>fe_pages := p\<rparr>) f"
  by (auto simp: apart_def)

lemma apart_disjoint: "apart e f \<Longrightarrow> frames e \<inter> frames f = {}"
  by (auto simp: apart_def frames_def)

lemma fl_ok_Nil [simp]: "fl_ok []"
  by (simp add: fl_ok_def)

lemma fl_ok_Cons:
  "fl_ok (e # fl) \<longleftrightarrow> block_ok e \<and> (\<forall>f \<in> set fl. fe_pages f \<le> fe_pages e \<and> apart e f) \<and> fl_ok fl"
  by (auto simp: fl_ok_def)

lemma fl_ok_snoc:
  "fl_ok (fl @ [e]) \<longleftrightarrow> block_ok e \<and> (\<forall>f \<in> set fl. fe_pages e \<le> fe_pages f \<and> apart f e) \<and> fl_ok fl"
  by (auto simp: fl_ok_def sorted_wrt_append)

lemma free_frames_simps [simp]:
  "free_frames [] = {}" "free_frames (e # fl) = frames e \<union> free_frames fl"
  "free_frames (fl @ fl') = free_frames fl \<union> free_frames fl'"
  by (auto simp: free_frames_def)

lemma set_insert_by_size [simp]: "set (insert_by_size e fl) = insert e (set fl)"
  by (induction fl) auto

lemma fl_ok_insert:
  "fl_ok fl \<Longrightarrow> block_ok e \<Longrightarrow> (\<And>f. f \<in> set fl \<Longrightarrow> apart e f) \<Longrightarrow> fl_ok (insert_by_size e fl)"
proof (induction fl)
  case Nil
  then show ?case by (simp add: fl_ok_Cons)
next
  case (Cons a fl)
  then show ?case by (fastforce simp: fl_ok_Cons intro: apart_sym)
qed

text \<open>Inserting a block that touches no free block keeps the order and never merges.\<close>

lemma add_ordered_ok:
  assumes "fl_ok fl" and "block_ok e" and "\<And>f. f \<in> set fl \<Longrightarrow> apart e f"
  shows "fl_ok (freelist_add_ordered_nolock fl e)"
    and "set (freelist_add_ordered_nolock fl e) = insert e (set fl)"
proof -
  have "fl_ok (freelist_add_ordered_nolock fl e) \<and>
      set (freelist_add_ordered_nolock fl e) = insert e (set fl)"
  proof (cases "fe_pages e = 1 \<and> fl \<noteq> []")
    case False
    then show ?thesis
      using assms fl_ok_insert by (auto simp: freelist_add_ordered_nolock_def fl_ok_Cons)
  next
    case True
    then obtain gl l where fl: "fl = gl @ [l]" by (meson rev_exhaust)
    have l: "apart e l" "block_ok l" using assms fl by (auto simp: fl_ok_snoc)
    have "fe_base e \<noteq> fe_base l + fe_pages l * ARCH_PAGE_SIZE"
      and "fe_base l \<noteq> fe_base e + ARCH_PAGE_SIZE"
      using l assms(2) True unfolding base_frame [OF l(2)] base_frame [OF assms(2)]
      by (auto simp: apart_def ARCH_PAGE_SIZE_def)
    then have "freelist_add_ordered_nolock fl e = fl @ [e]"
      using True fl by (simp add: freelist_add_ordered_nolock_def)
    moreover have "\<forall>f \<in> set fl. 0 < fe_pages f" using assms(1) by (auto simp: fl_ok_def block_ok_def)
    then have "fl_ok (fl @ [e])"
      using assms True by (auto simp: fl_ok_snoc Suc_le_eq intro: apart_sym)
    ultimately show ?thesis by simp
  qed
  then show "fl_ok (freelist_add_ordered_nolock fl e)"
    and "set (freelist_add_ordered_nolock fl e) = insert e (set fl)" by auto
qed

lemma frames_disjoint_rest: "fl_ok (e # fl) \<Longrightarrow> frames e \<inter> free_frames fl = {}"
  using apart_disjoint by (fastforce simp: fl_ok_Cons free_frames_def)

lemma frames_disjoint_last: "fl_ok (fl @ [e]) \<Longrightarrow> frames e \<inter> free_frames fl = {}"
  using apart_disjoint apart_sym by (fastforce simp: fl_ok_snoc free_frames_def)

lemma base_not_free:
  assumes "fl_ok fl" and "a div ARCH_PAGE_SIZE \<notin> free_frames fl"
  shows "a \<notin> fe_base ` set fl"
proof
  assume "a \<in> fe_base ` set fl"
  then obtain e where "e \<in> set fl" "a = fe_base e" by auto
  with assms show False by (auto simp: fl_ok_def fl_defs)
qed

text \<open>One page from the rear: it was free and no longer is.\<close>

lemma pop_rear_ok:
  assumes "fl_ok fl" and "fl \<noteq> []"
  shows "\<exists>a fl'. freelist_pop_rear_nolock fl = Ok (a, fl') \<and> fl_ok fl' \<and> ARCH_PAGE_SIZE dvd a \<and>
    a div ARCH_PAGE_SIZE \<in> free_frames fl \<and> free_frames fl' = free_frames fl - {a div ARCH_PAGE_SIZE}"
proof -
  obtain gl l where fl: "fl = gl @ [l]" using assms(2) by (meson rev_exhaust)
  have l: "block_ok l" "fl_ok gl" "\<And>f. f \<in> set gl \<Longrightarrow> fe_pages l \<le> fe_pages f \<and> apart f l"
    using assms(1) fl by (auto simp: fl_ok_snoc)
  have disj: "frames l \<inter> free_frames gl = {}" using frames_disjoint_last assms(1) fl by simp
  show ?thesis
  proof (cases "fe_pages l = 1")
    case True
    then have "frames l = {fe_base l div ARCH_PAGE_SIZE}" by (auto simp: frames_def first_frame_def)
    with True fl l disj show ?thesis
      by (auto simp: freelist_pop_rear_nolock_def block_ok_def)
  next
    case False
    define p where "p = fe_pages l - 1"
    define a where "a = fe_base l + ARCH_PAGE_SIZE * p"
    let ?l = "l\<lparr>fe_pages := p\<rparr>"
    have p: "0 < p" "fe_pages l = Suc p" using False l(1) by (auto simp: p_def block_ok_def)
    have a: "a div ARCH_PAGE_SIZE = first_frame l + p" by (simp add: a_def first_frame_def)
    have pop: "freelist_pop_rear_nolock fl = Ok (a, gl @ [?l])"
      using False fl by (simp add: freelist_pop_rear_nolock_def Let_def a_def p_def)
    have "fe_pages ?l \<le> fe_pages f \<and> apart f ?l" if "f \<in> set gl" for f
      using l(3) [OF that] apart_shrink [OF apart_sym, of f l p] p by (auto intro: apart_sym)
    then have "fl_ok (gl @ [?l])" using l p by (auto simp: fl_ok_snoc block_ok_def)
    moreover have "frames l = insert (a div ARCH_PAGE_SIZE) (frames ?l)"
      and "a div ARCH_PAGE_SIZE \<notin> frames ?l"
      unfolding a using p by (auto simp: frames_def)
    moreover have "ARCH_PAGE_SIZE dvd a" using l(1) by (simp add: a_def block_ok_def)
    ultimately show ?thesis
      using pop fl disj by auto
  qed
qed

text \<open>
  A run of pages from the front. On an ordered list the block that is used up is never put back.
\<close>

lemma pop_front_ok:
  assumes "fl_ok (e # fl)" and "0 < n"
  defines "k \<equiv> min n (fe_pages e)"
  shows "\<exists>a fl'. freelist_pop_front_nolock (e # fl) n = Ok (k, a, fl') \<and> fl_ok fl' \<and>
    ARCH_PAGE_SIZE dvd a \<and> {a div ARCH_PAGE_SIZE ..< a div ARCH_PAGE_SIZE + k} \<subseteq> frames e \<and>
    free_frames fl' = free_frames (e # fl) - {a div ARCH_PAGE_SIZE ..< a div ARCH_PAGE_SIZE + k}"
proof -
  have e: "block_ok e" "fl_ok fl" "\<And>f. f \<in> set fl \<Longrightarrow> fe_pages f \<le> fe_pages e \<and> apart e f"
    using assms(1) by (auto simp: fl_ok_Cons)
  have disj: "frames e \<inter> free_frames fl = {}" using frames_disjoint_rest assms(1) by simp
  have km: "KMIN n (fe_pages e) = k" by (simp add: KMIN_def k_def)
  show ?thesis
  proof (cases "k = fe_pages e")
    case True
    have "\<not> (fl \<noteq> [] \<and> fe_pages (hd fl) > fe_pages e)" using e(3) [of "hd fl"] by auto
    then have "freelist_pop_front_nolock (e # fl) n = Ok (k, fe_base e, fl)"
      using True km by (auto simp: freelist_pop_front_nolock_def Let_def)
    moreover have "frames e = {fe_base e div ARCH_PAGE_SIZE ..< fe_base e div ARCH_PAGE_SIZE + k}"
      using True by (simp add: frames_def first_frame_def)
    ultimately show ?thesis using e disj by (auto simp: block_ok_def)
  next
    case False
    define p where "p = fe_pages e - k"
    let ?e = "e\<lparr>fe_pages := p\<rparr>" and ?a = "fe_base e + ARCH_PAGE_SIZE * p"
    let ?big = "fl \<noteq> [] \<and> fe_pages (hd fl) > p"
    define fl' where "fl' = (if ?big then freelist_add_ordered_nolock fl ?e else ?e # fl)"
    have p: "0 < p" "p + k = fe_pages e" using False by (auto simp: p_def k_def)
    have "freelist_pop_front_nolock (e # fl) n = Ok (k, ?a, fl')"
      using False km by (simp add: freelist_pop_front_nolock_def Let_def fl'_def p_def)
    moreover have e': "block_ok ?e" "\<And>f. f \<in> set fl \<Longrightarrow> apart ?e f"
      using e p by (auto simp: block_ok_def intro: apart_shrink)
    have "fl_ok fl' \<and> set fl' = insert ?e (set fl)"
    proof (cases ?big)
      case True
      then show ?thesis using add_ordered_ok [OF e(2) e'] by (simp add: fl'_def)
    next
      case False
      then have "\<forall>f \<in> set fl. fe_pages f \<le> p" using e(2) by (cases fl) (auto simp: fl_ok_Cons)
      then show ?thesis using False e(2) e' by (auto simp: fl'_def fl_ok_Cons)
    qed
    moreover have "free_frames fl' = frames ?e \<union> free_frames fl"
      using calculation(2) by (auto simp: free_frames_def)
    moreover have a: "?a div ARCH_PAGE_SIZE = first_frame e + p" by (simp add: first_frame_def)
    have "frames e = frames ?e \<union> {?a div ARCH_PAGE_SIZE ..< ?a div ARCH_PAGE_SIZE + k}"
      and "frames ?e \<inter> {?a div ARCH_PAGE_SIZE ..< ?a div ARCH_PAGE_SIZE + k} = {}"
      unfolding a using p by (auto simp: frames_def)
    moreover have "ARCH_PAGE_SIZE dvd ?a" using e(1) by (simp add: block_ok_def)
    ultimately show ?thesis
      using disj by (intro exI [of _ ?a] exI [of _ fl']) auto
  qed
qed

section \<open>Allocation\<close>

lemma pmm_wf_list: "pmm_wf s \<Longrightarrow> fl_ok (pmm_list s)"
  by (simp add: pmm_wf_def)

lemma meta_dims_update [simp]: "meta_dims (s\<lparr>pmm_list := fl\<rparr>) = meta_dims s"
  by (simp add: meta_dims_def)

lemma page_meta_get_wf:
  "meta_dims s \<Longrightarrow> a div ARCH_PAGE_SIZE < length (pmm_meta s) \<Longrightarrow>
    page_meta_get s a = Ok (Entry (a div ARCH_PAGE_SIZE))"
  by (auto simp: page_meta_get_def PHYS_TO_META_INDEX_def meta_dims_def)

lemma clear_header_ok:
  "fl_ok (pmm_list s) \<Longrightarrow> a div ARCH_PAGE_SIZE \<notin> free_frames (pmm_list s) \<Longrightarrow> clear_header s a = Ok s"
  using base_not_free by (simp add: clear_header_def)

lemma com_mm_pmm_alloc_takes:
  assumes "pmm_wf s" and "pmm_list s \<noteq> []"
  shows "\<exists>a s'. com_mm_pmm_alloc s = Ok (a, s') \<and> ARCH_PAGE_SIZE dvd a \<and>
    takes s {a div ARCH_PAGE_SIZE} s'"
proof -
  obtain a fl' where pop: "freelist_pop_rear_nolock (pmm_list s) = Ok (a, fl')" and "fl_ok fl'"
    "ARCH_PAGE_SIZE dvd a" and a: "a div ARCH_PAGE_SIZE \<in> free_frames (pmm_list s)"
    and fl': "free_frames fl' = free_frames (pmm_list s) - {a div ARCH_PAGE_SIZE}"
    using pop_rear_ok [OF pmm_wf_list [OF assms(1)] assms(2)] by blast
  let ?f = "a div ARCH_PAGE_SIZE" and ?s1 = "s\<lparr>pmm_list := fl'\<rparr>"
  have f: "page_free s ?f" using assms(1) a by (simp add: pmm_wf_def)
  have s1: "pmm_wf ?s1" using assms(1) \<open>fl_ok fl'\<close> fl' by (auto simp: pmm_wf_def page_free_def)
  have "com_mm_pmm_alloc s = Ok (a, add_used (?s1\<lparr>pmm_meta := (pmm_meta s)[?f := taken_model]\<rparr>) 1)"
    using assms(1) pop f s1 fl' page_meta_get_wf [of ?s1 a] clear_header_ok [of ?s1 a]
    by (simp add: com_mm_pmm_alloc_def pmm_wf_def page_free_def read_meta_def write_meta_def
        taken_model_def kassert_def Let_def)
  moreover have "takes s {?f} (add_used (?s1\<lparr>pmm_meta := (pmm_meta s)[?f := taken_model]\<rparr>) 1)"
    using s1 a fl' f by (auto simp: takes_def pmm_wf_def page_free_def add_used_def nth_list_update meta_dims_def)
  ultimately show ?thesis using \<open>ARCH_PAGE_SIZE dvd a\<close> by blast
qed

lemma page_meta_set_ok:
  assumes "meta_dims s" and "0 < n" and "a div ARCH_PAGE_SIZE + n \<le> length (pmm_meta s)"
  shows "page_meta_set s a m n = Ok (s\<lparr>pmm_meta := take (a div ARCH_PAGE_SIZE) (pmm_meta s) @
    replicate n m @ drop (a div ARCH_PAGE_SIZE + n) (pmm_meta s)\<rparr>)"
  using assms page_meta_get_wf [OF assms(1), of a]
  by (simp add: page_meta_set_def PHYS_TO_META_INDEX_def fill_meta_def meta_dims_def Let_def)

lemma nth_fill:
  "i + n \<le> length xs \<Longrightarrow> j < length xs \<Longrightarrow>
    (take i xs @ replicate n x @ drop (i + n) xs) ! j = (if j \<in> {i ..< i + n} then x else xs ! j)"
  by (auto simp: nth_append min_def)

text \<open>The common part of the two allocators of several pages.\<close>

lemma front_takes:
  assumes "pmm_wf s" and "pmm_list s = e # fl" and "0 < n"
  defines "k \<equiv> min n (fe_pages e)"
  shows "\<exists>a fl' s2. freelist_pop_front_nolock (pmm_list s) n = Ok (k, a, fl') \<and> ARCH_PAGE_SIZE dvd a \<and>
    clear_header (s\<lparr>pmm_list := fl'\<rparr>) a = Ok (s\<lparr>pmm_list := fl'\<rparr>) \<and>
    page_meta_set (s\<lparr>pmm_list := fl'\<rparr>) a taken_model k = Ok s2 \<and>
    takes s {a div ARCH_PAGE_SIZE ..< a div ARCH_PAGE_SIZE + k} (add_used s2 k)"
proof -
  obtain a fl' where pop: "freelist_pop_front_nolock (pmm_list s) n = Ok (k, a, fl')" and "fl_ok fl'"
    and a: "ARCH_PAGE_SIZE dvd a" "{a div ARCH_PAGE_SIZE ..< a div ARCH_PAGE_SIZE + k} \<subseteq> frames e"
    and fl': "free_frames fl' = free_frames (pmm_list s) - {a div ARCH_PAGE_SIZE ..< a div ARCH_PAGE_SIZE + k}"
    using pop_front_ok [of e fl n] pmm_wf_list [OF assms(1)] assms(2,3) unfolding k_def by auto
  let ?s1 = "s\<lparr>pmm_list := fl'\<rparr>" and ?i = "a div ARCH_PAGE_SIZE"
  have "block_ok e" using pmm_wf_list [OF assms(1)] assms(2) by (simp add: fl_ok_Cons)
  then have k: "0 < k" using assms(3) by (simp add: k_def block_ok_def)
  then have sub: "?i + k - 1 \<in> free_frames (pmm_list s)" "{?i ..< ?i + k} \<subseteq> free_frames (pmm_list s)"
    using a(2) assms(2) by auto
  then have "?i + k - 1 < length (pmm_meta s)"
    using assms(1) by (simp add: pmm_wf_def page_free_def)
  then have le: "?i + k \<le> length (pmm_meta s)" using k by simp
  have s1: "pmm_wf ?s1" using assms(1) \<open>fl_ok fl'\<close> fl' by (auto simp: pmm_wf_def page_free_def)
  let ?m = "take ?i (pmm_meta s) @ replicate k taken_model @ drop (?i + k) (pmm_meta s)"
  have "page_meta_set ?s1 a taken_model k = Ok (?s1\<lparr>pmm_meta := ?m\<rparr>)"
    using page_meta_set_ok [OF _ k, of ?s1 a taken_model] le s1 by (simp add: pmm_wf_def)
  moreover have "clear_header ?s1 a = Ok ?s1"
    using clear_header_ok [of ?s1 a] s1 fl' k by (simp add: pmm_wf_def)
  moreover have "takes s {?i ..< ?i + k} (add_used (?s1\<lparr>pmm_meta := ?m\<rparr>) k)"
  proof -
    have m: "length ?m = length (pmm_meta s)" using le by simp
    have "page_free (add_used (?s1\<lparr>pmm_meta := ?m\<rparr>) k) f" if "f \<in> free_frames fl'" for f
      using s1 that fl' nth_fill [OF le, of f taken_model] m
      by (auto simp: pmm_wf_def page_free_def add_used_def)
    then show ?thesis
      using s1 fl' sub(2) nth_fill [OF le] m
      by (auto simp: takes_def pmm_wf_def add_used_def meta_dims_def)
  qed
  ultimately show ?thesis using pop a(1) by blast
qed

lemma com_mm_pmm_alloc_many_ok:
  assumes "pmm_wf s" and "pmm_list s = e # fl" and "0 < n" and "n \<le> fe_pages e"
  shows "\<exists>a s'. com_mm_pmm_alloc_many s n = Ok (a, s') \<and> ARCH_PAGE_SIZE dvd a \<and>
    takes s {a div ARCH_PAGE_SIZE ..< a div ARCH_PAGE_SIZE + n} s'"
proof (cases "n = 1")
  case True
  then show ?thesis
    using com_mm_pmm_alloc_takes [OF assms(1)] assms(2) by (simp add: com_mm_pmm_alloc_many_def)
next
  case False
  then show ?thesis
    using front_takes [OF assms(1-3)] assms(1,4)
    by (auto simp: com_mm_pmm_alloc_many_def pmm_wf_def min_absorb1)
qed

lemma com_mm_pmm_alloc_many_panics:
  assumes "pmm_wf s" and "1 < n" and "\<And>e. e \<in> set (pmm_list s) \<Longrightarrow> fe_pages e < n"
  shows "com_mm_pmm_alloc_many s n = Panic"
proof (cases "pmm_list s")
  case Nil
  then show ?thesis
    using assms(1,2) by (simp add: com_mm_pmm_alloc_many_def freelist_pop_front_nolock_def pmm_wf_def)
next
  case (Cons e fl)
  have "fe_pages e < n" using assms(3) [of e] Cons by simp
  then show ?thesis
    using front_takes [OF assms(1) Cons, of n] assms(1,2)
    by (auto simp: com_mm_pmm_alloc_many_def pmm_wf_def kassert_def)
qed

lemma com_mm_pmm_alloc_max_ok:
  assumes "pmm_wf s" and "pmm_list s = e # fl" and "1 < n"
  shows "\<exists>a s'. com_mm_pmm_alloc_max s old n = Ok (min n (fe_pages e), a, s') \<and> ARCH_PAGE_SIZE dvd a \<and>
    takes s {a div ARCH_PAGE_SIZE ..< a div ARCH_PAGE_SIZE + min n (fe_pages e)} s'"
  using front_takes [OF assms(1,2), of n] assms(1,3)
  by (auto simp: com_mm_pmm_alloc_max_def pmm_wf_def)

text \<open>Reference counting touches only pages that are not free.\<close>

lemma write_meta_wf:
  assumes "pmm_wf s" and "page_meta_get s a = Ok r"
    and "pm_state (read_meta s r) \<noteq> E_PAGE_STATE_FREE"
  shows "pmm_wf (write_meta s r m)" and "pmm_list (write_meta s r m) = pmm_list s"
proof -
  show "pmm_list (write_meta s r m) = pmm_list s" by (simp add: write_meta_def split: meta_ref.split)
  have "page_free (write_meta s r m) f" if f: "f \<in> free_frames (pmm_list s)" for f
  proof -
    have "page_free s f" using assms(1) f by (simp add: pmm_wf_def)
    moreover have "r \<noteq> Entry f" using assms(3) calculation by (auto simp: page_free_def read_meta_def)
    ultimately show ?thesis by (cases r) (auto simp: page_free_def write_meta_def)
  qed
  then show "pmm_wf (write_meta s r m)"
    using assms(1) by (auto simp: pmm_wf_def meta_dims_def write_meta_def split: meta_ref.splits)
qed

lemma com_mm_pmm_hold_wf:
  assumes "pmm_wf s" and "com_mm_pmm_hold s a = Ok s'"
  shows "pmm_wf s' \<and> pmm_list s' = pmm_list s"
  using assms write_meta_wf [OF assms(1)]
  by (cases "page_meta_get s a") (auto simp: com_mm_pmm_hold_def kassert_def Let_def split: if_splits)

lemma com_mm_pmm_free_wf:
  assumes "pmm_wf s" and "com_mm_pmm_free s a = Ok s'"
  shows "pmm_wf s' \<and> pmm_list s' = pmm_list s"
  using assms write_meta_wf [OF assms(1)]
  by (cases "page_meta_get s a") (auto simp: com_mm_pmm_free_def Let_def split: if_splits)

section \<open>Sequences of calls\<close>

lemma free_frames_empty: "fl_ok fl \<Longrightarrow> free_frames fl = {} \<longleftrightarrow> fl = []"
  by (cases fl) (auto simp: fl_ok_Cons block_ok_def frames_def)

lemma alloc_step:
  assumes "pmm_wf s" and "com_mm_pmm_alloc s = Ok (a, s')"
  shows "takes s {a div ARCH_PAGE_SIZE} s'"
proof (cases "pmm_list s = []")
  case True
  with assms show ?thesis
    by (simp add: com_mm_pmm_alloc_def freelist_pop_rear_nolock_def pmm_wf_def)
next
  case False
  then show ?thesis using com_mm_pmm_alloc_takes [OF assms(1)] assms(2) by auto
qed

lemma alloc_many_step:
  assumes "pmm_wf s" and "0 < n" and "com_mm_pmm_alloc_many s n = Ok (a, s')"
  shows "takes s {a div ARCH_PAGE_SIZE ..< a div ARCH_PAGE_SIZE + n} s'"
proof (cases "n = 1")
  case True
  then show ?thesis using alloc_step [OF assms(1)] assms(3) by (simp add: com_mm_pmm_alloc_many_def)
next
  case False
  then have "\<exists>e \<in> set (pmm_list s). n \<le> fe_pages e"
    using com_mm_pmm_alloc_many_panics [OF assms(1), of n] assms(2,3) by force
  then obtain e fl where e: "pmm_list s = e # fl" "n \<le> fe_pages e"
    using pmm_wf_list [OF assms(1)] by (cases "pmm_list s") (auto simp: fl_ok_Cons)
  show ?thesis using com_mm_pmm_alloc_many_ok [OF assms(1) e(1) assms(2) e(2)] assms(3) by auto
qed

lemma alloc_max_step:
  assumes "pmm_wf s" and "1 < n" and "com_mm_pmm_alloc_max s old n = Ok (k, a, s')"
  shows "takes s {a div ARCH_PAGE_SIZE ..< a div ARCH_PAGE_SIZE + k} s'"
proof (cases "pmm_list s")
  case Nil
  with assms show ?thesis
    by (simp add: com_mm_pmm_alloc_max_def freelist_pop_front_nolock_def pmm_wf_def)
next
  case (Cons e fl)
  then show ?thesis using com_mm_pmm_alloc_max_ok [OF assms(1) Cons assms(2), of old] assms(3) by auto
qed

lemma handed_out_snoc:
  assumes "handed_out s0 Fs s" and "takes s F s'"
  shows "handed_out s0 (Fs @ [F]) s'"
proof -
  have "Fs ! i \<inter> F = {}" if "i < length Fs" for i
    using assms that nth_mem [OF that] by (auto simp: handed_out_def takes_def)
  then show ?thesis using assms by (auto simp: handed_out_def takes_def nth_append)
qed

interpretation pmm_source: page_source pmm_wf "\<lambda>s. free_frames (pmm_list s)" pmm_page
proof
  fix s s' p
  assume wf: "pmm_wf s"
  show "finite (free_frames (pmm_list s))" by (simp add: free_frames_def frames_def)
  show "pmm_wf s' \<and> p \<in> free_frames (pmm_list s) \<and>
      free_frames (pmm_list s') = free_frames (pmm_list s) - {p}" if "pmm_page s = Some (p, s')"
    using that alloc_step [OF wf] by (auto simp: pmm_page_def takes_def split: res.splits)
  show "\<exists>p s'. pmm_page s = Some (p, s')" if "free_frames (pmm_list s) \<noteq> {}"
    using that com_mm_pmm_alloc_takes [OF wf] free_frames_empty [OF pmm_wf_list [OF wf]]
    by (auto simp: pmm_page_def)
qed

section \<open>Initialisation\<close>

lemma entry_block_ok:
  assumes "ARCH_PAGE_SIZE dvd mm_base e" and "ARCH_PAGE_SIZE dvd mm_length e" and "0 < mm_length e"
  shows "block_ok (entry_block e)"
  using assms by (auto simp: block_ok_def entry_block_def elim!: dvdE)

lemma memmap_block_ok: "memmap_ok es \<Longrightarrow> b \<in> set (usable_blocks es) \<Longrightarrow> block_ok b"
  by (auto simp: memmap_ok_def usable_blocks_def intro: entry_block_ok)

lemma usable_blocks_simps [simp]:
  "usable_blocks [] = []"
  "usable_blocks (e # es) = (if ARCH_MEMMAP_IS_USABLE e then entry_block e # usable_blocks es else usable_blocks es)"
  by (simp_all add: usable_blocks_def)

lemma place_placed:
  assumes "fl_ok (pmm_list s)" and "sorted_wrt apart (usable_blocks es)"
    and "\<And>b. b \<in> set (usable_blocks es) \<Longrightarrow> block_ok b \<and> (\<forall>f \<in> set (pmm_list s). apart b f)"
  shows "\<exists>fl. place_loop hia ha mp True s es = Ok (s\<lparr>pmm_list := fl\<rparr>) \<and> fl_ok fl \<and>
    set fl = set (pmm_list s) \<union> set (usable_blocks es)"
  using assms
proof (induction es arbitrary: s)
  case Nil
  then show ?case by (auto intro: exI [of _ "pmm_list s"])
next
  case (Cons e es)
  show ?case
  proof (cases "ARCH_MEMMAP_IS_USABLE e")
    case False
    with Cons show ?thesis by simp
  next
    case True
    let ?b = "entry_block e"
    let ?s = "s\<lparr>pmm_list := freelist_add_ordered_nolock (pmm_list s) ?b\<rparr>"
    have b: "block_ok ?b" "\<And>f. f \<in> set (pmm_list s) \<Longrightarrow> apart ?b f"
      using Cons.prems(3) [of ?b] True by auto
    note add = add_ordered_ok [OF Cons.prems(1) b]
    have "\<exists>fl. place_loop hia ha mp True ?s es = Ok (?s\<lparr>pmm_list := fl\<rparr>) \<and> fl_ok fl \<and>
        set fl = set (pmm_list ?s) \<union> set (usable_blocks es)"
      using Cons.prems True add by (intro Cons.IH) (auto intro: apart_sym)
    with True add(2) show ?thesis by (auto simp: add_block_def entry_block_def)
  qed
qed

lemma rest_block_props:
  assumes "block_ok (entry_block e)" and "mp * ARCH_PAGE_SIZE \<le> mm_length e" and "ARCH_PAGE_SIZE dvd mm_length e"
  shows "frames (rest_block mp e) = frames (entry_block e) - meta_frames mp e"
    and "apart (entry_block e) f \<Longrightarrow> apart (rest_block mp e) f"
    and "mm_length e \<ge> mp * ARCH_PAGE_SIZE + ARCH_PAGE_SIZE \<Longrightarrow> block_ok (rest_block mp e)"
    and "\<not> mm_length e \<ge> mp * ARCH_PAGE_SIZE + ARCH_PAGE_SIZE \<Longrightarrow> frames (entry_block e) - meta_frames mp e = {}"
proof -
  obtain l where l: "mm_length e = ARCH_PAGE_SIZE * l" using assms(3) by (auto elim: dvdE)
  have mp: "mp \<le> l" using assms(2) l by (simp add: mult.commute)
  have r: "fe_pages (rest_block mp e) = l - mp" "first_frame (rest_block mp e) = first_frame (entry_block e) + mp"
    "fe_pages (entry_block e) = l"
    using l mp by (simp_all add: rest_block_def entry_block_def first_frame_def mult.commute diff_mult_distrib2 [symmetric])
  show "frames (rest_block mp e) = frames (entry_block e) - meta_frames mp e"
    using r mp by (auto simp: frames_def meta_frames_def)
  show "apart (rest_block mp e) f" if "apart (entry_block e) f"
    using that r mp by (auto simp: apart_def)
  have room: "(mm_length e \<ge> mp * ARCH_PAGE_SIZE + ARCH_PAGE_SIZE) = (mp < l)"
  proof -
    have "mp * ARCH_PAGE_SIZE + ARCH_PAGE_SIZE = ARCH_PAGE_SIZE * Suc mp" by simp
    then show ?thesis unfolding l by (simp only: mult_le_cancel1) (simp add: Suc_le_eq)
  qed
  show "block_ok (rest_block mp e)" if "mm_length e \<ge> mp * ARCH_PAGE_SIZE + ARCH_PAGE_SIZE"
    using that r assms(1) unfolding room by (simp add: block_ok_def) (simp add: rest_block_def entry_block_def)
  show "frames (entry_block e) - meta_frames mp e = {}" if "\<not> mm_length e \<ge> mp * ARCH_PAGE_SIZE + ARCH_PAGE_SIZE"
    using that r mp unfolding room by (auto simp: frames_def meta_frames_def)
qed

lemma free_frames_set_eq: "set fl = set gl \<Longrightarrow> free_frames fl = free_frames gl"
  by (simp add: free_frames_def)

lemma free_frames_apart:
  "(\<And>f. f \<in> set fl \<Longrightarrow> apart b f) \<Longrightarrow> frames b \<inter> free_frames fl = {}"
  using apart_disjoint by (fastforce simp: free_frames_def)

lemma pmm_list_same: "pmm_list x = fl \<Longrightarrow> x\<lparr>pmm_list := fl\<rparr> = x"
  by (cases x) simp

lemma placed_state_list [simp]:
  "pmm_list (placed_state hia ha mp s e fl) = fl"
  "(placed_state hia ha mp s e fl)\<lparr>pmm_list := fl'\<rparr> = placed_state hia ha mp s e fl'"
  by (simp_all add: placed_state_def)

text \<open>The metadata array goes to the first entry that can hold it.\<close>

lemma place_here:
  assumes "fl_ok (pmm_list s)" and "sorted_wrt apart (usable_blocks (e # es))"
    and "\<And>b. b \<in> set (usable_blocks (e # es)) \<Longrightarrow> block_ok b \<and> (\<forall>f \<in> set (pmm_list s). apart b f)"
    and "ARCH_MEMMAP_IS_USABLE e" and "mp * ARCH_PAGE_SIZE \<le> mm_length e"
    and "ARCH_PAGE_SIZE dvd mm_length e" and "mm_base e + mm_length e \<le> hia" and "hia \<le> ha" and "0 < mp"
  shows "\<exists>fl. place_loop hia ha mp False s (e # es) = Ok (placed_state hia ha mp s e fl) \<and> fl_ok fl \<and>
    free_frames fl = (free_frames (pmm_list s) \<union> free_frames (usable_blocks (e # es))) - meta_frames mp e"
proof -
  let ?b = "entry_block e" and ?r = "rest_block mp e"
  let ?room = "mm_length e \<ge> mp * ARCH_PAGE_SIZE + ARCH_PAGE_SIZE"
  define fl1 where "fl1 = (if ?room then freelist_add_ordered_nolock (pmm_list s) ?r else pmm_list s)"
  let ?P = "placed_state hia ha mp s e"
  have b: "block_ok ?b" "\<And>f. f \<in> set (pmm_list s) \<Longrightarrow> apart ?b f"
    using assms(3) [of ?b] assms(4) by auto
  note rb = rest_block_props [OF b(1) assms(5,6)]
  have es: "block_ok c" "\<And>f. f \<in> set (pmm_list s) \<Longrightarrow> apart c f" "apart ?b c"
    if "c \<in> set (usable_blocks es)" for c
    using assms(2,3,4) that by auto
  have fl1: "fl_ok fl1" "set fl1 = (if ?room then {?r} else {}) \<union> set (pmm_list s)"
    using add_ordered_ok [OF assms(1) rb(3) rb(2) [OF b(2)]] assms(1) by (auto simp: fl1_def)
  have "\<exists>fl. place_loop hia ha mp True (?P fl1) es = Ok ((?P fl1)\<lparr>pmm_list := fl\<rparr>) \<and> fl_ok fl \<and>
      set fl = set (pmm_list (?P fl1)) \<union> set (usable_blocks es)"
    using fl1 assms(2,4) es rb(2) by (intro place_placed) (auto intro: apart_sym)
  then obtain fl where rest: "place_loop hia ha mp True (?P fl1) es = Ok (?P fl)" "fl_ok fl"
    and fl: "set fl = set fl1 \<union> set (usable_blocks es)"
    by auto
  let ?i = "mm_base e div ARCH_PAGE_SIZE"
  have "mm_base e + mp * ARCH_PAGE_SIZE \<le> hia" using assms(5,7) by simp
  then have "(mm_base e + mp * ARCH_PAGE_SIZE) div ARCH_PAGE_SIZE \<le> hia div ARCH_PAGE_SIZE"
    by (rule div_le_mono)
  then have "?i + mp \<le> hia div ARCH_PAGE_SIZE" by simp
  then have set: "page_meta_set (s\<lparr>pmm_meta := replicate (PAGE_META_ARRAY_LEN hia) free_meta,
        pmm_len := PAGE_META_ARRAY_LEN hia, pmm_reserved_start := PHYS_TO_META_INDEX hia,
        pmm_extended_len := PAGE_META_ARRAY_LEN ha\<rparr>) (mm_base e) reserved_model mp =
      Ok (s\<lparr>pmm_meta := pmm_meta (?P fl1), pmm_len := PAGE_META_ARRAY_LEN hia,
        pmm_reserved_start := PHYS_TO_META_INDEX hia, pmm_extended_len := PAGE_META_ARRAY_LEN ha\<rparr>)"
    using assms(8,9) by (subst page_meta_set_ok)
      (simp_all add: meta_dims_def PAGE_META_ARRAY_LEN_def PHYS_TO_META_INDEX_def div_le_mono placed_state_def)
  have "place_loop hia ha mp False s (e # es) = Ok (?P fl)"
    using assms(4,5) set rest(1)
    by (auto simp: Let_def add_block_def placed_state_def fl1_def rest_block_def PAGE_META_ARRAY_LEN_def
        PHYS_TO_META_INDEX_def pmm_list_same)
  moreover have "free_frames fl1 = free_frames (pmm_list s) \<union> (frames ?b - meta_frames mp e)"
    using fl1(2) rb(1,4) by (auto simp: free_frames_def)
  moreover have "free_frames fl = free_frames fl1 \<union> free_frames (usable_blocks es)"
    using fl by (auto simp: free_frames_def)
  moreover have "frames ?b \<inter> free_frames (pmm_list s) = {}" using b(2) by (rule free_frames_apart)
  moreover have "frames ?b \<inter> free_frames (usable_blocks es) = {}" using es(3) by (rule free_frames_apart)
  moreover have "meta_frames mp e \<subseteq> frames ?b"
    using assms(5,6) by (auto simp: meta_frames_def frames_def entry_block_def elim!: dvdE)
  ultimately show ?thesis using rest(2) assms(4) by (intro exI [of _ fl]) auto
qed

lemma place_unplaced:
  assumes "fl_ok (pmm_list s)" and "sorted_wrt apart (usable_blocks es)"
    and "\<And>b. b \<in> set (usable_blocks es) \<Longrightarrow> block_ok b \<and> (\<forall>f \<in> set (pmm_list s). apart b f)"
    and "\<And>e. e \<in> set es \<Longrightarrow> ARCH_MEMMAP_IS_USABLE e \<Longrightarrow>
      ARCH_PAGE_SIZE dvd mm_length e \<and> mm_base e + mm_length e \<le> hia"
    and "\<exists>e \<in> set es. ARCH_MEMMAP_IS_USABLE e \<and> mp * ARCH_PAGE_SIZE \<le> mm_length e"
    and "hia \<le> ha" and "0 < mp"
  shows "\<exists>e fl. e \<in> set es \<and> ARCH_MEMMAP_IS_USABLE e \<and> mp * ARCH_PAGE_SIZE \<le> mm_length e \<and>
    place_loop hia ha mp False s es = Ok (placed_state hia ha mp s e fl) \<and> fl_ok fl \<and>
    free_frames fl = (free_frames (pmm_list s) \<union> free_frames (usable_blocks es)) - meta_frames mp e"
  using assms
proof (induction es arbitrary: s)
  case Nil
  then show ?case by simp
next
  case (Cons e es)
  show ?case
  proof (cases "ARCH_MEMMAP_IS_USABLE e \<and> mp * ARCH_PAGE_SIZE \<le> mm_length e")
    case True
    have "\<exists>fl. place_loop hia ha mp False s (e # es) = Ok (placed_state hia ha mp s e fl) \<and> fl_ok fl \<and>
        free_frames fl = (free_frames (pmm_list s) \<union> free_frames (usable_blocks (e # es))) - meta_frames mp e"
      by (rule place_here) (use True Cons.prems in auto)
    with True show ?thesis by auto
  next
    case False
    define s1 where "s1 = (if ARCH_MEMMAP_IS_USABLE e
      then s\<lparr>pmm_list := freelist_add_ordered_nolock (pmm_list s) (entry_block e)\<rparr> else s)"
    have step: "place_loop hia ha mp False s (e # es) = place_loop hia ha mp False s1 es"
      using False by (auto simp: s1_def add_block_def entry_block_def)
    have s1: "fl_ok (pmm_list s1)" "set (pmm_list s1) =
        set (pmm_list s) \<union> (if ARCH_MEMMAP_IS_USABLE e then {entry_block e} else {})"
      using Cons.prems(1) Cons.prems(3) [of "entry_block e"] add_ordered_ok [OF Cons.prems(1), of "entry_block e"]
      by (auto simp: s1_def)
    have same: "placed_state hia ha mp s1 e' fl = placed_state hia ha mp s e' fl" for e' fl
      by (auto simp: placed_state_def s1_def)
    obtain e' fl where "e' \<in> set es" "ARCH_MEMMAP_IS_USABLE e'" "mp * ARCH_PAGE_SIZE \<le> mm_length e'"
      "place_loop hia ha mp False s1 es = Ok (placed_state hia ha mp s1 e' fl)" "fl_ok fl"
      and fl: "free_frames fl = (free_frames (pmm_list s1) \<union> free_frames (usable_blocks es)) - meta_frames mp e'"
    proof -
      have "\<exists>e' fl. e' \<in> set es \<and> ARCH_MEMMAP_IS_USABLE e' \<and> mp * ARCH_PAGE_SIZE \<le> mm_length e' \<and>
        place_loop hia ha mp False s1 es = Ok (placed_state hia ha mp s1 e' fl) \<and> fl_ok fl \<and>
        free_frames fl = (free_frames (pmm_list s1) \<union> free_frames (usable_blocks es)) - meta_frames mp e'"
        using Cons.prems False s1
        by (intro Cons.IH) (auto split: if_splits intro: apart_sym)
      then show ?thesis using that by blast
    qed
    moreover have "free_frames (pmm_list s1) \<union> free_frames (usable_blocks es) =
        free_frames (pmm_list s) \<union> free_frames (usable_blocks (e # es))"
      using s1(2) by (auto simp: free_frames_def)
    ultimately show ?thesis unfolding step same
      by (intro exI [of _ e'] exI [of _ fl] conjI) (simp_all only: set_simps insert_iff simp_thms)
  qed
qed

lemma scan_memmap_props:
  fixes sc es
  defines "r \<equiv> scan_memmap sc es"
  shows "sc_highest_indexed_addr sc \<le> sc_highest_indexed_addr r" (is ?A)
    and "sc_highest_indexed_addr sc \<le> sc_highest_addr sc \<Longrightarrow> sc_highest_indexed_addr r \<le> sc_highest_addr r"
    and "e \<in> set es \<Longrightarrow> ARCH_MEMMAP_IS_USABLE e \<Longrightarrow> mm_base e + mm_length e \<le> sc_highest_indexed_addr r"
    and "ARCH_PAGE_SIZE dvd sc_highest_indexed_addr sc \<Longrightarrow>
      (\<And>e. e \<in> set es \<Longrightarrow> ARCH_MEMMAP_IS_USABLE e \<or> ARCH_MEMMAP_IS_RECLAIMABLE e \<Longrightarrow>
        ARCH_PAGE_SIZE dvd mm_base e \<and> ARCH_PAGE_SIZE dvd mm_length e) \<Longrightarrow>
      ARCH_PAGE_SIZE dvd sc_highest_indexed_addr r"
    and "sc_usable r = sc_usable sc + sum_list (map mm_length (filter ARCH_MEMMAP_IS_USABLE es))"
proof -
  have mono: "sc_highest_indexed_addr sc \<le> sc_highest_indexed_addr (scan_memmap sc es)" for sc es
  proof (induction es arbitrary: sc)
    case (Cons e es)
    show ?case by (simp only: scan_memmap.simps Let_def, rule order_trans [OF _ Cons.IH]) (simp add: KMAX_def)
  qed simp
  show ?A unfolding r_def by (rule mono)
  show "sc_highest_indexed_addr r \<le> sc_highest_addr r"
    if "sc_highest_indexed_addr sc \<le> sc_highest_addr sc"
    unfolding r_def using that
    by (induction es arbitrary: sc) (auto simp: Let_def KMAX_def)
  show "mm_base e + mm_length e \<le> sc_highest_indexed_addr r"
    if "e \<in> set es" "ARCH_MEMMAP_IS_USABLE e"
    unfolding r_def using that
  proof (induction es arbitrary: sc)
    case Nil
    then show ?case by simp
  next
    case (Cons a es)
    show ?case
    proof (cases "e = a")
      case True
      with Cons.prems show ?thesis
        by (simp only: scan_memmap.simps Let_def, intro order_trans [OF _ mono]) (simp add: KMAX_def)
    next
      case False
      with Cons show ?thesis by (simp add: Let_def)
    qed
  qed
  show "ARCH_PAGE_SIZE dvd sc_highest_indexed_addr r"
    if "ARCH_PAGE_SIZE dvd sc_highest_indexed_addr sc"
      "\<And>e. e \<in> set es \<Longrightarrow> ARCH_MEMMAP_IS_USABLE e \<or> ARCH_MEMMAP_IS_RECLAIMABLE e \<Longrightarrow>
        ARCH_PAGE_SIZE dvd mm_base e \<and> ARCH_PAGE_SIZE dvd mm_length e"
    unfolding r_def using that
    by (induction es arbitrary: sc) (auto simp: Let_def KMAX_def)
  show "sc_usable r = sc_usable sc + sum_list (map mm_length (filter ARCH_MEMMAP_IS_USABLE es))"
    unfolding r_def by (induction es arbitrary: sc) (auto simp: Let_def)
qed

text \<open>Marking the other entries leaves the usable pages alone.\<close>

lemma reserve_loop_ok:
  assumes "meta_dims s" and "ARCH_PAGE_SIZE dvd hia" and "length (pmm_meta s) = hia div ARCH_PAGE_SIZE"
    and "\<And>r. r \<in> set es \<Longrightarrow> 0 < mm_length r"
    and "\<And>r. r \<in> set es \<Longrightarrow> \<not> ARCH_MEMMAP_IS_USABLE r \<Longrightarrow> X \<inter> reserved_range r = {}"
  shows "\<exists>m. reserve_loop hia s es = Ok (s\<lparr>pmm_meta := m\<rparr>) \<and> length m = length (pmm_meta s) \<and>
    (\<forall>f \<in> X. f < length m \<longrightarrow> m ! f = pmm_meta s ! f)"
  using assms
proof (induction es arbitrary: s)
  case Nil
  then show ?case by (auto intro: exI [of _ "pmm_meta s"])
next
  case (Cons r es)
  show ?case
  proof (cases "\<not> ARCH_MEMMAP_IS_USABLE r \<and> mm_base r + mm_length r < hia")
    case False
    then have "reserve_loop hia s (r # es) = reserve_loop hia s es" by auto
    with Cons show ?thesis by simp
  next
    case True
    let ?i = "mm_base r div ARCH_PAGE_SIZE"
    define n where "n = (mm_length r + ARCH_PAGE_SIZE - 1) div ARCH_PAGE_SIZE"
    let ?m = "take ?i (pmm_meta s) @ replicate n reserved_model @ drop (?i + n) (pmm_meta s)"
    let ?s = "s\<lparr>pmm_meta := ?m\<rparr>"
    have n: "0 < n" using Cons.prems(4) [of r] by (simp add: n_def div_greater_zero_iff)
    obtain h where h: "hia = ARCH_PAGE_SIZE * h" using Cons.prems(2) by (auto elim: dvdE)
    have "mm_base r + mm_length r < 4096 * h" using True h by (simp add: ARCH_PAGE_SIZE_def)
    then have "mm_base r div 4096 + (4095 + mm_length r) div 4096 \<le> h" by linarith
    then have le: "?i + n \<le> length (pmm_meta s)"
      unfolding Cons.prems(3) n_def h by (simp add: ARCH_PAGE_SIZE_def)
    have m: "length ?m = length (pmm_meta s)" using le by simp
    have step: "reserve_loop hia s (r # es) = reserve_loop hia ?s es"
      using True page_meta_set_ok [OF Cons.prems(1) n le] by (simp add: n_def)
    have "\<exists>m. reserve_loop hia ?s es = Ok (?s\<lparr>pmm_meta := m\<rparr>) \<and> length m = length (pmm_meta ?s) \<and>
        (\<forall>f \<in> X. f < length m \<longrightarrow> m ! f = pmm_meta ?s ! f)"
      using Cons.prems m by (intro Cons.IH) (auto simp: meta_dims_def)
    then obtain m where "reserve_loop hia ?s es = Ok (s\<lparr>pmm_meta := m\<rparr>)" "length m = length (pmm_meta s)"
      "\<And>f. f \<in> X \<Longrightarrow> f < length m \<Longrightarrow> m ! f = ?m ! f"
      using m by auto
    moreover have "?m ! f = pmm_meta s ! f" if "f \<in> X" "f < length (pmm_meta s)" for f
      using nth_fill [OF le that(2), of reserved_model] Cons.prems(5) [of r] True that(1)
      by (auto simp: reserved_range_def n_def)
    ultimately show ?thesis unfolding step by auto
  qed
qed

lemma card_apart_blocks:
  "sorted_wrt apart bs \<Longrightarrow> card (free_frames bs) = sum_list (map fe_pages bs)"
proof (induction bs)
  case Nil
  then show ?case by simp
next
  case (Cons b bs)
  have "frames b \<inter> free_frames bs = {}" using Cons.prems by (intro free_frames_apart) auto
  moreover have "finite (free_frames bs)" by (simp add: free_frames_def frames_def)
  ultimately show ?case using Cons by (simp add: card_Un_disjoint frames_def)
qed

lemma usable_length_pages:
  "(\<And>e. e \<in> set es \<Longrightarrow> ARCH_MEMMAP_IS_USABLE e \<Longrightarrow> ARCH_PAGE_SIZE dvd mm_length e) \<Longrightarrow>
    sum_list (map mm_length (filter ARCH_MEMMAP_IS_USABLE es)) =
    sum_list (map fe_pages (usable_blocks es)) * ARCH_PAGE_SIZE"
  by (induction es) (auto simp: entry_block_def add_mult_distrib)

lemma usable_frame_bound:
  assumes "f \<in> free_frames (usable_blocks es)"
    and "\<And>e. e \<in> set es \<Longrightarrow> ARCH_MEMMAP_IS_USABLE e \<Longrightarrow>
      ARCH_PAGE_SIZE dvd mm_length e \<and> mm_base e + mm_length e \<le> hia"
  shows "f < hia div ARCH_PAGE_SIZE"
proof -
  obtain e where e: "e \<in> set es" "ARCH_MEMMAP_IS_USABLE e" "f \<in> frames (entry_block e)"
    using assms(1) by (auto simp: free_frames_def usable_blocks_def)
  obtain l where l: "mm_length e = ARCH_PAGE_SIZE * l" using assms(2) [OF e(1,2)] by (auto elim: dvdE)
  have "f < (mm_base e + mm_length e) div ARCH_PAGE_SIZE"
    using e(3) l by (simp add: frames_def first_frame_def entry_block_def)
  also have "\<dots> \<le> hia div ARCH_PAGE_SIZE" using assms(2) [OF e(1,2)] by (simp add: div_le_mono)
  finally show ?thesis .
qed

lemma placed_meta:
  assumes "f < hia div ARCH_PAGE_SIZE" and "f \<notin> meta_frames mp e"
    and "mm_base e div ARCH_PAGE_SIZE + mp \<le> hia div ARCH_PAGE_SIZE"
  shows "pmm_meta (placed_state hia ha mp s e fl) ! f = free_meta"
  using assms nth_fill [of "mm_base e div ARCH_PAGE_SIZE" mp "replicate (hia div ARCH_PAGE_SIZE) free_meta" f]
  by (auto simp: placed_state_def meta_frames_def entry_block_def first_frame_def)

lemma memmap_disjoint:
  "memmap_ok es \<Longrightarrow> r \<in> set es \<Longrightarrow> \<not> ARCH_MEMMAP_IS_USABLE r \<Longrightarrow>
    free_frames (usable_blocks es) \<inter> reserved_range r = {}"
  unfolding memmap_ok_def free_frames_def usable_blocks_def by (simp del: disjoint_iff) blast

lemma memmap_hia_props:
  assumes "memmap_ok es"
  shows "memmap_hia es \<le> sc_highest_addr (scan_memmap \<lparr>sc_highest_addr = 0, sc_highest_indexed_addr = 0,
      sc_reserved = 0, sc_usable = 0\<rparr> es)"
    and "ARCH_PAGE_SIZE dvd memmap_hia es"
    and "e \<in> set es \<Longrightarrow> ARCH_MEMMAP_IS_USABLE e \<Longrightarrow>
      ARCH_PAGE_SIZE dvd mm_length e \<and> mm_base e + mm_length e \<le> memmap_hia es"
    and "e \<in> set es \<Longrightarrow> ARCH_MEMMAP_IS_USABLE e \<Longrightarrow> 0 < memmap_meta_pages es"
proof -
  let ?sc = "\<lparr>sc_highest_addr = 0, sc_highest_indexed_addr = 0, sc_reserved = 0, sc_usable = 0\<rparr>"
  have al: "ARCH_MEMMAP_IS_USABLE e \<or> ARCH_MEMMAP_IS_RECLAIMABLE e \<Longrightarrow>
      ARCH_PAGE_SIZE dvd mm_base e \<and> ARCH_PAGE_SIZE dvd mm_length e" if "e \<in> set es" for e
    using assms that by (auto simp: memmap_ok_def)
  show "memmap_hia es \<le> sc_highest_addr (scan_memmap ?sc es)"
    unfolding memmap_hia_def by (rule scan_memmap_props(2)) simp
  show dvd: "ARCH_PAGE_SIZE dvd memmap_hia es"
    unfolding memmap_hia_def by (rule scan_memmap_props(4)) (use al in auto)
  show top: "ARCH_PAGE_SIZE dvd mm_length e \<and> mm_base e + mm_length e \<le> memmap_hia es"
    if "e \<in> set es" "ARCH_MEMMAP_IS_USABLE e" for e
    unfolding memmap_hia_def using scan_memmap_props(3) [OF that] al [OF that(1)] that(2) by blast
  show "0 < memmap_meta_pages es" if "e \<in> set es" "ARCH_MEMMAP_IS_USABLE e"
  proof -
    have "0 < mm_length e" using assms that(1) by (simp add: memmap_ok_def)
    then have "0 < memmap_hia es" using top [OF that] by linarith
    then show ?thesis
      using dvd by (auto simp: memmap_meta_pages_def PAGE_META_ARRAY_SIZE_def PAGE_META_ARRAY_LEN_def
          div_greater_zero_iff elim!: dvdE)
  qed
qed

lemma place_init:
  assumes "memmap_ok es" and "pmm_list s0 = []" and "memmap_hia es \<le> ha"
    and "\<exists>e \<in> set es. ARCH_MEMMAP_IS_USABLE e \<and> memmap_meta_pages es * ARCH_PAGE_SIZE \<le> mm_length e"
  shows "\<exists>e fl. e \<in> set es \<and> ARCH_MEMMAP_IS_USABLE e \<and>
    memmap_meta_pages es * ARCH_PAGE_SIZE \<le> mm_length e \<and>
    place_loop (memmap_hia es) ha (memmap_meta_pages es) False s0 es =
      Ok (placed_state (memmap_hia es) ha (memmap_meta_pages es) s0 e fl) \<and> fl_ok fl \<and>
    free_frames fl = free_frames (usable_blocks es) - meta_frames (memmap_meta_pages es) e"
proof -
  have "\<exists>e fl. e \<in> set es \<and> ARCH_MEMMAP_IS_USABLE e \<and> memmap_meta_pages es * ARCH_PAGE_SIZE \<le> mm_length e \<and>
      place_loop (memmap_hia es) ha (memmap_meta_pages es) False s0 es =
        Ok (placed_state (memmap_hia es) ha (memmap_meta_pages es) s0 e fl) \<and> fl_ok fl \<and>
      free_frames fl = (free_frames (pmm_list s0) \<union> free_frames (usable_blocks es)) -
        meta_frames (memmap_meta_pages es) e"
    using assms memmap_hia_props(3,4) [OF assms(1)] memmap_block_ok [OF assms(1)]
    by (intro place_unplaced) (auto simp: memmap_ok_def)
  then show ?thesis using assms(2) by simp
qed

text \<open>The free bytes after boot: the usable entries less the metadata array.\<close>

lemma init_free_bytes:
  assumes "memmap_ok es" and "e \<in> set es" and "ARCH_MEMMAP_IS_USABLE e" and "mp * ARCH_PAGE_SIZE \<le> mm_length e"
  shows "of_nat (sum_list (map mm_length (filter ARCH_MEMMAP_IS_USABLE es))) - of_nat (mp * ARCH_PAGE_SIZE) =
    (of_nat (card (free_frames (usable_blocks es) - meta_frames mp e) * ARCH_PAGE_SIZE) :: u64)"
proof -
  let ?U = "free_frames (usable_blocks es)"
  have l: "ARCH_PAGE_SIZE dvd mm_length e" using memmap_hia_props(3) [OF assms(1-3)] by simp
  have "meta_frames mp e \<subseteq> frames (entry_block e)"
    using l assms(4) by (auto simp: meta_frames_def frames_def entry_block_def elim!: dvdE)
  also have "\<dots> \<subseteq> ?U" using assms(2,3) by (auto simp: free_frames_def usable_blocks_def)
  finally have sub: "meta_frames mp e \<subseteq> ?U" .
  have "finite (meta_frames mp e)" "card (meta_frames mp e) = mp" by (simp_all add: meta_frames_def)
  then have diff: "card (?U - meta_frames mp e) = card ?U - mp" using sub by (simp add: card_Diff_subset)
  have U: "finite ?U" by (simp add: free_frames_def frames_def)
  have le: "mp \<le> card ?U" using card_mono [OF U sub] \<open>card (meta_frames mp e) = mp\<close> by simp
  have "sum_list (map mm_length (filter ARCH_MEMMAP_IS_USABLE es)) = card ?U * ARCH_PAGE_SIZE"
    using usable_length_pages [of es] card_apart_blocks [of "usable_blocks es"]
      memmap_hia_props(3) [OF assms(1)] assms(1) by (simp add: memmap_ok_def)
  then show ?thesis using le by (simp add: diff diff_mult_distrib of_nat_diff)
qed

lemma com_mm_pmm_init_ok:
  assumes "memmap_ok es"
    and "\<exists>e \<in> set es. ARCH_MEMMAP_IS_USABLE e \<and> memmap_meta_pages es * ARCH_PAGE_SIZE \<le> mm_length e"
  shows "\<exists>s e. com_mm_pmm_init es = Ok s \<and> pmm_wf s \<and> e \<in> set es \<and> ARCH_MEMMAP_IS_USABLE e \<and>
    free_frames (pmm_list s) = free_frames (usable_blocks es) - meta_frames (memmap_meta_pages es) e \<and>
    st_free (pmm_stats s) = of_nat (card (free_frames (pmm_list s)) * ARCH_PAGE_SIZE)"
proof -
  define sc where "sc = scan_memmap \<lparr>sc_highest_addr = 0, sc_highest_indexed_addr = 0,
    sc_reserved = 0, sc_usable = 0\<rparr> es"
  define hia ha mp where "hia = memmap_hia es" and "ha = sc_highest_addr sc" and "mp = memmap_meta_pages es"
  define s0 where "s0 = \<lparr>pmm_list = [], pmm_lock = False, pmm_meta = [], pmm_len = 0, pmm_reserved_start = 0,
    pmm_extended_len = 0, pmm_fake = reserved_model,
    pmm_stats = \<lparr>st_total = of_nat ha, st_usable = of_nat (sc_usable sc),
      st_reserved = of_nat (sc_reserved sc), st_free = 0, st_used = 0\<rparr>\<rparr>"
  note hia = memmap_hia_props [OF assms(1), folded hia_def mp_def sc_def, folded ha_def]
  obtain e fl where e: "e \<in> set es" "ARCH_MEMMAP_IS_USABLE e" "mp * ARCH_PAGE_SIZE \<le> mm_length e"
    and place: "place_loop hia ha mp False s0 es = Ok (placed_state hia ha mp s0 e fl)" and fl: "fl_ok fl"
    and fr: "free_frames fl = free_frames (usable_blocks es) - meta_frames mp e"
    using place_init [OF assms(1), of s0 ha] hia(1) assms(2)
    by (auto simp: s0_def hia_def [symmetric] mp_def [symmetric])
  let ?s1 = "placed_state hia ha mp s0 e fl"
  have "mm_base e + mp * ARCH_PAGE_SIZE \<le> hia" using hia(3) [OF e(1,2)] e(3) by simp
  then have "(mm_base e + mp * ARCH_PAGE_SIZE) div ARCH_PAGE_SIZE \<le> hia div ARCH_PAGE_SIZE"
    by (rule div_le_mono)
  then have in_array: "mm_base e div ARCH_PAGE_SIZE + mp \<le> hia div ARCH_PAGE_SIZE" by simp
  have dims: "meta_dims ?s1" "length (pmm_meta ?s1) = hia div ARCH_PAGE_SIZE"
    using in_array div_le_mono [OF hia(1)] by (simp_all add: meta_dims_def placed_state_def)
  obtain m where res: "reserve_loop hia ?s1 es = Ok (?s1\<lparr>pmm_meta := m\<rparr>)"
    and m: "length m = hia div ARCH_PAGE_SIZE"
      "\<And>f. f \<in> free_frames (usable_blocks es) \<Longrightarrow> f < length m \<Longrightarrow> m ! f = pmm_meta ?s1 ! f"
    using reserve_loop_ok [OF dims(1) hia(2) dims(2), of es "free_frames (usable_blocks es)"] dims(2)
      memmap_disjoint [OF assms(1)] assms(1) by (auto simp: memmap_ok_def)
  define s where "s = (?s1\<lparr>pmm_meta := m\<rparr>)\<lparr>pmm_stats := (pmm_stats ?s1)\<lparr>st_free := st_usable (pmm_stats ?s1)\<rparr>\<rparr>"
  have "com_mm_pmm_init es = res_bind (place_loop hia ha mp False s0 es) (\<lambda>s1.
      res_bind (reserve_loop hia s1 es) (\<lambda>s2.
      Ok (s2\<lparr>pmm_stats := (pmm_stats s2)\<lparr>st_free := st_usable (pmm_stats s2)\<rparr>\<rparr>)))"
    unfolding com_mm_pmm_init_def Let_def hia_def ha_def mp_def s0_def sc_def memmap_hia_def
      memmap_meta_pages_def ..
  then have init: "com_mm_pmm_init es = Ok s" using place res by (simp add: s_def)
  have "page_free s f" if "f \<in> free_frames fl" for f
  proof -
    have f: "f \<in> free_frames (usable_blocks es)" "f \<notin> meta_frames mp e" using that fr by auto
    then have "f < hia div ARCH_PAGE_SIZE" using hia(3) by (intro usable_frame_bound) auto
    with f m placed_meta [OF this f(2) in_array] show ?thesis
      by (simp add: page_free_def s_def free_meta_def)
  qed
  then have "pmm_wf s"
    using fl dims(1) m(1) dims(2)
    by (auto simp: pmm_wf_def s_def meta_dims_def) (simp add: placed_state_def s0_def)
  moreover have "st_free (pmm_stats s) = of_nat (card (free_frames (pmm_list s)) * ARCH_PAGE_SIZE)"
    using init_free_bytes [OF assms(1) e] scan_memmap_props(5) [of _ es] fr
    by (simp add: s_def placed_state_def s0_def sc_def)
  ultimately show ?thesis using init e fr by (intro exI [of _ s] exI [of _ e]) (simp add: s_def mp_def)
qed

lemma pmm_run_handed_out: "pmm_wf s0 \<Longrightarrow> pmm_run s0 Fs s \<Longrightarrow> handed_out s0 Fs s"
proof (rotate_tac, induction rule: pmm_run.induct)
  case start
  then show ?case by (simp add: handed_out_def)
next
  case (alloc Fs s a s')
  then have "pmm_wf s" by (simp add: handed_out_def)
  with alloc show ?case by (intro handed_out_snoc alloc_step) auto
next
  case (alloc_many Fs s n a s')
  then have "pmm_wf s" by (simp add: handed_out_def)
  with alloc_many show ?case by (intro handed_out_snoc alloc_many_step) auto
next
  case (alloc_max Fs s n old k a s')
  then have "pmm_wf s" by (simp add: handed_out_def)
  with alloc_max show ?case by (intro handed_out_snoc alloc_max_step) auto
next
  case (hold Fs s a s')
  then show ?case using com_mm_pmm_hold_wf by (auto simp: handed_out_def)
next
  case (free Fs s a s')
  then show ?case using com_mm_pmm_free_wf by (auto simp: handed_out_def)
qed

section \<open>Properties\<close>


lemma small_map_ok:
  "memmap_ok small_map"
  "\<exists>e \<in> set small_map. ARCH_MEMMAP_IS_USABLE e \<and> memmap_meta_pages small_map * ARCH_PAGE_SIZE \<le> mm_length e"
  by (auto simp: small_map_def memmap_ok_def ARCH_MEMMAP_IS_USABLE_def ARCH_MEMMAP_IS_RECLAIMABLE_def
      ARCH_PAGE_SIZE_def apart_def first_frame_def entry_block_def frames_def reserved_range_def
      memmap_meta_pages_def memmap_hia_def PAGE_META_ARRAY_SIZE_def PAGE_META_ARRAY_LEN_def KMAX_def Let_def)




text \<open>
  C22: a request for a run of pages succeeds exactly when some free block is long enough (the largest is
  always at the front), and otherwise panics. On success the run is page aligned, lies in pages that
  were free, its metadata becomes taken with one reference, no other metadata changes, and the used
  and free statistics move by its size.
\<close>

theorem com_mm_pmm_alloc_many_exact:
  assumes "pmm_wf s" and "0 < n"
  shows "if \<exists>e \<in> set (pmm_list s). n \<le> fe_pages e
    then \<exists>a s'. com_mm_pmm_alloc_many s n = Ok (a, s') \<and> ARCH_PAGE_SIZE dvd a \<and>
      takes s {a div ARCH_PAGE_SIZE ..< a div ARCH_PAGE_SIZE + n} s'
    else com_mm_pmm_alloc_many s n = Panic"
proof (cases "pmm_list s")
  case Nil
  then show ?thesis
    using assms by (simp add: com_mm_pmm_alloc_many_def com_mm_pmm_alloc_def freelist_pop_rear_nolock_def
        freelist_pop_front_nolock_def pmm_wf_def)
next
  case (Cons e fl)
  have e: "block_ok e" "\<And>f. f \<in> set fl \<Longrightarrow> fe_pages f \<le> fe_pages e"
    using pmm_wf_list [OF assms(1)] Cons by (auto simp: fl_ok_Cons)
  show ?thesis
  proof (cases "n \<le> fe_pages e")
    case True
    with com_mm_pmm_alloc_many_ok [OF assms(1) Cons assms(2)] Cons show ?thesis by auto
  next
    case False
    then have small: "fe_pages f < n" if "f \<in> set (pmm_list s)" for f
      using that Cons e(2) [of f] by auto
    have "1 < n" using False e(1) by (auto simp: block_ok_def)
    with com_mm_pmm_alloc_many_panics [OF assms(1) _ small] small show ?thesis by (auto simp: not_le)
  qed
qed

theorem com_mm_pmm_alloc_many_exact_witness:
  "\<exists>s. com_mm_pmm_init small_map = Ok s \<and>
    (if \<exists>e \<in> set (pmm_list s). 3 \<le> fe_pages e
     then \<exists>a s'. com_mm_pmm_alloc_many s 3 = Ok (a, s') \<and> ARCH_PAGE_SIZE dvd a \<and>
       takes s {a div ARCH_PAGE_SIZE ..< a div ARCH_PAGE_SIZE + 3} s'
     else com_mm_pmm_alloc_many s 3 = Panic)"
proof -
  obtain s where "com_mm_pmm_init small_map = Ok s" "pmm_wf s"
    using com_mm_pmm_init_ok [OF small_map_ok] by blast
  with com_mm_pmm_alloc_many_exact [of s 3] show ?thesis by (intro exI [of _ s] conjI) simp_all
qed

text \<open>
  single pages run out only when none is free: from a well formed allocator as many pages as are
  free can be allocated one by one, all different, and those left are exactly the others.
\<close>

theorem pmm_draws_all_pages:
  assumes "pmm_wf s" and "n \<le> card (free_frames (pmm_list s))"
  shows "\<exists>ps s'. draw pmm_page s n = Some (ps, s') \<and> pmm_wf s' \<and> distinct ps \<and> length ps = n \<and>
    set ps \<subseteq> free_frames (pmm_list s) \<and> free_frames (pmm_list s') = free_frames (pmm_list s) - set ps"
  using pmm_source.draw_distinct [OF assms] .

theorem pmm_draws_all_pages_witness:
  "\<exists>s ps s'. com_mm_pmm_init small_map = Ok s \<and>
    draw pmm_page s (card (free_frames (pmm_list s))) = Some (ps, s') \<and> distinct ps"
proof -
  obtain s where "com_mm_pmm_init small_map = Ok s" "pmm_wf s"
    using com_mm_pmm_init_ok [OF small_map_ok] by blast
  with pmm_draws_all_pages [of s "card (free_frames (pmm_list s))"] show ?thesis by blast
qed

text \<open>
  what the order of the free list is needed for. When the first block is shorter than the second
  and a request uses it up, the block is handed out and put back into the free list at once, so that
  its pages are both in use and free. The witness reaches such a list from an ordered one: a block
  that shrinks to one page is merged into the last block, which grows past its neighbour.
\<close>

theorem pop_front_unordered_keeps_block:
  assumes "fe_pages a < fe_pages b" and "fe_pages a \<le> n" and "fe_pages a \<noteq> 1"
  shows "\<exists>fl'. freelist_pop_front_nolock (a # b # fl) n = Ok (fe_pages a, fe_base a, fl') \<and> a \<in> set fl'"
  using assms
  by (auto simp: freelist_pop_front_nolock_def KMIN_def Let_def freelist_add_ordered_nolock_def)

theorem pop_front_unordered_keeps_block_witness:
  "freelist_pop_front_nolock [\<lparr>fe_base = 28672, fe_pages = 5\<rparr>, \<lparr>fe_base = 409600, fe_pages = 5\<rparr>,
      \<lparr>fe_base = 8192, fe_pages = 5\<rparr>] 4 =
    Ok (4, 32768, [\<lparr>fe_base = 409600, fe_pages = 5\<rparr>, \<lparr>fe_base = 8192, fe_pages = 6\<rparr>]) \<and>
   (\<exists>fl'. freelist_pop_front_nolock [\<lparr>fe_base = 409600, fe_pages = 5\<rparr>, \<lparr>fe_base = 8192, fe_pages = 6\<rparr>] 9 =
      Ok (5, 409600, fl') \<and> \<lparr>fe_base = 409600, fe_pages = 5\<rparr> \<in> set fl')"
  using pop_front_unordered_keeps_block
    [of "\<lparr>fe_base = 409600, fe_pages = 5\<rparr>" "\<lparr>fe_base = 8192, fe_pages = 6\<rparr>" 9 "[]"]
  by (simp add: freelist_pop_front_nolock_def KMIN_def Let_def freelist_add_ordered_nolock_def ARCH_PAGE_SIZE_def)

end
