(* ===== verification/Slab.thy ===== *)
theory Slab
  imports Pmm
begin

text \<open>
  The slab allocator of \<^verbatim>\<open>src/com/mm/slab.c\<close> on top of the page allocator. A free object starts
  with the address of the next free object of its size class. Addresses are direct-map addresses
  as natural numbers; of the contents of objects the model keeps the first word, which is all the
  allocator reads.
\<close>

section \<open>State and operations\<close>

definition ARCH_PHYS_TO_HHDM :: "nat \<Rightarrow> nat" where
  "ARCH_PHYS_TO_HHDM addr = 0xffff800000000000 + addr"

definition NUM_SLABS :: nat where
  "NUM_SLABS = ARCH_PAGE_SIZE div 16"

record slabs =
  sl_next :: "nat list"
  sl_lock :: bool
  sl_mem :: "nat \<Rightarrow> nat"
  sl_pmm :: pmm

text \<open>\<open>link_loop mem p esz n\<close> links \<open>n\<close> objects, from address \<open>p\<close> on, each to its successor.\<close>

fun link_loop :: "(nat \<Rightarrow> nat) \<Rightarrow> nat \<Rightarrow> nat \<Rightarrow> nat \<Rightarrow> nat \<Rightarrow> nat" where
  "link_loop mem p esz 0 = mem"
| "link_loop mem p esz (Suc n) = link_loop (mem(p := p + esz)) (p + esz) esz n"

text \<open>The size of zero makes the division fault.\<close>

definition slab_init :: "slabs \<Rightarrow> nat \<Rightarrow> nat \<Rightarrow> slabs res" where
  "slab_init s i size0 =
     (let entry_size = (size0 + 15) div 16 * 16 in
      res_bind (com_mm_pmm_alloc_zero (sl_pmm s)) (\<lambda>(new_page, pmm').
        kassert (entry_size \<noteq> 0)
          (let base = ARCH_PHYS_TO_HHDM new_page;
               max = ARCH_PAGE_SIZE div entry_size - 1;
               mem1 = link_loop (sl_mem s) base entry_size max
           in Ok (s\<lparr>sl_next := (sl_next s)[i := base],
                    sl_mem := mem1(base + max * entry_size := 0), sl_pmm := pmm'\<rparr>))))"

definition com_mm_slab_alloc :: "slabs \<Rightarrow> nat \<Rightarrow> (nat \<times> slabs) res" where
  "com_mm_slab_alloc s size0 =
     (let i = (size0 + 15) div 16 in
      kassert (i < NUM_SLABS)
        (if sl_lock s then Blocked
         else res_bind (if sl_next s ! i = 0 then slab_init s i size0 else Ok s) (\<lambda>s1.
           let old_next = sl_next s1 ! i;
               s2 = s1\<lparr>sl_next := (sl_next s1)[i := sl_mem s1 old_next]\<rparr>
           in Ok (old_next, s2\<lparr>sl_mem := (sl_mem s2)(old_next := 0)\<rparr>))))"

text \<open>A \<^verbatim>\<open>NULL\<close> pointer is the address zero.\<close>

definition com_mm_slab_free :: "slabs \<Rightarrow> nat \<Rightarrow> nat \<Rightarrow> slabs res" where
  "com_mm_slab_free s ptr size0 =
     (if ptr = 0 then Ok s
      else let i = (size0 + 15) div 16 in
        kassert (i < NUM_SLABS)
          (if sl_lock s then Blocked
           else Ok (s\<lparr>sl_mem := (sl_mem s)(ptr := sl_next s ! i), sl_next := (sl_next s)[i := ptr]\<rparr>)))"

section \<open>Invariant\<close>

text \<open>An object is its address and its size class.\<close>

definition obj_range :: "nat \<times> nat \<Rightarrow> nat set" where
  "obj_range x = {fst x ..< fst x + 16 * snd x}"

definition frame_range :: "nat \<Rightarrow> nat set" where
  "frame_range f = {ARCH_PHYS_TO_HHDM (f * ARCH_PAGE_SIZE) ..< ARCH_PHYS_TO_HHDM (f * ARCH_PAGE_SIZE) + ARCH_PAGE_SIZE}"

fun chain :: "(nat \<Rightarrow> nat) \<Rightarrow> nat \<Rightarrow> nat list \<Rightarrow> bool" where
  "chain mem p [] = (p = 0)"
| "chain mem p (x # xs) = (p = x \<and> p \<noteq> 0 \<and> chain mem (mem p) xs)"

definition free_objs :: "(nat \<Rightarrow> nat list) \<Rightarrow> (nat \<times> nat) set" where
  "free_objs F = {(a, i). i < NUM_SLABS \<and> a \<in> set (F i)}"

definition objs_ok :: "pmm \<Rightarrow> (nat \<times> nat) set \<Rightarrow> bool" where
  "objs_ok p X \<longleftrightarrow> (\<forall>x \<in> X. \<forall>y \<in> X. x \<noteq> y \<longrightarrow> obj_range x \<inter> obj_range y = {}) \<and>
     (\<forall>x \<in> X. 0 < snd x \<and> snd x < NUM_SLABS \<and> 16 dvd fst x \<and>
        (\<exists>f. f \<notin> free_frames (pmm_list p) \<and> obj_range x \<subseteq> frame_range f))"

text \<open>\<open>F\<close> gives the free objects of every class in list order, \<open>L\<close> the live objects.\<close>

definition slab_inv :: "slabs \<Rightarrow> (nat \<Rightarrow> nat list) \<Rightarrow> (nat \<times> nat) set \<Rightarrow> bool" where
  "slab_inv s F L \<longleftrightarrow> pmm_wf (sl_pmm s) \<and> length (sl_next s) = NUM_SLABS \<and> \<not> sl_lock s \<and>
     (\<forall>i < NUM_SLABS. chain (sl_mem s) (sl_next s ! i) (F i) \<and> distinct (F i)) \<and>
     free_objs F \<inter> L = {} \<and> objs_ok (sl_pmm s) (free_objs F \<union> L)"

text \<open>Calls and writes of the owners of live objects into their first word.\<close>

inductive slab_run :: "slabs \<Rightarrow> slabs \<Rightarrow> (nat \<times> nat) set \<Rightarrow> bool" for s0 where
  start: "slab_run s0 s0 {}"
| alloc: "slab_run s0 s L \<Longrightarrow> com_mm_slab_alloc s n = Ok (a, s') \<Longrightarrow>
    slab_run s0 s' (insert (a, (n + 15) div 16) L)"
| free: "slab_run s0 s L \<Longrightarrow> (a, (n + 15) div 16) \<in> L \<Longrightarrow> com_mm_slab_free s a n = Ok s' \<Longrightarrow>
    slab_run s0 s' (L - {(a, (n + 15) div 16)})"
| store: "slab_run s0 s L \<Longrightarrow> (a, i) \<in> L \<Longrightarrow>
    slab_run s0 (s\<lparr>sl_mem := (sl_mem s)(a := v)\<rparr>) L"

definition page_objs :: "nat \<Rightarrow> nat \<Rightarrow> nat \<Rightarrow> nat list" where
  "page_objs p esz n = map (\<lambda>k. p + k * esz) [0..<n]"

definition slab_boot :: "pmm \<Rightarrow> slabs" where
  "slab_boot p = \<lparr>sl_next = replicate NUM_SLABS 0, sl_lock = False, sl_mem = (\<lambda>_. 0), sl_pmm = p\<rparr>"

section \<open>Chains\<close>

lemma chain_frame: "(\<And>x. x \<in> set xs \<Longrightarrow> mem' x = mem x) \<Longrightarrow> chain mem' p xs = chain mem p xs"
  by (induction xs arbitrary: p) auto

lemma chain_update [simp]: "a \<notin> set xs \<Longrightarrow> chain (mem(a := v)) p xs = chain mem p xs"
  by (rule chain_frame) auto

text \<open>The addresses of the objects of a fresh page.\<close>

lemma page_objs_Suc: "page_objs p esz (Suc n) = p # page_objs (p + esz) esz n"
  unfolding page_objs_def by (simp add: upt_rec [of 0 "Suc n"] map_Suc_upt [symmetric] del: upt_Suc)

lemma link_loop_chain:
  assumes "0 < p" and "0 < esz"
  shows "chain ((link_loop mem p esz n)(p + n * esz := 0)) p (page_objs p esz (Suc n))"
  using assms
proof (induction n arbitrary: p mem)
  case 0
  then show ?case by (simp add: page_objs_def)
next
  case (Suc n)
  have "chain ((link_loop (mem(p := p + esz)) (p + esz) esz n)(p + esz + n * esz := 0)) (p + esz)
      (page_objs (p + esz) esz (Suc n))"
    using Suc by (intro Suc.IH) auto
  moreover have "link_loop m q esz n p = m p" if "p < q" for m q
    using that by (induction n arbitrary: m q) auto
  ultimately show ?case
    using Suc.prems by (subst page_objs_Suc) (simp add: ac_simps)
qed

lemma link_loop_frame:
  "(\<And>k. k < n \<Longrightarrow> x \<noteq> p + k * esz) \<Longrightarrow> link_loop mem p esz n x = mem x"
proof (induction n arbitrary: p mem)
  case 0
  then show ?case by simp
next
  case (Suc n)
  have "x \<noteq> p + esz + k * esz" if "k < n" for k
    using Suc.prems [of "Suc k"] that by (simp add: ac_simps)
  with Suc.IH [of "p + esz"] Suc.prems [of 0] show ?case by simp
qed

section \<open>Fresh pages\<close>

lemma frame_range_disjoint: "f \<noteq> g \<Longrightarrow> frame_range f \<inter> frame_range g = {}"
proof -
  have "frame_range f \<inter> frame_range g = {}" if "f < g" for f g
  proof -
    have "Suc f * ARCH_PAGE_SIZE \<le> g * ARCH_PAGE_SIZE" using that by (intro mult_le_mono1) simp
    then show ?thesis by (auto simp: frame_range_def ARCH_PHYS_TO_HHDM_def)
  qed
  then show "f \<noteq> g \<Longrightarrow> ?thesis" by (metis inf_commute linorder_neqE_nat)
qed

lemma set_page_objs: "set (page_objs p esz n) = {p + k * esz | k. k < n}"
  by (auto simp: page_objs_def)

lemma distinct_page_objs: "0 < esz \<Longrightarrow> distinct (page_objs p esz n)"
  by (auto simp: page_objs_def distinct_map inj_on_def)

lemma page_objs_disjoint:
  assumes "p + k * (16 * i) \<noteq> p + l * (16 * i)"
  shows "obj_range (p + k * (16 * i), i) \<inter> obj_range (p + l * (16 * i), i) = {}"
proof -
  have "obj_range (p + k * (16 * i), i) \<inter> obj_range (p + l * (16 * i), i) = {}" if "k < l" for k l
  proof -
    have "Suc k * (16 * i) \<le> l * (16 * i)" using that by (intro mult_le_mono1) simp
    then show ?thesis by (auto simp: obj_range_def)
  qed
  then show ?thesis using assms by (metis inf_commute linorder_neqE_nat)
qed

lemma page_obj_in_frame:
  assumes "k < ARCH_PAGE_SIZE div (16 * i)" and "0 < i"
  shows "obj_range (ARCH_PHYS_TO_HHDM (f * ARCH_PAGE_SIZE) + k * (16 * i), i) \<subseteq> frame_range f"
proof -
  have "Suc k * (16 * i) \<le> ARCH_PAGE_SIZE div (16 * i) * (16 * i)"
    using assms(1) by (intro mult_le_mono1) simp
  also have "\<dots> \<le> ARCH_PAGE_SIZE" by simp
  finally show ?thesis by (auto simp: obj_range_def frame_range_def)
qed

lemma objs_ok_frame:
  "objs_ok p X \<Longrightarrow> x \<in> X \<Longrightarrow> \<exists>f. f \<notin> free_frames (pmm_list p) \<and> obj_range x \<subseteq> frame_range f"
  by (simp add: objs_ok_def)

lemma objs_ok_class: "objs_ok p X \<Longrightarrow> x \<in> X \<Longrightarrow> 0 < snd x \<and> snd x < NUM_SLABS \<and> 16 dvd fst x"
  by (simp add: objs_ok_def)

lemma objs_ok_Un:
  assumes "objs_ok p X" and "objs_ok p Y" and "\<And>x y. x \<in> X \<Longrightarrow> y \<in> Y \<Longrightarrow> obj_range x \<inter> obj_range y = {}"
  shows "objs_ok p (X \<union> Y)"
proof -
  have "obj_range x \<inter> obj_range y = {}" if xy: "x \<in> X \<union> Y" "y \<in> X \<union> Y" "x \<noteq> y" for x y
  proof -
    consider "x \<in> X" "y \<in> X" | "x \<in> Y" "y \<in> Y" | "x \<in> X" "y \<in> Y" | "x \<in> Y" "y \<in> X"
      using xy(1,2) by blast
    then show ?thesis
    proof cases
      case 4
      then show ?thesis using assms(3) [of y x] by (simp add: Int_commute)
    qed (use assms xy(3) in \<open>simp_all add: objs_ok_def\<close>)
  qed
  then show ?thesis using assms(1,2) by (simp add: objs_ok_def ball_Un)
qed

lemma objs_ok_subset:
  "objs_ok p X \<Longrightarrow> Y \<subseteq> X \<Longrightarrow> free_frames (pmm_list p') \<subseteq> free_frames (pmm_list p) \<Longrightarrow> objs_ok p' Y"
  unfolding objs_ok_def by blast

text \<open>Adding the objects of a page that has just left the free list.\<close>

lemma objs_ok_fresh:
  assumes "objs_ok p X" and "takes p {f} p'" and "0 < i" and "i < NUM_SLABS"
  defines "base \<equiv> ARCH_PHYS_TO_HHDM (f * ARCH_PAGE_SIZE)"
  defines "N \<equiv> (\<lambda>a. (a, i)) ` set (page_objs base (16 * i) (ARCH_PAGE_SIZE div (16 * i)))"
  shows "objs_ok p' (X \<union> N)" and "\<And>x y. x \<in> X \<Longrightarrow> y \<in> N \<Longrightarrow> obj_range x \<inter> obj_range y = {}"
proof -
  have X: "objs_ok p' X"
    using assms(1,2) by (intro objs_ok_subset [OF assms(1)]) (auto simp: takes_def)
  have inN: "obj_range y \<subseteq> frame_range f \<and> 0 < snd y \<and> snd y < NUM_SLABS \<and> 16 dvd fst y" if "y \<in> N" for y
    using that assms(3,4) page_obj_in_frame [of _ i f]
    by (auto simp: N_def set_page_objs base_def ARCH_PHYS_TO_HHDM_def ARCH_PAGE_SIZE_def)
  show sep: "obj_range x \<inter> obj_range y = {}" if x: "x \<in> X" and y: "y \<in> N" for x y
  proof -
    obtain g where "g \<notin> free_frames (pmm_list p)" "obj_range x \<subseteq> frame_range g"
      using objs_ok_frame [OF assms(1) x] by blast
    moreover have "g \<noteq> f" using assms(2) calculation(1) by (auto simp: takes_def)
    ultimately show ?thesis using inN [OF y] frame_range_disjoint [of g f] by blast
  qed
  have "obj_range x \<inter> obj_range y = {}" if x: "x \<in> N" and y: "y \<in> N" and ne: "x \<noteq> y" for x y
  proof -
    obtain k l where "x = (base + k * (16 * i), i)" "y = (base + l * (16 * i), i)"
      using x y by (auto simp: N_def set_page_objs)
    then show ?thesis using page_objs_disjoint [of base k i l] ne by simp
  qed
  moreover have "f \<notin> free_frames (pmm_list p')" using assms(2) by (auto simp: takes_def)
  moreover have "\<exists>g. g \<notin> free_frames (pmm_list p') \<and> obj_range y \<subseteq> frame_range g" if "y \<in> N" for y
    using inN [OF that] calculation(2) by blast
  ultimately have "objs_ok p' N" using inN by (simp add: objs_ok_def)
  then show "objs_ok p' (X \<union> N)" using X sep by (intro objs_ok_Un) auto
qed

section \<open>Operations\<close>

lemma obj_start: "objs_ok p X \<Longrightarrow> x \<in> X \<Longrightarrow> fst x \<in> obj_range x"
  by (auto simp: objs_ok_def obj_range_def)

text \<open>Objects at the same address are the same object.\<close>

lemma obj_addr_unique:
  assumes "objs_ok p X" and "(a, i) \<in> X" and "(a, j) \<in> X"
  shows "i = j"
proof (rule ccontr)
  assume "i \<noteq> j"
  then have "obj_range (a, i) \<inter> obj_range (a, j) = {}" using assms by (simp add: objs_ok_def)
  then show False using obj_start [OF assms(1,2)] obj_start [OF assms(1,3)] by auto
qed

lemma free_objs_update:
  "i < NUM_SLABS \<Longrightarrow> free_objs (F(i := xs)) = (free_objs F - UNIV \<times> {i}) \<union> (\<lambda>a. (a, i)) ` set xs"
  by (auto simp: free_objs_def)

lemma slab_init_inv:
  assumes "slab_inv s F L" and "i = (n + 15) div 16" and "0 < i" and "i < NUM_SLABS" and "F i = []"
    and "pmm_list (sl_pmm s) \<noteq> []"
  shows "\<exists>s' xs. slab_init s i n = Ok s' \<and> slab_inv s' (F(i := xs)) L \<and> xs \<noteq> []"
proof -
  have inv: "pmm_wf (sl_pmm s)" "length (sl_next s) = NUM_SLABS" "free_objs F \<inter> L = {}"
    "objs_ok (sl_pmm s) (free_objs F \<union> L)"
    and ch: "\<And>j. j < NUM_SLABS \<Longrightarrow> chain (sl_mem s) (sl_next s ! j) (F j) \<and> distinct (F j)"
    using assms(1) by (auto simp: slab_inv_def)
  obtain a p' where alloc: "com_mm_pmm_alloc (sl_pmm s) = Ok (a, p')" "ARCH_PAGE_SIZE dvd a"
    and tk: "takes (sl_pmm s) {a div ARCH_PAGE_SIZE} p'"
    using com_mm_pmm_alloc_takes [OF inv(1) assms(6)] by blast
  define base where "base = ARCH_PHYS_TO_HHDM a"
  define m where "m = ARCH_PAGE_SIZE div (16 * i)"
  define xs where "xs = page_objs base (16 * i) m"
  define mem' where "mem' = (link_loop (sl_mem s) base (16 * i) (m - 1))(base + (m - 1) * (16 * i) := 0)"
  let ?s = "s\<lparr>sl_next := (sl_next s)[i := base], sl_mem := mem', sl_pmm := p'\<rparr>"
  have a: "a div ARCH_PAGE_SIZE * ARCH_PAGE_SIZE = a" using alloc(2) by simp
  have "16 * i \<le> ARCH_PAGE_SIZE" using assms(4) by (simp add: NUM_SLABS_def ARCH_PAGE_SIZE_def)
  then have m: "0 < m" using assms(3) by (simp add: m_def div_greater_zero_iff)
  then have sm: "Suc (m - 1) = m" by simp
  have N: "(\<lambda>a. (a, i)) ` set xs = (\<lambda>a. (a, i)) `
      set (page_objs (ARCH_PHYS_TO_HHDM (a div ARCH_PAGE_SIZE * ARCH_PAGE_SIZE)) (16 * i) (ARCH_PAGE_SIZE div (16 * i)))"
    by (simp add: xs_def base_def m_def a)
  note fresh = objs_ok_fresh [OF inv(4) tk assms(3,4), folded N]
  have step: "slab_init s i n = Ok ?s"
    using assms(2,3) alloc(1) m
    by (simp add: slab_init_def com_mm_pmm_alloc_zero_def Let_def base_def mem'_def m_def mult.commute)
  have objs: "free_objs (F(i := xs)) = free_objs F \<union> (\<lambda>a. (a, i)) ` set xs"
    using assms(4,5) by (auto simp: free_objs_update) (auto simp: free_objs_def)
  have frame: "mem' x = sl_mem s x" if "(x, j) \<in> free_objs F \<union> L" for x j
  proof -
    have "x \<noteq> y" if "y \<in> set xs" for y
      using fresh(2) [OF \<open>(x, j) \<in> _\<close>, of "(y, i)"] that obj_start [OF inv(4) \<open>(x, j) \<in> _\<close>]
        obj_start [OF fresh(1), of "(y, i)"] by auto
    then have "x \<noteq> base + k * (16 * i)" if "k < m" for k using that by (auto simp: xs_def set_page_objs)
    then show ?thesis using link_loop_frame [of "m - 1" x base "16 * i"] m by (simp add: mem'_def)
  qed
  have "chain mem' base xs"
    using link_loop_chain [of base "16 * i" "sl_mem s" "m - 1"] assms(3) sm
    by (simp add: xs_def mem'_def base_def ARCH_PHYS_TO_HHDM_def)
  moreover have "chain mem' (sl_next s ! j) (F j)" if "j < NUM_SLABS" for j
  proof -
    have "mem' x = sl_mem s x" if "x \<in> set (F j)" for x
      using frame [of x j] that \<open>j < NUM_SLABS\<close> by (simp add: free_objs_def)
    then show ?thesis using ch [OF that] chain_frame by metis
  qed
  moreover have "distinct xs" unfolding xs_def using assms(3) by (intro distinct_page_objs) simp
  moreover have "(\<lambda>a. (a, i)) ` set xs \<inter> L = {}"
    using fresh(2) obj_start [OF fresh(1)] obj_start [OF inv(4)] by blast
  moreover have "objs_ok p' (free_objs (F(i := xs)) \<union> L)"
    unfolding objs using fresh(1) by (simp add: Un_ac)
  ultimately have "slab_inv ?s (F(i := xs)) L"
    using assms(1) inv ch tk assms(4) objs by (auto simp: slab_inv_def takes_def nth_list_update)
  moreover have "xs \<noteq> []" using m by (simp add: xs_def page_objs_def)
  ultimately show ?thesis using step by blast
qed

lemma chain_head: "chain mem p xs \<Longrightarrow> (p = 0) = (xs = [])"
  by (cases xs) auto

text \<open>Taking the first free object of a class.\<close>

lemma slab_pop_inv:
  assumes "slab_inv s F L" and "i < NUM_SLABS" and "F i = a # xs"
  shows "sl_next s ! i = a" and "a \<noteq> 0"
    and "slab_inv (s\<lparr>sl_next := (sl_next s)[i := sl_mem s a], sl_mem := (sl_mem s)(a := 0)\<rparr>)
      (F(i := xs)) (insert (a, i) L)" (is "slab_inv ?s ?F ?L")
proof -
  have inv: "length (sl_next s) = NUM_SLABS" "free_objs F \<inter> L = {}"
    "objs_ok (sl_pmm s) (free_objs F \<union> L)"
    and ch: "\<And>j. j < NUM_SLABS \<Longrightarrow> chain (sl_mem s) (sl_next s ! j) (F j) \<and> distinct (F j)"
    using assms(1) by (auto simp: slab_inv_def)
  show hd: "sl_next s ! i = a" "a \<noteq> 0" using ch [OF assms(2)] assms(3) by auto
  have ai: "(a, i) \<in> free_objs F" using assms(2,3) by (simp add: free_objs_def)
  have un: "free_objs ?F = free_objs F - {(a, i)}"
    using assms(2,3) ch [OF assms(2)] by (auto simp: free_objs_def split: if_splits)
  have "chain ((sl_mem s)(a := 0)) (sl_next ?s ! j) (?F j) \<and> distinct (?F j)" if j: "j < NUM_SLABS" for j
  proof -
    have "a \<notin> set (?F j)"
    proof
      assume "a \<in> set (?F j)"
      then have "(a, j) \<in> free_objs ?F" using j by (simp add: free_objs_def)
      then show False using obj_addr_unique [OF inv(3), of a j i] ai unfolding un by auto
    qed
    then show ?thesis using ch [OF j] hd assms(2,3) inv(1) by (auto simp: nth_list_update)
  qed
  moreover have "free_objs ?F \<inter> ?L = {}" and "free_objs ?F \<union> ?L = free_objs F \<union> L"
    unfolding un using inv(2) ai by auto
  ultimately show "slab_inv ?s ?F ?L" using assms(1) by (simp add: slab_inv_def)
qed

lemma com_mm_slab_alloc_inv:
  assumes "slab_inv s F L" and "i = (n + 15) div 16" and "0 < i" and "i < NUM_SLABS"
    and "F i \<noteq> [] \<or> pmm_list (sl_pmm s) \<noteq> []"
  shows "\<exists>a s' F'. com_mm_slab_alloc s n = Ok (a, s') \<and> slab_inv s' F' (insert (a, i) L) \<and>
    (a, i) \<notin> L \<and> sl_mem s' a = 0"
proof -
  have ch: "chain (sl_mem s) (sl_next s ! i) (F i)" using assms(1,4) by (simp add: slab_inv_def)
  obtain s1 F1 where s1: "(if sl_next s ! i = 0 then slab_init s i n else Ok s) = Ok s1"
    and inv1: "slab_inv s1 F1 L" "F1 i \<noteq> []"
  proof (cases "F i = []")
    case True
    then obtain s' xs where "slab_init s i n = Ok s'" "slab_inv s' (F(i := xs)) L" "xs \<noteq> []"
      using slab_init_inv [OF assms(1-4)] assms(5) by blast
    then show ?thesis using that [of s' "F(i := xs)"] True chain_head [OF ch] by simp
  next
    case False
    then show ?thesis using that [of s F] assms(1) chain_head [OF ch] by simp
  qed
  obtain a xs where F1: "F1 i = a # xs" using inv1(2) by (cases "F1 i") auto
  note pop = slab_pop_inv [OF inv1(1) assms(4) F1]
  have "(a, i) \<in> free_objs F1" using F1 assms(4) by (simp add: free_objs_def)
  then have "(a, i) \<notin> L" using inv1(1) by (auto simp: slab_inv_def)
  moreover have "com_mm_slab_alloc s n =
      Ok (a, s1\<lparr>sl_next := (sl_next s1)[i := sl_mem s1 a], sl_mem := (sl_mem s1)(a := 0)\<rparr>)"
    unfolding com_mm_slab_alloc_def Let_def assms(2) [symmetric] s1
    using assms(1,4) pop(1) by (simp add: slab_inv_def)
  ultimately show ?thesis using pop(3) by auto
qed

lemma live_not_listed:
  assumes "slab_inv s F L" and "(a, i) \<in> L" and "j < NUM_SLABS"
  shows "a \<notin> set (F j)"
proof
  assume "a \<in> set (F j)"
  then have "(a, j) \<in> free_objs F" using assms(3) by (simp add: free_objs_def)
  then show False
    using assms(1,2) obj_addr_unique [of "sl_pmm s" "free_objs F \<union> L" a i j] by (auto simp: slab_inv_def)
qed

text \<open>Giving an object back.\<close>

lemma com_mm_slab_free_inv:
  assumes "slab_inv s F L" and "i = (n + 15) div 16" and "(a, i) \<in> L"
  shows "\<exists>s'. com_mm_slab_free s a n = Ok s' \<and> slab_inv s' (F(i := a # F i)) (L - {(a, i)})"
proof -
  let ?s = "s\<lparr>sl_mem := (sl_mem s)(a := sl_next s ! i), sl_next := (sl_next s)[i := a]\<rparr>"
  let ?F = "F(i := a # F i)" and ?L = "L - {(a, i)}"
  have inv: "length (sl_next s) = NUM_SLABS" "free_objs F \<inter> L = {}" "\<not> sl_lock s"
    "objs_ok (sl_pmm s) (free_objs F \<union> L)"
    and ch: "\<And>j. j < NUM_SLABS \<Longrightarrow> chain (sl_mem s) (sl_next s ! j) (F j) \<and> distinct (F j)"
    using assms(1) by (auto simp: slab_inv_def)
  have i: "i < NUM_SLABS" using objs_ok_class [OF inv(4), of "(a, i)"] assms(3) by simp
  obtain f where "obj_range (a, i) \<subseteq> frame_range f"
    using objs_ok_frame [OF inv(4), of "(a, i)"] assms(3) by blast
  then have a: "a \<noteq> 0"
    using obj_start [OF inv(4), of "(a, i)"] assms(3) by (auto simp: frame_range_def ARCH_PHYS_TO_HHDM_def)
  have un: "free_objs ?F = insert (a, i) (free_objs F)" using i by (auto simp: free_objs_def)
  note fresh = live_not_listed [OF assms(1,3)]
  have "chain (sl_mem ?s) (sl_next ?s ! j) (?F j) \<and> distinct (?F j)" if j: "j < NUM_SLABS" for j
    using ch [OF j] fresh [OF j] a i inv(1) by (auto simp: nth_list_update)
  moreover have "free_objs ?F \<inter> ?L = {}" and "free_objs ?F \<union> ?L = free_objs F \<union> L"
    unfolding un using inv(2) assms(3) by auto
  ultimately have "slab_inv ?s ?F ?L" using assms(1) by (simp add: slab_inv_def)
  moreover have "com_mm_slab_free s a n = Ok ?s"
    using a i inv(3) assms(2) by (simp add: com_mm_slab_free_def Let_def)
  ultimately show ?thesis by blast
qed

lemma slab_store_inv:
  assumes "slab_inv s F L" and "(a, i) \<in> L"
  shows "slab_inv (s\<lparr>sl_mem := (sl_mem s)(a := v)\<rparr>) F L"
  using assms(1) live_not_listed [OF assms] by (simp add: slab_inv_def)

section \<open>Sequences of calls\<close>

lemma slab_init_needs:
  assumes "slab_init s i n = Ok s'"
  shows "0 < (n + 15) div 16" and "pmm_list (sl_pmm s) \<noteq> []"
proof -
  obtain a p where "com_mm_pmm_alloc (sl_pmm s) = Ok (a, p)"
    using assms by (cases "com_mm_pmm_alloc (sl_pmm s)") (auto simp: slab_init_def com_mm_pmm_alloc_zero_def)
  with assms show "0 < (n + 15) div 16" "pmm_list (sl_pmm s) \<noteq> []"
    by (auto simp: slab_init_def com_mm_pmm_alloc_zero_def com_mm_pmm_alloc_def kassert_def Let_def
        freelist_pop_rear_nolock_def split: if_splits)
qed

lemma slab_run_inv:
  assumes "slab_run s0 s L" and "slab_inv s0 F0 {}"
  shows "\<exists>F. slab_inv s F L"
  using assms
proof (induction rule: slab_run.induct)
  case start
  then show ?case by blast
next
  case (alloc s L n a s')
  then obtain F where F: "slab_inv s F L" by blast
  let ?i = "(n + 15) div 16"
  have i: "?i < NUM_SLABS"
    using alloc(2) by (auto simp: com_mm_slab_alloc_def kassert_def Let_def split: if_splits)
  obtain s1 where run: "(if sl_next s ! ?i = 0 then slab_init s ?i n else Ok s) = Ok s1"
    using alloc(2) by (cases "if sl_next s ! ?i = 0 then slab_init s ?i n else Ok s")
      (auto simp: com_mm_slab_alloc_def kassert_def Let_def split: if_splits)
  have ch: "chain (sl_mem s) (sl_next s ! ?i) (F ?i)" using F i by (simp add: slab_inv_def)
  have "0 < ?i \<and> (F ?i \<noteq> [] \<or> pmm_list (sl_pmm s) \<noteq> [])"
  proof (cases "F ?i")
    case Nil
    with run chain_head [OF ch] slab_init_needs [of s ?i n s1] show ?thesis by simp
  next
    case (Cons x xs)
    then have "(x, ?i) \<in> free_objs F" using i by (simp add: free_objs_def)
    then have "0 < ?i" using F objs_ok_class [of "sl_pmm s" "free_objs F \<union> L" "(x, ?i)"] by (simp add: slab_inv_def)
    with Cons show ?thesis by simp
  qed
  then show ?case using com_mm_slab_alloc_inv [OF F refl _ i] alloc(2) by auto
next
  case (free s L a n s')
  then show ?case using com_mm_slab_free_inv [OF _ refl] by force
next
  case (store s L a i v)
  then show ?case using slab_store_inv by blast
qed

lemma slab_boot_inv: "pmm_wf p \<Longrightarrow> slab_inv (slab_boot p) (\<lambda>_. []) {}"
  by (simp add: slab_inv_def slab_boot_def free_objs_def objs_ok_def)

section \<open>Properties\<close>

text \<open>
  C7: objects never overlap. Whatever sequence of allocations, releases of live objects and writes by
  their owners follows the boot, two different live objects have disjoint address ranges, each is
  aligned to 16 bytes and lies within one page, and that page is not free in the page allocator.
\<close>

theorem slab_objects_separate:
  assumes "pmm_wf p" and "slab_run (slab_boot p) s L"
  shows "(\<forall>x \<in> L. \<forall>y \<in> L. x \<noteq> y \<longrightarrow> obj_range x \<inter> obj_range y = {}) \<and>
    (\<forall>x \<in> L. 16 dvd fst x \<and>
      (\<exists>f. f \<notin> free_frames (pmm_list (sl_pmm s)) \<and> obj_range x \<subseteq> frame_range f))"
proof -
  obtain F where "slab_inv s F L" using slab_run_inv [OF assms(2) slab_boot_inv [OF assms(1)]] by blast
  then have "objs_ok (sl_pmm s) (free_objs F \<union> L)" by (simp add: slab_inv_def)
  then have "objs_ok (sl_pmm s) L" by (rule objs_ok_subset) auto
  then show ?thesis by (simp add: objs_ok_def)
qed

text \<open>
  an allocation of 1 to 4080 bytes succeeds as long as the page allocator has a page: it returns an
  object that was not live, whose link word is cleared. Larger requests fail the assertion; a request
  of zero bytes always faults, because its size class never gets a page.
\<close>

theorem com_mm_slab_alloc_outcome:
  assumes "pmm_wf p" and "slab_run (slab_boot p) s L" and "pmm_list (sl_pmm s) \<noteq> []"
  shows "if 0 < n \<and> n \<le> 4080
    then \<exists>a s'. com_mm_slab_alloc s n = Ok (a, s') \<and> (a, (n + 15) div 16) \<notin> L \<and> sl_mem s' a = 0
    else com_mm_slab_alloc s n = Panic"
proof -
  obtain F where F: "slab_inv s F L" using slab_run_inv [OF assms(2) slab_boot_inv [OF assms(1)]] by blast
  let ?i = "(n + 15) div 16"
  show ?thesis
  proof (cases "0 < n \<and> n \<le> 4080")
    case True
    then have "0 < ?i" "?i < NUM_SLABS" by (auto simp: NUM_SLABS_def ARCH_PAGE_SIZE_def)
    then show ?thesis using com_mm_slab_alloc_inv [OF F refl, of n] assms(3) True by auto
  next
    case False
    show ?thesis
    proof (cases "n = 0")
      case True
      have "F 0 = []"
      proof (rule ccontr)
        assume "F 0 \<noteq> []"
        then obtain x where "(x, 0) \<in> free_objs F"
          by (cases "F 0") (auto simp: free_objs_def NUM_SLABS_def ARCH_PAGE_SIZE_def)
        then show False
          using F objs_ok_class [of "sl_pmm s" "free_objs F \<union> L" "(x, 0)"] by (simp add: slab_inv_def)
      qed
      moreover have "0 < NUM_SLABS" by (simp add: NUM_SLABS_def ARCH_PAGE_SIZE_def)
      then have "chain (sl_mem s) (sl_next s ! 0) (F 0)" using F by (simp add: slab_inv_def)
      ultimately have "sl_next s ! 0 = 0" by simp
      moreover obtain a p' where "com_mm_pmm_alloc (sl_pmm s) = Ok (a, p')"
        using com_mm_pmm_alloc_takes [of "sl_pmm s"] assms(3) F by (auto simp: slab_inv_def)
      ultimately show ?thesis
        using True F by (simp add: com_mm_slab_alloc_def slab_init_def com_mm_pmm_alloc_zero_def Let_def
            slab_inv_def kassert_def)
    next
      case nz: False
      then have "\<not> ?i < NUM_SLABS" using False by (simp add: NUM_SLABS_def ARCH_PAGE_SIZE_def)
      then show ?thesis using False by (simp add: com_mm_slab_alloc_def)
    qed
  qed
qed

lemma small_map_slab:
  "\<exists>p. com_mm_pmm_init small_map = Ok p \<and> pmm_wf p \<and> pmm_list p \<noteq> []"
proof -
  obtain p e where p: "com_mm_pmm_init small_map = Ok p" "pmm_wf p" and e: "e \<in> set small_map"
    "free_frames (pmm_list p) = free_frames (usable_blocks small_map) - meta_frames (memmap_meta_pages small_map) e"
    using com_mm_pmm_init_ok [OF small_map_ok] by blast
  have "9 \<in> free_frames (pmm_list p) \<or> 2 \<in> free_frames (pmm_list p)"
    using e by (auto simp: small_map_def free_frames_def usable_blocks_def ARCH_MEMMAP_IS_USABLE_def
        frames_def first_frame_def entry_block_def ARCH_PAGE_SIZE_def meta_frames_def
        memmap_meta_pages_def memmap_hia_def PAGE_META_ARRAY_SIZE_def PAGE_META_ARRAY_LEN_def
        ARCH_MEMMAP_IS_RECLAIMABLE_def KMAX_def Let_def)
  then show ?thesis using p by auto
qed

theorem com_mm_slab_alloc_outcome_witness:
  "\<exists>p a s'. com_mm_pmm_init small_map = Ok p \<and> com_mm_slab_alloc (slab_boot p) 24 = Ok (a, s') \<and>
    com_mm_slab_alloc (slab_boot p) 5000 = Panic"
proof -
  obtain p where p: "com_mm_pmm_init small_map = Ok p" "pmm_wf p" "pmm_list p \<noteq> []"
    using small_map_slab by blast
  then have "pmm_list (sl_pmm (slab_boot p)) \<noteq> []" by (simp add: slab_boot_def)
  then show ?thesis
    using com_mm_slab_alloc_outcome [OF p(2) slab_run.start, of 24]
      com_mm_slab_alloc_outcome [OF p(2) slab_run.start, of 5000] p(1) by auto
qed

theorem slab_objects_separate_witness:
  "\<exists>p a s. com_mm_pmm_init small_map = Ok p \<and> com_mm_slab_alloc (slab_boot p) 24 = Ok (a, s) \<and> 16 dvd a \<and>
    (\<exists>f. f \<notin> free_frames (pmm_list (sl_pmm s)) \<and> obj_range (a, 2) \<subseteq> frame_range f)"
proof -
  obtain p where p: "com_mm_pmm_init small_map = Ok p" "pmm_wf p" "pmm_list p \<noteq> []"
    using small_map_slab by blast
  have i2: "(24 + 15) div 16 = (2 :: nat)" "(2 :: nat) < NUM_SLABS"
    by (simp_all add: NUM_SLABS_def ARCH_PAGE_SIZE_def)
  obtain a s where 1: "com_mm_slab_alloc (slab_boot p) 24 = Ok (a, s)"
    using com_mm_slab_alloc_inv [OF slab_boot_inv [OF p(2)], of 2 24] p(3) i2 by (auto simp: slab_boot_def)
  have "slab_run (slab_boot p) s {(a, 2)}" using slab_run.alloc [OF slab_run.start 1] i2 by simp
  from slab_objects_separate [OF p(2) this] p(1) 1 show ?thesis by auto
qed

end
