(* ===== verification/PmmCache.thy ===== *)
theory PmmCache
  imports Slab
begin

text \<open>
  The page cache of \<^verbatim>\<open>src/com/mm/pmmcache.c\<close>, which batches requests to the page allocator. A
  pool is a run of free pages whose first page holds the run's length and the next pool. Of page
  contents the model keeps this header, at the direct-map address of the page.
\<close>

section \<open>State and operations\<close>

definition ARCH_HHDM_TO_PHYS :: "nat \<Rightarrow> nat" where
  "ARCH_HHDM_TO_PHYS addr = addr - 0xffff800000000000"

definition COM_MM_PMM_CACHE_FLAGS_AUTOLOCK :: u32 where
  "COM_MM_PMM_CACHE_FLAGS_AUTOLOCK = 1"

definition COM_MM_PMM_CACHE_FLAGS_AUTOMERGE :: u32 where
  "COM_MM_PMM_CACHE_FLAGS_AUTOMERGE = 2"

definition COM_MM_PMM_CACHE_FLAGS_AUTOALLOC :: u32 where
  "COM_MM_PMM_CACHE_FLAGS_AUTOALLOC = 4"

record pool =
  pl_next :: nat
  pl_len :: u64

record com_pmm_cache =
  pc_lock :: bool
  pc_pool_size :: u64
  pc_max_pool_size :: u64
  pc_pool :: nat
  pc_avail_pages :: u64
  pc_flags :: u32

text \<open>The cache, the headers in page memory and the page allocator behind it.\<close>

record cache_state =
  cs_cache :: com_pmm_cache
  cs_mem :: "nat \<Rightarrow> pool"
  cs_pmm :: pmm

definition HAS_AUTOLOCK :: "com_pmm_cache \<Rightarrow> bool" where
  "HAS_AUTOLOCK c = (COM_MM_PMM_CACHE_FLAGS_AUTOLOCK AND pc_flags c \<noteq> 0)"

definition HAS_AUTOMERGE :: "com_pmm_cache \<Rightarrow> bool" where
  "HAS_AUTOMERGE c = (COM_MM_PMM_CACHE_FLAGS_AUTOMERGE AND pc_flags c \<noteq> 0)"

definition HAS_AUTOALLOC :: "com_pmm_cache \<Rightarrow> bool" where
  "HAS_AUTOALLOC c = (COM_MM_PMM_CACHE_FLAGS_AUTOALLOC AND pc_flags c \<noteq> 0)"

text \<open>
  The loop asks for \<open>pages\<close> pages in every round. The length of the run comes back in a local
  variable that the page allocator leaves unwritten for a request of one page; \<open>junk\<close> is its
  value then. A value of zero can keep the loop going, so the loop is a partial function.
\<close>

partial_function (option) new_pool_loop ::
  "nat \<Rightarrow> u64 \<Rightarrow> (nat \<Rightarrow> pool) \<Rightarrow> pmm \<Rightarrow> nat \<Rightarrow> nat \<Rightarrow> u64 \<Rightarrow> (nat \<times> (nat \<Rightarrow> pool) \<times> pmm) res option" where
  "new_pool_loop junk pages mem p pl prev allocated =
     (if allocated < pages
      then (case com_mm_pmm_alloc_max_zero p junk (unat pages) of
          Panic \<Rightarrow> Some Panic
        | Blocked \<Rightarrow> Some Blocked
        | Ok (curr_size, phys, p1) \<Rightarrow>
            (let cur = ARCH_PHYS_TO_HHDM phys;
                 mem1 = mem(cur := \<lparr>pl_next = 0, pl_len = of_nat curr_size\<rparr>)
             in if prev = 0
                then new_pool_loop junk pages mem1 p1 cur cur (allocated + of_nat curr_size)
                else new_pool_loop junk pages (mem1(prev := (mem1 prev)\<lparr>pl_next := cur\<rparr>)) p1 pl cur
                       (allocated + of_nat curr_size)))
      else Some (Ok (pl, mem, p)))"

definition pmm_cache_new_pool ::
  "nat \<Rightarrow> (nat \<Rightarrow> pool) \<Rightarrow> pmm \<Rightarrow> u64 \<Rightarrow> (nat \<times> (nat \<Rightarrow> pool) \<times> pmm) res option" where
  "pmm_cache_new_pool junk mem p pages = new_pool_loop junk pages mem p 0 0 0"

text \<open>Taking the first page of the head pool; a null pool pointer faults.\<close>

definition take_head :: "cache_state \<Rightarrow> (nat \<times> cache_state) res" where
  "take_head s =
     (let c = cs_cache s; pl = pc_pool c in
      if pl = 0 then Panic
      else let ret = ARCH_HHDM_TO_PHYS pl;
               len = pl_len (cs_mem s pl) - 1;
               nxt = pl_next (cs_mem s pl);
               mem1 = (cs_mem s)(pl := (cs_mem s pl)\<lparr>pl_len := len\<rparr>);
               np = pl + ARCH_PAGE_SIZE;
               (pool', mem2) =
                 (if len = 0 then (if nxt \<noteq> 0 then nxt else 0, mem1)
                  else (np, mem1(np := \<lparr>pl_next = nxt, pl_len = len\<rparr>)));
               mem3 = (if ret \<noteq> 0 then mem2(pl := \<lparr>pl_next = 0, pl_len = 0\<rparr>) else mem2)
           in Ok (ret, s\<lparr>cs_cache := c\<lparr>pc_pool := pool', pc_avail_pages := pc_avail_pages c - 1\<rparr>,
                         cs_mem := mem3\<rparr>))"

definition com_mm_pmm_cache_alloc ::
  "nat \<Rightarrow> cache_state \<Rightarrow> u64 \<Rightarrow> (nat \<times> cache_state) res option" where
  "com_mm_pmm_cache_alloc junk s pages =
     (let c = cs_cache s in
      if pages \<noteq> 1 then Some Panic
      else if HAS_AUTOLOCK c \<and> pc_lock c then Some Blocked
      else if pc_pool c = 0
      then if pc_avail_pages c \<noteq> 0 then Some Panic
           else if \<not> HAS_AUTOALLOC c then Some (Ok (0, s))
           else (case pmm_cache_new_pool junk (cs_mem s) (cs_pmm s) (pc_pool_size c) of
               None \<Rightarrow> None
             | Some r \<Rightarrow> Some (res_bind r (\<lambda>(pl, mem1, p1).
                 take_head \<lparr>cs_cache = c\<lparr>pc_pool := pl, pc_avail_pages := pc_pool_size c\<rparr>,
                            cs_mem = mem1, cs_pmm = p1\<rparr>)))
      else Some (take_head s))"

definition com_mm_pmm_cache_free :: "cache_state \<Rightarrow> nat \<Rightarrow> cache_state res" where
  "com_mm_pmm_cache_free s page =
     (let c = cs_cache s; virt_page = ARCH_PHYS_TO_HHDM page in
      if HAS_AUTOLOCK c \<and> pc_lock c then Blocked
      else if HAS_AUTOMERGE c then Ok s
      else Ok (s\<lparr>cs_mem := (cs_mem s)(virt_page := \<lparr>pl_next = pc_pool c, pl_len = 1\<rparr>),
                 cs_cache := c\<lparr>pc_pool := virt_page, pc_avail_pages := pc_avail_pages c + 1\<rparr>\<rparr>))"

definition com_mm_pmm_cache_init ::
  "nat \<Rightarrow> (nat \<Rightarrow> pool) \<Rightarrow> pmm \<Rightarrow> u64 \<Rightarrow> u64 \<Rightarrow> u64 \<Rightarrow> u32 \<Rightarrow> cache_state res option" where
  "com_mm_pmm_cache_init junk mem p init_size pool_size max_pool_size flags =
     (case pmm_cache_new_pool junk mem p init_size of
        None \<Rightarrow> None
      | Some r \<Rightarrow> Some (res_bind r (\<lambda>(pl, mem1, p1).
          Ok \<lparr>cs_cache = \<lparr>pc_lock = False, pc_pool_size = pool_size, pc_max_pool_size = max_pool_size,
                          pc_pool = pl, pc_avail_pages = init_size, pc_flags = flags\<rparr>,
              cs_mem = mem1, cs_pmm = p1\<rparr>)))"

section \<open>Specification: a stack of pages\<close>

definition page_virt :: "nat \<Rightarrow> nat" where
  "page_virt f = ARCH_PHYS_TO_HHDM (f * ARCH_PAGE_SIZE)"

text \<open>A pool is a first frame and a positive number of frames.\<close>

fun pool_chain :: "(nat \<Rightarrow> pool) \<Rightarrow> nat \<Rightarrow> (nat \<times> nat) list \<Rightarrow> bool" where
  "pool_chain mem a [] = (a = 0)"
| "pool_chain mem a ((f, n) # ps) =
     (a = page_virt f \<and> 0 < n \<and> n < 2 ^ 64 \<and> pl_len (mem a) = of_nat n \<and>
      pool_chain mem (pl_next (mem a)) ps)"

definition pool_frames :: "(nat \<times> nat) list \<Rightarrow> nat list" where
  "pool_frames ps = concat (map (\<lambda>(f, n). [f ..< f + n]) ps)"

text \<open>The pages the cache holds, in the order it hands them out, and the pages its clients hold.\<close>

definition cache_inv :: "cache_state \<Rightarrow> nat list \<Rightarrow> nat set \<Rightarrow> bool" where
  "cache_inv s fs L \<longleftrightarrow> pmm_wf (cs_pmm s) \<and> \<not> pc_lock (cs_cache s) \<and> 0 \<notin> free_frames (pmm_list (cs_pmm s)) \<and>
     1 < pc_pool_size (cs_cache s) \<and>
     (\<exists>ps. pool_chain (cs_mem s) (pc_pool (cs_cache s)) ps \<and> pool_frames ps = fs) \<and>
     distinct fs \<and> 0 \<notin> set fs \<union> L \<and> set fs \<inter> L = {} \<and> (set fs \<union> L) \<inter> free_frames (pmm_list (cs_pmm s)) = {}"

text \<open>Calls of clients and their writes into pages they hold.\<close>

inductive cache_run :: "cache_state \<Rightarrow> cache_state \<Rightarrow> nat set \<Rightarrow> bool" for s0 where
  start: "cache_run s0 s0 {}"
| alloc: "cache_run s0 s L \<Longrightarrow> com_mm_pmm_cache_alloc junk s 1 = Some (Ok (a, s')) \<Longrightarrow> a \<noteq> 0 \<Longrightarrow>
    cache_run s0 s' (insert (a div ARCH_PAGE_SIZE) L)"
| empty: "cache_run s0 s L \<Longrightarrow> com_mm_pmm_cache_alloc junk s 1 = Some (Ok (0, s')) \<Longrightarrow> cache_run s0 s' L"
| free: "cache_run s0 s L \<Longrightarrow> f \<in> L \<Longrightarrow> com_mm_pmm_cache_free s (f * ARCH_PAGE_SIZE) = Ok s' \<Longrightarrow>
    cache_run s0 s' (L - {f})"
| store: "cache_run s0 s L \<Longrightarrow> f \<in> L \<Longrightarrow>
    cache_run s0 (s\<lparr>cs_mem := (cs_mem s)(page_virt f := v)\<rparr>) L"

text \<open>
  The cache as a page source: taking a page while the cache has one. The state carries the list of
  pages the cache holds.
\<close>

definition cache_page :: "cache_state \<times> nat list \<Rightarrow> (nat \<times> cache_state \<times> nat list) option" where
  "cache_page x =
     (if pc_pool (cs_cache (fst x)) = 0 then None
      else case com_mm_pmm_cache_alloc 0 (fst x) 1 of
        Some (Ok (a, s')) \<Rightarrow> Some (a div ARCH_PAGE_SIZE, s', tl (snd x)) | _ \<Rightarrow> None)"

text \<open>A page allocator with four free pages, for concrete runs.\<close>

definition sample_pmm :: pmm where
  "sample_pmm = \<lparr>pmm_list = [\<lparr>fe_base = 4096, fe_pages = 4\<rparr>], pmm_lock = False, pmm_meta = replicate 5 free_meta,
     pmm_len = 5, pmm_reserved_start = 5, pmm_extended_len = 5, pmm_fake = free_meta,
     pmm_stats = \<lparr>st_total = 20480, st_usable = 16384, st_reserved = 4096, st_free = 16384, st_used = 0\<rparr>\<rparr>"

text \<open>The result of growing the chain of pools that held the pages \<open>fs\<close>.\<close>

definition pool_grown :: "pmm \<Rightarrow> nat list \<Rightarrow> nat \<times> (nat \<Rightarrow> pool) \<times> pmm \<Rightarrow> bool" where
  "pool_grown p fs r \<longleftrightarrow> (case r of (pl, mem, p') \<Rightarrow> pmm_wf p' \<and>
     (\<exists>ps new. pool_chain mem pl ps \<and> pool_frames ps = fs @ new \<and> distinct (fs @ new) \<and>
        set new \<subseteq> free_frames (pmm_list p) \<and>
        free_frames (pmm_list p') = free_frames (pmm_list p) - set new))"

section \<open>Chains of pools\<close>

lemma page_virt_simps [simp]:
  "ARCH_HHDM_TO_PHYS (page_virt f) = f * ARCH_PAGE_SIZE"
  "page_virt f \<noteq> 0"
  "page_virt f = page_virt g \<longleftrightarrow> f = g"
  "page_virt f + ARCH_PAGE_SIZE = page_virt (Suc f)"
  by (simp_all add: ARCH_HHDM_TO_PHYS_def ARCH_PHYS_TO_HHDM_def page_virt_def ARCH_PAGE_SIZE_def)

lemma pool_frames_simps [simp]:
  "pool_frames [] = []"
  "pool_frames ((f, n) # ps) = [f ..< f + n] @ pool_frames ps"
  "pool_frames (ps @ qs) = pool_frames ps @ pool_frames qs"
  by (simp_all add: pool_frames_def)

lemma pool_chain_pos: "pool_chain mem a ps \<Longrightarrow> (f, n) \<in> set ps \<Longrightarrow> f \<in> set (pool_frames ps)"
  by (induction mem a ps rule: pool_chain.induct) auto

lemma pool_chain_len: "pool_chain mem a ps \<Longrightarrow> (f, n) \<in> set ps \<Longrightarrow> 0 < n"
  by (induction mem a ps rule: pool_chain.induct) auto

lemma pool_chain_frame:
  assumes "\<And>x. x \<in> set ps \<Longrightarrow> mem' (page_virt (fst x)) = mem (page_virt (fst x))"
  shows "pool_chain mem' a ps = pool_chain mem a ps"
  using assms
proof (induction ps arbitrary: a)
  case (Cons x ps)
  obtain f n where x: "x = (f, n)" by (cases x)
  have eq: "mem' (page_virt f) = mem (page_virt f)" using Cons.prems [of x] x by simp
  have IH: "pool_chain mem' b ps = pool_chain mem b ps" for b using Cons by simp
  show ?case by (cases "a = page_virt f") (simp_all add: x eq IH)
qed simp

lemma pool_chain_store:
  assumes "pool_chain mem a ps" and "f \<notin> set (pool_frames ps)"
  shows "pool_chain (mem(page_virt f := v)) a ps"
proof -
  have "pool_chain (mem(page_virt f := v)) a ps = pool_chain mem a ps"
    by (rule pool_chain_frame) (use assms pool_chain_pos [OF assms(1)] in force)
  with assms(1) show ?thesis by simp
qed

lemma pool_chain_empty: "pool_chain mem a ps \<Longrightarrow> a = 0 \<longleftrightarrow> pool_frames ps = []"
  by (cases ps) auto

lemma of_nat_len_pred:
  assumes "0 < n" and "n < 2 ^ 64"
  shows "(of_nat n :: u64) - 1 = of_nat (n - 1)" and "(of_nat n :: u64) - 1 = 0 \<longleftrightarrow> n = 1"
proof -
  show eq: "(of_nat n :: u64) - 1 = of_nat (n - 1)" using assms(1) by (simp add: of_nat_diff Suc_leI)
  have "unat (of_nat (n - 1) :: u64) = n - 1" using assms(2) by (intro unat_of_nat64) simp
  then have "(of_nat (n - 1) :: u64) = 0 \<longleftrightarrow> n - 1 = 0" using word_unat_eq_iff [of "of_nat (n - 1) :: u64" 0] by simp
  then show "(of_nat n :: u64) - 1 = 0 \<longleftrightarrow> n = 1" using assms(1) unfolding eq by auto
qed

text \<open>Taking a page pops the list of pages.\<close>

lemma take_head_last:
  assumes "pc_pool (cs_cache s) = page_virt f" and "pl_len (cs_mem s (page_virt f)) = 1" and "f \<noteq> 0"
  shows "take_head s = Ok (f * ARCH_PAGE_SIZE, s\<lparr>cs_cache := (cs_cache s)
      \<lparr>pc_pool := pl_next (cs_mem s (page_virt f)), pc_avail_pages := pc_avail_pages (cs_cache s) - 1\<rparr>,
    cs_mem := (cs_mem s)(page_virt f := \<lparr>pl_next = 0, pl_len = 0\<rparr>)\<rparr>)"
  using assms by (simp add: take_head_def Let_def)

lemma take_head_more:
  assumes "pc_pool (cs_cache s) = page_virt f" and "pl_len (cs_mem s (page_virt f)) = of_nat (Suc n)"
    and "0 < n" and "Suc n < 2 ^ 64" and "f \<noteq> 0"
  shows "take_head s = Ok (f * ARCH_PAGE_SIZE, s\<lparr>cs_cache := (cs_cache s)
      \<lparr>pc_pool := page_virt (Suc f), pc_avail_pages := pc_avail_pages (cs_cache s) - 1\<rparr>,
    cs_mem := (cs_mem s)(page_virt f := (cs_mem s (page_virt f))\<lparr>pl_len := of_nat n\<rparr>,
      page_virt (Suc f) := \<lparr>pl_next = pl_next (cs_mem s (page_virt f)), pl_len = of_nat n\<rparr>,
      page_virt f := \<lparr>pl_next = 0, pl_len = 0\<rparr>)\<rparr>)"
proof -
  have "(of_nat (Suc n) :: u64) - 1 = of_nat n" "(of_nat n :: u64) \<noteq> 0"
    using of_nat_len_pred [of "Suc n"] assms(3,4) by auto
  then show ?thesis using assms by (simp add: take_head_def Let_def del: of_nat_Suc)
qed

lemma take_head_pops:
  assumes "pool_chain (cs_mem s) (pc_pool (cs_cache s)) ps" and "pool_frames ps = f # fs"
    and "distinct (f # fs)" and "f \<noteq> 0"
  shows "\<exists>s' ps'. take_head s = Ok (f * ARCH_PAGE_SIZE, s') \<and>
    pool_chain (cs_mem s') (pc_pool (cs_cache s')) ps' \<and> pool_frames ps' = fs \<and> cs_pmm s' = cs_pmm s \<and>
    cs_cache s' = (cs_cache s)\<lparr>pc_pool := pc_pool (cs_cache s'), pc_avail_pages := pc_avail_pages (cs_cache s) - 1\<rparr>"
proof -
  obtain g n qs where ps: "ps = (g, n) # qs" using assms(2) by (cases ps) auto
  have "0 < n" using assms(1) ps by simp
  then obtain m where n: "n = Suc m" using gr0_implies_Suc by blast
  have g: "g = f" and fs: "fs = [Suc f ..< Suc f + m] @ pool_frames qs"
    using assms(2) unfolding ps n by (auto simp: upt_conv_Cons simp del: upt_Suc)
  let ?m = "cs_mem s"
  have c: "pc_pool (cs_cache s) = page_virt f" "Suc m < 2 ^ 64" "pl_len (?m (page_virt f)) = of_nat (Suc m)"
    "pool_chain ?m (pl_next (?m (page_virt f))) qs"
    using assms(1) unfolding ps n g by auto
  have fresh: "f \<notin> set (pool_frames qs)" using assms(3) fs by auto
  show ?thesis
  proof (cases "m = 0")
    case True
    then show ?thesis using take_head_last [OF c(1) _ assms(4)] c(3) pool_chain_store [OF c(4) fresh] fs
      by auto
  next
    case False
    have "Suc f \<notin> set (pool_frames qs)" using assms(3) fs False by (auto simp: upt_conv_Cons simp del: upt_Suc)
    then have "pool_chain (?m(page_virt f := x, page_virt (Suc f) := y, page_virt f := z)) (pl_next (?m (page_virt f))) qs"
      for x y z using fresh c(4) by (intro pool_chain_store) simp_all
    then show ?thesis using take_head_more [OF c(1,3) _ c(2) assms(4)] fs False c(2)
      by (subst ex_comm, intro exI [of _ "(Suc f, m) # qs"]) (simp del: of_nat_Suc)
  qed
qed

section \<open>New pools\<close>

lemma pool_chain_snoc:
  assumes "pool_chain mem a (ps @ [(f, n)])" and "distinct (pool_frames (ps @ [(f, n), (g, k)]))"
    and "0 < k" and "k < 2 ^ 64"
    and mem': "mem' = mem(page_virt g := \<lparr>pl_next = 0, pl_len = of_nat k\<rparr>,
      page_virt f := (mem (page_virt f))\<lparr>pl_next := page_virt g\<rparr>)"
  shows "pool_chain mem' a (ps @ [(f, n), (g, k)])"
  using assms(1,2)
proof (induction ps arbitrary: a)
  case Nil
  then have "f \<noteq> g" using assms(3) by auto
  with Nil assms(3,4) show ?case by (auto simp: mem')
next
  case (Cons x ps)
  obtain h i where x: "x = (h, i)" by (cases x)
  have c: "a = page_virt h" "0 < i" "pool_chain mem (pl_next (mem a)) (ps @ [(f, n)])" and i: "i < 2 ^ 64" "pl_len (mem a) = of_nat i"
    using Cons.prems(1) x by auto
  have "0 < n" using pool_chain_len [OF c(3), of f n] by simp
  have "h \<in> {h ..< h + i}" "f \<in> {f ..< f + n}" "g \<in> {g ..< g + k}" using c(2) \<open>0 < n\<close> assms(3) by auto
  moreover have "{h ..< h + i} \<inter> ({f ..< f + n} \<union> {g ..< g + k}) = {}" using Cons.prems(2) by (auto simp: x)
  ultimately have "h \<noteq> f" "h \<noteq> g" by blast+
  then have "mem' a = mem a" using c(1) by (simp add: mem')
  moreover have "pool_chain mem' (pl_next (mem a)) (ps @ [(f, n), (g, k)])"
    using Cons.IH [OF c(3)] Cons.prems(2) by (simp add: x)
  ultimately show ?case using c i by (simp add: x)
qed

text \<open>
  One round of the loop: with more than one page to ask for, the page allocator gives the longest
  run it has, or panics when it has none.
\<close>

lemma alloc_max_round:
  assumes "pmm_wf p" and "1 < pages"
  obtains "com_mm_pmm_alloc_max_zero p junk (unat (pages :: u64)) = Panic"
  | f k p' where "com_mm_pmm_alloc_max_zero p junk (unat pages) = Ok (k, f * ARCH_PAGE_SIZE, p')"
      "takes p {f ..< f + k} p'" "0 < k" "k < 2 ^ 64" "k \<le> unat pages"
proof (cases "pmm_list p")
  case Nil
  then show ?thesis using that(1) assms
    by (simp add: com_mm_pmm_alloc_max_zero_def com_mm_pmm_alloc_max_def freelist_pop_front_nolock_def
        pmm_wf_def word_less_nat_alt)
next
  case (Cons e fl)
  have n: "1 < unat pages" using assms(2) by (simp add: word_less_nat_alt)
  obtain a p' where a: "com_mm_pmm_alloc_max p junk (unat pages) = Ok (min (unat pages) (fe_pages e), a, p')"
    "ARCH_PAGE_SIZE dvd a" "takes p {a div ARCH_PAGE_SIZE ..< a div ARCH_PAGE_SIZE + min (unat pages) (fe_pages e)} p'"
    using com_mm_pmm_alloc_max_ok [OF assms(1) Cons n] by blast
  have "0 < fe_pages e" using pmm_wf_list [OF assms(1)] Cons by (simp add: fl_ok_def block_ok_def)
  then show ?thesis
    using that(2) [of "min (unat pages) (fe_pages e)" "a div ARCH_PAGE_SIZE" p'] a n unat_lt64 [of pages]
    by (simp add: com_mm_pmm_alloc_max_zero_def)
qed

lemma pool_grown_trans:
  assumes "takes p (set new) p1" and "pool_grown p1 (fs @ new) r" 
  shows "pool_grown p fs r"
proof -
  obtain pl mem p' where r: "r = (pl, mem, p')" by (cases r)
  obtain ps nw where *: "pmm_wf p'" "pool_chain mem pl ps" "pool_frames ps = (fs @ new) @ nw" "distinct ((fs @ new) @ nw)"
    "set nw \<subseteq> free_frames (pmm_list p1)" "free_frames (pmm_list p') = free_frames (pmm_list p1) - set nw"
    using assms(2) by (auto simp: pool_grown_def r)
  have "free_frames (pmm_list p1) = free_frames (pmm_list p) - set new" "set new \<subseteq> free_frames (pmm_list p)"
    using assms(1) by (auto simp: takes_def)
  with * show ?thesis
    unfolding pool_grown_def r prod.case
    by (intro conjI exI [of _ ps] exI [of _ "new @ nw"]) auto
qed

lemma pool_chain_extend:
  assumes "pool_chain mem pl ps" and "prev = (if ps = [] then 0 else page_virt (fst (last ps)))"
    and "distinct (pool_frames ps @ [f ..< f + k])" and "0 < k" and "k < 2 ^ 64"
    and "mem1 = mem(page_virt f := \<lparr>pl_next = 0, pl_len = of_nat k\<rparr>)"
  shows "if prev = 0 then pool_chain mem1 (page_virt f) (ps @ [(f, k)])
    else pool_chain (mem1(prev := (mem1 prev)\<lparr>pl_next := page_virt f\<rparr>)) pl (ps @ [(f, k)])"
proof (cases ps rule: rev_cases)
  case Nil
  then show ?thesis using assms(2,4-6) by simp
next
  case (snoc qs x)
  obtain g n where x: "x = (g, n)" by (cases x)
  have prev: "prev = page_virt g" using assms(2) snoc x by simp
  have "0 < n" using pool_chain_len [OF assms(1), of g n] snoc x by simp
  then have "g \<noteq> f" using assms(3,4) snoc x by auto
  then have "mem1 prev = mem (page_virt g)" by (simp add: assms(6) prev)
  then show ?thesis
    using pool_chain_snoc [of mem pl qs g n f k] assms(1,3-6) snoc x prev by simp
qed

lemma new_pool_loop_ok:
  assumes "1 < pages" and "pmm_wf p" and "pool_chain mem pl ps" and "distinct (pool_frames ps)"
    and "set (pool_frames ps) \<inter> free_frames (pmm_list p) = {}"
    and "prev = (if ps = [] then 0 else page_virt (fst (last ps)))"
  shows "\<exists>r. new_pool_loop junk pages mem p pl prev allocated = Some r \<and> r \<noteq> Blocked \<and>
    (\<forall>x. r = Ok x \<longrightarrow> pool_grown p (pool_frames ps) x)"
  using assms(2-)
proof (induction "card (free_frames (pmm_list p))" arbitrary: mem p pl ps prev allocated rule: less_induct)
  case less
  note unfold = new_pool_loop.simps [of junk pages mem p pl prev allocated]
  show ?case
  proof (cases "allocated < pages")
    case False
    have "pool_grown p (pool_frames ps) (pl, mem, p)"
      using less.prems by (auto simp: pool_grown_def)
    with False unfold show ?thesis by simp
  next
    case True
    show ?thesis
    proof (rule alloc_max_round [OF less.prems(1) assms(1), of junk])
      assume "com_mm_pmm_alloc_max_zero p junk (unat pages) = Panic"
      with True unfold show ?thesis by simp
    next
      fix f k p1
      assume a: "com_mm_pmm_alloc_max_zero p junk (unat pages) = Ok (k, f * ARCH_PAGE_SIZE, p1)"
        and t: "takes p {f ..< f + k} p1" and k: "0 < k" "k < 2 ^ 64"
      have d: "distinct (pool_frames ps @ [f ..< f + k])"
        using less.prems(3,4) t by (auto simp: takes_def)
      have p1: "pmm_wf p1" "free_frames (pmm_list p1) = free_frames (pmm_list p) - {f ..< f + k}"
        "{f ..< f + k} \<subseteq> free_frames (pmm_list p)"
        using t by (simp_all add: takes_def)
      have "f \<in> {f ..< f + k}" using k(1) by simp
      then have "free_frames (pmm_list p1) \<subset> free_frames (pmm_list p)" using p1(2,3) by blast
      then have smaller: "card (free_frames (pmm_list p1)) < card (free_frames (pmm_list p))"
        by (intro psubset_card_mono) (simp_all add: free_frames_def frames_def)
      define mem1 where "mem1 = mem(page_virt f := \<lparr>pl_next = 0, pl_len = of_nat k\<rparr>)"
      define mem2 where "mem2 = (if prev = 0 then mem1 else mem1(prev := (mem1 prev)\<lparr>pl_next := page_virt f\<rparr>))"
      define pl' where "pl' = (if prev = 0 then page_virt f else pl)"
      have "pool_chain mem2 pl' (ps @ [(f, k)])"
        using pool_chain_extend [OF less.prems(2,5) d k mem1_def]
        by (cases "prev = 0") (simp_all add: mem2_def pl'_def)
      then obtain r where r: "new_pool_loop junk pages mem2 p1 pl' (page_virt f) (allocated + of_nat k) = Some r"
        "r \<noteq> Blocked" "\<forall>x. r = Ok x \<longrightarrow> pool_grown p1 (pool_frames (ps @ [(f, k)])) x"
        using less.hyps [OF smaller p1(1), of mem2 pl' "ps @ [(f, k)]" "page_virt f" "allocated + of_nat k"]
          d less.prems(4) p1(2) by (fastforce simp: disjoint_iff)
      have "new_pool_loop junk pages mem p pl prev allocated = Some r"
        unfolding unfold using True a r(1)
        by (simp add: Let_def page_virt_def [symmetric] mem1_def [symmetric] mem2_def pl'_def split: if_splits)
      moreover have "pool_grown p (pool_frames ps) x" if "r = Ok x" for x
        using pool_grown_trans [of p "[f ..< f + k]" p1 "pool_frames ps" x] t r(3) that by simp
      ultimately show ?thesis using r(2) by blast
    qed
  qed
qed

lemma new_pool_grown:
  assumes "pmm_wf p" and "1 < pages"
  shows "\<exists>r. pmm_cache_new_pool junk mem p pages = Some r \<and> r \<noteq> Blocked \<and> (\<forall>x. r = Ok x \<longrightarrow> pool_grown p [] x)"
  using new_pool_loop_ok [OF assms(2,1), of mem 0 "[]" 0 junk 0] by (simp add: pmm_cache_new_pool_def)

text \<open>One round is enough when the largest free block has the pages.\<close>

lemma new_pool_one_round:
  assumes "pmm_wf p" and "1 < pages" and "pmm_list p = e # fl" and "unat pages \<le> fe_pages e"
  shows "\<exists>mem' p' f. pmm_cache_new_pool junk mem p pages = Some (Ok (page_virt f, mem', p')) \<and>
    takes p {f ..< f + unat pages} p' \<and> pool_chain mem' (page_virt f) [(f, unat pages)]"
proof -
  have n: "1 < unat pages" using assms(2) by (simp add: word_less_nat_alt)
  obtain a p' where a: "com_mm_pmm_alloc_max p junk (unat pages) = Ok (unat pages, a, p')"
    "ARCH_PAGE_SIZE dvd a" "takes p {a div ARCH_PAGE_SIZE ..< a div ARCH_PAGE_SIZE + unat pages} p'"
    using com_mm_pmm_alloc_max_ok [OF assms(1,3) n, of junk] assms(4) by (auto simp: min_def)
  have v: "ARCH_PHYS_TO_HHDM a = page_virt (a div ARCH_PAGE_SIZE)" using a(2) by (simp add: page_virt_def)
  have "pmm_cache_new_pool junk mem p pages = Some (Ok (page_virt (a div ARCH_PAGE_SIZE),
      mem(page_virt (a div ARCH_PAGE_SIZE) := \<lparr>pl_next = 0, pl_len = pages\<rparr>), p'))"
    using n unfolding pmm_cache_new_pool_def
    by (subst new_pool_loop.simps, subst new_pool_loop.simps)
      (simp add: com_mm_pmm_alloc_max_zero_def a(1) v Let_def word_less_nat_alt)
  moreover have "pool_chain (mem(page_virt (a div ARCH_PAGE_SIZE) := \<lparr>pl_next = 0, pl_len = pages\<rparr>))
      (page_virt (a div ARCH_PAGE_SIZE)) [(a div ARCH_PAGE_SIZE, unat pages)]"
    using n unat_lt64 [of pages] by simp
  ultimately show ?thesis using a(3) by blast
qed

section \<open>The cache is a stack of pages\<close>

lemma cache_inv_chain:
  assumes "cache_inv s fs L"
  obtains ps where "pool_chain (cs_mem s) (pc_pool (cs_cache s)) ps" "pool_frames ps = fs"
  using assms by (auto simp: cache_inv_def)

lemma take_head_pool: "take_head s = Ok x \<Longrightarrow> pc_pool (cs_cache s) \<noteq> 0"
  by (rule notI) (simp add: take_head_def Let_def)

lemma take_head_inv:
  assumes "cache_inv s (f # fs) L"
  shows "\<exists>s'. take_head s = Ok (f * ARCH_PAGE_SIZE, s') \<and> cache_inv s' fs (insert f L) \<and>
    cs_pmm s' = cs_pmm s \<and> pc_flags (cs_cache s') = pc_flags (cs_cache s) \<and>
    pc_avail_pages (cs_cache s') = pc_avail_pages (cs_cache s) - 1"
proof -
  obtain ps where "pool_chain (cs_mem s) (pc_pool (cs_cache s)) ps" "pool_frames ps = f # fs"
    using assms by (rule cache_inv_chain)
  moreover have "distinct (f # fs)" "f \<noteq> 0" using assms by (auto simp: cache_inv_def)
  ultimately obtain s' ps' where *: "take_head s = Ok (f * ARCH_PAGE_SIZE, s')"
    "pool_chain (cs_mem s') (pc_pool (cs_cache s')) ps'" "pool_frames ps' = fs" "cs_pmm s' = cs_pmm s"
    and c: "cs_cache s' = (cs_cache s)\<lparr>pc_pool := pc_pool (cs_cache s'), pc_avail_pages := pc_avail_pages (cs_cache s) - 1\<rparr>"
    using take_head_pops by blast
  have "pc_lock (cs_cache s') = pc_lock (cs_cache s)" "pc_pool_size (cs_cache s') = pc_pool_size (cs_cache s)"
    "pc_flags (cs_cache s') = pc_flags (cs_cache s)"
    "pc_avail_pages (cs_cache s') = pc_avail_pages (cs_cache s) - 1"
    by (subst c, simp)+
  with * assms show ?thesis by (auto simp: cache_inv_def)
qed

lemma cache_alloc_nonempty:
  assumes "cache_inv s (f # fs) L"
  shows "com_mm_pmm_cache_alloc junk s 1 = Some (take_head s)"
proof -
  obtain ps where "pool_chain (cs_mem s) (pc_pool (cs_cache s)) ps" "pool_frames ps = f # fs"
    using assms by (rule cache_inv_chain)
  then have "pc_pool (cs_cache s) \<noteq> 0" using pool_chain_empty by fastforce
  with assms show ?thesis by (simp add: com_mm_pmm_cache_alloc_def Let_def cache_inv_def)
qed

lemma cache_alloc_empty:
  assumes "cache_inv s [] L"
  shows "\<exists>r. com_mm_pmm_cache_alloc junk s 1 = Some r \<and> r \<noteq> Blocked \<and>
    (\<forall>a s'. r = Ok (a, s') \<longrightarrow> a = 0 \<and> s' = s \<or>
       (\<exists>f fs. a = f * ARCH_PAGE_SIZE \<and> a \<noteq> 0 \<and> f \<in> free_frames (pmm_list (cs_pmm s)) \<and> cache_inv s' fs (insert f L) \<and>
          set fs \<union> free_frames (pmm_list (cs_pmm s')) \<subseteq> free_frames (pmm_list (cs_pmm s))))"
proof -
  let ?c = "cs_cache s"
  obtain ps where "pool_chain (cs_mem s) (pc_pool ?c) ps" "pool_frames ps = []"
    using assms by (rule cache_inv_chain)
  then have pool: "pc_pool ?c = 0" using pool_chain_empty by fastforce
  have inv: "pmm_wf (cs_pmm s)" "\<not> pc_lock ?c" "1 < pc_pool_size ?c" "0 \<notin> free_frames (pmm_list (cs_pmm s))"
    "0 \<notin> L" "L \<inter> free_frames (pmm_list (cs_pmm s)) = {}"
    using assms by (auto simp: cache_inv_def)
  obtain r where r: "pmm_cache_new_pool junk (cs_mem s) (cs_pmm s) (pc_pool_size ?c) = Some r" "r \<noteq> Blocked"
    "\<forall>x. r = Ok x \<longrightarrow> pool_grown (cs_pmm s) [] x"
    using new_pool_grown [OF inv(1,3)] by blast
  show ?thesis
  proof (cases "pc_avail_pages ?c = 0 \<and> HAS_AUTOALLOC ?c \<and> (\<exists>x. r = Ok x)")
    case False
    then show ?thesis using r(1,2) pool inv(2) by (cases r) (auto simp: com_mm_pmm_cache_alloc_def Let_def)
  next
    case True
    then obtain pl mem1 p1 where x: "r = Ok (pl, mem1, p1)" by auto
    define s1 where "s1 = \<lparr>cs_cache = ?c\<lparr>pc_pool := pl, pc_avail_pages := pc_pool_size ?c\<rparr>, cs_mem = mem1, cs_pmm = p1\<rparr>"
    have alloc: "com_mm_pmm_cache_alloc junk s 1 = Some (take_head s1)"
      using True r(1) pool inv(2) by (simp add: com_mm_pmm_cache_alloc_def Let_def x s1_def)
    have "pool_grown (cs_pmm s) [] (pl, mem1, p1)" using r(3) x by simp
    then obtain qs fs where g: "pmm_wf p1" "pool_chain mem1 pl qs" "pool_frames qs = fs" "distinct fs"
      "set fs \<subseteq> free_frames (pmm_list (cs_pmm s))" "free_frames (pmm_list p1) = free_frames (pmm_list (cs_pmm s)) - set fs"
      by (auto simp: pool_grown_def)
    then have s1: "cache_inv s1 fs L" using inv by (auto simp: cache_inv_def s1_def)
    show ?thesis
    proof (cases fs)
      case Nil
      then have "pl = 0" using g(2,3) pool_chain_empty by fastforce
      then show ?thesis using alloc by (simp add: take_head_def s1_def)
    next
      case (Cons f fs')
      then obtain s' where "take_head s1 = Ok (f * ARCH_PAGE_SIZE, s')" "cache_inv s' fs' (insert f L)" "cs_pmm s' = p1"
        using take_head_inv [of s1 f fs' L] s1 by (auto simp: s1_def)
      moreover have "f \<in> free_frames (pmm_list (cs_pmm s))" using g(5) Cons by simp
      moreover have "set fs' \<union> free_frames (pmm_list p1) \<subseteq> free_frames (pmm_list (cs_pmm s))" using g(5,6) Cons by auto
      ultimately show ?thesis using alloc inv(4) by (auto intro!: gr0I)
    qed
  qed
qed

lemma cache_free_inv:
  assumes "cache_inv s fs L" and "f \<in> L"
  shows "\<exists>s'. com_mm_pmm_cache_free s (f * ARCH_PAGE_SIZE) = Ok s' \<and>
    cache_inv s' (if HAS_AUTOMERGE (cs_cache s) then fs else f # fs) (L - {f})"
proof (cases "HAS_AUTOMERGE (cs_cache s)")
  case True
  then show ?thesis using assms by (auto simp: com_mm_pmm_cache_free_def Let_def cache_inv_def)
next
  case False
  obtain ps where ps: "pool_chain (cs_mem s) (pc_pool (cs_cache s)) ps" "pool_frames ps = fs"
    using assms(1) by (rule cache_inv_chain)
  have f: "f \<notin> set fs" using assms by (auto simp: cache_inv_def)
  then have "pool_chain ((cs_mem s)(page_virt f := \<lparr>pl_next = pc_pool (cs_cache s), pl_len = 1\<rparr>)) (page_virt f) ((f, 1) # ps)"
    using pool_chain_store [OF ps(1)] ps(2) by simp
  moreover have "pool_frames ((f, 1) # ps) = f # fs" using ps(2) by simp
  ultimately have "\<exists>qs. pool_chain ((cs_mem s)(page_virt f := \<lparr>pl_next = pc_pool (cs_cache s), pl_len = 1\<rparr>)) (page_virt f) qs \<and>
      pool_frames qs = f # fs" by blast
  then show ?thesis using False assms f
    by (auto simp: com_mm_pmm_cache_free_def Let_def cache_inv_def page_virt_def [symmetric])
qed

lemma cache_store_inv:
  assumes "cache_inv s fs L" and "f \<in> L"
  shows "cache_inv (s\<lparr>cs_mem := (cs_mem s)(page_virt f := v)\<rparr>) fs L"
proof -
  obtain ps where ps: "pool_chain (cs_mem s) (pc_pool (cs_cache s)) ps" "pool_frames ps = fs"
    using assms(1) by (rule cache_inv_chain)
  have "f \<notin> set fs" using assms by (auto simp: cache_inv_def)
  then have "pool_chain ((cs_mem s)(page_virt f := v)) (pc_pool (cs_cache s)) ps"
    using pool_chain_store [OF ps(1)] ps(2) by simp
  then show ?thesis using assms(1) ps(2) by (auto simp: cache_inv_def)
qed

interpretation cache_source: page_source "\<lambda>x. \<exists>L. cache_inv (fst x) (snd x) L" "\<lambda>x. set (snd x)" cache_page
proof
  fix x y :: "cache_state \<times> nat list" and p
  assume ok: "\<exists>L. cache_inv (fst x) (snd x) L"
  then obtain L where L: "cache_inv (fst x) (snd x) L" by blast
  show "finite (set (snd x))" by simp
  have step: "\<exists>s'. cache_page x = Some (f, s', fs) \<and> cache_inv s' fs (insert f L)" if x: "snd x = f # fs" for f fs
  proof -
    have inv: "cache_inv (fst x) (f # fs) L" using L x by simp
    obtain s' where s': "take_head (fst x) = Ok (f * ARCH_PAGE_SIZE, s')" "cache_inv s' fs (insert f L)"
      using take_head_inv [OF inv] by blast
    then have "pc_pool (cs_cache (fst x)) \<noteq> 0" by (intro take_head_pool)
    then show ?thesis using s' x cache_alloc_nonempty [OF inv] by (simp add: cache_page_def)
  qed
  have none: "cache_page x = None" if x: "snd x = []"
  proof -
    obtain ps where "pool_chain (cs_mem (fst x)) (pc_pool (cs_cache (fst x))) ps" "pool_frames ps = []"
      using L x by (auto elim: cache_inv_chain)
    then show ?thesis using pool_chain_empty by (fastforce simp: cache_page_def)
  qed
  show "(\<exists>L. cache_inv (fst y) (snd y) L) \<and> p \<in> set (snd x) \<and> set (snd y) = set (snd x) - {p}"
    if y: "cache_page x = Some (p, y)"
  proof (cases "snd x")
    case Nil
    with none y show ?thesis by simp
  next
    case (Cons f fs)
    from step [OF Cons] y obtain s' where s': "y = (s', fs)" "p = f" "cache_inv s' fs (insert f L)" by auto
    have "f \<notin> set fs" using L Cons by (simp add: cache_inv_def)
    with s' Cons show ?thesis by auto
  qed
  show "\<exists>p y. cache_page x = Some (p, y)" if "set (snd x) \<noteq> {}"
    using that step by (cases "snd x") auto
qed

lemma cache_init_inv:
  assumes "com_mm_pmm_cache_init junk mem p isz psz mx flags = Some (Ok s)"
    and "pmm_wf p" and "0 \<notin> free_frames (pmm_list p)" and "1 < isz" and "1 < psz"
  shows "\<exists>fs. cache_inv s fs {} \<and> set fs \<union> free_frames (pmm_list (cs_pmm s)) \<subseteq> free_frames (pmm_list p)"
proof -
  obtain r where r: "pmm_cache_new_pool junk mem p isz = Some r" "\<forall>x. r = Ok x \<longrightarrow> pool_grown p [] x"
    using new_pool_grown [OF assms(2,4)] by blast
  then obtain pl mem1 p1 where x: "r = Ok (pl, mem1, p1)"
    using assms(1) by (cases r) (auto simp: com_mm_pmm_cache_init_def)
  then have "pool_grown p [] (pl, mem1, p1)" using r(2) by simp
  then obtain qs fs where g: "pmm_wf p1" "pool_chain mem1 pl qs" "pool_frames qs = fs" "distinct fs"
    "set fs \<subseteq> free_frames (pmm_list p)" "free_frames (pmm_list p1) = free_frames (pmm_list p) - set fs"
    by (auto simp: pool_grown_def)
  have "s = \<lparr>cs_cache = \<lparr>pc_lock = False, pc_pool_size = psz, pc_max_pool_size = mx, pc_pool = pl,
      pc_avail_pages = isz, pc_flags = flags\<rparr>, cs_mem = mem1, cs_pmm = p1\<rparr>"
    using assms(1) r(1) x by (simp add: com_mm_pmm_cache_init_def)
  then show ?thesis using g assms(3,5) by (intro exI [of _ fs]) (auto simp: cache_inv_def)
qed

text \<open>Frames never come from elsewhere than the pages that were free before initialisation.\<close>

lemma cache_alloc_step:
  assumes "cache_inv s fs L" and "com_mm_pmm_cache_alloc junk s 1 = Some (Ok (a, s'))"
  shows "a = 0 \<and> s' = s \<or> (\<exists>f fs'. a = f * ARCH_PAGE_SIZE \<and> a \<noteq> 0 \<and> f \<in> set fs \<union> free_frames (pmm_list (cs_pmm s)) \<and>
    cache_inv s' fs' (insert f L) \<and>
    set fs' \<union> free_frames (pmm_list (cs_pmm s')) \<subseteq> set fs \<union> free_frames (pmm_list (cs_pmm s)))"
proof (cases fs)
  case Nil
  then show ?thesis using cache_alloc_empty [of s L junk] assms by auto
next
  case (Cons f fs')
  have inv: "cache_inv s (f # fs') L" using assms(1) Cons by simp
  have "f \<noteq> 0" using inv by (simp add: cache_inv_def)
  then show ?thesis using take_head_inv [OF inv] cache_alloc_nonempty [OF inv, of junk] assms(2) Cons by auto
qed

text \<open>What a run of calls keeps: the pages of \<open>F\<close> are split between cache, clients and allocator.\<close>

lemma cache_run_inv:
  assumes "cache_run s0 s L" and "cache_inv s0 fs0 {}"
    and "set fs0 \<union> free_frames (pmm_list (cs_pmm s0)) \<subseteq> F"
  shows "\<exists>fs. cache_inv s fs L \<and> set fs \<union> L \<union> free_frames (pmm_list (cs_pmm s)) \<subseteq> F"
  using assms(1)
proof (induction rule: cache_run.induct)
  case start
  then show ?case using assms(2,3) by auto
next
  case (alloc s L junk a s')
  then obtain fs where fs: "cache_inv s fs L" "set fs \<union> L \<union> free_frames (pmm_list (cs_pmm s)) \<subseteq> F" by blast
  then obtain f fs' where f: "a = f * ARCH_PAGE_SIZE" "f \<in> set fs \<union> free_frames (pmm_list (cs_pmm s))"
    "cache_inv s' fs' (insert f L)"
    "set fs' \<union> free_frames (pmm_list (cs_pmm s')) \<subseteq> set fs \<union> free_frames (pmm_list (cs_pmm s))"
    using cache_alloc_step [OF fs(1) alloc(2)] alloc(3) by blast
  then have "a div ARCH_PAGE_SIZE = f" by simp
  moreover have "set fs' \<union> insert f L \<union> free_frames (pmm_list (cs_pmm s')) \<subseteq> F" using f(2,4) fs(2) by blast
  ultimately show ?case using f(3) by auto
next
  case (empty s L junk s')
  then obtain fs where fs: "cache_inv s fs L" "set fs \<union> L \<union> free_frames (pmm_list (cs_pmm s)) \<subseteq> F" by blast
  then show ?case using cache_alloc_step [OF fs(1) empty(2)] by blast
next
  case (free s L f s')
  then obtain fs where fs: "cache_inv s fs L" "set fs \<union> L \<union> free_frames (pmm_list (cs_pmm s)) \<subseteq> F" by blast
  have "cs_pmm s' = cs_pmm s"
    using free(3) by (auto simp: com_mm_pmm_cache_free_def Let_def split: if_splits)
  then show ?case using cache_free_inv [OF fs(1) free(2)] free(2,3) fs(2)
    by (intro exI [of _ "if HAS_AUTOMERGE (cs_cache s) then fs else f # fs"]) auto
next
  case (store s L f v)
  then obtain fs where fs: "cache_inv s fs L" "set fs \<union> L \<union> free_frames (pmm_list (cs_pmm s)) \<subseteq> F" by blast
  then show ?case using cache_store_inv [OF fs(1) store(2)] by auto
qed

text \<open>Drawing all the pages the cache holds, with the counter going down by one each time.\<close>

lemma cache_draw_all:
  assumes "cache_inv s fs L"
  shows "\<exists>s'. draw cache_page (s, fs) (length fs) = Some (fs, s', []) \<and> cache_inv s' [] (L \<union> set fs) \<and>
    pc_flags (cs_cache s') = pc_flags (cs_cache s) \<and>
    pc_avail_pages (cs_cache s') = pc_avail_pages (cs_cache s) - of_nat (length fs)"
  using assms
proof (induction fs arbitrary: s L)
  case Nil
  then show ?case by simp
next
  case (Cons f fs)
  obtain s1 where s1: "take_head s = Ok (f * ARCH_PAGE_SIZE, s1)" "cache_inv s1 fs (insert f L)"
    "pc_flags (cs_cache s1) = pc_flags (cs_cache s)"
    "pc_avail_pages (cs_cache s1) = pc_avail_pages (cs_cache s) - 1"
    using take_head_inv [OF Cons.prems] by blast
  then have "pc_pool (cs_cache s) \<noteq> 0" by (intro take_head_pool)
  then have "cache_page (s, f # fs) = Some (f, s1, fs)"
    using s1(1) cache_alloc_nonempty [OF Cons.prems, of 0] by (simp add: cache_page_def)
  with Cons.IH [OF s1(2)] s1(3,4) show ?case by (auto simp: algebra_simps)
qed

lemma cache_exact_count:
  assumes "pmm_wf p" and "0 \<notin> free_frames (pmm_list p)" and "1 < n" and "1 < psz"
    and "pmm_list p = e # fl" and "unat n \<le> fe_pages e"
  shows "\<exists>s f s'. com_mm_pmm_cache_init junk mem p n psz mx flags = Some (Ok s) \<and>
    draw cache_page (s, [f ..< f + unat n]) (unat n) = Some ([f ..< f + unat n], s', []) \<and>
    pc_avail_pages (cs_cache s') = 0"
proof -
  obtain mem' p' f where np: "pmm_cache_new_pool junk mem p n = Some (Ok (page_virt f, mem', p'))"
    and t: "takes p {f ..< f + unat n} p'" and c: "pool_chain mem' (page_virt f) [(f, unat n)]"
    using new_pool_one_round [OF assms(1,3,5,6)] by blast
  define s where "s = \<lparr>cs_cache = \<lparr>pc_lock = False, pc_pool_size = psz, pc_max_pool_size = mx,
    pc_pool = page_virt f, pc_avail_pages = n, pc_flags = flags\<rparr>, cs_mem = mem', cs_pmm = p'\<rparr>"
  have "\<exists>ps. pool_chain mem' (page_virt f) ps \<and> pool_frames ps = [f ..< f + unat n]"
    using c by (intro exI [of _ "[(f, unat n)]"]) simp
  moreover have "pmm_wf p'" "{f ..< f + unat n} \<subseteq> free_frames (pmm_list p)"
    "free_frames (pmm_list p') = free_frames (pmm_list p) - {f ..< f + unat n}"
    using t by (simp_all add: takes_def)
  moreover from this(2) have "0 \<notin> set [f ..< f + unat n]" using assms(2) by (metis atLeastLessThan_upt subsetD)
  ultimately have inv: "cache_inv s [f ..< f + unat n] {}"
    using assms(2,4) unfolding cache_inv_def s_def by auto
  have "com_mm_pmm_cache_init junk mem p n psz mx flags = Some (Ok s)"
    using np by (simp add: com_mm_pmm_cache_init_def s_def)
  with cache_draw_all [OF inv] show ?thesis by (auto simp: s_def)
qed

lemma cache_wrong_count:
  assumes "cache_inv s fs L" and "pc_avail_pages (cs_cache s) \<noteq> of_nat (length fs)"
  shows "\<exists>s'. draw cache_page (s, fs) (length fs) = Some (fs, s', []) \<and> com_mm_pmm_cache_alloc junk s' 1 = Some Panic"
proof -
  from cache_draw_all [OF assms(1)] obtain s' where s': "draw cache_page (s, fs) (length fs) = Some (fs, s', [])"
    "cache_inv s' [] (L \<union> set fs)" "pc_avail_pages (cs_cache s') = pc_avail_pages (cs_cache s) - of_nat (length fs)"
    by blast
  obtain ps where "pool_chain (cs_mem s') (pc_pool (cs_cache s')) ps" "pool_frames ps = []"
    using s'(2) by (rule cache_inv_chain)
  then have "pc_pool (cs_cache s') = 0" using pool_chain_empty by fastforce
  moreover have "\<not> pc_lock (cs_cache s')" using s'(2) by (simp add: cache_inv_def)
  ultimately show ?thesis
    using s'(1,3) assms(2) by (intro exI [of _ s']) (simp add: com_mm_pmm_cache_alloc_def Let_def)
qed

section \<open>Properties\<close>

text \<open>
  C23: the page cache hands out pages exclusively. Once a cache is set up over a well formed page
  allocator, then whatever requests, releases and owner writes follow, a request for a page always
  returns or panics, and a page it returns is page aligned, was free in the page allocator at the
  start, is held by no other client and has left the free list. A client that writes into a page
  it holds cannot damage the cache.
\<close>

theorem pmm_cache_pages_exclusive:
  assumes "com_mm_pmm_cache_init junk mem p isz psz mx flags = Some (Ok s0)"
    and "pmm_wf p" and "0 \<notin> free_frames (pmm_list p)" and "1 < isz" and "1 < psz"
    and "cache_run s0 s L"
  shows "\<exists>r. com_mm_pmm_cache_alloc junk' s 1 = Some r \<and> r \<noteq> Blocked \<and>
    (\<forall>a s'. r = Ok (a, s') \<and> a \<noteq> 0 \<longrightarrow> ARCH_PAGE_SIZE dvd a \<and> a div ARCH_PAGE_SIZE \<in> free_frames (pmm_list p) \<and>
       a div ARCH_PAGE_SIZE \<notin> L \<union> free_frames (pmm_list (cs_pmm s')))"
proof -
  let ?F = "free_frames (pmm_list p)"
  obtain fs0 where "cache_inv s0 fs0 {}" "set fs0 \<union> free_frames (pmm_list (cs_pmm s0)) \<subseteq> ?F"
    using cache_init_inv [OF assms(1-5)] by blast
  then obtain fs where fs: "cache_inv s fs L" "set fs \<union> L \<union> free_frames (pmm_list (cs_pmm s)) \<subseteq> ?F"
    using cache_run_inv [OF assms(6)] by blast
  have "\<exists>r. com_mm_pmm_cache_alloc junk' s 1 = Some r \<and> r \<noteq> Blocked"
  proof (cases fs)
    case Nil
    then show ?thesis using cache_alloc_empty [of s L junk'] fs(1) by auto
  next
    case (Cons f fs')
    then have inv: "cache_inv s (f # fs') L" using fs(1) by simp
    show ?thesis using take_head_inv [OF inv] cache_alloc_nonempty [OF inv, of junk'] by auto
  qed
  moreover have "ARCH_PAGE_SIZE dvd a \<and> a div ARCH_PAGE_SIZE \<in> ?F \<and>
      a div ARCH_PAGE_SIZE \<notin> L \<union> free_frames (pmm_list (cs_pmm s'))"
    if got: "com_mm_pmm_cache_alloc junk' s 1 = Some (Ok (a, s'))" "a \<noteq> 0" for a s'
  proof -
    obtain f fs' where f: "a = f * ARCH_PAGE_SIZE" "f \<in> set fs \<union> free_frames (pmm_list (cs_pmm s))"
      "cache_inv s' fs' (insert f L)"
      using cache_alloc_step [OF fs(1) got(1)] got(2) by blast
    have "f \<notin> L" using fs(1) f(2) by (auto simp: cache_inv_def)
    moreover have "f \<notin> free_frames (pmm_list (cs_pmm s'))" using f(3) by (auto simp: cache_inv_def)
    ultimately show ?thesis using f(1,2) fs(2) by auto
  qed
  ultimately show ?thesis by blast
qed

text \<open>
  a cache set up with \<open>n\<close> pages serves exactly \<open>n\<close> requests when the largest free block has
  them, all different, from the lowest address up, and only then goes back to the page allocator.
  In general the cache can hold more pages than it counts, because every round of filling it asks
  for the whole amount again: once its pages are used up, the next request panics unless the count
  was right.
\<close>

theorem pmm_cache_count:
  assumes "pmm_wf p" and "0 \<notin> free_frames (pmm_list p)" and "1 < n" and "1 < psz"
  shows "(pmm_list p = e # fl \<and> unat n \<le> fe_pages e \<longrightarrow>
      (\<exists>s f s'. com_mm_pmm_cache_init junk mem p n psz mx flags = Some (Ok s) \<and>
         draw cache_page (s, [f ..< f + unat n]) (unat n) = Some ([f ..< f + unat n], s', []) \<and>
         pc_avail_pages (cs_cache s') = 0)) \<and>
    (cache_inv s fs L \<and> pc_avail_pages (cs_cache s) \<noteq> of_nat (length fs) \<longrightarrow>
      (\<exists>s'. draw cache_page (s, fs) (length fs) = Some (fs, s', []) \<and>
         com_mm_pmm_cache_alloc junk s' 1 = Some Panic))"
  using cache_exact_count [OF assms] cache_wrong_count by blast

lemma sample_pmm_ok: "pmm_wf sample_pmm" "0 \<notin> free_frames (pmm_list sample_pmm)"
  by (auto simp: sample_pmm_def pmm_wf_def fl_ok_def block_ok_def meta_dims_def free_frames_def frames_def
      first_frame_def page_free_def free_meta_def ARCH_PAGE_SIZE_def nth_Cons split: nat.splits)

theorem pmm_cache_count_witness:
  "\<exists>s f s'. com_mm_pmm_cache_init 0 (\<lambda>_. \<lparr>pl_next = 0, pl_len = 0\<rparr>) sample_pmm 3 4 8 5 = Some (Ok s) \<and>
     draw cache_page (s, [f ..< f + 3]) 3 = Some ([f ..< f + 3], s', []) \<and> pc_avail_pages (cs_cache s') = 0"
  using pmm_cache_count [OF sample_pmm_ok, of 3 4 "\<lparr>fe_base = 4096, fe_pages = 4\<rparr>" "[]"]
  by (simp add: sample_pmm_def)

theorem pmm_cache_pages_exclusive_witness:
  "\<exists>s r. com_mm_pmm_cache_init 0 (\<lambda>_. \<lparr>pl_next = 0, pl_len = 0\<rparr>) sample_pmm 3 4 8 5 = Some (Ok s) \<and>
     com_mm_pmm_cache_alloc 0 s 1 = Some r \<and> r \<noteq> Blocked"
proof -
  obtain s where s: "com_mm_pmm_cache_init 0 (\<lambda>_. \<lparr>pl_next = 0, pl_len = 0\<rparr>) sample_pmm 3 4 8 5 = Some (Ok s)"
    using cache_exact_count [OF sample_pmm_ok, of 3 4 "\<lparr>fe_base = 4096, fe_pages = 4\<rparr>" "[]" 0 "\<lambda>_. \<lparr>pl_next = 0, pl_len = 0\<rparr>" 8 5]
    by (auto simp: sample_pmm_def)
  from pmm_cache_pages_exclusive [OF s sample_pmm_ok _ _ cache_run.start, of 0] s show ?thesis by auto
qed

end
