(* ===== verification/Ioviter.thy ===== *)
theory Ioviter
  imports Ringbuffer
begin

text \<open>
  Iterators over scattered user buffers, \<^verbatim>\<open>src/com/lib/ioviter.c\<close> and \<^verbatim>\<open>include/lib/ioviter.h\<close>: the
  bridge between the vectored system calls and the byte channels. The vectors are the \<^verbatim>\<open>iovcnt\<close>
  entries of an array, \<^verbatim>\<open>curr_iov\<close> is an index into it, and an access behind the array is a panic.
  The contract is one flat buffer: the addresses of all vectors in a row.
\<close>

section \<open>State\<close>

record iovec =
  iov_base :: u64
  iov_len :: u64

record kioviter =
  first_iov :: "iovec list"
  curr_iov :: nat
  curr_off :: u64
  total_off :: u64
  total_size :: u64

definition ioviter_size :: "iovec list \<Rightarrow> u64" where
  "ioviter_size iov = foldl (\<lambda>sz v. sz + iov_len v) 0 iov"

definition kioviter_init :: "iovec list \<Rightarrow> kioviter" where
  "kioviter_init iov =
     \<lparr>first_iov = iov, curr_iov = 0, curr_off = 0, total_off = 0, total_size = ioviter_size iov\<rparr>"

definition KIOVITER_FINISHED :: "kioviter \<Rightarrow> bool" where
  "KIOVITER_FINISHED it = (total_off it = total_size it)"

definition KIOVITER_REMAINING :: "kioviter \<Rightarrow> u64" where
  "KIOVITER_REMAINING it = total_size it - total_off it"

definition at_vec :: "kioviter \<Rightarrow> (iovec \<Rightarrow> 'a res) \<Rightarrow> 'a res" where
  "at_vec it f = (if curr_iov it < length (first_iov it) then f (first_iov it ! curr_iov it) else Panic)"

definition KIOVITER_CURR_REMAINING :: "kioviter \<Rightarrow> u64 res" where
  "KIOVITER_CURR_REMAINING it = at_vec it (\<lambda>v. Ok (iov_len v - curr_off it))"

section \<open>Moving\<close>

text \<open>One round of the loop of \<^verbatim>\<open>kioviter_skip\<close> at the vector \<open>v\<close>; it leaves the rest of the count.\<close>

definition skip_round :: "kioviter \<Rightarrow> u64 \<Rightarrow> iovec \<Rightarrow> u64 \<times> kioviter" where
  "skip_round it count v =
     (let curr_rem = iov_len v - curr_off it;
          curr_skip = KMIN curr_rem count;
          it1 = it\<lparr>total_off := total_off it + curr_skip, curr_off := curr_off it + curr_skip\<rparr>
      in (count - curr_skip,
          if curr_off it1 = iov_len v \<and> \<not> KIOVITER_FINISHED it1
          then it1\<lparr>curr_iov := curr_iov it1 + 1, curr_off := 0\<rparr> else it1))"

function (sequential) kioviter_skip :: "kioviter \<Rightarrow> u64 \<Rightarrow> (u64 \<times> kioviter) res" where
  "kioviter_skip it count =
     (if curr_iov it < length (first_iov it)
      then let (count', it') = skip_round it count (first_iov it ! curr_iov it)
           in if count' \<noteq> 0 \<and> \<not> KIOVITER_FINISHED it' then kioviter_skip it' count'
              else Ok (KIOVITER_REMAINING it', it')
      else Panic)"
  by pat_completeness auto
termination
  by (relation "measure (\<lambda>(it, _). length (first_iov it) - curr_iov it)")
    (auto simp: skip_round_def Let_def KMIN_min min_def KIOVITER_FINISHED_def split: if_splits)

declare kioviter_skip.simps [simp del]

definition kioviter_goto :: "kioviter \<Rightarrow> u64 \<Rightarrow> (u64 \<times> kioviter) res" where
  "kioviter_goto it off =
     (if total_off it < off then kioviter_skip it (off - total_off it)
      else kioviter_skip (it\<lparr>curr_iov := 0, curr_off := 0, total_off := 0\<rparr>) off)"

definition kioviter_next :: "kioviter \<Rightarrow> (iovec option \<times> kioviter) res" where
  "kioviter_next it =
     (if KIOVITER_FINISHED it then Ok (None, it)
      else at_vec it (\<lambda>v. Ok (Some v,
        it\<lparr>total_off := total_off it + (iov_len v - curr_off it), curr_off := 0, curr_iov := curr_iov it + 1\<rparr>)))"

section \<open>Copying\<close>

text \<open>The addresses of \<open>n\<close> bytes from \<open>a\<close> on, and storing bytes at a list of addresses.\<close>

definition block :: "u64 \<Rightarrow> nat \<Rightarrow> u64 list" where
  "block a n = map (\<lambda>i. a + of_nat i) [0..<n]"

definition store_list :: "mem \<Rightarrow> u64 list \<Rightarrow> u8 list \<Rightarrow> mem" where
  "store_list m as bs = foldl (\<lambda>m (a, b). m(a := b)) m (zip as bs)"

text \<open>The loops, in the form of the bytes read so far, the bytes still to write, the memory.\<close>

partial_function (option) iov_read_loop :: "mem \<Rightarrow> kioviter \<Rightarrow> u64 \<Rightarrow> u8 list \<Rightarrow> (u8 list \<times> kioviter) res option" where
  "iov_read_loop m it tot_rem buf =
     (case KIOVITER_CURR_REMAINING it of
        Panic \<Rightarrow> Some Panic | Blocked \<Rightarrow> Some Blocked
      | Ok curr_rem \<Rightarrow>
          let copy_size = KMIN curr_rem tot_rem;
              buf' = buf @ map m (block (iov_base (first_iov it ! curr_iov it) + curr_off it) (unat copy_size))
          in case kioviter_skip it copy_size of
               Panic \<Rightarrow> Some Panic | Blocked \<Rightarrow> Some Blocked
             | Ok (_, it') \<Rightarrow>
                 if tot_rem - copy_size \<noteq> 0 \<and> \<not> KIOVITER_FINISHED it'
                 then iov_read_loop m it' (tot_rem - copy_size) buf'
                 else Some (Ok (buf', it')))"

definition kioviter_read :: "mem \<Rightarrow> u64 \<Rightarrow> kioviter \<Rightarrow> (u8 list \<times> kioviter) res option" where
  "kioviter_read m buflen it = iov_read_loop m it (KMIN buflen (KIOVITER_REMAINING it)) []"

partial_function (option) iov_write_loop :: "mem \<Rightarrow> kioviter \<Rightarrow> u8 list \<Rightarrow> u64 \<Rightarrow> u64 \<Rightarrow> (u64 \<times> mem \<times> kioviter) res option" where
  "iov_write_loop m it buf write_count tot_rem =
     (case KIOVITER_CURR_REMAINING it of
        Panic \<Rightarrow> Some Panic | Blocked \<Rightarrow> Some Blocked
      | Ok curr_rem \<Rightarrow>
          let copy_size = KMIN curr_rem tot_rem;
              m' = store_list m (block (iov_base (first_iov it ! curr_iov it) + curr_off it) (unat copy_size))
                     (take (unat copy_size) (drop (unat write_count) buf))
          in case kioviter_skip it copy_size of
               Panic \<Rightarrow> Some Panic | Blocked \<Rightarrow> Some Blocked
             | Ok (_, it') \<Rightarrow>
                 if tot_rem - copy_size \<noteq> 0 \<and> \<not> KIOVITER_FINISHED it'
                 then iov_write_loop m' it' buf (write_count + copy_size) (tot_rem - copy_size)
                 else Some (Ok (write_count + copy_size, m', it')))"

definition kioviter_write :: "mem \<Rightarrow> kioviter \<Rightarrow> u8 list \<Rightarrow> (u64 \<times> mem \<times> kioviter) res option" where
  "kioviter_write m it buf = iov_write_loop m it buf 0 (KMIN (of_nat (length buf)) (KIOVITER_REMAINING it))"

text \<open>Filling; each round hands the whole length to \<^verbatim>\<open>kmemset\<close>.\<close>

partial_function (option) iov_memset_loop :: "mem \<Rightarrow> kioviter \<Rightarrow> u8 \<Rightarrow> u64 \<Rightarrow> u64 \<Rightarrow> (mem \<times> kioviter) res option" where
  "iov_memset_loop m it val len tot_rem =
     (case KIOVITER_CURR_REMAINING it of
        Panic \<Rightarrow> Some Panic | Blocked \<Rightarrow> Some Blocked
      | Ok curr_rem \<Rightarrow>
          let copy_size = KMIN curr_rem tot_rem;
              m' = store_list m (block (iov_base (first_iov it ! curr_iov it) + curr_off it) (unat len)) (replicate (unat len) val)
          in case kioviter_skip it copy_size of
               Panic \<Rightarrow> Some Panic | Blocked \<Rightarrow> Some Blocked
             | Ok (_, it') \<Rightarrow>
                 if tot_rem - copy_size \<noteq> 0 \<and> \<not> KIOVITER_FINISHED it'
                 then iov_memset_loop m' it' val len (tot_rem - copy_size)
                 else Some (Ok (m', it')))"

definition kioviter_memset :: "mem \<Rightarrow> kioviter \<Rightarrow> u8 \<Rightarrow> u64 \<Rightarrow> (mem \<times> kioviter) res option" where
  "kioviter_memset m it val len = iov_memset_loop m it val len (KMIN len (KIOVITER_REMAINING it))"

section \<open>Ring buffers\<close>

text \<open>
  The loops between an iterator and a ring buffer: the error, the count of bytes moved, the
  callback's state, the buffer, the memory and the iterator.
\<close>

partial_function (option) to_ringbuffer_loop ::
  "nat \<Rightarrow> u64 \<Rightarrow> bool \<Rightarrow> ('c \<Rightarrow> 'c) option \<Rightarrow> 'h option \<Rightarrow> mem \<Rightarrow> 'c \<Rightarrow> 'h rb_world \<Rightarrow> kioviter \<Rightarrow> u64 \<Rightarrow> u64
   \<Rightarrow> (errno \<times> u64 \<times> 'c \<times> 'h rb_world \<times> kioviter) res option" where
  "to_ringbuffer_loop self atomic_size blocking callback hu_arg m cb_arg w it read_count tot_rem =
     (case KIOVITER_CURR_REMAINING it of
        Panic \<Rightarrow> Some Panic | Blocked \<Rightarrow> Some Blocked
      | Ok curr_rem \<Rightarrow>
          let copy_size = KMIN curr_rem tot_rem;
              bytes = map m (block (iov_base (first_iov it ! curr_iov it) + curr_off it) (unat copy_size))
          in case kringbuffer_write_nolock self w bytes copy_size atomic_size blocking callback cb_arg hu_arg of
               Panic \<Rightarrow> Some Panic | Blocked \<Rightarrow> Some Blocked
             | Ok (ret, curr_count, cb_arg', w') \<Rightarrow>
                 if ret \<noteq> EOK then Some (Ok (ret, read_count, cb_arg', w', it))
                 else (case kioviter_skip it copy_size of
                         Panic \<Rightarrow> Some Panic | Blocked \<Rightarrow> Some Blocked
                       | Ok (_, it') \<Rightarrow>
                           if tot_rem - curr_count \<noteq> 0 \<and> \<not> KIOVITER_FINISHED it'
                           then to_ringbuffer_loop self atomic_size blocking callback hu_arg m cb_arg' w' it' (read_count + curr_count) (tot_rem - curr_count)
                           else Some (Ok (EOK, read_count + curr_count, cb_arg', w', it'))))"

definition kioviter_read_to_ringbuffer_nolock ::
  "nat \<Rightarrow> 'h rb_world \<Rightarrow> u64 \<Rightarrow> bool \<Rightarrow> ('c \<Rightarrow> 'c) option \<Rightarrow> 'c \<Rightarrow> 'h option \<Rightarrow> mem \<Rightarrow> kioviter \<Rightarrow> u64
   \<Rightarrow> (errno \<times> u64 \<times> 'c \<times> 'h rb_world \<times> kioviter) res option" where
  "kioviter_read_to_ringbuffer_nolock self w atomic_size blocking callback cb_arg hu_arg m it nbytes =
     Option.bind (to_ringbuffer_loop self atomic_size blocking callback hu_arg m cb_arg w it 0 (KMIN nbytes (KIOVITER_REMAINING it)))
       (\<lambda>r. Some (res_bind r (\<lambda>(ret, count, c, w', it').
          if ret \<noteq> EOK then res_bind (kioviter_goto it' (curr_off it + count)) (\<lambda>(_, it''). Ok (ret, count, c, w', it''))
          else Ok (ret, count, c, w', it'))))"

partial_function (option) from_ringbuffer_loop ::
  "nat \<Rightarrow> u64 \<Rightarrow> bool \<Rightarrow> ('c \<Rightarrow> 'c) option \<Rightarrow> 'h option \<Rightarrow> mem \<Rightarrow> 'c \<Rightarrow> 'h rb_world \<Rightarrow> kioviter \<Rightarrow> u64 \<Rightarrow> u64
   \<Rightarrow> (errno \<times> u64 \<times> 'c \<times> 'h rb_world \<times> mem \<times> kioviter) res option" where
  "from_ringbuffer_loop self atomic_size blocking callback hu_arg m cb_arg w it write_count tot_rem =
     (case KIOVITER_CURR_REMAINING it of
        Panic \<Rightarrow> Some Panic | Blocked \<Rightarrow> Some Blocked
      | Ok curr_rem \<Rightarrow>
          let copy_size = KMIN curr_rem tot_rem
          in case kringbuffer_read_nolock self w copy_size atomic_size blocking callback cb_arg hu_arg of
               Panic \<Rightarrow> Some Panic | Blocked \<Rightarrow> Some Blocked
             | Ok (ret, dst, stored, cb_arg', w') \<Rightarrow>
                 let m' = store_list m (block (iov_base (first_iov it ! curr_iov it) + curr_off it) (length dst)) dst;
                     curr_count = (case stored of None \<Rightarrow> 0 | Some n \<Rightarrow> n)
                 in if ret \<noteq> EOK then Some (Ok (ret, write_count, cb_arg', w', m', it))
                    else (case kioviter_skip it copy_size of
                            Panic \<Rightarrow> Some Panic | Blocked \<Rightarrow> Some Blocked
                          | Ok (_, it') \<Rightarrow>
                              if tot_rem - curr_count \<noteq> 0 \<and> \<not> KIOVITER_FINISHED it'
                              then from_ringbuffer_loop self atomic_size blocking callback hu_arg m' cb_arg' w' it' (write_count + curr_count) (tot_rem - curr_count)
                              else Some (Ok (EOK, write_count + curr_count, cb_arg', w', m', it'))))"

definition kioviter_write_from_ringbuffer_nolock ::
  "nat \<Rightarrow> mem \<Rightarrow> kioviter \<Rightarrow> u64 \<Rightarrow> 'h rb_world \<Rightarrow> u64 \<Rightarrow> bool \<Rightarrow> ('c \<Rightarrow> 'c) option \<Rightarrow> 'c \<Rightarrow> 'h option
   \<Rightarrow> (errno \<times> u64 \<times> 'c \<times> 'h rb_world \<times> mem \<times> kioviter) res option" where
  "kioviter_write_from_ringbuffer_nolock self m it nbytes w atomic_size blocking callback cb_arg hu_arg =
     Option.bind (from_ringbuffer_loop self atomic_size blocking callback hu_arg m cb_arg w it 0 (KMIN nbytes (KIOVITER_REMAINING it)))
       (\<lambda>r. Some (res_bind r (\<lambda>(ret, count, c, w', m', it').
          if ret \<noteq> EOK then res_bind (kioviter_goto it' (curr_off it + count)) (\<lambda>(_, it''). Ok (ret, count, c, w', m', it''))
          else Ok (ret, count, c, w', m', it'))))"

text \<open>The entry points that take the lock of the ring buffer.\<close>

definition kioviter_read_to_ringbuffer ::
  "nat \<Rightarrow> 'h rb_world \<Rightarrow> u64 \<Rightarrow> bool \<Rightarrow> ('c \<Rightarrow> 'c) option \<Rightarrow> 'c \<Rightarrow> 'h option \<Rightarrow> mem \<Rightarrow> kioviter \<Rightarrow> u64
   \<Rightarrow> (errno \<times> u64 \<times> 'c \<times> 'h rb_world \<times> kioviter) res option" where
  "kioviter_read_to_ringbuffer self w atomic_size blocking callback cb_arg hu_arg m it nbytes =
     (case w of (rb, hk, wakes) \<Rightarrow>
        if rb_condvar rb then Some Blocked
        else Option.bind (kioviter_read_to_ringbuffer_nolock self (rb\<lparr>rb_condvar := True\<rparr>, hk, wakes) atomic_size blocking callback cb_arg hu_arg m it nbytes)
          (\<lambda>r. Some (res_bind r (\<lambda>(ret, count, c, (rb', w'), it'). Ok (ret, count, c, (rb'\<lparr>rb_condvar := False\<rparr>, w'), it')))))"

definition kioviter_write_from_ringbuffer ::
  "nat \<Rightarrow> mem \<Rightarrow> kioviter \<Rightarrow> u64 \<Rightarrow> 'h rb_world \<Rightarrow> u64 \<Rightarrow> bool \<Rightarrow> ('c \<Rightarrow> 'c) option \<Rightarrow> 'c \<Rightarrow> 'h option
   \<Rightarrow> (errno \<times> u64 \<times> 'c \<times> 'h rb_world \<times> mem \<times> kioviter) res option" where
  "kioviter_write_from_ringbuffer self m it nbytes w atomic_size blocking callback cb_arg hu_arg =
     (case w of (rb, hk, wakes) \<Rightarrow>
        if rb_condvar rb then Some Blocked
        else Option.bind (kioviter_write_from_ringbuffer_nolock self m it nbytes (rb\<lparr>rb_condvar := True\<rparr>, hk, wakes) atomic_size blocking callback cb_arg hu_arg)
          (\<lambda>r. Some (res_bind r (\<lambda>(ret, count, c, (rb', w'), m', it'). Ok (ret, count, c, (rb'\<lparr>rb_condvar := False\<rparr>, w'), m', it')))))"

section \<open>The contract\<close>

text \<open>The flat buffer of a list of vectors.\<close>

definition flat :: "iovec list \<Rightarrow> u64 list" where
  "flat vs = concat (map (\<lambda>v. block (iov_base v) (unat (iov_len v))) vs)"

definition iter_ok :: "kioviter \<Rightarrow> bool" where
  "iter_ok it \<longleftrightarrow> length (flat (first_iov it)) < 2 ^ 64 \<and> total_size it = of_nat (length (flat (first_iov it))) \<and>
     curr_iov it < length (first_iov it) \<and> curr_off it \<le> iov_len (first_iov it ! curr_iov it) \<and>
     unat (total_off it) = length (flat (take (curr_iov it) (first_iov it))) + unat (curr_off it)"

section \<open>Positions\<close>

lemma length_block [simp]: "length (block a n) = n"
  by (simp add: block_def)

lemma block_take_drop: "i + n \<le> k \<Longrightarrow> take n (drop i (block a k)) = block (a + of_nat i) n"
  by (rule nth_equalityI) (simp_all add: block_def add.assoc)

lemma flat_split: "i < length vs \<Longrightarrow> flat vs = flat (take i vs) @ block (iov_base (vs ! i)) (unat (iov_len (vs ! i))) @ flat (drop (Suc i) vs)"
  by (subst id_take_nth_drop [of i vs]) (simp_all add: flat_def)

lemma flat_take_Suc: "i < length vs \<Longrightarrow> length (flat (take (Suc i) vs)) = length (flat (take i vs)) + unat (iov_len (vs ! i))"
  by (simp add: flat_def take_Suc_conv_app_nth)

lemma iter_okD:
  assumes "iter_ok it"
  shows "curr_iov it < length (first_iov it)" "unat (total_size it) = length (flat (first_iov it))"
    and "unat (total_off it) \<le> length (flat (first_iov it))" "unat (iov_len (first_iov it ! curr_iov it) - curr_off it) = unat (iov_len (first_iov it ! curr_iov it)) - unat (curr_off it)"
    and "unat (KIOVITER_REMAINING it) = length (flat (first_iov it)) - unat (total_off it)" "KIOVITER_FINISHED it \<longleftrightarrow> unat (total_off it) = length (flat (first_iov it))"
    and "unat (total_off it) + unat (iov_len (first_iov it ! curr_iov it) - curr_off it) \<le> length (flat (first_iov it))"
    and "unat (curr_off it) \<le> unat (iov_len (first_iov it ! curr_iov it))"
proof -
  note d = assms [unfolded iter_ok_def]
  show i: "curr_iov it < length (first_iov it)" using d by simp
  show sz: "unat (total_size it) = length (flat (first_iov it))" using d by (simp add: unat_of_nat64)
  show le: "unat (curr_off it) \<le> unat (iov_len (first_iov it ! curr_iov it))" using d by (simp add: word_le_nat_alt)
  show r: "unat (iov_len (first_iov it ! curr_iov it) - curr_off it) = unat (iov_len (first_iov it ! curr_iov it)) - unat (curr_off it)" using d by (simp add: unat_sub_le)
  have len: "length (flat (first_iov it)) = length (flat (take (curr_iov it) (first_iov it))) + unat (iov_len (first_iov it ! curr_iov it)) + length (flat (drop (Suc (curr_iov it)) (first_iov it)))"
    by (subst flat_split [OF i]) simp
  have off: "unat (total_off it) = length (flat (take (curr_iov it) (first_iov it))) + unat (curr_off it)" using d by simp
  show t: "unat (total_off it) \<le> length (flat (first_iov it))" using len off le by linarith
  show "unat (total_off it) + unat (iov_len (first_iov it ! curr_iov it) - curr_off it) \<le> length (flat (first_iov it))" using len off le r by linarith
  show "unat (KIOVITER_REMAINING it) = length (flat (first_iov it)) - unat (total_off it)" using t sz by (simp add: KIOVITER_REMAINING_def unat_sub_le word_le_nat_alt)
  show "KIOVITER_FINISHED it \<longleftrightarrow> unat (total_off it) = length (flat (first_iov it))" unfolding KIOVITER_FINISHED_def word_unat_eq_iff sz by simp
qed

text \<open>The next bytes of the flat buffer that lie in the current vector.\<close>

lemma current_piece:
  assumes ok: "iter_ok it" and n: "n \<le> unat (iov_len (first_iov it ! curr_iov it) - curr_off it)"
  shows "block (iov_base (first_iov it ! curr_iov it) + curr_off it) n = take n (drop (unat (total_off it)) (flat (first_iov it)))"
proof -
  let ?v = "first_iov it ! curr_iov it"
  have off: "unat (total_off it) = length (flat (take (curr_iov it) (first_iov it))) + unat (curr_off it)" using ok by (simp add: iter_ok_def)
  have "drop (unat (total_off it)) (flat (first_iov it)) = drop (unat (curr_off it)) (block (iov_base ?v) (unat (iov_len ?v)) @ flat (drop (Suc (curr_iov it)) (first_iov it)))"
    by (subst flat_split [OF iter_okD(1) [OF ok]]) (simp add: off)
  moreover have "unat (curr_off it) + n \<le> unat (iov_len ?v)" using n iter_okD(4,8) [OF ok] by linarith
  ultimately show ?thesis using block_take_drop [of "unat (curr_off it)" n "unat (iov_len ?v)" "iov_base ?v"] by simp
qed

lemma skip_round_ok:
  fixes it count
  defines "v \<equiv> first_iov it ! curr_iov it"
  assumes ok: "iter_ok it" and r: "skip_round it count v = (count', it')"
  shows "iter_ok it'" "first_iov it' = first_iov it" "curr_iov it \<le> curr_iov it'"
    and "unat count' = unat count - unat (iov_len v - curr_off it)"
    and "unat (total_off it') = unat (total_off it) + min (unat (iov_len v - curr_off it)) (unat count)"
    and "unat (iov_len v - curr_off it) \<le> unat count \<Longrightarrow> \<not> KIOVITER_FINISHED it' \<Longrightarrow> curr_iov it < curr_iov it'"
proof -
  note D = iter_okD [OF ok, folded v_def]
  have flat: "length (flat (first_iov it)) < 2 ^ 64" "total_size it = of_nat (length (flat (first_iov it)))" using ok by (simp_all add: iter_ok_def)
  let ?rem = "iov_len v - curr_off it" and ?sk = "KMIN (iov_len v - curr_off it) count"
  let ?it1 = "it\<lparr>total_off := total_off it + ?sk, curr_off := curr_off it + ?sk\<rparr>"
  have sk: "unat ?sk = min (unat ?rem) (unat count)" by (rule unat_KMIN)
  have t: "unat (total_off it + ?sk) = unat (total_off it) + unat ?sk" using D(7) flat(1) sk by (intro unat_add_no_wrap) simp
  have c: "unat (curr_off it + ?sk) = unat (curr_off it) + unat ?sk" using D(4,8) sk unat_lt64 [of "iov_len v"] by (intro unat_add_no_wrap) simp
  have off: "unat (total_off it) = length (flat (take (curr_iov it) (first_iov it))) + unat (curr_off it)" using ok by (simp add: iter_ok_def)
  have le: "unat (curr_off it) + unat ?sk \<le> unat (iov_len v)" using D(4,8) sk by linarith
  have ok1: "iter_ok ?it1" using ok t c le off by (simp add: iter_ok_def v_def word_le_nat_alt)
  have "count' = count - ?sk" using r by (simp add: skip_round_def Let_def)
  then show "unat count' = unat count - unat ?rem" using sk by (simp add: unat_sub_le word_le_nat_alt)
  have it': "it' = (if curr_off it + ?sk = iov_len v \<and> \<not> KIOVITER_FINISHED ?it1 then ?it1\<lparr>curr_iov := curr_iov it + 1, curr_off := 0\<rparr> else ?it1)"
    using r by (auto simp: skip_round_def Let_def)
  have fin: "KIOVITER_FINISHED it' = KIOVITER_FINISHED ?it1" using it' by (simp add: KIOVITER_FINISHED_def)
  show "first_iov it' = first_iov it" "curr_iov it \<le> curr_iov it'" using it' by simp_all
  show "unat (total_off it') = unat (total_off it) + min (unat ?rem) (unat count)" using it' t sk by simp
  show "curr_iov it < curr_iov it'" if "unat ?rem \<le> unat count" "\<not> KIOVITER_FINISHED it'"
  proof -
    have "unat (curr_off it + ?sk) = unat (iov_len v)" using that(1) sk c D(4,8) by linarith
    then show ?thesis using it' that(2) fin by (simp add: word_unat_eq_iff)
  qed
  show "iter_ok it'"
  proof (cases "curr_off it + ?sk = iov_len v \<and> \<not> KIOVITER_FINISHED ?it1")
    case True
    have nf: "unat (total_off it + ?sk) \<noteq> length (flat (first_iov it))" using True iter_okD(6) [OF ok1] by simp
    have pos: "unat (total_off it + ?sk) = length (flat (take (Suc (curr_iov it)) (first_iov it)))"
      using True c t off flat_take_Suc [OF D(1)] by (simp add: v_def)
    then have "Suc (curr_iov it) < length (first_iov it)" using nf D(1) by (cases "Suc (curr_iov it) = length (first_iov it)") auto
    moreover have "it' = ?it1\<lparr>curr_iov := Suc (curr_iov it), curr_off := 0\<rparr>" unfolding it' if_P [OF True] by simp
    ultimately show ?thesis using pos flat by (simp add: iter_ok_def)
  next
    case False
    show ?thesis unfolding it' if_not_P [OF False] by (rule ok1)
  qed
qed

lemma kioviter_skip_ok:
  "iter_ok it \<Longrightarrow> \<exists>it'. kioviter_skip it count = Ok (KIOVITER_REMAINING it', it') \<and> iter_ok it' \<and> first_iov it' = first_iov it \<and>
    unat (total_off it') = min (unat (total_off it) + unat count) (length (flat (first_iov it))) \<and> curr_iov it \<le> curr_iov it' \<and>
    (unat (iov_len (first_iov it ! curr_iov it) - curr_off it) \<le> unat count \<longrightarrow> \<not> KIOVITER_FINISHED it' \<longrightarrow> curr_iov it < curr_iov it')"
proof (induction it count rule: kioviter_skip.induct)
  case (1 it count)
  note D = iter_okD [OF "1.prems"]
  let ?v = "first_iov it ! curr_iov it"
  obtain count' it' where r: "skip_round it count ?v = (count', it')" by fastforce
  note R = skip_round_ok [OF "1.prems" r]
  show ?case
  proof (cases "count' \<noteq> 0 \<and> \<not> KIOVITER_FINISHED it'")
    case True
    obtain it'' where h: "kioviter_skip it' count' = Ok (KIOVITER_REMAINING it'', it'')" "iter_ok it''" "first_iov it'' = first_iov it'"
        "unat (total_off it'') = min (unat (total_off it') + unat count') (length (flat (first_iov it')))" "curr_iov it' \<le> curr_iov it''"
      using "1.IH" [OF D(1) r [symmetric] refl True R(1)] by blast
    have "unat count' \<noteq> 0" using True by (simp add: unat_eq_zero)
    then have lt: "unat (iov_len ?v - curr_off it) < unat count" using R(4) by linarith
    then have "curr_iov it < curr_iov it'" using R(6) True by simp
    moreover have "unat (total_off it') + unat count' = unat (total_off it) + unat count" using R(4,5) lt by simp
    moreover have "kioviter_skip it count = Ok (KIOVITER_REMAINING it'', it'')" using h(1) D(1) r True by (simp add: kioviter_skip.simps [of it])
    ultimately show ?thesis using h(2-5) R(2) by (intro exI [of _ it'']) simp
  next
    case False
    have "unat (total_off it') = min (unat (total_off it) + unat count) (length (flat (first_iov it)))"
    proof (cases "count' = 0")
      case True
      then have "unat count \<le> unat (iov_len ?v - curr_off it)" using R(4) by simp
      then show ?thesis using R(5) D(7) by simp
    next
      case c: False
      then have "unat (total_off it') = length (flat (first_iov it))" using False iter_okD(6) [OF R(1)] R(2) by simp
      then show ?thesis using R(5) by linarith
    qed
    moreover have "kioviter_skip it count = Ok (KIOVITER_REMAINING it', it')" using D(1) r False by (auto simp: kioviter_skip.simps [of it])
    ultimately show ?thesis using R(1-3,6) by (intro exI [of _ it']) simp
  qed
qed

section \<open>Copying is flat\<close>

lemma curr_remaining: "iter_ok it \<Longrightarrow> KIOVITER_CURR_REMAINING it = Ok (iov_len (first_iov it ! curr_iov it) - curr_off it)"
  by (simp add: KIOVITER_CURR_REMAINING_def at_vec_def iter_okD(1))

text \<open>
  What one round of the copying loops does to the position: \<open>n\<close> of the \<open>tot\<close> bytes are in the
  current vector. Either this was the last round, or the measure goes down.
\<close>

lemma copy_round:
  fixes it tot
  defines "n \<equiv> KMIN (iov_len (first_iov it ! curr_iov it) - curr_off it) tot"
  assumes ok: "iter_ok it" and tot: "tot \<le> KIOVITER_REMAINING it"
  shows "\<exists>r it'. kioviter_skip it n = Ok (r, it') \<and> iter_ok it' \<and> first_iov it' = first_iov it \<and> unat (total_off it') = unat (total_off it) + unat n \<and>
    n \<le> tot \<and> unat (tot - n) = unat tot - unat n \<and> tot - n \<le> KIOVITER_REMAINING it' \<and>
    (tot - n \<noteq> 0 \<longrightarrow> \<not> KIOVITER_FINISHED it' \<and> length (first_iov it) - curr_iov it' < length (first_iov it) - curr_iov it) \<and>
    block (iov_base (first_iov it ! curr_iov it) + curr_off it) (unat n) = take (unat n) (drop (unat (total_off it)) (flat (first_iov it)))"
proof -
  note D = iter_okD [OF ok]
  let ?rem = "iov_len (first_iov it ! curr_iov it) - curr_off it"
  have n: "unat n = min (unat ?rem) (unat tot)" unfolding n_def by (rule unat_KMIN)
  have le: "n \<le> tot" "n \<le> ?rem" using n by (simp_all add: word_le_nat_alt)
  have sub: "unat (tot - n) = unat tot - unat n" using le(1) by (rule unat_sub_le)
  obtain it' where s: "kioviter_skip it n = Ok (KIOVITER_REMAINING it', it')" "iter_ok it'" "first_iov it' = first_iov it"
      "unat (total_off it') = min (unat (total_off it) + unat n) (length (flat (first_iov it)))" "curr_iov it \<le> curr_iov it'"
      "unat ?rem \<le> unat n \<longrightarrow> \<not> KIOVITER_FINISHED it' \<longrightarrow> curr_iov it < curr_iov it'" using kioviter_skip_ok [OF ok, of n] by blast
  have off: "unat (total_off it') = unat (total_off it) + unat n" using s(4) D(7) n by linarith
  have tot': "unat tot \<le> length (flat (first_iov it)) - unat (total_off it)" using tot D(5) by (simp add: word_le_nat_alt)
  have rem: "unat (KIOVITER_REMAINING it') = length (flat (first_iov it)) - unat (total_off it')" using iter_okD(5) [OF s(2)] s(3) by simp
  have "tot - n \<le> KIOVITER_REMAINING it'" unfolding word_le_nat_alt sub rem off using tot' by linarith
  moreover have "\<not> KIOVITER_FINISHED it' \<and> length (first_iov it) - curr_iov it' < length (first_iov it) - curr_iov it" if "tot - n \<noteq> 0"
  proof -
    have lt: "unat n < unat tot" using that sub by (metis unat_eq_zero zero_less_diff neq0_conv)
    have "\<not> KIOVITER_FINISHED it'" unfolding iter_okD(6) [OF s(2)] s(3) off using lt tot' by linarith
    moreover have "unat ?rem \<le> unat n" using lt n by linarith
    ultimately show ?thesis using s(6) D(1) by auto
  qed
  moreover have "block (iov_base (first_iov it ! curr_iov it) + curr_off it) (unat n) = take (unat n) (drop (unat (total_off it)) (flat (first_iov it)))"
    by (rule current_piece [OF ok]) (use n in simp)
  ultimately show ?thesis using s(1-3) off le(1) sub by blast
qed

lemma take_drop_join: "a \<le> b \<Longrightarrow> take a (drop i xs) @ take (b - a) (drop (i + a) xs) = take b (drop i xs)"
  by (metis add.commute drop_drop le_add_diff_inverse take_add)

lemma iov_read_loop_flat:
  "iter_ok it \<Longrightarrow> tot \<le> KIOVITER_REMAINING it \<Longrightarrow>
    \<exists>it'. iov_read_loop m it tot buf = Some (Ok (buf @ map m (take (unat tot) (drop (unat (total_off it)) (flat (first_iov it)))), it')) \<and>
      iter_ok it' \<and> first_iov it' = first_iov it \<and> unat (total_off it') = unat (total_off it) + unat tot"
proof (induction "length (first_iov it) - curr_iov it" arbitrary: it tot buf rule: less_induct)
  case less
  let ?n = "KMIN (iov_len (first_iov it ! curr_iov it) - curr_off it) tot" and ?F = "flat (first_iov it)"
  obtain r it' where c: "kioviter_skip it ?n = Ok (r, it')" "iter_ok it'" "first_iov it' = first_iov it" "unat (total_off it') = unat (total_off it) + unat ?n"
      "?n \<le> tot" "unat (tot - ?n) = unat tot - unat ?n" "tot - ?n \<le> KIOVITER_REMAINING it'"
      "tot - ?n \<noteq> 0 \<longrightarrow> \<not> KIOVITER_FINISHED it' \<and> length (first_iov it) - curr_iov it' < length (first_iov it) - curr_iov it"
      "block (iov_base (first_iov it ! curr_iov it) + curr_off it) (unat ?n) = take (unat ?n) (drop (unat (total_off it)) ?F)"
    using copy_round [OF less.prems] by blast
  let ?buf = "buf @ map m (take (unat ?n) (drop (unat (total_off it)) ?F))"
  have le: "unat ?n \<le> unat tot" using c(5) by (simp add: word_le_nat_alt)
  have step: "iov_read_loop m it tot buf = (if tot - ?n \<noteq> 0 \<and> \<not> KIOVITER_FINISHED it' then iov_read_loop m it' (tot - ?n) ?buf else Some (Ok (?buf, it')))"
    by (subst iov_read_loop.simps) (simp only: curr_remaining [OF less.prems(1)] c(1,9) Let_def res.case prod.case)
  show ?case
  proof (cases "tot - ?n = 0")
    case True
    then have "unat ?n = unat tot" using c(6) le by simp
    then show ?thesis using step True c(2-4) by (intro exI [of _ it']) simp
  next
    case False
    have lt: "length (first_iov it') - curr_iov it' < length (first_iov it) - curr_iov it" using c(3,8) False by simp
    obtain it'' where h: "iov_read_loop m it' (tot - ?n) ?buf =
        Some (Ok (?buf @ map m (take (unat (tot - ?n)) (drop (unat (total_off it')) (flat (first_iov it')))), it''))"
        "iter_ok it''" "first_iov it'' = first_iov it'" "unat (total_off it'') = unat (total_off it') + unat (tot - ?n)"
      using less.hyps [OF lt c(2,7), of ?buf] by blast
    have "?buf @ map m (take (unat (tot - ?n)) (drop (unat (total_off it')) (flat (first_iov it')))) =
        buf @ map m (take (unat tot) (drop (unat (total_off it)) ?F))"
      unfolding append_assoc map_append [symmetric] c(3,4,6) take_drop_join [OF le] ..
    then show ?thesis using step False c(3,4,6,8) h le by (intro exI [of _ it'']) simp
  qed
qed

lemma store_list_append: "length as = length bs \<Longrightarrow> store_list (store_list m as bs) as' bs' = store_list m (as @ as') (bs @ bs')"
  by (simp add: store_list_def)

lemma iov_write_loop_flat:
  "iter_ok it \<Longrightarrow> tot \<le> KIOVITER_REMAINING it \<Longrightarrow> unat count + unat tot \<le> length buf \<Longrightarrow> length buf < 2 ^ 64 \<Longrightarrow>
    \<exists>it'. iov_write_loop m it buf count tot = Some (Ok (count + tot,
        store_list m (take (unat tot) (drop (unat (total_off it)) (flat (first_iov it)))) (take (unat tot) (drop (unat count) buf)), it')) \<and>
      iter_ok it' \<and> first_iov it' = first_iov it \<and> unat (total_off it') = unat (total_off it) + unat tot"
proof (induction "length (first_iov it) - curr_iov it" arbitrary: it tot m count rule: less_induct)
  case less
  let ?n = "KMIN (iov_len (first_iov it ! curr_iov it) - curr_off it) tot" and ?F = "flat (first_iov it)"
  obtain r it' where c: "kioviter_skip it ?n = Ok (r, it')" "iter_ok it'" "first_iov it' = first_iov it" "unat (total_off it') = unat (total_off it) + unat ?n"
      "?n \<le> tot" "unat (tot - ?n) = unat tot - unat ?n" "tot - ?n \<le> KIOVITER_REMAINING it'"
      "tot - ?n \<noteq> 0 \<longrightarrow> \<not> KIOVITER_FINISHED it' \<and> length (first_iov it) - curr_iov it' < length (first_iov it) - curr_iov it"
      "block (iov_base (first_iov it ! curr_iov it) + curr_off it) (unat ?n) = take (unat ?n) (drop (unat (total_off it)) ?F)"
    using copy_round [OF less.prems(1,2)] by blast
  let ?a = "take (unat ?n) (drop (unat (total_off it)) ?F)" and ?b = "take (unat ?n) (drop (unat count) buf)"
  let ?m = "store_list m ?a ?b"
  have le: "unat ?n \<le> unat tot" using c(5) by (simp add: word_le_nat_alt)
  have cnt: "unat (count + ?n) = unat count + unat ?n" using less.prems(3,4) le by (intro unat_add_no_wrap) simp
  have "length ?a = unat ?n" using arg_cong [OF c(9), of length] by simp
  then have len: "length ?a = length ?b" using less.prems(3) le by simp
  have step: "iov_write_loop m it buf count tot =
      (if tot - ?n \<noteq> 0 \<and> \<not> KIOVITER_FINISHED it' then iov_write_loop ?m it' buf (count + ?n) (tot - ?n) else Some (Ok (count + ?n, ?m, it')))"
    by (subst iov_write_loop.simps) (simp only: curr_remaining [OF less.prems(1)] c(1,9) Let_def res.case prod.case)
  show ?case
  proof (cases "tot - ?n = 0")
    case True
    then have "?n = tot" by simp
    then show ?thesis using step True c(2-4) by (intro exI [of _ it']) simp
  next
    case False
    have lt: "length (first_iov it') - curr_iov it' < length (first_iov it) - curr_iov it" using c(3,8) False by simp
    have pre: "unat (count + ?n) + unat (tot - ?n) \<le> length buf" using less.prems(3) cnt c(6) le by simp
    obtain it'' where h: "iov_write_loop ?m it' buf (count + ?n) (tot - ?n) = Some (Ok (count + ?n + (tot - ?n),
        store_list ?m (take (unat (tot - ?n)) (drop (unat (total_off it')) (flat (first_iov it')))) (take (unat (tot - ?n)) (drop (unat (count + ?n)) buf)), it''))"
        "iter_ok it''" "first_iov it'' = first_iov it'" "unat (total_off it'') = unat (total_off it') + unat (tot - ?n)"
      using less.hyps [OF lt c(2,7) pre less.prems(4)] by blast
    have "store_list ?m (take (unat (tot - ?n)) (drop (unat (total_off it')) (flat (first_iov it')))) (take (unat (tot - ?n)) (drop (unat (count + ?n)) buf)) =
        store_list m (take (unat tot) (drop (unat (total_off it)) ?F)) (take (unat tot) (drop (unat count) buf))"
      unfolding store_list_append [OF len] c(3,4,6) cnt take_drop_join [OF le] ..
    then show ?thesis using step False c(3,4,6,8) h le by (intro exI [of _ it'']) simp
  qed
qed

section \<open>Fresh iterators\<close>

lemma ioviter_size_flat: "ioviter_size vs = of_nat (length (flat vs))"
proof -
  have "foldl (\<lambda>sz v. sz + iov_len v) a vs = a + of_nat (length (flat vs))" for a
    by (induction vs arbitrary: a) (simp_all add: flat_def)
  then show ?thesis by (simp add: ioviter_size_def)
qed

lemma iter_ok_init: "vs \<noteq> [] \<Longrightarrow> length (flat vs) < 2 ^ 64 \<Longrightarrow> iter_ok (kioviter_init vs)"
  by (simp add: iter_ok_def kioviter_init_def ioviter_size_flat flat_def)

lemma iter_ok_reset: "iter_ok it \<Longrightarrow> iter_ok (it\<lparr>curr_iov := 0, curr_off := 0, total_off := 0\<rparr>)"
  by (auto simp: iter_ok_def flat_def)

lemma kioviter_goto_ok:
  assumes "iter_ok it"
  shows "\<exists>it'. kioviter_goto it pos = Ok (KIOVITER_REMAINING it', it') \<and> iter_ok it' \<and> first_iov it' = first_iov it \<and>
    unat (total_off it') = min (unat pos) (length (flat (first_iov it)))"
proof (cases "total_off it < pos")
  case True
  then have "unat (total_off it) + unat (pos - total_off it) = unat pos" using unat_sub_le [of "total_off it" pos] by (simp add: word_less_nat_alt word_le_nat_alt)
  then show ?thesis using True kioviter_skip_ok [OF assms, of "pos - total_off it"] by (auto simp: kioviter_goto_def)
next
  case False
  then show ?thesis using kioviter_skip_ok [OF iter_ok_reset [OF assms], of pos] by (auto simp: kioviter_goto_def)
qed

lemma store_list_replicate: "length as = n \<Longrightarrow> store_list m as (replicate n b) a = (if a \<in> set as then b else m a)"
proof (induction "as" arbitrary: n m)
  case (Cons x xs)
  then show ?case by (cases n) (auto simp: store_list_def)
qed (simp add: store_list_def)

lemma store_list_zip_take: "store_list m (take n as) (take n bs) = store_list m as bs" if "length as \<le> n \<or> length bs \<le> n"
proof -
  have "take n (zip as bs) = zip as bs" using that by (intro take_all) auto
  then show ?thesis by (simp add: store_list_def flip: take_zip)
qed

text \<open>Filling returns, and what holds the value keeps it.\<close>

lemma iov_memset_loop_returns:
  "iter_ok it \<Longrightarrow> tot \<le> KIOVITER_REMAINING it \<Longrightarrow>
    \<exists>m' it'. iov_memset_loop m it val len tot = Some (Ok (m', it')) \<and> (\<forall>a. m a = val \<longrightarrow> m' a = val) \<and>
      (\<forall>i < unat len. m' (iov_base (first_iov it ! curr_iov it) + curr_off it + of_nat i) = val)"
proof (induction "length (first_iov it) - curr_iov it" arbitrary: it tot m rule: less_induct)
  case less
  let ?n = "KMIN (iov_len (first_iov it ! curr_iov it) - curr_off it) tot" and ?a = "iov_base (first_iov it ! curr_iov it) + curr_off it"
  obtain r it' where c: "kioviter_skip it ?n = Ok (r, it')" "iter_ok it'" "first_iov it' = first_iov it" "tot - ?n \<le> KIOVITER_REMAINING it'"
      "tot - ?n \<noteq> 0 \<longrightarrow> \<not> KIOVITER_FINISHED it' \<and> length (first_iov it) - curr_iov it' < length (first_iov it) - curr_iov it"
    using copy_round [OF less.prems] by blast
  define m1 where "m1 = store_list m (block ?a (unat len)) (replicate (unat len) val)"
  have m1: "m1 a = (if a \<in> set (block ?a (unat len)) then val else m a)" for a by (simp add: m1_def store_list_replicate)
  have first: "m1 (?a + of_nat i) = val" if "i < unat len" for i using that by (auto simp: m1 block_def)
  have step: "iov_memset_loop m it val len tot =
      (if tot - ?n \<noteq> 0 \<and> \<not> KIOVITER_FINISHED it' then iov_memset_loop m1 it' val len (tot - ?n) else Some (Ok (m1, it')))"
    by (subst iov_memset_loop.simps) (simp only: curr_remaining [OF less.prems(1)] c(1) Let_def res.case prod.case m1_def)
  show ?case
  proof (cases "tot - ?n = 0")
    case True
    then show ?thesis using step m1 first by (intro exI [of _ m1] exI [of _ it']) simp
  next
    case False
    have lt: "length (first_iov it') - curr_iov it' < length (first_iov it) - curr_iov it" using c(3,5) False by simp
    obtain m' it'' where h: "iov_memset_loop m1 it' val len (tot - ?n) = Some (Ok (m', it''))" "\<forall>a. m1 a = val \<longrightarrow> m' a = val"
      using less.hyps [OF lt c(2,4), of m1] by blast
    have "m' a = val" if "m a = val" for a using h(2) m1 that by auto
    then show ?thesis using step False c(5) h first by (intro exI [of _ m'] exI [of _ it'']) auto
  qed
qed

section \<open>Properties\<close>

text \<open>
  C33: Copying through an iterator is copying from and to one flat buffer. From every position of
  the vectors, a read returns the bytes that the addresses of the vectors in a row hold from that
  position on, as many as are asked for and left, and a write stores its bytes at these addresses
  in order; both return whatever the lengths of the vectors, empty ones included.
\<close>

theorem kioviter_copies_flat:
  assumes "iov \<noteq> []" and "length (flat iov) < 2 ^ 64" and "length buf < 2 ^ 64"
  shows "\<exists>r it. kioviter_goto (kioviter_init iov) pos = Ok (r, it) \<and>
    (\<exists>it'. kioviter_read m buflen it = Some (Ok (map m (take (unat buflen) (drop (unat pos) (flat iov))), it'))) \<and>
    (\<exists>n it'. kioviter_write m it buf = Some (Ok (n, store_list m (drop (unat pos) (flat iov)) buf, it')) \<and>
      unat n = min (length buf) (length (flat iov) - unat pos))"
proof -
  have fst: "first_iov (kioviter_init iov) = iov" by (simp add: kioviter_init_def)
  obtain it where g: "kioviter_goto (kioviter_init iov) pos = Ok (KIOVITER_REMAINING it, it)" "iter_ok it" "first_iov it = iov"
      "unat (total_off it) = min (unat pos) (length (flat iov))"
    using kioviter_goto_ok [OF iter_ok_init [OF assms(1,2)], of pos] unfolding fst by blast
  have rem: "unat (KIOVITER_REMAINING it) = length (flat iov) - unat pos" using iter_okD(5) [OF g(2)] g(3,4) by (simp add: min_def)
  have drop: "drop (unat (total_off it)) (flat iov) = drop (unat pos) (flat iov)" using g(4) by (simp add: min_def)
  let ?r = "KMIN buflen (KIOVITER_REMAINING it)"
  have "?r \<le> KIOVITER_REMAINING it" by (simp add: KMIN_min)
  then obtain it1 where "iov_read_loop m it ?r [] = Some (Ok (map m (take (unat ?r) (drop (unat pos) (flat iov))), it1))"
    using iov_read_loop_flat [OF g(2), of ?r m "[]"] g(3) drop by auto
  moreover have "take (unat ?r) (drop (unat pos) (flat iov)) = take (unat buflen) (drop (unat pos) (flat iov))"
    unfolding unat_KMIN rem by (simp add: min_def)
  ultimately have rd: "kioviter_read m buflen it = Some (Ok (map m (take (unat buflen) (drop (unat pos) (flat iov))), it1))"
    by (simp add: kioviter_read_def)
  let ?l = "of_nat (length buf) :: u64"
  let ?w = "KMIN ?l (KIOVITER_REMAINING it)"
  have w: "unat ?w = min (length buf) (length (flat iov) - unat pos)" unfolding unat_KMIN rem using assms(3) by (simp add: unat_of_nat64)
  have "?w \<le> KIOVITER_REMAINING it" "unat (0 :: u64) + unat ?w \<le> length buf" using w by (simp_all add: KMIN_min)
  then obtain it2 where "iov_write_loop m it buf 0 ?w = Some (Ok (?w, store_list m (take (unat ?w) (drop (unat pos) (flat iov))) (take (unat ?w) buf), it2))"
    using iov_write_loop_flat [OF g(2) _ _ assms(3), of ?w 0 m] g(3) drop by auto
  moreover have "store_list m (take (unat ?w) (drop (unat pos) (flat iov))) (take (unat ?w) buf) = store_list m (drop (unat pos) (flat iov)) buf"
    by (rule store_list_zip_take) (simp add: w min_def)
  ultimately have "kioviter_write m it buf = Some (Ok (?w, store_list m (drop (unat pos) (flat iov)) buf, it2))"
    by (simp add: kioviter_write_def)
  then show ?thesis using g(1) rd w by blast
qed

theorem kioviter_copies_flat_witness:
  "\<exists>r it it'. kioviter_goto (kioviter_init [\<lparr>iov_base = 10, iov_len = 2\<rparr>, \<lparr>iov_base = 7, iov_len = 0\<rparr>, \<lparr>iov_base = 20, iov_len = 3\<rparr>]) 1 = Ok (r, it) \<and>
    kioviter_read (\<lambda>a. ucast a) 3 it = Some (Ok ([11, 20, 21], it'))"
proof -
  let ?v = "[\<lparr>iov_base = 10, iov_len = 2\<rparr>, \<lparr>iov_base = 7, iov_len = 0\<rparr>, \<lparr>iov_base = 20, iov_len = 3\<rparr>]"
  have f: "flat ?v = [10, 11, 20, 21, 22]" by (simp add: flat_def block_def upt_rec)
  show ?thesis using kioviter_copies_flat [of ?v "[]" 1 "\<lambda>a. ucast a" 3] unfolding f by auto
qed

text \<open>
  Filling through an iterator writes outside of the vectors. Every round passes the whole
  length to the fill, so filling a first vector and more behind it overwrites the memory that
  follows the first vector, as far as the length reaches.
\<close>

theorem kioviter_memset_overruns:
  assumes "length (flat (v # vs)) < 2 ^ 64" and "unat len = length (flat (v # vs))" and "i < unat len"
    and "iov_base v + of_nat i \<notin> set (flat (v # vs))" and "m (iov_base v + of_nat i) \<noteq> val"
  shows "\<exists>m' it'. kioviter_memset m (kioviter_init (v # vs)) val len = Some (Ok (m', it')) \<and>
    m' (iov_base v + of_nat i) \<noteq> m (iov_base v + of_nat i)"
proof -
  let ?it = "kioviter_init (v # vs)"
  have ok: "iter_ok ?it" by (rule iter_ok_init) (use assms(1) in simp_all)
  have at: "first_iov ?it ! curr_iov ?it = v" "curr_off ?it = 0" by (simp_all add: kioviter_init_def)
  have "KMIN len (KIOVITER_REMAINING ?it) \<le> KIOVITER_REMAINING ?it" by (simp add: KMIN_min)
  from iov_memset_loop_returns [OF ok this, of m val len] show ?thesis
    unfolding at using assms(3,5) by (auto simp: kioviter_memset_def)
qed

theorem kioviter_memset_overruns_witness:
  "\<exists>m' it'. kioviter_memset (\<lambda>_. 0) (kioviter_init [\<lparr>iov_base = 10, iov_len = 2\<rparr>, \<lparr>iov_base = 20, iov_len = 3\<rparr>]) 9 5 = Some (Ok (m', it')) \<and> m' 14 \<noteq> 0"
proof -
  let ?v = "\<lparr>iov_base = 10, iov_len = 2\<rparr>" and ?w = "\<lparr>iov_base = 20, iov_len = 3\<rparr>"
  have f: "flat [?v, ?w] = [10, 11, 20, 21, 22]" "flat [?w] = [20, 21, 22]" by (simp_all add: flat_def block_def upt_rec)
  show ?thesis using kioviter_memset_overruns [of ?v "[?w]" 5 4 "\<lambda>_. 0" 9] unfolding f by simp
qed




end
