(* ===== verification/Vfs.thy ===== *)
theory Vfs
  imports Ioviter Str
begin

text \<open>
  The virtual file system, \<^verbatim>\<open>src/com/fs/vfs.c\<close>: reference-counted nodes, the resolution of paths
  across mount points and symbolic links, and the dispatch of every operation to the file system
  of the node. File systems are tables of operations, the argument \<open>optab\<close> of the definitions,
  indexed by the table a node points to; a missing entry is a null function pointer.

  Nodes and mounted file systems are numbers. A path is the list of its characters. A loop over
  mount points need not end, which is the value \<open>None\<close>.
\<close>

section \<open>State\<close>

datatype com_vnode_type =
    E_COM_VNODE_TYPE_FILE | E_COM_VNODE_TYPE_DIR | E_COM_VNODE_TYPE_LINK | E_COM_VNODE_TYPE_CHARDEV
  | E_COM_VNODE_TYPE_FIFO | E_COM_VNODE_TYPE_SOCKET | E_COM_VNODE_TYPE_BLOCKDEV

record com_vfs =
  mountpoint :: "nat option"
  vfs_root :: nat

record com_vnode =
  mountpointof :: "nat option"
  vn_vfs :: nat
  vn_ops :: nat
  vn_type :: com_vnode_type
  num_ref :: u64
  isroot :: bool
  extra :: nat

text \<open>File systems extend the state by their own; \<open>next_vnode\<close> is the next node to allocate.\<close>

record vfs_state =
  vnodes :: "nat \<Rightarrow> com_vnode"
  vfss :: "nat \<Rightarrow> com_vfs"
  next_vnode :: nat

text \<open>
  What the calls about a node report: its status and an entry of a directory. The type bits of a
  mode and the type of an entry are the type of the node, \<open>None\<close> where they are left at zero.
\<close>

record com_stat =
  st_blksize :: u64
  st_ino :: nat
  st_perm :: u32
  st_type :: "com_vnode_type option"
  st_size :: u64
  st_blocks :: u64
  st_nlink :: u64

definition zero_stat :: com_stat where
  "zero_stat = \<lparr>st_blksize = 0, st_ino = 0, st_perm = 0, st_type = None, st_size = 0, st_blocks = 0, st_nlink = 0\<rparr>"

record com_dirent =
  d_ino :: nat
  d_off :: u64
  d_reclen :: "16 word"
  d_type :: "com_vnode_type option"
  d_name :: string

text \<open>
  The operations of a node. Output arguments are results: the node, the bytes, the count; the
  last argument is the state.
\<close>

record 'a com_vnode_ops =
  op_close :: "(nat \<Rightarrow> 'a vfs_state_scheme \<Rightarrow> (errno \<times> 'a vfs_state_scheme) res) option"
  op_lookup :: "(nat \<Rightarrow> string \<Rightarrow> 'a vfs_state_scheme \<Rightarrow> (errno \<times> nat option \<times> 'a vfs_state_scheme) res) option"
  op_create :: "(nat \<Rightarrow> string \<Rightarrow> u64 \<Rightarrow> u64 \<Rightarrow> 'a vfs_state_scheme \<Rightarrow> (errno \<times> nat option \<times> 'a vfs_state_scheme) res) option"
  op_mkdir :: "(nat \<Rightarrow> string \<Rightarrow> u64 \<Rightarrow> u64 \<Rightarrow> 'a vfs_state_scheme \<Rightarrow> (errno \<times> nat option \<times> 'a vfs_state_scheme) res) option"
  op_link :: "(nat \<Rightarrow> string \<Rightarrow> nat \<Rightarrow> 'a vfs_state_scheme \<Rightarrow> (errno \<times> 'a vfs_state_scheme) res) option"
  op_unlink :: "(nat \<Rightarrow> bool \<Rightarrow> 'a vfs_state_scheme \<Rightarrow> (errno \<times> 'a vfs_state_scheme) res) option"
  op_read :: "(nat \<Rightarrow> u64 \<Rightarrow> u64 \<Rightarrow> u64 \<Rightarrow> 'a vfs_state_scheme \<Rightarrow> (errno \<times> u64 \<times> u8 list \<times> 'a vfs_state_scheme) res) option"
  op_write :: "(nat \<Rightarrow> u8 list \<Rightarrow> u64 \<Rightarrow> u64 \<Rightarrow> 'a vfs_state_scheme \<Rightarrow> (errno \<times> u64 option \<times> 'a vfs_state_scheme) res) option"
  op_readv :: "(nat \<Rightarrow> kioviter \<Rightarrow> u64 \<Rightarrow> u64 \<Rightarrow> mem \<Rightarrow> 'a vfs_state_scheme \<Rightarrow> (errno \<times> u64 \<times> mem \<times> kioviter \<times> 'a vfs_state_scheme) res) option"
  op_writev :: "(nat \<Rightarrow> kioviter \<Rightarrow> u64 \<Rightarrow> u64 \<Rightarrow> mem \<Rightarrow> 'a vfs_state_scheme \<Rightarrow> (errno \<times> u64 \<times> kioviter \<times> 'a vfs_state_scheme) res) option"
  op_symlink :: "(nat \<Rightarrow> string \<Rightarrow> string \<Rightarrow> 'a vfs_state_scheme \<Rightarrow> (errno \<times> 'a vfs_state_scheme) res) option"
  op_readlink :: "(nat \<Rightarrow> 'a vfs_state_scheme \<Rightarrow> (errno \<times> string) res) option"
  op_truncate :: "(nat \<Rightarrow> u64 \<Rightarrow> 'a vfs_state_scheme \<Rightarrow> (errno \<times> 'a vfs_state_scheme) res) option"
  op_open :: "(nat \<Rightarrow> 'a vfs_state_scheme \<Rightarrow> (errno \<times> nat option \<times> 'a vfs_state_scheme) res) option"
  op_mksocket :: "(nat \<Rightarrow> string \<Rightarrow> u64 \<Rightarrow> u64 \<Rightarrow> 'a vfs_state_scheme \<Rightarrow> (errno \<times> nat option \<times> 'a vfs_state_scheme) res) option"
  op_isatty :: "(nat \<Rightarrow> 'a vfs_state_scheme \<Rightarrow> errno) option"
  op_readdir :: "(nat \<Rightarrow> u64 \<Rightarrow> u64 \<Rightarrow> 'a vfs_state_scheme \<Rightarrow> errno \<times> u64 option \<times> com_dirent option) option"
  op_ioctl :: "(nat \<Rightarrow> u64 \<Rightarrow> u64 \<Rightarrow> mem \<Rightarrow> 'a vfs_state_scheme \<Rightarrow> (errno \<times> mem \<times> 'a vfs_state_scheme) res) option"
  op_stat :: "(com_stat \<Rightarrow> nat \<Rightarrow> 'a vfs_state_scheme \<Rightarrow> errno \<times> com_stat) option"
  op_vnctl :: "(nat \<Rightarrow> u64 \<Rightarrow> 'a vfs_state_scheme \<Rightarrow> errno \<times> string option) option"
  op_poll_head :: "(nat \<Rightarrow> 'a vfs_state_scheme \<Rightarrow> errno \<times> nat option) option"
  op_poll :: "(nat \<Rightarrow> u32 \<Rightarrow> 'a vfs_state_scheme \<Rightarrow> errno \<times> u32) option"
  op_mmap :: "(nat \<Rightarrow> nat \<Rightarrow> u64 \<Rightarrow> u64 \<Rightarrow> u32 \<Rightarrow> u64 \<Rightarrow> u64 \<Rightarrow> 'a vfs_state_scheme \<Rightarrow> (errno \<times> u64 \<times> 'a vfs_state_scheme) res) option"

type_synonym 'a optab = "nat \<Rightarrow> 'a com_vnode_ops"

abbreviation ops_of :: "'a optab \<Rightarrow> 'a vfs_state_scheme \<Rightarrow> nat \<Rightarrow> 'a com_vnode_ops" where
  "ops_of optab s v \<equiv> optab (vn_ops (vnodes s v))"

section \<open>References\<close>

definition upd_ref :: "(u64 \<Rightarrow> u64) \<Rightarrow> nat \<Rightarrow> 'a vfs_state_scheme \<Rightarrow> 'a vfs_state_scheme" where
  "upd_ref f v s = s\<lparr>vnodes := (vnodes s)(v := (vnodes s v)\<lparr>num_ref := f (num_ref (vnodes s v))\<rparr>)\<rparr>"

definition COM_FS_VFS_VNODE_HOLD :: "nat \<Rightarrow> 'a vfs_state_scheme \<Rightarrow> 'a vfs_state_scheme" where
  "COM_FS_VFS_VNODE_HOLD v s = upd_ref (\<lambda>n. n + 1) v s"

definition com_fs_vfs_close :: "'a optab \<Rightarrow> nat \<Rightarrow> 'a vfs_state_scheme \<Rightarrow> (errno \<times> 'a vfs_state_scheme) res" where
  "com_fs_vfs_close optab v s = (case op_close (ops_of optab s v) of None \<Rightarrow> Ok (ENOSYS, s) | Some f \<Rightarrow> f v s)"

definition COM_FS_VFS_VNODE_RELEASE :: "'a optab \<Rightarrow> nat option \<Rightarrow> 'a vfs_state_scheme \<Rightarrow> 'a vfs_state_scheme res" where
  "COM_FS_VFS_VNODE_RELEASE optab node s =
     (case node of
        None \<Rightarrow> Ok s
      | Some v \<Rightarrow>
          let s' = upd_ref (\<lambda>n. n - 1) v s
          in if num_ref (vnodes s' v) = 0 then res_bind (com_fs_vfs_close optab v s') (\<lambda>(_, s''). Ok s'') else Ok s')"

section \<open>Path resolution\<close>

text \<open>Sequencing of computations that may not end.\<close>

definition opt_bind :: "'a res option \<Rightarrow> ('a \<Rightarrow> 'b res option) \<Rightarrow> 'b res option" where
  "opt_bind x f = Option.bind x (\<lambda>r. case r of Ok a \<Rightarrow> f a | Panic \<Rightarrow> Some Panic | Blocked \<Rightarrow> Some Blocked)"

text \<open>From the root of a mounted file system up to the directory it is mounted on.\<close>

partial_function (option) climb :: "'a optab \<Rightarrow> nat \<Rightarrow> 'a vfs_state_scheme \<Rightarrow> (nat \<times> 'a vfs_state_scheme) res option" where
  "climb optab v s =
     (if isroot (vnodes s v) then
        (case mountpoint (vfss s (vn_vfs (vnodes s v))) of
           None \<Rightarrow> Some (Ok (v, s))
         | Some w \<Rightarrow>
             (case COM_FS_VFS_VNODE_RELEASE optab (Some v) s of
                Panic \<Rightarrow> Some Panic | Blocked \<Rightarrow> Some Blocked
              | Ok s' \<Rightarrow> climb optab w (COM_FS_VFS_VNODE_HOLD w s')))
      else Some (Ok (v, s)))"

text \<open>From a directory down to the root of what is mounted on it.\<close>

partial_function (option) descend :: "'a optab \<Rightarrow> nat \<Rightarrow> nat \<Rightarrow> 'a vfs_state_scheme \<Rightarrow> (nat \<times> nat \<times> 'a vfs_state_scheme) res option" where
  "descend optab dir v s =
     (case mountpointof (vnodes s v) of
        None \<Rightarrow> Some (Ok (dir, v, s))
      | Some fs \<Rightarrow>
          (case (if dir \<noteq> v then COM_FS_VFS_VNODE_RELEASE optab (Some dir) s else Ok s) of
             Panic \<Rightarrow> Some Panic | Blocked \<Rightarrow> Some Blocked
           | Ok s' \<Rightarrow>
               let w = vfs_root (vfss s' fs)
               in descend optab v w (COM_FS_VFS_VNODE_HOLD w s')))"

text \<open>
  One section of the path from the node \<open>v\<close>. \<open>Inl\<close> is an error, with the node released; \<open>Inr\<close> the
  next node and, when a name was looked up, the directory it was found in.
\<close>

definition lookup_section ::
  "'a optab \<Rightarrow> string \<Rightarrow> nat \<Rightarrow> 'a vfs_state_scheme \<Rightarrow> ((errno + (nat option \<times> nat)) \<times> 'a vfs_state_scheme) res option" where
  "lookup_section optab sec v s =
     opt_bind (if sec = ''..'' then climb optab v s else Some (Ok (v, s))) (\<lambda>(v, s).
       if sec = ''.'' then Some (Ok (Inr (None, v), s))
       else if vn_type (vnodes s v) \<noteq> E_COM_VNODE_TYPE_DIR then
         opt_bind (Some (COM_FS_VFS_VNODE_RELEASE optab (Some v) s)) (\<lambda>s'. Some (Ok (Inl ENOTDIR, s')))
       else
         (case op_lookup (ops_of optab s v) of
            None \<Rightarrow> Some Panic
          | Some f \<Rightarrow>
              opt_bind (Some (f v sec s)) (\<lambda>(ret, out, s').
                if ret \<noteq> EOK then
                  opt_bind (Some (COM_FS_VFS_VNODE_RELEASE optab (Some v) s')) (\<lambda>s''. Some (Ok (Inl ret, s'')))
                else
                  (case out of
                     None \<Rightarrow> Some Panic
                   | Some w \<Rightarrow> opt_bind (descend optab v w s') (\<lambda>(dir, w', s''). Some (Ok (Inr (Some dir, w'), s''))))))) "

text \<open>
  The loop over the sections. The result: error, node, the directory of a symbolic link the walk
  stopped at, the path behind the link, state.
\<close>

type_synonym 'a walk_result = "errno \<times> nat option \<times> nat option \<times> string option \<times> 'a vfs_state_scheme"

function (sequential) lookup1_loop :: "'a optab \<Rightarrow> string \<Rightarrow> nat \<Rightarrow> 'a vfs_state_scheme \<Rightarrow> 'a walk_result res option" where
  "lookup1_loop optab path v s =
     (let p = dropWhile (\<lambda>c. c = CHR ''/'') path
      in if p = [] then Some (Ok (EOK, Some v, None, None, s))
         else
           let sec = takeWhile (\<lambda>c. c \<noteq> CHR ''/'') p; rest = dropWhile (\<lambda>c. c \<noteq> CHR ''/'') p
           in opt_bind (lookup_section optab sec v s) (\<lambda>(r, s').
                case r of
                  Inl ret \<Rightarrow> Some (Ok (ret, None, None, None, s'))
                | Inr (dir, w) \<Rightarrow>
                    if dir \<noteq> None \<and> vn_type (vnodes s' w) = E_COM_VNODE_TYPE_LINK
                    then Some (Ok (EOK, Some w, dir, (if rest = [] then None else Some rest), s'))
                    else if rest = [] then Some (Ok (EOK, Some w, None, None, s'))
                    else lookup1_loop optab (tl rest) w s'))"
  by pat_completeness auto
termination
proof (relation "measure (\<lambda>(_, path, _, _). length path)", simp)
  fix optab :: "'a optab" and path v s p sec rest and x :: "(errno + nat option \<times> nat) \<times> 'a vfs_state_scheme" and r s' b dir w
  assume a: "p = dropWhile (\<lambda>c. c = CHR ''/'') path" "rest = dropWhile (\<lambda>c. c \<noteq> CHR ''/'') p" "rest \<noteq> []"
  have "length p \<le> length path" "length rest \<le> length p" unfolding a(1,2) by (rule length_dropWhile_le)+
  moreover have "0 < length rest" using a(3) by simp
  ultimately have "length rest - 1 < length path" by linarith
  then show "((optab, tl rest, w, s'), optab, path, v, s) \<in> measure (\<lambda>(_, path, _, _). length path)" by simp
qed

declare lookup1_loop.simps [simp del]

definition vfs_lookup1 :: "'a optab \<Rightarrow> string \<Rightarrow> nat \<Rightarrow> nat option \<Rightarrow> 'a vfs_state_scheme \<Rightarrow> 'a walk_result res option" where
  "vfs_lookup1 optab path root cwd s =
     (if path \<noteq> [] \<and> hd path = CHR ''/'' then lookup1_loop optab (tl path) root (COM_FS_VFS_VNODE_HOLD root s)
      else case cwd of
             None \<Rightarrow> Some (Ok (EINVAL, None, None, None, s))
           | Some v \<Rightarrow> lookup1_loop optab path v (COM_FS_VFS_VNODE_HOLD v s))"

definition com_fs_vfs_readlink :: "'a optab \<Rightarrow> nat \<Rightarrow> 'a vfs_state_scheme \<Rightarrow> (errno \<times> string) res" where
  "com_fs_vfs_readlink optab link s =
     (case op_readlink (ops_of optab s link) of None \<Rightarrow> Ok (ENOSYS, []) | Some f \<Rightarrow> f link s)"

definition CONFIG_SYMLINK_MAX :: nat where
  "CONFIG_SYMLINK_MAX = 32"

text \<open>The rounds that are left; each follows one symbolic link.\<close>

fun lookup2_loop :: "'a optab \<Rightarrow> nat \<Rightarrow> nat \<Rightarrow> nat option \<Rightarrow> nat \<Rightarrow> 'a vfs_state_scheme \<Rightarrow> (errno \<times> nat option \<times> 'a vfs_state_scheme) res option" where
  "lookup2_loop optab 0 root cwd link s =
     opt_bind (Some (COM_FS_VFS_VNODE_RELEASE optab (Some link) s)) (\<lambda>s'. Some (Ok (ELOOP, None, s')))"
| "lookup2_loop optab (Suc n) root cwd link s =
     (if vn_type (vnodes s link) \<noteq> E_COM_VNODE_TYPE_LINK then Some (Ok (EOK, Some link, s))
      else opt_bind (Some (com_fs_vfs_readlink optab link s)) (\<lambda>(ret, path).
        opt_bind (Some (COM_FS_VFS_VNODE_RELEASE optab (Some link) s)) (\<lambda>s1.
          if ret \<noteq> EOK then Some (Ok (ret, None, s1))
          else opt_bind (vfs_lookup1 optab path root cwd s1) (\<lambda>(ret, link', dir, _, s2).
            if ret \<noteq> EOK then Some (Ok (ret, None, s2))
            else case link' of
                   None \<Rightarrow> Some Panic
                 | Some l \<Rightarrow> lookup2_loop optab n root (if dir = None then cwd else dir) l s2))))"

definition vfs_lookup2 :: "'a optab \<Rightarrow> nat \<Rightarrow> nat option \<Rightarrow> nat \<Rightarrow> 'a vfs_state_scheme \<Rightarrow> (errno \<times> nat option \<times> 'a vfs_state_scheme) res option" where
  "vfs_lookup2 optab root cwd link s = lookup2_loop optab CONFIG_SYMLINK_MAX root cwd link s"

text \<open>
  The outer loop: while a symbolic link cuts the walk short, the rest of the path is walked from
  the target, which then is both the working directory and the root. The directory of the link
  is an uninitialised variable when the walk did not stop at a link.
\<close>

partial_function (option) com_fs_vfs_lookup ::
  "'a optab \<Rightarrow> string \<Rightarrow> nat \<Rightarrow> nat option \<Rightarrow> bool \<Rightarrow> 'a vfs_state_scheme \<Rightarrow> (errno \<times> nat option \<times> 'a vfs_state_scheme) res option" where
  "com_fs_vfs_lookup optab path root cwd follow_symlinks s =
     Option.bind (vfs_lookup1 optab path root cwd s) (\<lambda>r.
       case r of
         Panic \<Rightarrow> Some Panic | Blocked \<Rightarrow> Some Blocked
       | Ok (ret, out, symlink_dir, sub, s1) \<Rightarrow>
           if ret \<noteq> EOK then Some (Ok (ret, None, s1))
           else
             (case out of
                None \<Rightarrow> Some Panic
              | Some tmp_out \<Rightarrow>
                  if sub \<noteq> None \<or> (vn_type (vnodes s1 tmp_out) = E_COM_VNODE_TYPE_LINK \<and> follow_symlinks) then
                    (case symlink_dir of
                       None \<Rightarrow> Some Panic
                     | Some dir \<Rightarrow>
                         Option.bind (vfs_lookup2 optab root (Some dir) tmp_out s1) (\<lambda>r2.
                           case r2 of
                             Panic \<Rightarrow> Some Panic | Blocked \<Rightarrow> Some Blocked
                           | Ok (ret2, out2, s2) \<Rightarrow>
                               if ret2 \<noteq> EOK then Some (Ok (ret2, None, s2))
                               else
                                 (case out2 of
                                    None \<Rightarrow> Some Panic
                                  | Some t \<Rightarrow>
                                      (case sub of
                                         None \<Rightarrow> Some (Ok (EOK, Some t, s2))
                                       | Some p \<Rightarrow> com_fs_vfs_lookup optab p t (Some t) follow_symlinks s2))))
                  else Some (Ok (EOK, Some tmp_out, s1))))"


section \<open>Dispatch\<close>

text \<open>A missing operation is reported as \<open>ENOSYS\<close>; an output that is not stored then is \<open>None\<close> here.\<close>

definition com_fs_vfs_create :: "'a optab \<Rightarrow> nat \<Rightarrow> string \<Rightarrow> u64 \<Rightarrow> 'a vfs_state_scheme \<Rightarrow> (errno \<times> nat option \<times> 'a vfs_state_scheme) res" where
  "com_fs_vfs_create optab dir name attr s =
     (case op_create (ops_of optab s dir) of None \<Rightarrow> Ok (ENOSYS, None, s) | Some f \<Rightarrow> f dir name attr 0 s)"

definition com_fs_vfs_mkdir :: "'a optab \<Rightarrow> nat \<Rightarrow> string \<Rightarrow> u64 \<Rightarrow> 'a vfs_state_scheme \<Rightarrow> (errno \<times> nat option \<times> 'a vfs_state_scheme) res" where
  "com_fs_vfs_mkdir optab parent name attr s =
     (case op_mkdir (ops_of optab s parent) of None \<Rightarrow> Ok (ENOSYS, None, s) | Some f \<Rightarrow> f parent name attr 0 s)"

definition com_fs_vfs_mksocket :: "'a optab \<Rightarrow> nat \<Rightarrow> string \<Rightarrow> u64 \<Rightarrow> 'a vfs_state_scheme \<Rightarrow> (errno \<times> nat option \<times> 'a vfs_state_scheme) res" where
  "com_fs_vfs_mksocket optab dir name attr s =
     (case op_mksocket (ops_of optab s dir) of None \<Rightarrow> Ok (ENOSYS, None, s) | Some f \<Rightarrow> f dir name attr 0 s)"

definition com_fs_vfs_link :: "'a optab \<Rightarrow> nat \<Rightarrow> string \<Rightarrow> nat \<Rightarrow> 'a vfs_state_scheme \<Rightarrow> (errno \<times> 'a vfs_state_scheme) res" where
  "com_fs_vfs_link optab dir dstname src s =
     (case op_link (ops_of optab s src) of None \<Rightarrow> Ok (ENOSYS, s) | Some f \<Rightarrow> f dir dstname src s)"

text \<open>Of the flags only \<^verbatim>\<open>AT_REMOVEDIR\<close> is ever looked at.\<close>

definition com_fs_vfs_unlink :: "'a optab \<Rightarrow> nat \<Rightarrow> bool \<Rightarrow> 'a vfs_state_scheme \<Rightarrow> (errno \<times> 'a vfs_state_scheme) res" where
  "com_fs_vfs_unlink optab node removedir s =
     (case op_unlink (ops_of optab s node) of None \<Rightarrow> Ok (ENOSYS, s) | Some f \<Rightarrow> f node removedir s)"

definition com_fs_vfs_symlink :: "'a optab \<Rightarrow> nat \<Rightarrow> string \<Rightarrow> string \<Rightarrow> 'a vfs_state_scheme \<Rightarrow> (errno \<times> 'a vfs_state_scheme) res" where
  "com_fs_vfs_symlink optab dir linkname path s =
     (case op_symlink (ops_of optab s dir) of None \<Rightarrow> Ok (ENOSYS, s) | Some f \<Rightarrow> f dir linkname path s)"

definition com_fs_vfs_truncate :: "'a optab \<Rightarrow> nat \<Rightarrow> u64 \<Rightarrow> 'a vfs_state_scheme \<Rightarrow> (errno \<times> 'a vfs_state_scheme) res" where
  "com_fs_vfs_truncate optab node sz s =
     (case op_truncate (ops_of optab s node) of None \<Rightarrow> Ok (ENOSYS, s) | Some f \<Rightarrow> f node sz s)"

definition com_fs_vfs_open :: "'a optab \<Rightarrow> nat \<Rightarrow> 'a vfs_state_scheme \<Rightarrow> (errno \<times> nat option \<times> 'a vfs_state_scheme) res" where
  "com_fs_vfs_open optab node s =
     (case op_open (ops_of optab s node) of None \<Rightarrow> Ok (EOK, Some node, s) | Some f \<Rightarrow> f node s)"

definition com_fs_vfs_isatty :: "'a optab \<Rightarrow> nat \<Rightarrow> 'a vfs_state_scheme \<Rightarrow> errno" where
  "com_fs_vfs_isatty optab node s = (case op_isatty (ops_of optab s node) of None \<Rightarrow> ENOSYS | Some f \<Rightarrow> f node s)"

definition com_fs_vfs_readdir :: "'a optab \<Rightarrow> u64 \<Rightarrow> nat \<Rightarrow> u64 \<Rightarrow> 'a vfs_state_scheme \<Rightarrow> errno \<times> u64 option \<times> com_dirent option" where
  "com_fs_vfs_readdir optab buflen dir off s =
     (case op_readdir (ops_of optab s dir) of None \<Rightarrow> (ENOSYS, None, None) | Some f \<Rightarrow> f dir buflen off s)"

definition com_fs_vfs_ioctl :: "'a optab \<Rightarrow> nat \<Rightarrow> u64 \<Rightarrow> u64 \<Rightarrow> mem \<Rightarrow> 'a vfs_state_scheme \<Rightarrow> (errno \<times> mem \<times> 'a vfs_state_scheme) res" where
  "com_fs_vfs_ioctl optab node op buf m s =
     (case op_ioctl (ops_of optab s node) of None \<Rightarrow> Ok (ENOSYS, m, s) | Some f \<Rightarrow> f node op buf m s)"

text \<open>The status is cleared before the operation fills it; without the operation it is not touched.\<close>

definition com_fs_vfs_stat :: "'a optab \<Rightarrow> com_stat \<Rightarrow> nat \<Rightarrow> 'a vfs_state_scheme \<Rightarrow> errno \<times> com_stat" where
  "com_fs_vfs_stat optab out node s =
     (case op_stat (ops_of optab s node) of None \<Rightarrow> (ENOSYS, out) | Some f \<Rightarrow> f zero_stat node s)"

definition com_fs_vfs_vnctl :: "'a optab \<Rightarrow> nat \<Rightarrow> u64 \<Rightarrow> 'a vfs_state_scheme \<Rightarrow> errno \<times> string option" where
  "com_fs_vfs_vnctl optab node op s = (case op_vnctl (ops_of optab s node) of None \<Rightarrow> (ENOSYS, None) | Some f \<Rightarrow> f node op s)"

definition com_fs_vfs_poll_head :: "'a optab \<Rightarrow> nat \<Rightarrow> 'a vfs_state_scheme \<Rightarrow> errno \<times> nat option" where
  "com_fs_vfs_poll_head optab node s = (case op_poll_head (ops_of optab s node) of None \<Rightarrow> (ENOSYS, None) | Some f \<Rightarrow> f node s)"

definition com_fs_vfs_poll :: "'a optab \<Rightarrow> u32 \<Rightarrow> nat \<Rightarrow> u32 \<Rightarrow> 'a vfs_state_scheme \<Rightarrow> errno \<times> u32" where
  "com_fs_vfs_poll optab revents node events s =
     (case op_poll (ops_of optab s node) of None \<Rightarrow> (ENOSYS, revents) | Some f \<Rightarrow> f node events s)"

definition com_fs_vfs_mmap ::
  "'a optab \<Rightarrow> nat \<Rightarrow> nat \<Rightarrow> u64 \<Rightarrow> u64 \<Rightarrow> u32 \<Rightarrow> u64 \<Rightarrow> u64 \<Rightarrow> 'a vfs_state_scheme \<Rightarrow> (errno \<times> u64 option \<times> 'a vfs_state_scheme) res" where
  "com_fs_vfs_mmap optab node vmm_context hint sz vmm_flags mmu_flags off s =
     (case op_mmap (ops_of optab s node) of
        None \<Rightarrow> Ok (ENOSYS, None, s)
      | Some f \<Rightarrow> res_bind (f node vmm_context hint sz vmm_flags mmu_flags off s) (\<lambda>(ret, out, s'). Ok (ret, Some out, s')))"

text \<open>
  Reading into and writing from memory. A node with only the vectored operation gets an iterator
  over the one buffer; the count is then whatever the operation stores.
\<close>

definition com_fs_vfs_read ::
  "'a optab \<Rightarrow> u64 \<Rightarrow> u64 \<Rightarrow> nat \<Rightarrow> u64 \<Rightarrow> u64 \<Rightarrow> mem \<Rightarrow> 'a vfs_state_scheme \<Rightarrow> (errno \<times> u64 option \<times> mem \<times> 'a vfs_state_scheme) res" where
  "com_fs_vfs_read optab buf buflen node off flags m s =
     (case op_read (ops_of optab s node) of
        None \<Rightarrow>
          (case op_readv (ops_of optab s node) of
             None \<Rightarrow> Ok (ENOSYS, None, m, s)
           | Some f \<Rightarrow>
               res_bind (f node (kioviter_init [\<lparr>iov_base = buf, iov_len = buflen\<rparr>]) off flags m s)
                 (\<lambda>(ret, n, m', _, s'). Ok (ret, Some n, m', s')))
      | Some f \<Rightarrow>
          res_bind (f node buflen off flags s)
            (\<lambda>(ret, n, bytes, s'). Ok (ret, Some n, store_list m (block buf (length bytes)) bytes, s')))"

definition com_fs_vfs_write ::
  "'a optab \<Rightarrow> nat \<Rightarrow> u64 \<Rightarrow> u64 \<Rightarrow> u64 \<Rightarrow> u64 \<Rightarrow> mem \<Rightarrow> 'a vfs_state_scheme \<Rightarrow> (errno \<times> u64 option \<times> 'a vfs_state_scheme) res" where
  "com_fs_vfs_write optab node buf buflen off flags m s =
     (case op_write (ops_of optab s node) of
        None \<Rightarrow>
          (case op_writev (ops_of optab s node) of
             None \<Rightarrow> Ok (ENOSYS, None, s)
           | Some f \<Rightarrow>
               res_bind (f node (kioviter_init [\<lparr>iov_base = buf, iov_len = buflen\<rparr>]) off flags m s)
                 (\<lambda>(ret, n, _, s'). Ok (ret, Some n, s')))
      | Some f \<Rightarrow>
          res_bind (f node (map m (block buf (unat buflen))) off flags s)
            (\<lambda>(ret, n, s'). Ok (ret, Some (case n of None \<Rightarrow> 0 | Some k \<Rightarrow> k), s')))"

text \<open>
  The vectored calls on a node that has only the simple operation: one access per vector. The
  loop takes the next vector before it looks at the error of the last access.
\<close>

partial_function (option) readv_loop ::
  "(u64 \<Rightarrow> u64 \<Rightarrow> 'a vfs_state_scheme \<Rightarrow> (errno \<times> u64 \<times> u8 list \<times> 'a vfs_state_scheme) res) \<Rightarrow> kioviter \<Rightarrow> u64 \<Rightarrow> u64 \<Rightarrow> errno \<Rightarrow> mem
   \<Rightarrow> 'a vfs_state_scheme \<Rightarrow> (errno \<times> u64 \<times> mem \<times> kioviter \<times> 'a vfs_state_scheme) res option" where
  "readv_loop rd it iov_off tot ret m s =
     (case kioviter_next it of
        Panic \<Rightarrow> Some Panic | Blocked \<Rightarrow> Some Blocked
      | Ok (next, it') \<Rightarrow>
          (case next of
             None \<Rightarrow> Some (Ok (ret, tot, m, it', s))
           | Some v \<Rightarrow>
               if ret \<noteq> EOK then Some (Ok (ret, tot, m, it', s))
               else
                 (case rd (iov_len v) iov_off s of
                    Panic \<Rightarrow> Some Panic | Blocked \<Rightarrow> Some Blocked
                  | Ok (ret', n, bytes, s') \<Rightarrow>
                      readv_loop rd it' (iov_off + n) (tot + n) ret' (store_list m (block (iov_base v) (length bytes)) bytes) s')))"

definition com_fs_vfs_readv ::
  "'a optab \<Rightarrow> kioviter \<Rightarrow> nat \<Rightarrow> u64 \<Rightarrow> u64 \<Rightarrow> mem \<Rightarrow> 'a vfs_state_scheme \<Rightarrow> (errno \<times> u64 option \<times> mem \<times> kioviter \<times> 'a vfs_state_scheme) res option" where
  "com_fs_vfs_readv optab it node off flags m s =
     (case op_readv (ops_of optab s node) of
        Some f \<Rightarrow> Some (res_bind (f node it off flags m s) (\<lambda>(ret, n, m', it', s'). Ok (ret, Some n, m', it', s')))
      | None \<Rightarrow>
          (case op_read (ops_of optab s node) of
             None \<Rightarrow> Some (Ok (ENOSYS, None, m, it, s))
           | Some f \<Rightarrow>
               opt_bind (readv_loop (\<lambda>len o' s. f node len o' flags s) it off 0 EOK m s)
                 (\<lambda>(ret, n, m', it', s'). Some (Ok (ret, Some n, m', it', s')))))"

partial_function (option) writev_loop ::
  "(u8 list \<Rightarrow> u64 \<Rightarrow> 'a vfs_state_scheme \<Rightarrow> (errno \<times> u64 option \<times> 'a vfs_state_scheme) res) \<Rightarrow> kioviter \<Rightarrow> u64 \<Rightarrow> u64 \<Rightarrow> errno \<Rightarrow> mem
   \<Rightarrow> 'a vfs_state_scheme \<Rightarrow> (errno \<times> u64 \<times> kioviter \<times> 'a vfs_state_scheme) res option" where
  "writev_loop wr it iov_off tot ret m s =
     (case kioviter_next it of
        Panic \<Rightarrow> Some Panic | Blocked \<Rightarrow> Some Blocked
      | Ok (next, it') \<Rightarrow>
          (case next of
             None \<Rightarrow> Some (Ok (ret, tot, it', s))
           | Some v \<Rightarrow>
               if ret \<noteq> EOK then Some (Ok (ret, tot, it', s))
               else
                 (case wr (map m (block (iov_base v) (unat (iov_len v)))) iov_off s of
                    Panic \<Rightarrow> Some Panic | Blocked \<Rightarrow> Some Blocked
                  | Ok (ret', n, s') \<Rightarrow>
                      writev_loop wr it' (iov_off + (case n of None \<Rightarrow> 0 | Some k \<Rightarrow> k)) (tot + (case n of None \<Rightarrow> 0 | Some k \<Rightarrow> k)) ret' m s')))"

definition com_fs_vfs_writev ::
  "'a optab \<Rightarrow> nat \<Rightarrow> kioviter \<Rightarrow> u64 \<Rightarrow> u64 \<Rightarrow> mem \<Rightarrow> 'a vfs_state_scheme \<Rightarrow> (errno \<times> u64 option \<times> kioviter \<times> 'a vfs_state_scheme) res option" where
  "com_fs_vfs_writev optab node it off flags m s =
     (case op_writev (ops_of optab s node) of
        Some f \<Rightarrow> Some (res_bind (f node it off flags m s) (\<lambda>(ret, n, it', s'). Ok (ret, Some n, it', s')))
      | None \<Rightarrow>
          (case op_write (ops_of optab s node) of
             None \<Rightarrow> Some (Ok (ENOSYS, None, it, s))
           | Some f \<Rightarrow>
               opt_bind (writev_loop (\<lambda>bytes o' s. f node bytes o' flags s) it off 0 EOK m s)
                 (\<lambda>(ret, n, it', s'). Some (Ok (ret, Some n, it', s')))))"

section \<open>Creation\<close>

text \<open>
  A new node; sockets come from \<^verbatim>\<open>sockfs\<close>, which allocates the same fields. The memory of a new
  node is zero.
\<close>

definition com_fs_vfs_alloc_vnode :: "nat \<Rightarrow> com_vnode_type \<Rightarrow> nat \<Rightarrow> nat \<Rightarrow> 'a vfs_state_scheme \<Rightarrow> errno \<times> nat option \<times> 'a vfs_state_scheme" where
  "com_fs_vfs_alloc_vnode vfs type ops ext s =
     (if type = E_COM_VNODE_TYPE_FIFO then (ENOSYS, None, s)
      else (EOK, Some (next_vnode s),
        s\<lparr>vnodes := (vnodes s)(next_vnode s := \<lparr>mountpointof = None, vn_vfs = vfs, vn_ops = ops, vn_type = type, num_ref = 1, isroot = False, extra = ext\<rparr>),
          next_vnode := next_vnode s + 1\<rparr>))"

text \<open>The path as bytes of memory from address 0 on, for \<^verbatim>\<open>kstrpathpenult\<close>.\<close>

definition path_mem :: "string \<Rightarrow> mem" where
  "path_mem path a = (if unat a < length path then of_char (path ! unat a) else 0)"

definition com_fs_vfs_create_any ::
  "'a optab \<Rightarrow> string \<Rightarrow> nat \<Rightarrow> nat option \<Rightarrow> u64 \<Rightarrow> bool \<Rightarrow> bool
   \<Rightarrow> (nat \<Rightarrow> string \<Rightarrow> u64 \<Rightarrow> 'a vfs_state_scheme \<Rightarrow> (errno \<times> nat option \<times> 'a vfs_state_scheme) res)
   \<Rightarrow> 'a vfs_state_scheme \<Rightarrow> (errno \<times> nat option \<times> 'a vfs_state_scheme) res option" where
  "com_fs_vfs_create_any optab path root cwd attr err_if_present follow_symlinks create_handler s =
     opt_bind (com_fs_vfs_lookup optab path root cwd follow_symlinks s) (\<lambda>(lookup_err, vnode, s1).
       if lookup_err = EOK then
         if err_if_present then
           opt_bind (Some (COM_FS_VFS_VNODE_RELEASE optab vnode s1)) (\<lambda>s2. Some (Ok (EEXIST, None, s2)))
         else Some (Ok (EOK, vnode, s1))
       else
         let (penult_len, end_idx, end_len) = kstrpathpenult (path_mem path) 0 (of_nat (length path))
         in opt_bind (com_fs_vfs_lookup optab (take (unat penult_len) path) root cwd True s1) (\<lambda>(ret, dir, s2).
              if ret \<noteq> EOK then Some (Ok (ret, None, s2))
              else case dir of
                     None \<Rightarrow> Some Panic
                   | Some d \<Rightarrow>
                       opt_bind (Some (create_handler d (take (unat end_len) (drop (unat end_idx) path)) attr s2)) (\<lambda>(ret', out, s3).
                         opt_bind (Some (COM_FS_VFS_VNODE_RELEASE optab (Some d) s3)) (\<lambda>s4. Some (Ok (ret', out, s4))))))"


section \<open>The contract of path resolution\<close>

text \<open>Two states with the same nodes, file systems and private data, up to reference counts.\<close>

definition same_tree :: "'a vfs_state_scheme \<Rightarrow> 'a vfs_state_scheme \<Rightarrow> bool" where
  "same_tree s s' \<longleftrightarrow> (\<exists>g. s' = s\<lparr>vnodes := (\<lambda>v. (vnodes s v)\<lparr>num_ref := g v\<rparr>)\<rparr>)"

text \<open>The directory a mounted root is on, and the root that covers a directory.\<close>

definition up_edge :: "'a vfs_state_scheme \<Rightarrow> (nat \<times> nat) set" where
  "up_edge s = {(w, v). isroot (vnodes s v) \<and> mountpoint (vfss s (vn_vfs (vnodes s v))) = Some w}"

definition down_edge :: "'a vfs_state_scheme \<Rightarrow> (nat \<times> nat) set" where
  "down_edge s = {(w, v). \<exists>fs. mountpointof (vnodes s v) = Some fs \<and> w = vfs_root (vfss s fs)}"

definition mounts_wf :: "'a vfs_state_scheme \<Rightarrow> bool" where
  "mounts_wf s \<longleftrightarrow> wf (up_edge s) \<and> wf (down_edge s)"

inductive climbs :: "'a vfs_state_scheme \<Rightarrow> nat \<Rightarrow> nat \<Rightarrow> bool" for s where
  climbs_stay: "\<forall>w. (w, v) \<notin> up_edge s \<Longrightarrow> climbs s v v"
| climbs_up: "(w, v) \<in> up_edge s \<Longrightarrow> climbs s w u \<Longrightarrow> climbs s v u"

inductive descends :: "'a vfs_state_scheme \<Rightarrow> nat \<Rightarrow> nat \<Rightarrow> nat \<Rightarrow> nat \<Rightarrow> bool" for s where
  descends_stay: "\<forall>w. (w, v) \<notin> down_edge s \<Longrightarrow> descends s d v d v"
| descends_down: "(w, v) \<in> down_edge s \<Longrightarrow> descends s v w d' u \<Longrightarrow> descends s d v d' u"

definition base_of :: "'a vfs_state_scheme \<Rightarrow> string \<Rightarrow> nat \<Rightarrow> nat \<Rightarrow> bool" where
  "base_of s c v u \<longleftrightarrow> (if c = ''..'' then climbs s v u else u = v)"

inductive_cases climbsE: "climbs s v u"
inductive_cases descendsE: "descends s d v d' u"

text \<open>Splitting a path at its slashes.\<close>

fun sections :: "string \<Rightarrow> string list" where
  "sections [] = [[]]"
| "sections (c # cs) = (if c = CHR ''/'' then [] # sections cs else (c # hd (sections cs)) # tl (sections cs))"

text \<open>
  Walking the sections one by one in a tree without symbolic links, where \<open>child\<close> is what the file
  systems hold: empty sections and dots stay, two dots first leave a mounted file system, and a
  directory on which a file system is mounted stands for its root.
\<close>

inductive walks :: "(nat \<Rightarrow> string \<Rightarrow> nat option) \<Rightarrow> 'a vfs_state_scheme \<Rightarrow> nat \<Rightarrow> string list \<Rightarrow> errno \<Rightarrow> nat option \<Rightarrow> bool" for child s where
  walks_done: "walks child s v [] EOK (Some v)"
| walks_stay: "c = [] \<or> c = ''.'' \<Longrightarrow> walks child s v cs e r \<Longrightarrow> walks child s v (c # cs) e r"
| walks_notdir: "c \<noteq> [] \<Longrightarrow> c \<noteq> ''.'' \<Longrightarrow> base_of s c v u \<Longrightarrow>
    vn_type (vnodes s u) \<noteq> E_COM_VNODE_TYPE_DIR \<Longrightarrow> walks child s v (c # cs) ENOTDIR None"
| walks_noent: "c \<noteq> [] \<Longrightarrow> c \<noteq> ''.'' \<Longrightarrow> base_of s c v u \<Longrightarrow>
    vn_type (vnodes s u) = E_COM_VNODE_TYPE_DIR \<Longrightarrow> child u c = None \<Longrightarrow> walks child s v (c # cs) ENOENT None"
| walks_step: "c \<noteq> [] \<Longrightarrow> c \<noteq> ''.'' \<Longrightarrow> base_of s c v u \<Longrightarrow>
    vn_type (vnodes s u) = E_COM_VNODE_TYPE_DIR \<Longrightarrow> child u c = Some w \<Longrightarrow> descends s u w d t \<Longrightarrow>
    walks child s t cs e r \<Longrightarrow> walks child s v (c # cs) e r"

inductive_cases walks_NilE: "walks child s v [] e r"
inductive_cases walks_ConsE: "walks child s v (c # cs) e r"

section \<open>Trees and references\<close>

lemma same_tree_refl [simp]: "same_tree s s"
  unfolding same_tree_def by (rule exI [of _ "\<lambda>v. num_ref (vnodes s v)"]) simp

lemma same_tree_trans: "same_tree s s' \<Longrightarrow> same_tree s' s'' \<Longrightarrow> same_tree s s''"
  by (auto simp: same_tree_def)

lemma same_tree_upd_ref: "same_tree s s' \<Longrightarrow> same_tree s (upd_ref f v s')"
proof (erule same_tree_trans)
  show "same_tree s' (upd_ref f v s')"
    unfolding same_tree_def upd_ref_def
    by (rule exI [of _ "\<lambda>w. if w = v then f (num_ref (vnodes s' v)) else num_ref (vnodes s' w)"]) (auto simp: fun_eq_iff)
qed

lemma same_tree_hold: "same_tree s s' \<Longrightarrow> same_tree s (COM_FS_VFS_VNODE_HOLD v s')"
  by (simp add: COM_FS_VFS_VNODE_HOLD_def same_tree_upd_ref)

lemma same_treeD:
  assumes "same_tree s s'"
  shows "vn_type (vnodes s' v) = vn_type (vnodes s v)" "isroot (vnodes s' v) = isroot (vnodes s v)"
    "mountpointof (vnodes s' v) = mountpointof (vnodes s v)" "vn_vfs (vnodes s' v) = vn_vfs (vnodes s v)"
    "vn_ops (vnodes s' v) = vn_ops (vnodes s v)" "extra (vnodes s' v) = extra (vnodes s v)" "vfss s' = vfss s" "next_vnode s' = next_vnode s"
  using assms by (auto simp: same_tree_def)

lemma edge_det: "(w, v) \<in> up_edge s \<Longrightarrow> (w', v) \<in> up_edge s \<Longrightarrow> w' = w" "(w, v) \<in> down_edge s \<Longrightarrow> (w', v) \<in> down_edge s \<Longrightarrow> w' = w"
  by (auto simp: up_edge_def down_edge_def)

lemma climbs_det: "climbs s v u \<Longrightarrow> climbs s v u' \<Longrightarrow> u' = u"
proof (induction rule: climbs.induct)
  case (climbs_stay v)
  from climbs_stay.prems show ?case by (rule climbsE) (use climbs_stay.hyps in blast)+
next
  case (climbs_up w v u)
  from climbs_up.prems show ?case by (rule climbsE) (use climbs_up.hyps(1) climbs_up.IH edge_det(1) in blast)+
qed

lemma descends_det: "descends s d v d1 u \<Longrightarrow> descends s d v d2 u' \<Longrightarrow> d2 = d1 \<and> u' = u"
proof (induction rule: descends.induct)
  case (descends_stay v d)
  from descends_stay.prems show ?case by (rule descendsE) (use descends_stay.hyps in blast)+
next
  case (descends_down w v d' u d)
  from descends_down.prems show ?case by (rule descendsE) (use descends_down.hyps(1) descends_down.IH edge_det(2) in blast)+
qed

lemma base_of_det: "base_of s c v u \<Longrightarrow> base_of s c v u' \<Longrightarrow> u' = u"
  using climbs_det by (auto simp: base_of_def split: if_splits)

lemma walks_det: "walks child s v cs e r \<Longrightarrow> walks child s v cs e' r' \<Longrightarrow> e' = e \<and> r' = r"
proof (induction arbitrary: e' r' rule: walks.induct)
  case (walks_done v)
  then show ?case by (auto elim: walks_NilE)
next
  case (walks_stay c v cs e r)
  from walks_stay.prems show ?case by (rule walks_ConsE) (use walks_stay.hyps(1) walks_stay.IH in blast)+
next
  case (walks_notdir c v u cs)
  from walks_notdir.prems show ?case by (rule walks_ConsE) (use walks_notdir.hyps in \<open>auto dest!: base_of_det [OF walks_notdir.hyps(3)]\<close>)
next
  case (walks_noent c v u cs)
  from walks_noent.prems show ?case by (rule walks_ConsE) (use walks_noent.hyps in \<open>auto dest!: base_of_det [OF walks_noent.hyps(3)]\<close>)
next
  case (walks_step c v u w d t cs e r)
  from walks_step.prems show ?case
  proof (rule walks_ConsE)
    fix u2 w2 d2 t2
    assume a: "base_of s c v u2" "child u2 c = Some w2" "descends s u2 w2 d2 t2" "walks child s t2 cs e' r'"
    have "u2 = u" using base_of_det [OF walks_step.hyps(3) a(1)] .
    then have "w2 = w" using a(2) walks_step.hyps(5) by simp
    then have "t2 = t" using descends_det [OF walks_step.hyps(6)] a(3) \<open>u2 = u\<close> by blast
    then show ?thesis using walks_step.IH a(4) by simp
  qed (use walks_step.hyps in \<open>auto dest!: base_of_det [OF walks_step.hyps(3)]\<close>)
qed

lemma sections_split:
  "sections p = takeWhile (\<lambda>c. c \<noteq> CHR ''/'') p #
    (if dropWhile (\<lambda>c. c \<noteq> CHR ''/'') p = [] then [] else sections (tl (dropWhile (\<lambda>c. c \<noteq> CHR ''/'') p)))"
proof (induction p)
  case (Cons c cs)
  then show ?case by (cases "c = CHR ''/''") (simp, subst sections.simps, subst Cons.IH, auto)
qed simp

lemma walks_skip: "walks child s v (sections (dropWhile (\<lambda>c. c = CHR ''/'') p)) e r \<Longrightarrow> walks child s v (sections p) e r"
  by (induction p) (auto intro: walks_stay split: if_splits)

text \<open>Names of nodes, and the loop at a name.\<close>

definition proper_name :: "string \<Rightarrow> bool" where
  "proper_name c \<longleftrightarrow> c \<noteq> [] \<and> CHR ''/'' \<notin> set c \<and> c \<noteq> ''.'' \<and> c \<noteq> ''..''"

lemma lookup1_loop_name:
  assumes c: "proper_name c" and rest: "rest = [] \<or> hd rest = CHR ''/''"
  shows "lookup1_loop optab (c @ rest) v s =
    opt_bind (lookup_section optab c v s) (\<lambda>(r, s').
      case r of
        Inl ret \<Rightarrow> Some (Ok (ret, None, None, None, s'))
      | Inr (dir, w) \<Rightarrow>
          if dir \<noteq> None \<and> vn_type (vnodes s' w) = E_COM_VNODE_TYPE_LINK
          then Some (Ok (EOK, Some w, dir, (if rest = [] then None else Some rest), s'))
          else if rest = [] then Some (Ok (EOK, Some w, None, None, s')) else lookup1_loop optab (tl rest) w s')"
proof -
  have slash: "\<And>x. x \<in> set c \<Longrightarrow> x \<noteq> CHR ''/''" "c \<noteq> []" using c by (auto simp: proper_name_def)
  have "dropWhile (\<lambda>c. c = CHR ''/'') (c @ rest) = c @ rest" using slash by (cases c) auto
  moreover have "takeWhile (\<lambda>c. c \<noteq> CHR ''/'') rest = []" "dropWhile (\<lambda>c. c \<noteq> CHR ''/'') rest = rest" using rest by (cases rest; auto)+
  then have "takeWhile (\<lambda>c. c \<noteq> CHR ''/'') (c @ rest) = c" "dropWhile (\<lambda>c. c \<noteq> CHR ''/'') (c @ rest) = rest"
    using slash(1) by (simp_all add: takeWhile_append2 dropWhile_append2)
  moreover have "c @ rest \<noteq> []" using slash(2) by simp
  ultimately show ?thesis by (subst lookup1_loop.simps) (simp only: Let_def if_False)
qed

text \<open>What the loop over the sections promises of its result for a path of length \<open>n\<close>.\<close>

definition walk_post :: "'a vfs_state_scheme \<Rightarrow> nat \<Rightarrow> nat \<Rightarrow> errno \<Rightarrow> nat option \<Rightarrow> nat option \<Rightarrow> string option \<Rightarrow> bool" where
  "walk_post s v n e r d sub \<longleftrightarrow>
     (case r of
        None \<Rightarrow> (e = ENOENT \<or> e = ENOTDIR) \<and> d = None \<and> sub = None
      | Some w \<Rightarrow> e = EOK \<and>
          (if d = None then sub = None \<and> (vn_type (vnodes s w) \<noteq> E_COM_VNODE_TYPE_LINK \<or> w = v)
           else vn_type (vnodes s w) = E_COM_VNODE_TYPE_LINK \<and> (case sub of None \<Rightarrow> True | Some p \<Rightarrow> p \<noteq> [] \<and> length p < n)))"

text \<open>What following symbolic links promises, and where a path starts.\<close>

definition link_post :: "'a vfs_state_scheme \<Rightarrow> errno \<Rightarrow> nat option \<Rightarrow> bool" where
  "link_post s e r \<longleftrightarrow>
     (case r of
        None \<Rightarrow> e = ENOENT \<or> e = ENOTDIR \<or> e = ELOOP
      | Some w \<Rightarrow> e = EOK \<and> vn_type (vnodes s w) \<noteq> E_COM_VNODE_TYPE_LINK)"

definition walk_start :: "string \<Rightarrow> nat \<Rightarrow> nat \<Rightarrow> nat" where
  "walk_start path root cwd = (if path \<noteq> [] \<and> hd path = CHR ''/'' then root else cwd)"

section \<open>Walking a tree of file systems\<close>

text \<open>
  What the walk needs of the file systems: they answer every look-up in a directory from a fixed
  tree, symbolic links can be read, nothing happens when the last reference goes, and only
  reference counts change.
\<close>

locale file_tree =
  fixes optab :: "'a optab"
    and fs_ok :: "'a vfs_state_scheme \<Rightarrow> bool"
    and child :: "'a vfs_state_scheme \<Rightarrow> nat \<Rightarrow> string \<Rightarrow> nat option"
    and target :: "'a vfs_state_scheme \<Rightarrow> nat \<Rightarrow> string"
  assumes tree_kept: "same_tree s s' \<Longrightarrow> fs_ok s \<Longrightarrow> fs_ok s' \<and> child s' = child s \<and> target s' = target s"
    and no_close: "fs_ok s \<Longrightarrow> op_close (ops_of optab s v) = None"
    and looks_up: "fs_ok s \<Longrightarrow> vn_type (vnodes s v) = E_COM_VNODE_TYPE_DIR \<Longrightarrow>
      \<exists>f s'. op_lookup (ops_of optab s v) = Some f \<and> same_tree s s' \<and>
        f v c s = Ok (case child s v c of None \<Rightarrow> (ENOENT, None, s') | Some w \<Rightarrow> (EOK, Some w, s'))"
    and reads_link: "fs_ok s \<Longrightarrow> vn_type (vnodes s v) = E_COM_VNODE_TYPE_LINK \<Longrightarrow>
      \<exists>f. op_readlink (ops_of optab s v) = Some f \<and> f v s = Ok (EOK, target s v)"
begin

lemma release_ok:
  assumes "fs_ok s" and "same_tree s s1"
  shows "COM_FS_VFS_VNODE_RELEASE optab (Some v) s1 = Ok (upd_ref (\<lambda>n. n - 1) v s1)" and "same_tree s (upd_ref (\<lambda>n. n - 1) v s1)"
proof -
  show t: "same_tree s (upd_ref (\<lambda>n. n - 1) v s1)" by (rule same_tree_upd_ref [OF assms(2)])
  have "op_close (ops_of optab (upd_ref (\<lambda>n. n - 1) v s1) v) = None" using tree_kept [OF t assms(1)] no_close by blast
  then show "COM_FS_VFS_VNODE_RELEASE optab (Some v) s1 = Ok (upd_ref (\<lambda>n. n - 1) v s1)"
    by (simp add: COM_FS_VFS_VNODE_RELEASE_def com_fs_vfs_close_def Let_def)
qed

lemma climb_ok:
  assumes ok: "fs_ok s" and wf: "mounts_wf s"
  shows "same_tree s s1 \<Longrightarrow> \<exists>u s2. climb optab v s1 = Some (Ok (u, s2)) \<and> same_tree s s2 \<and> climbs s v u"
proof -
  have "wf (up_edge s)" using wf by (simp add: mounts_wf_def)
  then show "same_tree s s1 \<Longrightarrow> \<exists>u s2. climb optab v s1 = Some (Ok (u, s2)) \<and> same_tree s s2 \<and> climbs s v u"
  proof (induction v arbitrary: s1 rule: wf_induct_rule)
    case (less v)
    note T = same_treeD [OF less.prems]
    show ?case
    proof (cases "\<exists>w. (w, v) \<in> up_edge s")
      case False
      then have "climb optab v s1 = Some (Ok (v, s1))" by (subst climb.simps) (auto simp: up_edge_def T split: option.splits)
      then show ?thesis using less.prems climbs_stay False by blast
    next
      case True
      then obtain w where w: "(w, v) \<in> up_edge s" by blast
      note R = release_ok [OF ok less.prems, of v]
      let ?s = "COM_FS_VFS_VNODE_HOLD w (upd_ref (\<lambda>n. n - 1) v s1)"
      have "climb optab v s1 = climb optab w ?s" using w by (subst climb.simps) (simp add: up_edge_def T R(1))
      then show ?thesis using less.IH [OF w same_tree_hold [OF R(2)]] climbs_up [OF w] by metis
    qed
  qed
qed

lemma descend_ok:
  assumes ok: "fs_ok s" and wf: "mounts_wf s"
  shows "same_tree s s1 \<Longrightarrow> \<exists>d' u s2. descend optab d v s1 = Some (Ok (d', u, s2)) \<and> same_tree s s2 \<and> descends s d v d' u"
proof -
  have "wf (down_edge s)" using wf by (simp add: mounts_wf_def)
  then show "same_tree s s1 \<Longrightarrow> \<exists>d' u s2. descend optab d v s1 = Some (Ok (d', u, s2)) \<and> same_tree s s2 \<and> descends s d v d' u"
  proof (induction v arbitrary: d s1 rule: wf_induct_rule)
    case (less v)
    note T = same_treeD [OF less.prems]
    show ?case
    proof (cases "mountpointof (vnodes s v)")
      case None
      then have "descend optab d v s1 = Some (Ok (d, v, s1))" by (subst descend.simps) (simp add: T)
      moreover have "\<forall>w. (w, v) \<notin> down_edge s" using None by (simp add: down_edge_def)
      ultimately show ?thesis using less.prems descends_stay by blast
    next
      case (Some fs)
      let ?w = "vfs_root (vfss s fs)"
      have w: "(?w, v) \<in> down_edge s" using Some by (auto simp: down_edge_def)
      define s2 where "s2 = (if d \<noteq> v then upd_ref (\<lambda>n. n - 1) d s1 else s1)"
      have s2: "same_tree s s2" using release_ok(2) [OF ok less.prems, of d] less.prems by (simp add: s2_def)
      have "(if d \<noteq> v then COM_FS_VFS_VNODE_RELEASE optab (Some d) s1 else Ok s1) = Ok s2" using release_ok(1) [OF ok less.prems, of d] by (simp add: s2_def)
      then have "descend optab d v s1 = descend optab v ?w (COM_FS_VFS_VNODE_HOLD ?w s2)"
        using Some by (subst descend.simps) (simp add: T same_treeD [OF s2] Let_def)
      then show ?thesis using less.IH [OF w same_tree_hold [OF s2]] descends_down [OF w] by metis
    qed
  qed
qed

text \<open>What one section does, over the tree alone.\<close>

lemma lookup_section_ok:
  assumes ok: "fs_ok s" and wf: "mounts_wf s" and t: "same_tree s s1"
  shows "\<exists>u r s2. lookup_section optab c v s1 = Some (Ok (r, s2)) \<and> same_tree s s2 \<and> base_of s c v u \<and>
    (if c = ''.'' then r = Inr (None, v)
     else if vn_type (vnodes s u) \<noteq> E_COM_VNODE_TYPE_DIR then r = Inl ENOTDIR
     else case child s u c of
            None \<Rightarrow> r = Inl ENOENT
          | Some w \<Rightarrow> \<exists>d x. descends s u w d x \<and> r = Inr (Some d, x))"
proof -
  have "\<exists>u s2. (if c = ''..'' then climb optab v s1 else Some (Ok (v, s1))) = Some (Ok (u, s2)) \<and> same_tree s s2 \<and> base_of s c v u"
    using climb_ok [OF ok wf t, of v] t by (auto simp: base_of_def)
  then obtain u s2 where u: "(if c = ''..'' then climb optab v s1 else Some (Ok (v, s1))) = Some (Ok (u, s2))" "same_tree s s2" "base_of s c v u" by blast
  have ok2: "fs_ok s2" "child s2 = child s" using tree_kept [OF u(2) ok] by simp_all
  note T = same_treeD [OF u(2)]
  consider (isdot) "c = ''.''" | (nodir) "c \<noteq> ''.''" "vn_type (vnodes s u) \<noteq> E_COM_VNODE_TYPE_DIR" | (isdir) "c \<noteq> ''.''" "vn_type (vnodes s u) = E_COM_VNODE_TYPE_DIR" by blast
  then show ?thesis
  proof cases
    case isdot
    then show ?thesis using t by (intro exI [of _ v] exI [of _ "Inr (None, v)"] exI [of _ s1]) (simp add: lookup_section_def opt_bind_def base_of_def)
  next
    case nodir
    then show ?thesis using u T release_ok [OF ok u(2), of u]
      by (intro exI [of _ u] exI [of _ "Inl ENOTDIR"] exI [of _ "upd_ref (\<lambda>n. n - 1) u s2"]) (simp add: lookup_section_def opt_bind_def)
  next
    case isdir
    then obtain f s3 where f: "op_lookup (ops_of optab s2 u) = Some f" "same_tree s2 s3"
        "f u c s2 = Ok (case child s u c of None \<Rightarrow> (ENOENT, None, s3) | Some w \<Rightarrow> (EOK, Some w, s3))"
      using looks_up [OF ok2(1), of u c] T ok2(2) by auto
    have s3: "same_tree s s3" by (rule same_tree_trans [OF u(2) f(2)])
    show ?thesis
    proof (cases "child s u c")
      case None
      then show ?thesis using isdir u f(1,3) T release_ok [OF ok s3, of u]
        by (intro exI [of _ u] exI [of _ "Inl ENOENT"] exI [of _ "upd_ref (\<lambda>n. n - 1) u s3"]) (simp add: lookup_section_def opt_bind_def)
    next
      case (Some w)
      obtain d x s4 where d: "descend optab u w s3 = Some (Ok (d, x, s4))" "same_tree s s4" "descends s u w d x" using descend_ok [OF ok wf s3] by blast
      then show ?thesis using isdir u f(1,3) T Some
        by (intro exI [of _ u] exI [of _ "Inr (Some d, x)"] exI [of _ s4]) (auto simp: lookup_section_def opt_bind_def)
    qed
  qed
qed

lemma lookup1_loop_ok:
  assumes ok: "fs_ok s" and wf: "mounts_wf s"
  shows "same_tree s s1 \<Longrightarrow> \<exists>e r d sub s2. lookup1_loop optab path v s1 = Some (Ok (e, r, d, sub, s2)) \<and> same_tree s s2 \<and>
    walk_post s v (length path) e r d sub \<and>
    ((\<forall>x. vn_type (vnodes s x) \<noteq> E_COM_VNODE_TYPE_LINK) \<longrightarrow> walks (child s) s v (sections path) e r)"
proof (induction "length path" arbitrary: path v s1 rule: less_induct)
  case less
  let ?p = "dropWhile (\<lambda>c. c = CHR ''/'') path"
  show ?case
  proof (cases "?p = []")
    case True
    have "walks (child s) s v (sections ?p) EOK (Some v)" unfolding True by (simp add: walks_stay walks_done)
    then have "walks (child s) s v (sections path) EOK (Some v)" by (rule walks_skip)
    then show ?thesis using True less.prems by (subst lookup1_loop.simps) (auto simp: walk_post_def)
  next
    case False
    define sec where "sec = takeWhile (\<lambda>c. c \<noteq> CHR ''/'') ?p"
    define rest where "rest = dropWhile (\<lambda>c. c \<noteq> CHR ''/'') ?p"
    have hd: "hd ?p \<noteq> CHR ''/''" using hd_dropWhile [OF False] by simp
    then have sec: "sec \<noteq> []" using False by (cases ?p) (auto simp: sec_def)
    have "?p = sec @ rest" by (simp add: sec_def rest_def)
    then have "length ?p = length sec + length rest" by (metis length_append)
    moreover have "length ?p \<le> length path" by (rule length_dropWhile_le)
    ultimately have len: "length rest < length path" using sec by (cases sec) auto
    have sects: "sections ?p = sec # (if rest = [] then [] else sections (tl rest))" unfolding sec_def rest_def by (rule sections_split)
    obtain u r s2 where S: "lookup_section optab sec v s1 = Some (Ok (r, s2))" "same_tree s s2" "base_of s sec v u"
        "if sec = ''.'' then r = Inr (None, v) else if vn_type (vnodes s u) \<noteq> E_COM_VNODE_TYPE_DIR then r = Inl ENOTDIR
         else case child s u sec of None \<Rightarrow> r = Inl ENOENT | Some w \<Rightarrow> \<exists>d x. descends s u w d x \<and> r = Inr (Some d, x)"
      using lookup_section_ok [OF ok wf less.prems, of sec v] by blast
    have step: "lookup1_loop optab path v s1 =
        (case r of
           Inl ret \<Rightarrow> Some (Ok (ret, None, None, None, s2))
         | Inr (dir, w) \<Rightarrow>
             if dir \<noteq> None \<and> vn_type (vnodes s w) = E_COM_VNODE_TYPE_LINK then Some (Ok (EOK, Some w, dir, (if rest = [] then None else Some rest), s2))
             else if rest = [] then Some (Ok (EOK, Some w, None, None, s2)) else lookup1_loop optab (tl rest) w s2)"
      by (subst lookup1_loop.simps)
        (simp only: Let_def if_not_P [OF False] sec_def [symmetric] rest_def [symmetric] S(1) opt_bind_def Option.bind_lunit res.case prod.case same_treeD [OF S(2)])
    show ?thesis
    proof (cases r)
      case (Inl ret)
      have "ret = ENOTDIR \<or> ret = ENOENT" using S(4) Inl by (auto split: if_splits option.splits)
      moreover have "walks (child s) s v (sec # cs) ret None" for cs
        using S(3,4) Inl sec walks_notdir [of sec s v u] walks_noent [of sec s v u "child s"] by (auto split: if_splits option.splits)
      then have "walks (child s) s v (sections path) ret None" by - (rule walks_skip, simp only: sects)
      ultimately show ?thesis using step Inl S(2) by (auto simp: walk_post_def)
    next
      case (Inr x)
      obtain dir w where r: "r = Inr (dir, w)" using Inr by (cases x) auto
      have next_step: "walks (child s) s v (sec # cs) e q" if "walks (child s) s w cs e q" for cs e q
      proof (cases "sec = ''.''")
        case True
        then show ?thesis using S(4) r that by (auto intro: walks_stay)
      next
        case nodot: False
        then have dirs: "vn_type (vnodes s u) = E_COM_VNODE_TYPE_DIR" using S(4) r by (auto split: if_splits)
        then obtain w0 d where "child s u sec = Some w0" "descends s u w0 d w" using S(4) r nodot by (auto split: option.splits)
        then show ?thesis using walks_step [OF sec nodot S(3) dirs] that by blast
      qed
      have same: "dir = None \<Longrightarrow> w = v" using S(4) r by (auto split: if_splits option.splits)
      consider (link) "dir \<noteq> None" "vn_type (vnodes s w) = E_COM_VNODE_TYPE_LINK" | (stop) "dir = None \<or> vn_type (vnodes s w) \<noteq> E_COM_VNODE_TYPE_LINK" "rest = []"
        | (go) "dir = None \<or> vn_type (vnodes s w) \<noteq> E_COM_VNODE_TYPE_LINK" "rest \<noteq> []" by metis
      then show ?thesis
      proof cases
        case link
        then have "\<not> (\<forall>x. vn_type (vnodes s x) \<noteq> E_COM_VNODE_TYPE_LINK)" by blast
        then show ?thesis using step r link S(2) len by (auto simp: walk_post_def)
      next
        case stop
        then have "walks (child s) s v (sections path) EOK (Some w)" using next_step [OF walks_done] by - (rule walks_skip, simp only: sects, simp)
        then show ?thesis using step r stop S(2) same by (auto simp: walk_post_def)
      next
        case go
        have "length (tl rest) < length path" using len by simp
        then obtain e q d sub s3 where h: "lookup1_loop optab (tl rest) w s2 = Some (Ok (e, q, d, sub, s3))" "same_tree s s3"
            "walk_post s w (length (tl rest)) e q d sub" "(\<forall>x. vn_type (vnodes s x) \<noteq> E_COM_VNODE_TYPE_LINK) \<longrightarrow> walks (child s) s w (sections (tl rest)) e q"
          using less.hyps [OF _ S(2), of "tl rest" w] by blast
        have "walk_post s v (length path) e q d sub" using h(3) len go same by (auto simp: walk_post_def split: option.splits if_splits)
        moreover have "walks (child s) s v (sections path) e q" if "\<forall>x. vn_type (vnodes s x) \<noteq> E_COM_VNODE_TYPE_LINK"
          using next_step h(4) that go by - (rule walks_skip, simp only: sects, simp)
        moreover have "lookup1_loop optab path v s1 = lookup1_loop optab (tl rest) w s2" using step r go by auto
        ultimately show ?thesis using h(1,2) by auto
      qed
    qed
  qed
qed

lemma vfs_lookup1_ok:
  assumes ok: "fs_ok s" and wf: "mounts_wf s" and t: "same_tree s s1"
  shows "\<exists>e r d sub s2. vfs_lookup1 optab path root (Some c) s1 = Some (Ok (e, r, d, sub, s2)) \<and> same_tree s s2 \<and>
    walk_post s (walk_start path root c) (length path) e r d sub \<and>
    ((\<forall>x. vn_type (vnodes s x) \<noteq> E_COM_VNODE_TYPE_LINK) \<longrightarrow> walks (child s) s (walk_start path root c) (sections path) e r)"
proof (cases "path \<noteq> [] \<and> hd path = CHR ''/''")
  case True
  then obtain p where p: "path = CHR ''/'' # p" by (cases path) auto
  obtain e r d sub s2 where L: "lookup1_loop optab p root (COM_FS_VFS_VNODE_HOLD root s1) = Some (Ok (e, r, d, sub, s2))" "same_tree s s2"
      "walk_post s root (length p) e r d sub" "(\<forall>x. vn_type (vnodes s x) \<noteq> E_COM_VNODE_TYPE_LINK) \<longrightarrow> walks (child s) s root (sections p) e r"
    using lookup1_loop_ok [OF ok wf same_tree_hold [OF t]] by blast
  have "walk_post s root (length path) e r d sub" using L(3) p by (auto simp: walk_post_def split: option.splits if_splits)
  moreover have "walks (child s) s root (sections path) e r" if "\<forall>x. vn_type (vnodes s x) \<noteq> E_COM_VNODE_TYPE_LINK"
    using walks_stay [of "[]" "child s" s root "sections p" e r] L(4) that p by simp
  moreover have "vfs_lookup1 optab path root (Some c) s1 = Some (Ok (e, r, d, sub, s2))" "walk_start path root c = root"
    using L(1) p by (simp_all add: vfs_lookup1_def walk_start_def)
  ultimately show ?thesis using L(2) by auto
next
  case False
  then have "vfs_lookup1 optab path root (Some c) s1 = lookup1_loop optab path c (COM_FS_VFS_VNODE_HOLD c s1)" "walk_start path root c = c"
    unfolding vfs_lookup1_def walk_start_def if_not_P [OF False] by simp_all
  then show ?thesis using lookup1_loop_ok [OF ok wf same_tree_hold [OF t], of path c c] by simp
qed

lemma lookup2_loop_ok:
  assumes ok: "fs_ok s" and wf: "mounts_wf s"
  shows "same_tree s s1 \<Longrightarrow> \<exists>e r s2. lookup2_loop optab n root (Some c) link s1 = Some (Ok (e, r, s2)) \<and> same_tree s s2 \<and> link_post s e r"
proof (induction n arbitrary: c link s1)
  case 0
  then show ?case using release_ok [OF ok 0] by (simp add: opt_bind_def link_post_def)
next
  case (Suc n)
  note T = same_treeD [OF Suc.prems]
  show ?case
  proof (cases "vn_type (vnodes s link) = E_COM_VNODE_TYPE_LINK")
    case False
    then show ?thesis using Suc.prems by (simp add: T link_post_def)
  next
    case True
    have "fs_ok s1" "target s1 = target s" using tree_kept [OF Suc.prems ok] by simp_all
    then have rl: "com_fs_vfs_readlink optab link s1 = Ok (EOK, target s link)" using reads_link [of s1 link] True T by (auto simp: com_fs_vfs_readlink_def)
    note R = release_ok [OF ok Suc.prems, of link]
    obtain e r d sub s2 where L: "vfs_lookup1 optab (target s link) root (Some c) (upd_ref (\<lambda>n. n - 1) link s1) = Some (Ok (e, r, d, sub, s2))" "same_tree s s2"
        "walk_post s (walk_start (target s link) root c) (length (target s link)) e r d sub"
      using vfs_lookup1_ok [OF ok wf R(2)] by blast
    show ?thesis
    proof (cases r)
      case None
      then have "e = ENOENT \<or> e = ENOTDIR" using L(3) by (simp add: walk_post_def)
      then show ?thesis using True T rl R(1) L(1,2) None by (auto simp: opt_bind_def link_post_def)
    next
      case (Some l)
      then have e: "e = EOK" using L(3) by (simp add: walk_post_def)
      obtain e' r' s3 where "lookup2_loop optab n root (Some (if d = None then c else the d)) l s2 = Some (Ok (e', r', s3))" "same_tree s s3" "link_post s e' r'"
        using Suc.IH [OF L(2)] by blast
      moreover have "(if d = None then Some c else d) = Some (if d = None then c else the d)" by auto
      ultimately show ?thesis using True T rl R(1) L(1) Some e by (simp add: opt_bind_def)
    qed
  qed
qed

text \<open>Looking up a path always returns, and it reports one of four results.\<close>

lemma com_fs_vfs_lookup_returns:
  assumes ok: "fs_ok s" and wf: "mounts_wf s"
  shows "same_tree s s1 \<Longrightarrow> vn_type (vnodes s root) \<noteq> E_COM_VNODE_TYPE_LINK \<Longrightarrow> vn_type (vnodes s c) \<noteq> E_COM_VNODE_TYPE_LINK \<Longrightarrow>
    \<exists>e r s2. com_fs_vfs_lookup optab path root (Some c) follow s1 = Some (Ok (e, r, s2)) \<and> same_tree s s2 \<and>
      (if follow then link_post s e r else (case r of None \<Rightarrow> e = ENOENT \<or> e = ENOTDIR \<or> e = ELOOP | Some w \<Rightarrow> e = EOK))"
proof (induction "length path" arbitrary: path root c s1 rule: less_induct)
  case less
  obtain e r d sub s2 where L: "vfs_lookup1 optab path root (Some c) s1 = Some (Ok (e, r, d, sub, s2))" "same_tree s s2"
      "walk_post s (walk_start path root c) (length path) e r d sub" using vfs_lookup1_ok [OF ok wf less.prems(1)] by blast
  note T = same_treeD [OF L(2)]
  have start: "vn_type (vnodes s (walk_start path root c)) \<noteq> E_COM_VNODE_TYPE_LINK" using less.prems by (simp add: walk_start_def)
  show ?case
  proof (cases r)
    case None
    then show ?thesis using L by (subst com_fs_vfs_lookup.simps) (auto simp: walk_post_def link_post_def)
  next
    case (Some w)
    have e: "e = EOK" using L(3) Some by (simp add: walk_post_def)
    show ?thesis
    proof (cases "sub \<noteq> None \<or> (vn_type (vnodes s w) = E_COM_VNODE_TYPE_LINK \<and> follow)")
      case False
      then have "com_fs_vfs_lookup optab path root (Some c) follow s1 = Some (Ok (EOK, Some w, s2))" using L(1) Some e T by (subst com_fs_vfs_lookup.simps) auto
      then show ?thesis using L(2) False by (auto simp: link_post_def)
    next
      case True
      then obtain dir where d: "d = Some dir" using L(3) Some start by (cases d) (auto simp: walk_post_def)
      obtain e2 r2 s3 where M: "vfs_lookup2 optab root (Some dir) w s2 = Some (Ok (e2, r2, s3))" "same_tree s s3" "link_post s e2 r2"
        using lookup2_loop_ok [OF ok wf L(2)] unfolding vfs_lookup2_def by blast
      show ?thesis
      proof (cases r2)
        case None
        then show ?thesis using L(1) Some e d True T M by (subst com_fs_vfs_lookup.simps) (auto simp: link_post_def)
      next
        case t: (Some t)
        then have t': "e2 = EOK" "vn_type (vnodes s t) \<noteq> E_COM_VNODE_TYPE_LINK" using M(3) by (simp_all add: link_post_def)
        show ?thesis
        proof (cases sub)
          case None
          then show ?thesis using L(1) Some e d True T M t t' by (subst com_fs_vfs_lookup.simps) (auto simp: link_post_def)
        next
          case p: (Some p)
          then have "length p < length path" using L(3) Some d by (simp add: walk_post_def)
          note H = less.hyps [OF this M(2) t'(2) t'(2)]
          have "com_fs_vfs_lookup optab path root (Some c) follow s1 = com_fs_vfs_lookup optab p t (Some t) follow s3"
            using L(1) Some e d p M(1) t t'(1) by (subst com_fs_vfs_lookup.simps) simp
          then show ?thesis using H by simp
        qed
      qed
    qed
  qed
qed

text \<open>Without symbolic links it is the walk of the sections.\<close>

lemma com_fs_vfs_lookup_walks:
  assumes ok: "fs_ok s" and wf: "mounts_wf s" and nolink: "\<forall>x. vn_type (vnodes s x) \<noteq> E_COM_VNODE_TYPE_LINK"
  shows "(\<exists>s2. com_fs_vfs_lookup optab path root (Some c) follow s = Some (Ok (e, r, s2))) \<longleftrightarrow>
    walks (child s) s (walk_start path root c) (sections path) e r"
proof -
  obtain e1 r1 d sub s2 where L: "vfs_lookup1 optab path root (Some c) s = Some (Ok (e1, r1, d, sub, s2))" "same_tree s s2"
      "walk_post s (walk_start path root c) (length path) e1 r1 d sub" "walks (child s) s (walk_start path root c) (sections path) e1 r1"
    using vfs_lookup1_ok [OF ok wf same_tree_refl, of path root c] nolink by blast
  have sub: "sub = None" using L(3) nolink by (auto simp: walk_post_def split: option.splits if_splits)
  have eq: "com_fs_vfs_lookup optab path root (Some c) follow s = Some (Ok (e1, r1, s2))"
    using L(1,3) sub nolink same_treeD(1) [OF L(2)] by (subst com_fs_vfs_lookup.simps) (auto simp: walk_post_def split: option.splits)
  have "(\<exists>s2. com_fs_vfs_lookup optab path root (Some c) follow s = Some (Ok (e, r, s2))) \<longleftrightarrow> e1 = e \<and> r1 = r" unfolding eq by simp
  also have "\<dots> \<longleftrightarrow> walks (child s) s (walk_start path root c) (sections path) e r" using L(4) walks_det [OF L(4), of e r] by metis
  finally show ?thesis .
qed

end

end
