(* ===== verification/Callout.thy ===== *)
theory Callout
  imports Kernel_Prelude
begin

text \<open>
  Timed callbacks, \<^verbatim>\<open>src/com/sys/callout.c\<close>, in the kernel's configuration with one active queue, that
  of the boot processor. Callouts are objects at addresses; a queue is the list of addresses in
  queue order. Handlers are reached through function pointers: the model takes a table of handlers
  as a parameter.
\<close>

section \<open>State\<close>

record com_callout =
  co_ns :: u64
  co_handler :: u64
  co_arg :: u64
  co_reuse :: bool
  co_permanent :: bool
  co_entry_lock :: bool
  co_cpu_callout :: "nat option"

record com_callout_queue =
  cq_ns :: u64
  cq_next_preempt :: u64
  cq_queue :: "nat list"
  cq_lock :: bool

text \<open>Queues are indexed by processor; \<open>ct_live\<close> are the addresses of allocated callouts.\<close>

record callouts =
  ct_entry :: "nat \<Rightarrow> com_callout"
  ct_live :: "nat set"
  ct_queue :: "nat \<Rightarrow> com_callout_queue"
  ct_bsp :: nat

type_synonym handlers = "u64 \<Rightarrow> nat \<Rightarrow> callouts \<Rightarrow> callouts"

definition ARCH_TIMER_NS :: u64 where
  "ARCH_TIMER_NS = 1000000"

definition ARCH_SCHED_NS :: u64 where
  "ARCH_SCHED_NS = 16000000"

definition upd_entry :: "nat \<Rightarrow> (com_callout \<Rightarrow> com_callout) \<Rightarrow> callouts \<Rightarrow> callouts" where
  "upd_entry a f c = c\<lparr>ct_entry := (ct_entry c)(a := f (ct_entry c a))\<rparr>"

definition upd_queue :: "nat \<Rightarrow> (com_callout_queue \<Rightarrow> com_callout_queue) \<Rightarrow> callouts \<Rightarrow> callouts" where
  "upd_queue q f c = c\<lparr>ct_queue := (ct_queue c)(q := f (ct_queue c q))\<rparr>"

text \<open>An operation under the lock of a queue: it waits while another processor holds the lock.\<close>

definition with_queue_lock :: "nat \<Rightarrow> callouts \<Rightarrow> 'a \<Rightarrow> 'a res" where
  "with_queue_lock q c r = (if cq_lock (ct_queue c q) then Blocked else Ok r)"

section \<open>Queue insertion\<close>

fun insert_before_later :: "(nat \<Rightarrow> u64) \<Rightarrow> nat \<Rightarrow> nat list \<Rightarrow> nat list" where
  "insert_before_later ns a [] = [a]"
| "insert_before_later ns a (x # xs) =
     (if ns a < ns x then a # x # xs else x # insert_before_later ns a xs)"

definition enqueue_callout :: "nat \<Rightarrow> nat \<Rightarrow> callouts \<Rightarrow> callouts" where
  "enqueue_callout q a c =
     upd_entry a (\<lambda>e. e\<lparr>co_cpu_callout := Some q\<rparr>)
       (upd_queue q (\<lambda>cq. cq\<lparr>cq_queue := insert_before_later (\<lambda>x. co_ns (ct_entry c x)) a (cq_queue cq)\<rparr>) c)"

section \<open>Operations\<close>

text \<open>
  \<^verbatim>\<open>com_mm_slab_alloc\<close> returns the address of a zeroed object: the new address \<open>a\<close> is an argument.
\<close>

definition zero_callout :: com_callout where
  "zero_callout = \<lparr>co_ns = 0, co_handler = 0, co_arg = 0, co_reuse = False, co_permanent = False,
     co_entry_lock = False, co_cpu_callout = None\<rparr>"

definition alloc_callout :: "nat \<Rightarrow> u64 \<Rightarrow> u64 \<Rightarrow> u64 \<Rightarrow> callouts \<Rightarrow> callouts" where
  "alloc_callout a h arg ns c =
     c\<lparr>ct_entry := (ct_entry c)(a := zero_callout\<lparr>co_handler := h, co_arg := arg, co_ns := ns\<rparr>),
       ct_live := insert a (ct_live c)\<rparr>"

definition free_callout :: "nat \<Rightarrow> callouts \<Rightarrow> callouts" where
  "free_callout a c = c\<lparr>ct_live := ct_live c - {a}\<rparr>"

definition callout_add_at :: "nat \<Rightarrow> nat \<Rightarrow> u64 \<Rightarrow> u64 \<Rightarrow> u64 \<Rightarrow> callouts \<Rightarrow> callouts res" where
  "callout_add_at q a h arg ns c = with_queue_lock q c (enqueue_callout q a (alloc_callout a h arg ns c))"

definition callout_add :: "nat \<Rightarrow> nat \<Rightarrow> u64 \<Rightarrow> u64 \<Rightarrow> u64 \<Rightarrow> callouts \<Rightarrow> callouts res" where
  "callout_add q a h arg delay c =
     with_queue_lock q c
       (enqueue_callout q a (alloc_callout a h arg (cq_ns (ct_queue c q) + delay) c))"

definition com_sys_callout_get_time :: "callouts \<Rightarrow> u64 res" where
  "com_sys_callout_get_time c = with_queue_lock (ct_bsp c) c (cq_ns (ct_queue c (ct_bsp c)))"

definition com_sys_callout_reschedule_at :: "nat \<Rightarrow> u64 \<Rightarrow> callouts \<Rightarrow> callouts res" where
  "com_sys_callout_reschedule_at a ns c =
     (let c1 = upd_entry a (\<lambda>e. e\<lparr>co_reuse := True, co_ns := ns\<rparr>) c in
      with_queue_lock (ct_bsp c) c1 (enqueue_callout (ct_bsp c) a c1))"

definition com_sys_callout_reschedule :: "nat \<Rightarrow> u64 \<Rightarrow> callouts \<Rightarrow> callouts res" where
  "com_sys_callout_reschedule a delay c =
     with_queue_lock (ct_bsp c) c
       (enqueue_callout (ct_bsp c) a
         (upd_entry a (\<lambda>e. e\<lparr>co_reuse := True, co_ns := cq_ns (ct_queue c (ct_bsp c)) + delay\<rparr>) c))"

definition com_sys_callout_add_at :: "nat \<Rightarrow> u64 \<Rightarrow> u64 \<Rightarrow> u64 \<Rightarrow> callouts \<Rightarrow> callouts res" where
  "com_sys_callout_add_at a h arg ns c = callout_add_at (ct_bsp c) a h arg ns c"

definition com_sys_callout_add :: "nat \<Rightarrow> u64 \<Rightarrow> u64 \<Rightarrow> u64 \<Rightarrow> callouts \<Rightarrow> callouts res" where
  "com_sys_callout_add a h arg delay c = callout_add (ct_bsp c) a h arg delay c"

definition com_sys_callout_add_at_bsp :: "nat \<Rightarrow> u64 \<Rightarrow> u64 \<Rightarrow> u64 \<Rightarrow> callouts \<Rightarrow> callouts res" where
  "com_sys_callout_add_at_bsp a h arg ns c = callout_add_at (ct_bsp c) a h arg ns c"

definition com_sys_callout_add_bsp :: "nat \<Rightarrow> u64 \<Rightarrow> u64 \<Rightarrow> u64 \<Rightarrow> callouts \<Rightarrow> callouts res" where
  "com_sys_callout_add_bsp a h arg delay c = callout_add (ct_bsp c) a h arg delay c"

definition com_sys_callout_set_bsp_nolock :: "nat \<Rightarrow> callouts \<Rightarrow> callouts" where
  "com_sys_callout_set_bsp_nolock q c = c\<lparr>ct_bsp := q\<rparr>"

definition com_sys_callout_new :: "nat \<Rightarrow> u64 \<Rightarrow> u64 \<Rightarrow> u64 \<Rightarrow> callouts \<Rightarrow> callouts" where
  "com_sys_callout_new a h arg ns c = alloc_callout a h arg ns c"

definition com_sys_callout_enqueue :: "nat \<Rightarrow> callouts \<Rightarrow> callouts res" where
  "com_sys_callout_enqueue a c = with_queue_lock (ct_bsp c) c (enqueue_callout (ct_bsp c) a c)"

definition com_sys_callout_set_and_enqueue :: "nat \<Rightarrow> u64 \<Rightarrow> u64 \<Rightarrow> callouts \<Rightarrow> callouts res" where
  "com_sys_callout_set_and_enqueue a h delay c =
     (let c1 = upd_entry a (\<lambda>e. e\<lparr>co_handler := h\<rparr>) c in
      with_queue_lock (ct_bsp c) c1
        (enqueue_callout (ct_bsp c) a
          (upd_entry a (\<lambda>e. e\<lparr>co_ns := cq_ns (ct_queue c (ct_bsp c)) + delay\<rparr>) c1)))"

text \<open>
  Cancelling happens in two critical sections: the first takes the queue out of the callout under
  the callout's own lock, the second unlinks the callout under the queue's lock. Unlinking a
  callout that is not on the queue follows stale links, which the model treats as a fault.
\<close>

definition cancel_begin :: "nat \<Rightarrow> callouts \<Rightarrow> (nat option \<times> callouts) res" where
  "cancel_begin a c =
     (if co_entry_lock (ct_entry c a) then Blocked
      else case co_cpu_callout (ct_entry c a) of
        None \<Rightarrow> Ok (None, c)
      | Some q \<Rightarrow> Ok (Some q, upd_entry a (\<lambda>e. e\<lparr>co_cpu_callout := None\<rparr>) c))"

definition cancel_end :: "nat \<Rightarrow> nat \<Rightarrow> callouts \<Rightarrow> callouts res" where
  "cancel_end a q c =
     (if cq_lock (ct_queue c q) then Blocked
      else kassert (a \<in> set (cq_queue (ct_queue c q)))
        (Ok (upd_queue q (\<lambda>cq. cq\<lparr>cq_queue := remove1 a (cq_queue cq)\<rparr>) c)))"

definition com_sys_callout_cancel :: "nat \<Rightarrow> callouts \<Rightarrow> callouts res" where
  "com_sys_callout_cancel a c =
     res_bind (cancel_begin a c) (\<lambda>(q, c1). case q of None \<Rightarrow> Ok c1 | Some q \<Rightarrow> cancel_end a q c1)"

definition com_sys_callout_destroy :: "nat \<Rightarrow> callouts \<Rightarrow> callouts res" where
  "com_sys_callout_destroy a c = res_bind (com_sys_callout_cancel a c) (\<lambda>c1. Ok (free_callout a c1))"

section \<open>Running the queue\<close>

text \<open>
  One round of the loop: the first callout, when it is due, leaves the queue and its handler runs
  with the queue unlocked. \<open>None\<close> ends the loop.
\<close>

definition run_round :: "handlers \<Rightarrow> nat \<Rightarrow> callouts \<Rightarrow> (nat \<times> callouts) option res" where
  "run_round fns cpu c =
     (if cpu \<noteq> ct_bsp c then Ok None
      else case cq_queue (ct_queue c cpu) of
        [] \<Rightarrow> Ok None
      | a # rest \<Rightarrow>
          if co_ns (ct_entry c a) > cq_ns (ct_queue c cpu) then Ok None
          else if co_entry_lock (ct_entry c a) then Blocked
          else let c1 = upd_entry a (\<lambda>e. e\<lparr>co_reuse := False, co_cpu_callout := None\<rparr>)
                          (upd_queue cpu (\<lambda>cq. cq\<lparr>cq_queue := rest\<rparr>) c);
                   c2 = fns (co_handler (ct_entry c1 a)) a c1
               in if cq_lock (ct_queue c2 cpu) then Blocked
                  else Ok (Some (a, if \<not> co_reuse (ct_entry c2 a) \<and> \<not> co_permanent (ct_entry c2 a)
                                    then free_callout a c2 else c2)))"

text \<open>A handler can requeue its callout as already due, so the loop may not end.\<close>

partial_function (option) run_loop :: "handlers \<Rightarrow> nat \<Rightarrow> callouts \<Rightarrow> (nat list \<times> callouts) res option" where
  "run_loop fns cpu c =
     (case run_round fns cpu c of
        Panic \<Rightarrow> Some Panic
      | Blocked \<Rightarrow> Some Blocked
      | Ok None \<Rightarrow> Some (Ok ([], c))
      | Ok (Some (a, c1)) \<Rightarrow>
          Option.bind (run_loop fns cpu c1) (\<lambda>r. Some (res_bind r (\<lambda>(fired, c2). Ok (a # fired, c2)))))"

text \<open>
  The result lists the callouts whose handlers ran, in order, and tells whether the call ends by
  yielding the processor.
\<close>

definition com_sys_callout_run :: "handlers \<Rightarrow> nat \<Rightarrow> callouts \<Rightarrow> (nat list \<times> bool \<times> callouts) res option" where
  "com_sys_callout_run fns cpu c =
     (if cq_lock (ct_queue c cpu) then Some Blocked
      else case run_loop fns cpu (upd_queue cpu (\<lambda>cq. cq\<lparr>cq_ns := cq_ns cq + ARCH_TIMER_NS\<rparr>) c) of
        None \<Rightarrow> None
      | Some r \<Rightarrow> Some (res_bind r (\<lambda>(fired, c2).
          let cq = ct_queue c2 cpu in
          if cq_next_preempt cq \<le> cq_ns cq
          then Ok (fired, True, upd_queue cpu (\<lambda>cq. cq\<lparr>cq_next_preempt := cq_next_preempt cq + ARCH_SCHED_NS\<rparr>) c2)
          else Ok (fired, False, c2))))"

definition com_sys_callout_isr :: "handlers \<Rightarrow> nat \<Rightarrow> callouts \<Rightarrow> (nat list \<times> bool \<times> callouts) res option" where
  "com_sys_callout_isr fns cpu c = com_sys_callout_run fns cpu c"

section \<open>Invariant\<close>

text \<open>
  Queues are ordered by deadline, a callout is on a queue exactly when it says so, and at most
  once; queued callouts are allocated.
\<close>

definition queue_ok :: "callouts \<Rightarrow> nat \<Rightarrow> bool" where
  "queue_ok c q \<longleftrightarrow> sorted (map (\<lambda>a. co_ns (ct_entry c a)) (cq_queue (ct_queue c q))) \<and>
     distinct (cq_queue (ct_queue c q)) \<and> set (cq_queue (ct_queue c q)) \<subseteq> ct_live c"

definition callouts_wf :: "callouts \<Rightarrow> bool" where
  "callouts_wf c \<longleftrightarrow> (\<forall>q. queue_ok c q \<and> \<not> cq_lock (ct_queue c q) \<and>
     (\<forall>a. a \<in> set (cq_queue (ct_queue c q)) \<longleftrightarrow> co_cpu_callout (ct_entry c a) = Some q)) \<and>
     (\<forall>a. \<not> co_entry_lock (ct_entry c a))"

text \<open>The callouts of a queue whose deadline is not after the time \<open>t\<close>.\<close>

definition due :: "callouts \<Rightarrow> nat \<Rightarrow> u64 \<Rightarrow> nat list" where
  "due c q t = filter (\<lambda>a. co_ns (ct_entry c a) \<le> t) (cq_queue (ct_queue c q))"

text \<open>
  What running the queue at time \<open>t\<close> relies on: a handler leaves the callouts in order, does not move the
  clock, and neither removes a due callout nor makes one due. Its own callout \<open>a\<close> may be
  requeued for later.
\<close>

definition polite :: "handlers \<Rightarrow> u64 \<Rightarrow> bool" where
  "polite fns t \<longleftrightarrow> (\<forall>h a c. callouts_wf c \<and> a \<in> ct_live c \<and> co_cpu_callout (ct_entry c a) = None \<and>
       cq_ns (ct_queue c (ct_bsp c)) = t \<longrightarrow>
     callouts_wf (fns h a c) \<and> ct_bsp (fns h a c) = ct_bsp c \<and>
     cq_ns (ct_queue (fns h a c) (ct_bsp c)) = t \<and>
     cq_next_preempt (ct_queue (fns h a c) (ct_bsp c)) = cq_next_preempt (ct_queue c (ct_bsp c)) \<and>
     due (fns h a c) (ct_bsp c) t = due c (ct_bsp c) t \<and>
     (co_cpu_callout (ct_entry (fns h a c) a) \<noteq> None \<longrightarrow> co_reuse (ct_entry (fns h a c) a)))"

text \<open>The handler of a periodic timer, which queues its own callout again.\<close>

definition periodic :: "u64 \<Rightarrow> handlers" where
  "periodic d h a c = (case com_sys_callout_reschedule a d c of Ok c' \<Rightarrow> c' | _ \<Rightarrow> c)"

text \<open>Calls of the interface, with the caller's obligations: a new address is not in use, an existing
  callout is allocated and not queued when it is queued again.\<close>

inductive callout_step :: "callouts \<Rightarrow> callouts \<Rightarrow> bool" where
  add_at: "a \<notin> ct_live c \<Longrightarrow> com_sys_callout_add_at a h arg ns c = Ok c' \<Longrightarrow> callout_step c c'"
| add: "a \<notin> ct_live c \<Longrightarrow> com_sys_callout_add a h arg delay c = Ok c' \<Longrightarrow> callout_step c c'"
| new: "a \<notin> ct_live c \<Longrightarrow> com_sys_callout_new a h arg ns c = c' \<Longrightarrow> callout_step c c'"
| reschedule_at: "a \<in> ct_live c \<Longrightarrow> co_cpu_callout (ct_entry c a) = None \<Longrightarrow>
    com_sys_callout_reschedule_at a ns c = Ok c' \<Longrightarrow> callout_step c c'"
| reschedule: "a \<in> ct_live c \<Longrightarrow> co_cpu_callout (ct_entry c a) = None \<Longrightarrow>
    com_sys_callout_reschedule a delay c = Ok c' \<Longrightarrow> callout_step c c'"
| enqueue: "a \<in> ct_live c \<Longrightarrow> co_cpu_callout (ct_entry c a) = None \<Longrightarrow>
    com_sys_callout_enqueue a c = Ok c' \<Longrightarrow> callout_step c c'"
| set_and_enqueue: "a \<in> ct_live c \<Longrightarrow> co_cpu_callout (ct_entry c a) = None \<Longrightarrow>
    com_sys_callout_set_and_enqueue a h delay c = Ok c' \<Longrightarrow> callout_step c c'"
| cancel: "a \<in> ct_live c \<Longrightarrow> com_sys_callout_cancel a c = Ok c' \<Longrightarrow> callout_step c c'"
| destroy: "a \<in> ct_live c \<Longrightarrow> com_sys_callout_destroy a c = Ok c' \<Longrightarrow> callout_step c c'"
| run: "polite fns (cq_ns (ct_queue c (ct_bsp c)) + ARCH_TIMER_NS) \<Longrightarrow> com_sys_callout_run fns cpu c = Some (Ok (fired, y, c')) \<Longrightarrow> callout_step c c'"

definition callouts_boot :: callouts where
  "callouts_boot = \<lparr>ct_entry = (\<lambda>_. zero_callout), ct_live = {},
     ct_queue = (\<lambda>_. \<lparr>cq_ns = 0, cq_next_preempt = 0, cq_queue = [], cq_lock = False\<rparr>), ct_bsp = 0\<rparr>"

section \<open>Ordered insertion\<close>

lemma set_insert_before_later [simp]: "set (insert_before_later ns a xs) = insert a (set xs)"
  by (induction xs) auto

lemma distinct_insert_before_later [simp]:
  "distinct (insert_before_later ns a xs) \<longleftrightarrow> a \<notin> set xs \<and> distinct xs"
  by (induction xs) auto

lemma sorted_insert_before_later:
  "sorted (map ns xs) \<Longrightarrow> sorted (map ns (insert_before_later ns a xs))"
  by (induction xs) auto

text \<open>The new callout goes behind all callouts with the same or an earlier deadline.\<close>

lemma insert_before_later_split:
  assumes "sorted (map ns xs)"
  shows "insert_before_later ns a xs = filter (\<lambda>x. ns x \<le> ns a) xs @ a # filter (\<lambda>x. ns a < ns x) xs"
  using assms
proof (induction xs)
  case (Cons x xs)
  have le: "ns x \<le> ns y" if "y \<in> set xs" for y using Cons.prems that by simp
  show ?case
  proof (cases "ns a < ns x")
    case True
    then have "ns a < ns y" if "y \<in> set xs" for y using le [OF that] by simp
    then have "filter (\<lambda>y. ns y \<le> ns a) xs = []" "filter (\<lambda>y. ns a < ns y) xs = xs"
      by (auto simp: filter_empty_conv not_le)
    with True show ?thesis by (simp add: not_le)
  next
    case False
    with Cons show ?thesis by (simp add: not_less)
  qed
qed simp

lemma filter_insert_before_later:
  "\<not> P a \<Longrightarrow> filter P (insert_before_later ns a xs) = filter P xs"
  by (induction xs) auto

lemma insert_before_later_cong:
  assumes "ns a = ns' a" and "\<And>x. x \<in> set xs \<Longrightarrow> ns x = ns' x"
  shows "insert_before_later ns a xs = insert_before_later ns' a xs"
  using assms by (induction xs) auto

section \<open>The operations keep the invariant\<close>

lemma upd_simps [simp]:
  "ct_entry (upd_entry a f c) = (ct_entry c)(a := f (ct_entry c a))"
  "ct_queue (upd_entry a f c) = ct_queue c"
  "ct_live (upd_entry a f c) = ct_live c"
  "ct_bsp (upd_entry a f c) = ct_bsp c"
  "ct_entry (upd_queue q g c) = ct_entry c"
  "ct_queue (upd_queue q g c) = (ct_queue c)(q := g (ct_queue c q))"
  "ct_live (upd_queue q g c) = ct_live c"
  "ct_bsp (upd_queue q g c) = ct_bsp c"
  by (simp_all add: upd_entry_def upd_queue_def)

lemma queue_okI:
  assumes "cq_queue (ct_queue c q) = xs" and "\<And>x. x \<in> set xs \<Longrightarrow> co_ns (ct_entry c x) = f x"
    and "sorted (map f xs)" and "distinct xs" and "set xs \<subseteq> ct_live c"
  shows "queue_ok c q"
proof -
  have "map (\<lambda>x. co_ns (ct_entry c x)) xs = map f xs" using assms(2) by simp
  then show ?thesis using assms by (simp only: queue_ok_def)
qed

lemma callouts_wf_queued:
  "callouts_wf c \<Longrightarrow> a \<in> set (cq_queue (ct_queue c q)) \<longleftrightarrow> co_cpu_callout (ct_entry c a) = Some q"
  by (simp add: callouts_wf_def)

lemma callouts_wf_queue_ok: "callouts_wf c \<Longrightarrow> queue_ok c q"
  by (simp add: callouts_wf_def)

lemma callouts_wf_unlocked:
  "callouts_wf c \<Longrightarrow> \<not> cq_lock (ct_queue c q)"
  "callouts_wf c \<Longrightarrow> \<not> co_entry_lock (ct_entry c a)"
  by (simp_all add: callouts_wf_def)

lemma callouts_wfI:
  assumes "\<And>q. queue_ok c q" and "\<And>q. \<not> cq_lock (ct_queue c q)" and "\<And>a. \<not> co_entry_lock (ct_entry c a)"
    and "\<And>a q. a \<in> set (cq_queue (ct_queue c q)) \<longleftrightarrow> co_cpu_callout (ct_entry c a) = Some q"
  shows "callouts_wf c"
  using assms by (simp add: callouts_wf_def)

lemma callouts_wf_not_live: "callouts_wf c \<Longrightarrow> a \<notin> ct_live c \<Longrightarrow> co_cpu_callout (ct_entry c a) = None"
  using callouts_wf_queue_ok [of c] callouts_wf_queued [of c a]
  by (cases "co_cpu_callout (ct_entry c a)") (auto simp: queue_ok_def)

text \<open>Changing a callout that is on no queue.\<close>

lemma upd_entry_wf:
  assumes "callouts_wf c" and "co_cpu_callout (ct_entry c a) = None"
    and "co_cpu_callout e = None" and "\<not> co_entry_lock e" and "ct_live c \<subseteq> L"
  shows "callouts_wf (c\<lparr>ct_entry := (ct_entry c)(a := e), ct_live := L\<rparr>)"
proof -
  have "a \<notin> set (cq_queue (ct_queue c q))" for q using callouts_wf_queued [OF assms(1)] assms(2) by simp
  then have "queue_ok (c\<lparr>ct_entry := (ct_entry c)(a := e), ct_live := L\<rparr>) q" for q
    using callouts_wf_queue_ok [OF assms(1), of q] assms(5)
    by (intro queue_okI [OF refl, where f = "\<lambda>x. co_ns (ct_entry c x)"]) (auto simp: queue_ok_def)
  then show ?thesis by (rule callouts_wfI) (use assms callouts_wf_queued [OF assms(1)] callouts_wf_unlocked [OF assms(1)] in simp_all)
qed

lemma upd_entry_unqueued_wf:
  assumes "callouts_wf c" and "co_cpu_callout (ct_entry c a) = None"
    and "co_cpu_callout (f (ct_entry c a)) = None" and "\<not> co_entry_lock (f (ct_entry c a))"
  shows "callouts_wf (upd_entry a f c)"
  using upd_entry_wf [OF assms order_refl] by (simp add: upd_entry_def)

lemma alloc_callout_wf:
  assumes "callouts_wf c" and "a \<notin> ct_live c"
  shows "callouts_wf (alloc_callout a h arg ns c)"
  using upd_entry_wf [OF assms(1) callouts_wf_not_live [OF assms]]
  by (simp add: alloc_callout_def zero_callout_def subset_insertI)

lemma enqueue_callout_wf:
  assumes "callouts_wf c" and "a \<in> ct_live c" and "co_cpu_callout (ct_entry c a) = None"
  shows "callouts_wf (enqueue_callout q a c)"
proof -
  let ?c = "enqueue_callout q a c"
  have notin: "a \<notin> set (cq_queue (ct_queue c p))" for p using callouts_wf_queued [OF assms(1)] assms(3) by simp
  have ns: "co_ns (ct_entry ?c x) = co_ns (ct_entry c x)" for x by (simp add: enqueue_callout_def)
  have "queue_ok ?c p" for p
    using callouts_wf_queue_ok [OF assms(1), of p] assms(2) notin [of p]
    by (intro queue_okI [OF refl ns]) (auto simp: queue_ok_def enqueue_callout_def sorted_insert_before_later)
  then show ?thesis
    by (rule callouts_wfI) (use assms callouts_wf_queued [OF assms(1)] callouts_wf_unlocked [OF assms(1)] in \<open>auto simp: enqueue_callout_def\<close>)
qed

lemma unqueue_wf:
  assumes "callouts_wf c" and "co_cpu_callout (ct_entry c a) = Some q"
    and c': "c' = c\<lparr>ct_entry := (ct_entry c)(a := e), ct_queue := (ct_queue c)(q := cq)\<rparr>"
    and "co_cpu_callout e = None" and "\<not> co_entry_lock e" and "\<not> cq_lock cq"
    and "cq_queue cq = remove1 a (cq_queue (ct_queue c q))"
  shows "callouts_wf c'"
proof -
  have d: "distinct (cq_queue (ct_queue c p))" for p
    using callouts_wf_queue_ok [OF assms(1)] by (simp add: queue_ok_def)
  have in_q: "x \<in> set (cq_queue (ct_queue c' p)) \<longleftrightarrow> x \<noteq> a \<and> co_cpu_callout (ct_entry c x) = Some p" for x p
    using callouts_wf_queued [OF assms(1)] assms(2,7) d by (auto simp: c')
  then have ns: "co_ns (ct_entry c' x) = co_ns (ct_entry c x)" if "x \<in> set (cq_queue (ct_queue c' p))" for x p
    using that by (simp add: c')
  have "queue_ok c' p" for p
    using callouts_wf_queue_ok [OF assms(1), of p] set_remove1_subset [of a "cq_queue (ct_queue c q)"] assms(7)
    by (intro queue_okI [OF refl ns]) (auto simp: queue_ok_def c' sorted_map_remove1)
  then show ?thesis by (rule callouts_wfI) (use assms(4,5,6) in_q callouts_wf_unlocked [OF assms(1)] in \<open>simp_all add: c'\<close>)
qed

lemma cancel_wf:
  assumes "callouts_wf c"
  shows "\<exists>c'. com_sys_callout_cancel a c = Ok c' \<and> callouts_wf c' \<and> co_cpu_callout (ct_entry c' a) = None \<and>
    ct_live c' = ct_live c \<and> (\<forall>q. cq_queue (ct_queue c' q) = remove1 a (cq_queue (ct_queue c q)))"
proof (cases "co_cpu_callout (ct_entry c a)")
  case None
  then have "a \<notin> set (cq_queue (ct_queue c q))" for q using callouts_wf_queued [OF assms] by simp
  then show ?thesis using None assms callouts_wf_unlocked [OF assms] by (simp add: com_sys_callout_cancel_def cancel_begin_def remove1_idem)
next
  case (Some q)
  let ?cq = "ct_queue c q"
  define c' where "c' = c\<lparr>ct_entry := (ct_entry c)(a := (ct_entry c a)\<lparr>co_cpu_callout := None\<rparr>),
    ct_queue := (ct_queue c)(q := ?cq\<lparr>cq_queue := remove1 a (cq_queue ?cq)\<rparr>)\<rparr>"
  have in_q: "a \<in> set (cq_queue (ct_queue c p)) \<longleftrightarrow> p = q" for p using Some callouts_wf_queued [OF assms] by auto
  have "com_sys_callout_cancel a c = Ok c'"
    using Some callouts_wf_unlocked [OF assms] in_q by (simp add: com_sys_callout_cancel_def cancel_begin_def cancel_end_def
        upd_entry_def upd_queue_def c'_def)
  moreover have "callouts_wf c'" by (rule unqueue_wf [OF assms Some c'_def]) (use callouts_wf_unlocked [OF assms] in simp_all)
  ultimately show ?thesis using in_q by (simp add: c'_def remove1_idem)
qed

lemma free_callout_wf:
  assumes "callouts_wf c" and "co_cpu_callout (ct_entry c a) = None"
  shows "callouts_wf (free_callout a c)"
proof -
  have "a \<notin> set (cq_queue (ct_queue c q))" for q using callouts_wf_queued [OF assms(1)] assms(2) by simp
  then have "queue_ok (free_callout a c) q" for q
    using callouts_wf_queue_ok [OF assms(1), of q] by (auto simp: queue_ok_def free_callout_def)
  then show ?thesis
    by (rule callouts_wfI) (use callouts_wf_unlocked [OF assms(1)] callouts_wf_queued [OF assms(1)] in \<open>simp_all add: free_callout_def\<close>)
qed

section \<open>Running the queue\<close>

lemma due_head:
  assumes "queue_ok c q" and "due c q t = a # ds"
  obtains rest where "cq_queue (ct_queue c q) = a # rest" "co_ns (ct_entry c a) \<le> t" "a \<notin> set rest"
    "ds = filter (\<lambda>x. co_ns (ct_entry c x) \<le> t) rest"
proof (cases "cq_queue (ct_queue c q)")
  case Nil
  then show ?thesis using assms(2) by (simp add: due_def)
next
  case (Cons x rest)
  have le: "co_ns (ct_entry c x) \<le> co_ns (ct_entry c y)" if "y \<in> set rest" for y
    using assms(1) Cons that by (auto simp: queue_ok_def)
  have "co_ns (ct_entry c x) \<le> t"
  proof (rule ccontr)
    assume "\<not> co_ns (ct_entry c x) \<le> t"
    then have "\<not> co_ns (ct_entry c y) \<le> t" if "y \<in> set (x # rest)" for y using le that by force
    then have "due c q t = []" by (auto simp: due_def Cons filter_empty_conv)
    with assms(2) show False by simp
  qed
  then show ?thesis using that Cons assms by (simp add: due_def queue_ok_def)
qed

lemma due_none:
  assumes "queue_ok c q" and "due c q t = []"
  shows "cq_queue (ct_queue c q) = [] \<or> t < co_ns (ct_entry c (hd (cq_queue (ct_queue c q))))"
  using assms(2) by (cases "cq_queue (ct_queue c q)") (auto simp: due_def filter_empty_conv not_le split: if_splits)

lemma run_round_due:
  assumes "polite fns t" and "callouts_wf c" and t: "t = cq_ns (ct_queue c (ct_bsp c))"
    and "due c (ct_bsp c) t = a # ds"
  shows "\<exists>c'. run_round fns (ct_bsp c) c = Ok (Some (a, c')) \<and> callouts_wf c' \<and> ct_bsp c' = ct_bsp c \<and>
    cq_ns (ct_queue c' (ct_bsp c)) = t \<and>
    cq_next_preempt (ct_queue c' (ct_bsp c)) = cq_next_preempt (ct_queue c (ct_bsp c)) \<and>
    due c' (ct_bsp c) t = ds"
proof -
  let ?q = "ct_bsp c"
  obtain rest where rest: "cq_queue (ct_queue c ?q) = a # rest" "co_ns (ct_entry c a) \<le> t" "a \<notin> set rest"
    "ds = filter (\<lambda>x. co_ns (ct_entry c x) \<le> t) rest"
    using due_head [OF callouts_wf_queue_ok [OF assms(2)] assms(4)] by blast
  have cpu: "co_cpu_callout (ct_entry c a) = Some ?q" using callouts_wf_queued [OF assms(2), of a ?q] rest(1) by simp
  have live: "a \<in> ct_live c" using callouts_wf_queue_ok [OF assms(2), of ?q] rest(1) by (simp add: queue_ok_def)
  define e where "e = (ct_entry c a)\<lparr>co_reuse := False, co_cpu_callout := None\<rparr>"
  define cq where "cq = (ct_queue c ?q)\<lparr>cq_queue := rest\<rparr>"
  define c1 where "c1 = c\<lparr>ct_entry := (ct_entry c)(a := e), ct_queue := (ct_queue c)(?q := cq)\<rparr>"
  have wf1: "callouts_wf c1"
    by (rule unqueue_wf [OF assms(2) cpu c1_def])
      (use callouts_wf_unlocked [OF assms(2)] rest(1) in \<open>simp_all add: e_def cq_def\<close>)
  have due1: "due c1 ?q t = ds"
    using rest(3,4) by (auto simp: due_def c1_def cq_def intro!: filter_cong)
  have c1: "a \<in> ct_live c1" "co_cpu_callout (ct_entry c1 a) = None" "ct_bsp c1 = ?q" "cq_ns (ct_queue c1 ?q) = t"
    "cq_next_preempt (ct_queue c1 ?q) = cq_next_preempt (ct_queue c ?q)"
    using live by (simp_all add: c1_def e_def cq_def t)
  define c2 where "c2 = fns (co_handler (ct_entry c1 a)) a c1"
  have c2: "callouts_wf c2" "ct_bsp c2 = ?q" "cq_ns (ct_queue c2 ?q) = t"
    "cq_next_preempt (ct_queue c2 ?q) = cq_next_preempt (ct_queue c ?q)" "due c2 ?q t = ds"
    "co_cpu_callout (ct_entry c2 a) \<noteq> None \<longrightarrow> co_reuse (ct_entry c2 a)"
    using assms(1) wf1 c1 due1 unfolding polite_def c2_def by metis+
  let ?c' = "if \<not> co_reuse (ct_entry c2 a) \<and> \<not> co_permanent (ct_entry c2 a) then free_callout a c2 else c2"
  have up: "upd_entry a (\<lambda>e. e\<lparr>co_reuse := False, co_cpu_callout := None\<rparr>) (upd_queue ?q (\<lambda>cq. cq\<lparr>cq_queue := rest\<rparr>) c) = c1"
    by (simp add: upd_entry_def upd_queue_def c1_def e_def cq_def)
  have "run_round fns ?q c = Ok (Some (a, ?c'))"
    using rest(1,2) callouts_wf_unlocked [OF assms(2)] callouts_wf_unlocked [OF c2(1)]
    by (simp add: run_round_def up Let_def c2_def [symmetric] t not_less)
  moreover have "callouts_wf ?c'" using c2(1,6) free_callout_wf [OF c2(1), of a] by auto
  ultimately show ?thesis using c2 by (auto simp: free_callout_def due_def)
qed

lemma run_round_none:
  assumes "callouts_wf c" and "cpu \<noteq> ct_bsp c \<or> due c cpu (cq_ns (ct_queue c cpu)) = []"
  shows "run_round fns cpu c = Ok None"
  using due_none [OF callouts_wf_queue_ok [OF assms(1)], of cpu] assms(2)
  by (cases "cq_queue (ct_queue c cpu)") (auto simp: run_round_def)

lemma run_loop_fires:
  assumes "polite fns t" and "callouts_wf c" and "t = cq_ns (ct_queue c (ct_bsp c))"
  shows "\<exists>c'. run_loop fns (ct_bsp c) c = Some (Ok (due c (ct_bsp c) t, c')) \<and> callouts_wf c' \<and>
    ct_bsp c' = ct_bsp c \<and> cq_ns (ct_queue c' (ct_bsp c)) = t \<and>
    cq_next_preempt (ct_queue c' (ct_bsp c)) = cq_next_preempt (ct_queue c (ct_bsp c)) \<and> due c' (ct_bsp c) t = []"
  using assms(2,3)
proof (induction "due c (ct_bsp c) t" arbitrary: c)
  case Nil
  then show ?case using run_round_none [of c "ct_bsp c"] by (subst run_loop.simps) auto
next
  case (Cons a ds)
  obtain c1 where c1: "run_round fns (ct_bsp c) c = Ok (Some (a, c1))" "callouts_wf c1" "ct_bsp c1 = ct_bsp c"
    "cq_ns (ct_queue c1 (ct_bsp c)) = t"
    "cq_next_preempt (ct_queue c1 (ct_bsp c)) = cq_next_preempt (ct_queue c (ct_bsp c))" "due c1 (ct_bsp c) t = ds"
    using run_round_due [OF assms(1) Cons.prems Cons.hyps(2) [symmetric]] by blast
  have ds: "ds = due c1 (ct_bsp c1) t" "t = cq_ns (ct_queue c1 (ct_bsp c1))" using c1(3,4,6) by simp_all
  obtain c' where c': "run_loop fns (ct_bsp c) c1 = Some (Ok (ds, c'))" "callouts_wf c'" "ct_bsp c' = ct_bsp c"
    "cq_ns (ct_queue c' (ct_bsp c)) = t"
    "cq_next_preempt (ct_queue c' (ct_bsp c)) = cq_next_preempt (ct_queue c (ct_bsp c))" "due c' (ct_bsp c) t = []"
    using Cons.hyps(1) [OF ds(1) c1(2) ds(2)] c1(3,5,6) by metis
  have "run_loop fns (ct_bsp c) c = Some (Ok (a # ds, c'))"
    by (subst run_loop.simps) (simp add: c1(1) c'(1))
  with c' Cons.hyps(2) show ?case by metis
qed

lemma tick_wf: "callouts_wf c \<Longrightarrow> callouts_wf (upd_queue q (\<lambda>cq. cq\<lparr>cq_ns := f cq, cq_next_preempt := g cq\<rparr>) c)"
  by (rule callouts_wfI)
    (simp_all add: callouts_wf_unlocked callouts_wf_queued,
      use callouts_wf_queue_ok in \<open>auto simp: queue_ok_def\<close>)

lemma periodic_polite:
  assumes "t < t + d"
  shows "polite (periodic d) t"
  unfolding polite_def
proof (intro allI impI)
  fix h a c
  assume asm: "callouts_wf c \<and> a \<in> ct_live c \<and> co_cpu_callout (ct_entry c a) = None \<and> cq_ns (ct_queue c (ct_bsp c)) = t"
  let ?q = "ct_bsp c"
  define c1 where "c1 = upd_entry a (\<lambda>e. e\<lparr>co_reuse := True, co_ns := t + d\<rparr>) c"
  have wf: "callouts_wf c" using asm by simp
  have notin: "a \<notin> set (cq_queue (ct_queue c ?q))" using callouts_wf_queued [OF wf] asm by simp
  have wf1: "callouts_wf c1" unfolding c1_def
    by (rule upd_entry_unqueued_wf) (use asm callouts_wf_unlocked [OF wf] in simp_all)
  have p: "periodic d h a c = enqueue_callout ?q a c1"
    using asm callouts_wf_unlocked [OF wf]
    by (simp add: periodic_def com_sys_callout_reschedule_def with_queue_lock_def c1_def)
  have "callouts_wf (periodic d h a c)"
    unfolding p by (rule enqueue_callout_wf [OF wf1]) (use asm in \<open>simp_all add: c1_def\<close>)
  moreover have "due (periodic d h a c) ?q t = due c ?q t"
  proof -
    have "due (periodic d h a c) ?q t =
        filter (\<lambda>x. co_ns (ct_entry c1 x) \<le> t) (cq_queue (ct_queue c ?q))"
      using assms by (simp add: due_def p enqueue_callout_def filter_insert_before_later c1_def not_le
          if_distrib [of co_ns] cong: if_cong)
    also have "\<dots> = due c ?q t" unfolding due_def
      by (rule filter_cong [OF refl]) (use notin in \<open>auto simp: c1_def\<close>)
    finally show ?thesis .
  qed
  ultimately show "callouts_wf (periodic d h a c) \<and> ct_bsp (periodic d h a c) = ?q \<and>
      cq_ns (ct_queue (periodic d h a c) ?q) = t \<and>
      cq_next_preempt (ct_queue (periodic d h a c) ?q) = cq_next_preempt (ct_queue c ?q) \<and>
      due (periodic d h a c) ?q t = due c ?q t \<and>
      (co_cpu_callout (ct_entry (periodic d h a c) a) \<noteq> None \<longrightarrow> co_reuse (ct_entry (periodic d h a c) a))"
    using asm by (simp add: p enqueue_callout_def c1_def)
qed

lemma run_fires:
  assumes "callouts_wf c" and "now = cq_ns (ct_queue c (ct_bsp c)) + ARCH_TIMER_NS" and "polite fns now"
  shows "\<exists>c'. com_sys_callout_run fns (ct_bsp c) c =
      Some (Ok (due c (ct_bsp c) now, cq_next_preempt (ct_queue c (ct_bsp c)) \<le> now, c')) \<and>
    callouts_wf c' \<and> cq_ns (ct_queue c' (ct_bsp c)) = now \<and> due c' (ct_bsp c) now = []"
proof -
  let ?q = "ct_bsp c"
  define c1 where "c1 = upd_queue ?q (\<lambda>cq. cq\<lparr>cq_ns := cq_ns cq + ARCH_TIMER_NS\<rparr>) c"
  have wf1: "callouts_wf c1" using tick_wf [OF assms(1), where q = ?q and f = "\<lambda>cq. cq_ns cq + ARCH_TIMER_NS" and g = cq_next_preempt]
    by (simp add: c1_def)
  have c1: "ct_bsp c1 = ?q" "cq_ns (ct_queue c1 ?q) = now" "due c1 ?q now = due c ?q now"
    "cq_next_preempt (ct_queue c1 ?q) = cq_next_preempt (ct_queue c ?q)"
    by (simp_all add: c1_def assms(2) due_def)
  obtain c2 where c2: "run_loop fns ?q c1 = Some (Ok (due c ?q now, c2))" "callouts_wf c2" "cq_ns (ct_queue c2 ?q) = now"
    "cq_next_preempt (ct_queue c2 ?q) = cq_next_preempt (ct_queue c ?q)" "due c2 ?q now = []"
    using run_loop_fires [OF assms(3) wf1] c1 by metis
  define c3 where "c3 = upd_queue ?q (\<lambda>cq. cq\<lparr>cq_next_preempt := cq_next_preempt cq + ARCH_SCHED_NS\<rparr>) c2"
  have "callouts_wf c3" using tick_wf [OF c2(2), where q = ?q and f = cq_ns and g = "\<lambda>cq. cq_next_preempt cq + ARCH_SCHED_NS"] by (simp add: c3_def)
  moreover have "cq_ns (ct_queue c3 ?q) = now" "due c3 ?q now = []" using c2(3,5) by (simp_all add: c3_def due_def)
  moreover have "com_sys_callout_run fns ?q c = Some (Ok (due c ?q now, cq_next_preempt (ct_queue c ?q) \<le> now,
      if cq_next_preempt (ct_queue c ?q) \<le> now then c3 else c2))"
    using callouts_wf_unlocked [OF assms(1)] c2(1,3,4)
    by (simp add: com_sys_callout_run_def c1_def [symmetric] Let_def c3_def)
  ultimately show ?thesis using c2(2,3,5) by auto
qed

lemma run_other_cpu:
  assumes "callouts_wf c" and "cpu \<noteq> ct_bsp c"
  shows "\<exists>c'. com_sys_callout_run fns cpu c = Some (Ok ([], cq_next_preempt (ct_queue c cpu) \<le> cq_ns (ct_queue c cpu) + ARCH_TIMER_NS, c')) \<and>
    callouts_wf c'"
proof -
  define c1 where "c1 = upd_queue cpu (\<lambda>cq. cq\<lparr>cq_ns := cq_ns cq + ARCH_TIMER_NS\<rparr>) c"
  have wf1: "callouts_wf c1" using tick_wf [OF assms(1), where q = cpu and f = "\<lambda>cq. cq_ns cq + ARCH_TIMER_NS" and g = cq_next_preempt]
    by (simp add: c1_def)
  have "run_loop fns cpu c1 = Some (Ok ([], c1))"
    using run_round_none [OF wf1, of cpu fns] assms(2) by (subst run_loop.simps) (simp add: c1_def)
  then show ?thesis
    using callouts_wf_unlocked [OF assms(1)] wf1
      tick_wf [OF wf1, where q = cpu and f = cq_ns and g = "\<lambda>cq. cq_next_preempt cq + ARCH_SCHED_NS"]
    by (auto simp: com_sys_callout_run_def c1_def [symmetric] Let_def) (auto simp: c1_def)
qed

lemma with_queue_lock_eq: "with_queue_lock q c r = Ok x \<longleftrightarrow> \<not> cq_lock (ct_queue c q) \<and> r = x"
  by (simp add: with_queue_lock_def)

lemma add_wf:
  assumes "callouts_wf c" and "a \<notin> ct_live c"
  shows "callouts_wf (enqueue_callout q a (alloc_callout a h arg ns c))"
  by (rule enqueue_callout_wf [OF alloc_callout_wf [OF assms]]) (simp_all add: alloc_callout_def zero_callout_def)

lemma requeue_wf:
  assumes "callouts_wf c" and "a \<in> ct_live c" and "co_cpu_callout (ct_entry c a) = None"
    and "\<And>e. co_cpu_callout (f e) = co_cpu_callout e \<and> co_entry_lock (f e) = co_entry_lock e"
  shows "callouts_wf (enqueue_callout q a (upd_entry a f c))"
proof (rule enqueue_callout_wf)
  show "callouts_wf (upd_entry a f c)"
    by (rule upd_entry_unqueued_wf) (use assms callouts_wf_unlocked [OF assms(1)] in simp_all)
qed (use assms in simp_all)

lemma callout_step_wf:
  assumes "callout_step c c'" and "callouts_wf c"
  shows "callouts_wf c'"
  using assms
proof (cases rule: callout_step.cases)
  case (cancel a)
  then show ?thesis using cancel_wf [OF assms(2), of a] by auto
next
  case (destroy a)
  then obtain c1 where "com_sys_callout_cancel a c = Ok c1" "c' = free_callout a c1"
    by (auto simp: com_sys_callout_destroy_def res_bind_eq_Ok)
  then show ?thesis using cancel_wf [OF assms(2), of a] free_callout_wf by auto
next
  case (run fns cpu fired y)
  then show ?thesis
    using run_fires [OF assms(2) refl run(1)] run_other_cpu [OF assms(2), of cpu fns] by (cases "cpu = ct_bsp c") auto
next
  case (set_and_enqueue a h delay)
  have "callouts_wf (enqueue_callout (ct_bsp c) a
      (upd_entry a (\<lambda>e. e\<lparr>co_handler := h, co_ns := cq_ns (ct_queue c (ct_bsp c)) + delay\<rparr>) c))"
    by (rule requeue_wf [OF assms(2) set_and_enqueue(1,2)]) simp
  then show ?thesis using set_and_enqueue(3)
    by (simp add: com_sys_callout_set_and_enqueue_def Let_def with_queue_lock_eq upd_entry_def)
qed (auto simp: com_sys_callout_add_at_def com_sys_callout_add_def callout_add_at_def callout_add_def
      com_sys_callout_new_def com_sys_callout_reschedule_at_def com_sys_callout_reschedule_def
      com_sys_callout_enqueue_def with_queue_lock_eq Let_def
      intro: add_wf alloc_callout_wf requeue_wf enqueue_callout_wf)

lemma callouts_boot_wf: "callouts_wf callouts_boot"
  by (rule callouts_wfI) (simp_all add: callouts_boot_def queue_ok_def zero_callout_def)

section \<open>Properties\<close>

text \<open>
  C24: whatever sequence of additions, reschedulings, cancellations, destructions and timer ticks
  follows boot, every queue is ordered by deadline, holds no callout twice, holds exactly the
  callouts that name it and only allocated ones, and no lock is left held.
\<close>

theorem callout_queue_invariant:
  assumes "callout_step\<^sup>*\<^sup>* callouts_boot c"
  shows "callouts_wf c"
  using assms by (induction rule: rtranclp_induct) (use callouts_boot_wf callout_step_wf in auto)

text \<open>
  C8: a timer tick on the boot processor advances the clock by the timer period and runs the
  handlers of exactly the callouts whose deadline has come, in order of deadline and, for equal
  deadlines, of insertion. It terminates and leaves no due callout behind, provided no handler
  queues a callout that is already due; a periodic timer satisfies this. The processor yields
  exactly when its time slice is over. On other processors no handler runs.
\<close>

theorem callout_run_fires_due:
  assumes "callouts_wf c" and "now = cq_ns (ct_queue c (ct_bsp c)) + ARCH_TIMER_NS" and "polite fns now"
  shows "(\<exists>c'. com_sys_callout_run fns (ct_bsp c) c =
        Some (Ok (due c (ct_bsp c) now, cq_next_preempt (ct_queue c (ct_bsp c)) \<le> now, c')) \<and>
      callouts_wf c' \<and> cq_ns (ct_queue c' (ct_bsp c)) = now \<and> due c' (ct_bsp c) now = []) \<and>
    sorted (map (\<lambda>a. co_ns (ct_entry c a)) (due c (ct_bsp c) now)) \<and>
    (\<forall>cpu. cpu \<noteq> ct_bsp c \<longrightarrow> (\<exists>y c'. com_sys_callout_run fns cpu c = Some (Ok ([], y, c'))))"
proof -
  have "sorted (map (\<lambda>a. co_ns (ct_entry c a)) (due c (ct_bsp c) now))"
    using callouts_wf_queue_ok [OF assms(1), of "ct_bsp c"] by (simp add: queue_ok_def due_def sorted_filter)
  with run_fires [OF assms] run_other_cpu [OF assms(1)] show ?thesis by blast
qed

text \<open>
  C25: cancelling is not atomic. When the tick comes between its two critical sections, the handler
  of the callout being cancelled runs all the same and its memory is released; the second section
  then unlinks a callout that is on no queue any more.
\<close>

theorem callout_cancel_race:
  assumes "callouts_wf c" and "cq_queue (ct_queue c (ct_bsp c)) = [a]"
    and "co_ns (ct_entry c a) \<le> cq_ns (ct_queue c (ct_bsp c)) + ARCH_TIMER_NS"
    and "\<not> co_permanent (ct_entry c a)"
  shows "\<exists>c1 y c2. cancel_begin a c = Ok (Some (ct_bsp c), c1) \<and>
    com_sys_callout_run (\<lambda>h a c. c) (ct_bsp c) c1 = Some (Ok ([a], y, c2)) \<and>
    a \<notin> ct_live c2 \<and> cancel_end a (ct_bsp c) c2 = Panic"
proof -
  let ?q = "ct_bsp c"
  have cpu: "co_cpu_callout (ct_entry c a) = Some ?q"
    using callouts_wf_queued [OF assms(1), of a ?q] assms(2) by simp
  note unlocked = callouts_wf_unlocked [OF assms(1)]
  define c1 where "c1 = upd_entry a (\<lambda>e. e\<lparr>co_cpu_callout := None\<rparr>) c"
  define c2 where "c2 = upd_queue ?q (\<lambda>cq. cq\<lparr>cq_ns := cq_ns cq + ARCH_TIMER_NS\<rparr>) c1"
  define c3 where "c3 = free_callout a (upd_entry a (\<lambda>e. e\<lparr>co_reuse := False, co_cpu_callout := None\<rparr>)
    (upd_queue ?q (\<lambda>cq. cq\<lparr>cq_queue := []\<rparr>) c2))"
  have "cancel_begin a c = Ok (Some ?q, c1)" using cpu unlocked by (simp add: cancel_begin_def c1_def)
  moreover have round: "run_round (\<lambda>h a c. c) ?q c2 = Ok (Some (a, c3))"
    using assms unlocked by (simp add: run_round_def c2_def c1_def c3_def Let_def not_less)
  have "run_round (\<lambda>h a c. c) ?q c3 = Ok None"
    by (simp add: run_round_def c3_def c2_def c1_def free_callout_def)
  then have "run_loop (\<lambda>h a c. c) ?q c3 = Some (Ok ([], c3))" by (subst run_loop.simps) simp
  with round have "run_loop (\<lambda>h a c. c) ?q c2 = Some (Ok ([a], c3))" by (subst run_loop.simps) simp
  then have "\<exists>y c4. com_sys_callout_run (\<lambda>h a c. c) ?q c1 = Some (Ok ([a], y, c4)) \<and>
      ct_live c4 = ct_live c3 \<and> cq_queue (ct_queue c4 ?q) = [] \<and> \<not> cq_lock (ct_queue c4 ?q)"
    using unlocked by (simp add: com_sys_callout_run_def c2_def [symmetric] Let_def)
      (auto simp: c1_def c2_def c3_def free_callout_def)
  moreover have "a \<notin> ct_live c3" by (simp add: c3_def free_callout_def)
  ultimately show ?thesis by (fastforce simp: cancel_end_def)
qed

text \<open>One callout, due at the next tick.\<close>

lemma sample_add:
  "\<exists>c. com_sys_callout_add 1 7 0 1000000 callouts_boot = Ok c \<and> cq_queue (ct_queue c 0) = [1] \<and>
    co_ns (ct_entry c 1) = 1000000 \<and> \<not> co_permanent (ct_entry c 1) \<and> cq_ns (ct_queue c 0) = 0 \<and> ct_bsp c = 0 \<and>
    callout_step callouts_boot c"
proof -
  obtain c where c: "com_sys_callout_add 1 7 0 1000000 callouts_boot = Ok c"
    by (auto simp: com_sys_callout_add_def callout_add_def with_queue_lock_def callouts_boot_def)
  then have "c = enqueue_callout 0 1 (alloc_callout 1 7 0 1000000 callouts_boot)"
    by (simp add: com_sys_callout_add_def callout_add_def with_queue_lock_eq callouts_boot_def)
  moreover have "callout_step callouts_boot c" by (rule callout_step.add [OF _ c]) (simp add: callouts_boot_def)
  ultimately show ?thesis using c
    by (intro exI [of _ c]) (simp add: enqueue_callout_def alloc_callout_def callouts_boot_def zero_callout_def)
qed

theorem callout_queue_invariant_witness:
  "\<exists>c. com_sys_callout_add 1 7 0 1000000 callouts_boot = Ok c \<and> cq_queue (ct_queue c 0) = [1] \<and> callouts_wf c"
  using sample_add callout_queue_invariant by blast

theorem callout_run_fires_due_witness:
  "\<exists>c y c'. com_sys_callout_add 1 7 0 1000000 callouts_boot = Ok c \<and>
    com_sys_callout_run (periodic 5000000) 0 c = Some (Ok ([1], y, c')) \<and> due c' 0 1000000 = []"
proof -
  obtain c where c: "com_sys_callout_add 1 7 0 1000000 callouts_boot = Ok c" "cq_queue (ct_queue c 0) = [1]"
    "co_ns (ct_entry c 1) = 1000000" "cq_ns (ct_queue c 0) = 0" "ct_bsp c = 0" "callout_step callouts_boot c"
    using sample_add by blast
  have wf: "callouts_wf c" using callout_step_wf [OF c(6) callouts_boot_wf] .
  have now: "(1000000 :: u64) = cq_ns (ct_queue c (ct_bsp c)) + ARCH_TIMER_NS" using c by (simp add: ARCH_TIMER_NS_def)
  have "polite (periodic 5000000) 1000000" by (rule periodic_polite) simp
  from callout_run_fires_due [OF wf now this] c show ?thesis by (auto simp: due_def)
qed

theorem callout_cancel_race_witness:
  "\<exists>c c1 y c2. com_sys_callout_add 1 7 0 1000000 callouts_boot = Ok c \<and> cancel_begin 1 c = Ok (Some 0, c1) \<and>
    com_sys_callout_run (\<lambda>h a c. c) 0 c1 = Some (Ok ([1], y, c2)) \<and> cancel_end 1 0 c2 = Panic"
proof -
  obtain c where c: "com_sys_callout_add 1 7 0 1000000 callouts_boot = Ok c" "cq_queue (ct_queue c 0) = [1]"
    "co_ns (ct_entry c 1) = 1000000" "\<not> co_permanent (ct_entry c 1)" "cq_ns (ct_queue c 0) = 0" "ct_bsp c = 0"
    "callout_step callouts_boot c"
    using sample_add by blast
  have wf: "callouts_wf c" using callout_step_wf [OF c(7) callouts_boot_wf] .
  have "co_ns (ct_entry c 1) \<le> cq_ns (ct_queue c (ct_bsp c)) + ARCH_TIMER_NS" using c by (simp add: ARCH_TIMER_NS_def)
  from callout_cancel_race [OF wf _ this c(4)] c show ?thesis by auto
qed

end
