(* ===== verification/Locks.thy ===== *)
theory Locks
  imports Kernel_Prelude
begin

text \<open>
  Spinlocks, waitlists, mutexes and reader-writer locks: \<^verbatim>\<open>src/com/lib/spinlock.c\<close>, \<^verbatim>\<open>mutex.c\<close>,
  \<^verbatim>\<open>rwlock.c\<close> and \<^verbatim>\<open>sync.c\<close>. A critical section under a spinlock is one step; sleeping locks are
  transition systems of threads that take such steps, with a thread's position in the code as its
  program counter.
\<close>

section \<open>Spinlocks\<close>

text \<open>
  The state of the running processor that a spinlock touches: the lock depth of the current thread,
  if there is one, and the interrupt flag. Spinlock debugging is off in the configuration, so the
  checks report nothing.
\<close>

type_synonym kspinlock = bool

record cpu_ctx =
  cx_lock_depth :: "int option"
  cx_interrupts :: bool

definition KSPINLOCK_NEW :: kspinlock where
  "KSPINLOCK_NEW = False"

definition KSPINLOCK_IS_HELD :: "kspinlock \<Rightarrow> bool" where
  "KSPINLOCK_IS_HELD l = l"

definition INCREMENT_CURR_LOCK_DEPTH :: "cpu_ctx \<Rightarrow> cpu_ctx" where
  "INCREMENT_CURR_LOCK_DEPTH x = x\<lparr>cx_lock_depth := map_option (\<lambda>d. d + 1) (cx_lock_depth x)\<rparr>"

definition DECREMENT_CURR_LOCK_DEPTH :: "cpu_ctx \<Rightarrow> cpu_ctx" where
  "DECREMENT_CURR_LOCK_DEPTH x = x\<lparr>cx_lock_depth := map_option (\<lambda>d. d - 1) (cx_lock_depth x)\<rparr>"

definition decrement_lock_depth_tested :: "cpu_ctx \<Rightarrow> cpu_ctx" where
  "decrement_lock_depth_tested x =
     (case cx_lock_depth x of
        None \<Rightarrow> x
      | Some old_depth \<Rightarrow>
          (let x1 = x\<lparr>cx_lock_depth := Some (old_depth - 1)\<rparr>
           in if old_depth = 1 then x1\<lparr>cx_interrupts := True\<rparr> else x1))"

definition kspinlock_fake_acquire :: "cpu_ctx \<Rightarrow> cpu_ctx" where
  "kspinlock_fake_acquire x = INCREMENT_CURR_LOCK_DEPTH (x\<lparr>cx_interrupts := False\<rparr>)"

definition kspinlock_fake_release :: "cpu_ctx \<Rightarrow> cpu_ctx" where
  "kspinlock_fake_release x = decrement_lock_depth_tested x"

definition kspinlock_acquire :: "kspinlock \<Rightarrow> cpu_ctx \<Rightarrow> (kspinlock \<times> cpu_ctx) res" where
  "kspinlock_acquire l x =
     (if l then Blocked else Ok (True, INCREMENT_CURR_LOCK_DEPTH (x\<lparr>cx_interrupts := False\<rparr>)))"

definition kspinlock_release :: "kspinlock \<Rightarrow> cpu_ctx \<Rightarrow> kspinlock \<times> cpu_ctx" where
  "kspinlock_release l x = (False, decrement_lock_depth_tested x)"

text \<open>
  Acquiring with a timeout polls the lock. \<open>Obs held t\<close> is what one access to the lock sees: whether
  it is held, and the time read after it. The loop alternates between an exchange (\<open>spinning\<close> is
  false) and plain loads.
\<close>

datatype spin_obs = Obs bool u64

fun timeout_spin :: "u64 \<Rightarrow> bool \<Rightarrow> spin_obs list \<Rightarrow> bool res" where
  "timeout_spin end_ns spinning [] = Blocked"
| "timeout_spin end_ns False (Obs held t # os) = (if held then timeout_spin end_ns True os else Ok True)"
| "timeout_spin end_ns True (Obs held t # os) =
     (if held then (if end_ns \<le> t then Ok False else timeout_spin end_ns True os)
      else timeout_spin end_ns False os)"

definition kspinlock_acquire_timeout ::
  "u64 \<Rightarrow> u64 \<Rightarrow> spin_obs list \<Rightarrow> cpu_ctx \<Rightarrow> (bool \<times> cpu_ctx) res" where
  "kspinlock_acquire_timeout start_ns timeout_ns os x =
     (let x1 = INCREMENT_CURR_LOCK_DEPTH (x\<lparr>cx_interrupts := False\<rparr>) in
      res_bind (timeout_spin (start_ns + timeout_ns) False os) (\<lambda>got.
        if got then Ok (True, x1) else Ok (False, DECREMENT_CURR_LOCK_DEPTH x1)))"

section \<open>Waitlists\<close>

text \<open>The queue of a waitlist holds threads in the order in which they went to sleep.\<close>

record com_waitlist =
  wl_queue :: "nat list"
  wl_lock :: bool

definition COM_SYS_THREAD_WAITLIST_INIT :: com_waitlist where
  "COM_SYS_THREAD_WAITLIST_INIT = \<lparr>wl_queue = [], wl_lock = KSPINLOCK_NEW\<rparr>"

definition wl_insert_tail :: "nat \<Rightarrow> com_waitlist \<Rightarrow> com_waitlist" where
  "wl_insert_tail t w = w\<lparr>wl_queue := wl_queue w @ [t]\<rparr>"

definition wl_remove :: "nat \<Rightarrow> com_waitlist \<Rightarrow> com_waitlist" where
  "wl_remove t w = w\<lparr>wl_queue := remove1 t (wl_queue w)\<rparr>"

text \<open>The threads a notification takes off the list: the first, all of them, or the first \<open>n\<close>.\<close>

definition wl_pop :: "com_waitlist \<Rightarrow> nat list \<times> com_waitlist" where
  "wl_pop w = (take 1 (wl_queue w), w\<lparr>wl_queue := drop 1 (wl_queue w)\<rparr>)"

definition wl_pop_all :: "com_waitlist \<Rightarrow> nat list \<times> com_waitlist" where
  "wl_pop_all w = (wl_queue w, w\<lparr>wl_queue := []\<rparr>)"

fun pop_n_loop :: "nat \<Rightarrow> nat list \<Rightarrow> nat list \<Rightarrow> nat list \<times> nat list" where
  "pop_n_loop 0 local_queue q = (local_queue, q)"
| "pop_n_loop (Suc n) local_queue [] = (local_queue, [])"
| "pop_n_loop (Suc n) local_queue (t # q) = pop_n_loop n (local_queue @ [t]) q"

definition wl_pop_n :: "nat \<Rightarrow> com_waitlist \<Rightarrow> nat list \<times> com_waitlist" where
  "wl_pop_n n w = (case pop_n_loop n [] (wl_queue w) of (ts, q) \<Rightarrow> (ts, w\<lparr>wl_queue := q\<rparr>))"

section \<open>Reader-writer locks\<close>

record krwlock =
  rw_lock :: kspinlock
  rw_active_readers :: nat
  rw_waiting_writers :: nat
  rw_writer_active :: bool
  rw_readers_waitlist :: com_waitlist
  rw_writers_waitlist :: com_waitlist

definition KRWLOCK_INIT :: krwlock where
  "KRWLOCK_INIT = \<lparr>rw_lock = KSPINLOCK_NEW, rw_active_readers = 0, rw_waiting_writers = 0, rw_writer_active = False,
     rw_readers_waitlist = COM_SYS_THREAD_WAITLIST_INIT, rw_writers_waitlist = COM_SYS_THREAD_WAITLIST_INIT\<rparr>"

text \<open>
  One pass through the loop of an acquisition: either the lock is taken, or the thread goes to
  sleep on the waitlist. A release returns the threads it wakes.
\<close>

definition krwlock_acquire_read :: "nat \<Rightarrow> krwlock \<Rightarrow> bool \<times> krwlock" where
  "krwlock_acquire_read t rw =
     (if rw_writer_active rw \<or> rw_waiting_writers rw > 0
      then (False, rw\<lparr>rw_readers_waitlist := wl_insert_tail t (rw_readers_waitlist rw)\<rparr>)
      else (True, rw\<lparr>rw_active_readers := rw_active_readers rw + 1\<rparr>))"

definition krwlock_release_read :: "krwlock \<Rightarrow> nat list \<times> krwlock" where
  "krwlock_release_read rw =
     (let rw1 = rw\<lparr>rw_active_readers := rw_active_readers rw - 1\<rparr> in
      if rw_active_readers rw1 = 0 \<and> rw_waiting_writers rw1 > 0
      then (case wl_pop (rw_writers_waitlist rw1) of (ts, w) \<Rightarrow> (ts, rw1\<lparr>rw_writers_waitlist := w\<rparr>))
      else ([], rw1))"

definition acquire_write_pass :: "nat \<Rightarrow> krwlock \<Rightarrow> bool \<times> krwlock" where
  "acquire_write_pass t rw =
     (if rw_writer_active rw \<or> rw_active_readers rw > 0
      then (False, rw\<lparr>rw_writers_waitlist := wl_insert_tail t (rw_writers_waitlist rw)\<rparr>)
      else (True, rw\<lparr>rw_waiting_writers := rw_waiting_writers rw - 1, rw_writer_active := True\<rparr>))"

definition krwlock_acquire_write :: "nat \<Rightarrow> krwlock \<Rightarrow> bool \<times> krwlock" where
  "krwlock_acquire_write t rw = acquire_write_pass t (rw\<lparr>rw_waiting_writers := rw_waiting_writers rw + 1\<rparr>)"

definition krwlock_release_write :: "krwlock \<Rightarrow> nat list \<times> krwlock" where
  "krwlock_release_write rw =
     (let rw1 = rw\<lparr>rw_writer_active := False\<rparr> in
      if rw_waiting_writers rw1 = 0
      then (case wl_pop_all (rw_readers_waitlist rw1) of (ts, w) \<Rightarrow> (ts, rw1\<lparr>rw_readers_waitlist := w\<rparr>))
      else (case wl_pop (rw_writers_waitlist rw1) of (ts, w) \<Rightarrow> (ts, rw1\<lparr>rw_writers_waitlist := w\<rparr>)))"

text \<open>Where a thread is with respect to the lock.\<close>

datatype rw_pc = RIdle | RAsleep | RWoken | Reading | WAsleep | WWoken | Writing

type_synonym rw_state = "krwlock \<times> (nat \<Rightarrow> rw_pc)"

definition wake :: "'p \<Rightarrow> nat list \<Rightarrow> (nat \<Rightarrow> 'p) \<Rightarrow> nat \<Rightarrow> 'p" where
  "wake p ts pc t = (if t \<in> set ts then p else pc t)"

text \<open>A signal wakes a sleeping thread without a notification.\<close>

inductive rw_step :: "rw_state \<Rightarrow> rw_state \<Rightarrow> bool" where
  read: "pc t \<in> {RIdle, RWoken} \<Longrightarrow> krwlock_acquire_read t rw = (got, rw') \<Longrightarrow>
    rw_step (rw, pc) (rw', pc(t := if got then Reading else RAsleep))"
| read_done: "pc t = Reading \<Longrightarrow> krwlock_release_read rw = (ts, rw') \<Longrightarrow>
    rw_step (rw, pc) (rw', wake WWoken ts (pc(t := RIdle)))"
| writer: "pc t = RIdle \<Longrightarrow> krwlock_acquire_write t rw = (got, rw') \<Longrightarrow>
    rw_step (rw, pc) (rw', pc(t := if got then Writing else WAsleep))"
| write_again: "pc t = WWoken \<Longrightarrow> acquire_write_pass t rw = (got, rw') \<Longrightarrow>
    rw_step (rw, pc) (rw', pc(t := if got then Writing else WAsleep))"
| write_done: "pc t = Writing \<Longrightarrow> krwlock_release_write rw = (ts, rw') \<Longrightarrow>
    rw_step (rw, pc) (rw', wake (if rw_waiting_writers rw = 0 then RWoken else WWoken) ts (pc(t := RIdle)))"
| signal_reader: "pc t = RAsleep \<Longrightarrow>
    rw_step (rw, pc) (rw\<lparr>rw_readers_waitlist := wl_remove t (rw_readers_waitlist rw)\<rparr>, pc(t := RWoken))"
| signal_writer: "pc t = WAsleep \<Longrightarrow>
    rw_step (rw, pc) (rw\<lparr>rw_writers_waitlist := wl_remove t (rw_writers_waitlist rw)\<rparr>, pc(t := WWoken))"

text \<open>
  The counters count the threads at the respective positions, the waitlists hold the sleeping
  threads, readers and writers exclude each other, and nobody sleeps while nothing prevents them
  from running: sleeping readers imply an active or waiting writer, and when the lock is free and
  writers wait, one of them is awake.
\<close>

definition rw_count :: "rw_state \<Rightarrow> bool" where
  "rw_count s \<longleftrightarrow> (case s of (rw, pc) \<Rightarrow> finite {t. pc t \<noteq> RIdle} \<and>
     rw_active_readers rw = card {t. pc t = Reading} \<and>
     rw_waiting_writers rw = card {t. pc t \<in> {WAsleep, WWoken}})"

definition rw_queues :: "rw_state \<Rightarrow> bool" where
  "rw_queues s \<longleftrightarrow> (case s of (rw, pc) \<Rightarrow>
     distinct (wl_queue (rw_readers_waitlist rw)) \<and> (\<forall>t. t \<in> set (wl_queue (rw_readers_waitlist rw)) \<longleftrightarrow> pc t = RAsleep) \<and>
     distinct (wl_queue (rw_writers_waitlist rw)) \<and> (\<forall>t. t \<in> set (wl_queue (rw_writers_waitlist rw)) \<longleftrightarrow> pc t = WAsleep))"

definition somebody :: "rw_pc set \<Rightarrow> (nat \<Rightarrow> rw_pc) \<Rightarrow> bool" where
  "somebody P pc \<longleftrightarrow> (\<exists>t. pc t \<in> P)"

definition rw_exclusive :: "rw_state \<Rightarrow> bool" where
  "rw_exclusive s \<longleftrightarrow> (case s of (rw, pc) \<Rightarrow>
     (rw_writer_active rw \<longleftrightarrow> somebody {Writing} pc) \<and>
     (\<forall>t u. pc t = Writing \<and> pc u \<in> {Reading, Writing} \<longrightarrow> t = u))"

definition rw_awake :: "rw_state \<Rightarrow> bool" where
  "rw_awake s \<longleftrightarrow> (case s of (rw, pc) \<Rightarrow>
     (somebody {RAsleep} pc \<longrightarrow> somebody {Writing, WAsleep, WWoken} pc) \<and>
     (somebody {WAsleep} pc \<longrightarrow> somebody {Reading, Writing, WWoken} pc))"

definition rw_ok :: "rw_state \<Rightarrow> bool" where
  "rw_ok s \<longleftrightarrow> rw_count s \<and> rw_queues s \<and> rw_exclusive s \<and> rw_awake s"

section \<open>Mutexes\<close>

definition CONFIG_MUTEX_RETRIES :: nat where
  "CONFIG_MUTEX_RETRIES = 60"

record kmutex =
  mx_lock :: kspinlock
  mx_locked :: bool
  mx_owner :: "nat option"
  mx_waiters :: com_waitlist

definition KMUTEX_INIT :: kmutex where
  "KMUTEX_INIT = \<lparr>mx_lock = KSPINLOCK_NEW, mx_locked = False, mx_owner = None, mx_waiters = COM_SYS_THREAD_WAITLIST_INIT\<rparr>"

text \<open>
  One round of the spinning phase, under the mutex's spinlock: the mutex is free, spinning is
  pointless because the owner last ran on this processor, or the round failed. A locked mutex without
  owner makes the code follow a null pointer.
\<close>

datatype try_result = TryFree | TryGiveUp | TryAgain

definition try_round :: "(nat \<Rightarrow> nat option) \<Rightarrow> nat \<Rightarrow> kmutex \<Rightarrow> try_result res" where
  "try_round last_cpu cpu mx =
     (if \<not> mx_locked mx then Ok TryFree
      else case mx_owner mx of
        None \<Rightarrow> Panic
      | Some owner \<Rightarrow> Ok (if last_cpu owner = Some cpu then TryGiveUp else TryAgain))"

definition mutex_take :: "nat \<Rightarrow> kmutex \<Rightarrow> kmutex" where
  "mutex_take t mx = mx\<lparr>mx_locked := True, mx_owner := Some t\<rparr>"

definition kmutex_try_acquire :: "(nat \<Rightarrow> nat option) \<Rightarrow> nat \<Rightarrow> nat \<Rightarrow> kmutex \<Rightarrow> (bool \<times> kmutex) res" where
  "kmutex_try_acquire last_cpu cpu t mx =
     res_bind (try_round last_cpu cpu mx) (\<lambda>r.
       Ok (if r = TryFree then (True, mutex_take t mx) else (False, mx)))"

text \<open>The test of the sleeping phase: take the mutex or sleep on its waitlist.\<close>

definition mutex_pass :: "nat \<Rightarrow> kmutex \<Rightarrow> bool \<times> kmutex" where
  "mutex_pass t mx =
     (if mx_locked mx then (False, mx\<lparr>mx_waiters := wl_insert_tail t (mx_waiters mx)\<rparr>)
      else (True, mutex_take t mx))"

definition kmutex_release :: "kmutex \<Rightarrow> (nat list \<times> kmutex) res" where
  "kmutex_release mx =
     kassert (mx_locked mx)
       (case wl_pop (mx_waiters mx) of (ts, w) \<Rightarrow>
          Ok (ts, mx\<lparr>mx_locked := False, mx_owner := None, mx_waiters := w\<rparr>))"

text \<open>
  A thread's position in \<^verbatim>\<open>kmutex_acquire_timeout\<close>: spinning, about to take the spinlock for the
  sleeping phase, asleep, woken, holding the mutex, or back with a timeout.
\<close>

datatype mx_pc = MIdle | MSpin nat | MSlow | MAsleep | MWoken | MHolds | MTimedOut

record mx_state =
  ms_mutex :: kmutex
  ms_pc :: "nat \<Rightarrow> mx_pc"
  ms_expired :: "nat \<Rightarrow> bool"

definition pass_step :: "nat \<Rightarrow> mx_state \<Rightarrow> mx_state" where
  "pass_step t s =
     (case mutex_pass t (ms_mutex s) of (got, mx) \<Rightarrow>
        if got then s\<lparr>ms_mutex := mx, ms_pc := (ms_pc s)(t := MHolds)\<rparr>
        else s\<lparr>ms_mutex := mx, ms_pc := (ms_pc s)(t := MAsleep), ms_expired := (ms_expired s)(t := False)\<rparr>)"

text \<open>
  \<open>tmo t\<close> is the timeout a thread passes; zero means none. The timeout callout sets the thread's
  flag also when the thread has been notified already.
\<close>

definition kmutex_acquire_timeout :: "(nat \<Rightarrow> u64) \<Rightarrow> (nat \<Rightarrow> nat option) \<Rightarrow> nat \<Rightarrow> nat \<Rightarrow> mx_state \<Rightarrow> mx_state option" where
  "kmutex_acquire_timeout tmo last_cpu cpu t s =
     (case ms_pc s t of
        MIdle \<Rightarrow> Some (s\<lparr>ms_pc := (ms_pc s)(t := MSpin 0)\<rparr>)
      | MSpin i \<Rightarrow>
          (if i < CONFIG_MUTEX_RETRIES
           then case try_round last_cpu cpu (ms_mutex s) of
               Ok TryFree \<Rightarrow> Some (s\<lparr>ms_mutex := mutex_take t (ms_mutex s), ms_pc := (ms_pc s)(t := MHolds)\<rparr>)
             | Ok TryGiveUp \<Rightarrow> Some (s\<lparr>ms_pc := (ms_pc s)(t := MSlow)\<rparr>)
             | Ok TryAgain \<Rightarrow> Some (s\<lparr>ms_pc := (ms_pc s)(t := MSpin (i + 1))\<rparr>)
             | _ \<Rightarrow> None
           else Some (s\<lparr>ms_pc := (ms_pc s)(t := MSlow)\<rparr>))
      | MSlow \<Rightarrow> Some (pass_step t s)
      | MWoken \<Rightarrow> Some (if tmo t \<noteq> 0 \<and> ms_expired s t then s\<lparr>ms_pc := (ms_pc s)(t := MTimedOut)\<rparr> else pass_step t s)
      | _ \<Rightarrow> None)"

inductive mx_step :: "(nat \<Rightarrow> u64) \<Rightarrow> mx_state \<Rightarrow> mx_state \<Rightarrow> bool" for tmo where
  acquire: "kmutex_acquire_timeout tmo last_cpu cpu t s = Some s' \<Longrightarrow> mx_step tmo s s'"
| release: "ms_pc s t = MHolds \<Longrightarrow> kmutex_release (ms_mutex s) = Ok (ts, mx) \<Longrightarrow>
    mx_step tmo s (s\<lparr>ms_mutex := mx, ms_pc := wake MWoken ts ((ms_pc s)(t := MIdle))\<rparr>)"
| timeout: "tmo t \<noteq> 0 \<Longrightarrow> ms_pc s t = MAsleep \<Longrightarrow>
    mx_step tmo s (s\<lparr>ms_mutex := (ms_mutex s)\<lparr>mx_waiters := wl_remove t (mx_waiters (ms_mutex s))\<rparr>,
      ms_pc := (ms_pc s)(t := MWoken), ms_expired := (ms_expired s)(t := True)\<rparr>)"
| timeout_late: "tmo t \<noteq> 0 \<Longrightarrow> ms_pc s t = MWoken \<Longrightarrow>
    mx_step tmo s (s\<lparr>ms_expired := (ms_expired s)(t := True)\<rparr>)"
| signal: "ms_pc s t = MAsleep \<Longrightarrow>
    mx_step tmo s (s\<lparr>ms_mutex := (ms_mutex s)\<lparr>mx_waiters := wl_remove t (mx_waiters (ms_mutex s))\<rparr>,
      ms_pc := (ms_pc s)(t := MWoken)\<rparr>)"

definition mx_ok :: "mx_state \<Rightarrow> bool" where
  "mx_ok s \<longleftrightarrow> (\<forall>t. ms_pc s t = MHolds \<longleftrightarrow> mx_owner (ms_mutex s) = Some t) \<and>
     (mx_locked (ms_mutex s) \<longleftrightarrow> mx_owner (ms_mutex s) \<noteq> None) \<and> distinct (wl_queue (mx_waiters (ms_mutex s))) \<and>
     (\<forall>t. ms_pc s t = MAsleep \<longleftrightarrow> t \<in> set (wl_queue (mx_waiters (ms_mutex s))))"

definition mx_awake :: "mx_state \<Rightarrow> bool" where
  "mx_awake s \<longleftrightarrow> (\<not> mx_locked (ms_mutex s) \<and> wl_queue (mx_waiters (ms_mutex s)) \<noteq> [] \<longrightarrow> (\<exists>t. ms_pc s t = MWoken))"

definition mx_boot :: mx_state where
  "mx_boot = \<lparr>ms_mutex = KMUTEX_INIT, ms_pc = (\<lambda>_. MIdle), ms_expired = (\<lambda>_. False)\<rparr>"

section \<open>Facts about waitlists\<close>

lemma wl_simps [simp]:
  "wl_queue (wl_insert_tail t w) = wl_queue w @ [t]"
  "wl_queue (wl_remove t w) = remove1 t (wl_queue w)"
  by (simp_all add: wl_insert_tail_def wl_remove_def)

lemma pop_n_loop_take: "pop_n_loop n local_queue q = (local_queue @ take n q, drop n q)"
  by (induction n local_queue q rule: pop_n_loop.induct) auto

lemma wl_pop_n_take: "wl_pop_n n w = (take n (wl_queue w), w\<lparr>wl_queue := drop n (wl_queue w)\<rparr>)"
  by (simp add: wl_pop_n_def pop_n_loop_take)

lemma wl_pop_is_pop_n: "wl_pop w = wl_pop_n 1 w"
  by (simp add: wl_pop_n_take wl_pop_def)

section \<open>Mutex invariants\<close>

lemma wake_apply: "wake p ts pc t = (if t \<in> set ts then p else pc t)"
  by (simp add: wake_def)

text \<open>A thread that is neither holding nor asleep moves on, or takes a free mutex.\<close>

lemma mx_ok_move:
  assumes "mx_ok s" and "ms_pc s t \<notin> {MHolds, MAsleep}" and "p \<notin> {MHolds, MAsleep}"
  shows "mx_ok (s\<lparr>ms_pc := (ms_pc s)(t := p)\<rparr>)"
proof -
  have "mx_owner (ms_mutex s) \<noteq> Some t" "t \<notin> set (wl_queue (mx_waiters (ms_mutex s)))"
    using assms(1,2) unfolding mx_ok_def by auto
  then show ?thesis using assms(1,3) unfolding mx_ok_def by auto
qed

lemma mx_ok_take:
  assumes "mx_ok s" and "ms_pc s t \<notin> {MHolds, MAsleep}" and "\<not> mx_locked (ms_mutex s)"
  shows "mx_ok (s\<lparr>ms_mutex := mutex_take t (ms_mutex s), ms_pc := (ms_pc s)(t := MHolds)\<rparr>)"
proof -
  have "t \<notin> set (wl_queue (mx_waiters (ms_mutex s)))" "mx_owner (ms_mutex s) = None"
    "\<And>t. ms_pc s t \<noteq> MHolds"
    using assms unfolding mx_ok_def by auto
  then show ?thesis using assms(1) unfolding mx_ok_def mutex_take_def by auto
qed

lemma mx_ok_sleep:
  assumes "mx_ok s" and "ms_pc s t \<notin> {MHolds, MAsleep}"
  shows "mx_ok (s\<lparr>ms_mutex := (ms_mutex s)\<lparr>mx_waiters := wl_insert_tail t (mx_waiters (ms_mutex s))\<rparr>,
    ms_pc := (ms_pc s)(t := MAsleep), ms_expired := e\<rparr>)"
proof -
  have "mx_owner (ms_mutex s) \<noteq> Some t" "t \<notin> set (wl_queue (mx_waiters (ms_mutex s)))"
    using assms unfolding mx_ok_def by auto
  then show ?thesis using assms(1) unfolding mx_ok_def by auto
qed

lemma mx_ok_wake:
  assumes "mx_ok s" and "ms_pc s t = MAsleep"
  shows "mx_ok (s\<lparr>ms_mutex := (ms_mutex s)\<lparr>mx_waiters := wl_remove t (mx_waiters (ms_mutex s))\<rparr>,
    ms_pc := (ms_pc s)(t := MWoken)\<rparr>)"
proof -
  have "ms_pc s t \<noteq> MHolds" using assms(2) by simp
  then have "mx_owner (ms_mutex s) \<noteq> Some t" using assms(1) unfolding mx_ok_def by blast
  then show ?thesis using assms unfolding mx_ok_def by auto
qed

lemma mx_ok_expired [simp]: "mx_ok (s\<lparr>ms_expired := e\<rparr>) = mx_ok s"
  by (simp add: mx_ok_def)

lemma pass_step_ok:
  assumes "mx_ok s" and "ms_pc s t \<notin> {MHolds, MAsleep}"
  shows "mx_ok (pass_step t s)"
  using mx_ok_take [OF assms] mx_ok_sleep [OF assms] by (simp add: pass_step_def mutex_pass_def)

lemma mx_step_ok:
  assumes "mx_step tmo s s'" and "mx_ok s"
  shows "mx_ok s'"
  using assms
proof (induction rule: mx_step.induct)
  case (acquire last_cpu cpu t s s')
  then show ?case using pass_step_ok [of s t] mx_ok_take [of s t] mx_ok_move [of s t]
    by (auto simp: kmutex_acquire_timeout_def try_round_def split: mx_pc.splits if_splits option.splits)
next
  case (release s t ts mx)
  let ?q = "wl_queue (mx_waiters (ms_mutex s))"
  have q: "ts = take 1 ?q" "mx = (ms_mutex s)\<lparr>mx_locked := False, mx_owner := None,
      mx_waiters := (mx_waiters (ms_mutex s))\<lparr>wl_queue := drop 1 ?q\<rparr>\<rparr>"
    using release(2) by (auto simp: kmutex_release_def wl_pop_def)
  have own: "mx_owner (ms_mutex s) = Some t" "distinct ?q" "\<And>x. ms_pc s x = MHolds \<longleftrightarrow> t = x"
    "\<And>x. ms_pc s x = MAsleep \<longleftrightarrow> x \<in> set ?q"
    using release(1,3) unfolding mx_ok_def by auto
  have "ms_pc s t \<noteq> MAsleep" using release(1) by simp
  then have "t \<notin> set ?q" using own(4) by blast
  note own = own this
  show ?case by (cases ?q) (use own in \<open>auto simp: mx_ok_def wake_def q\<close>)
next
  case (timeout t s)
  then show ?case using mx_ok_wake [of s t] by (simp add: mx_ok_def)
qed (auto intro: mx_ok_wake)

lemma mx_awake_move:
  assumes "mx_awake s" and "ms_pc s t \<noteq> MWoken"
  shows "mx_awake (s\<lparr>ms_pc := (ms_pc s)(t := p)\<rparr>)"
  using assms by (fastforce simp: mx_awake_def)

text \<open>Without timeouts, somebody is awake to take a free mutex.\<close>

lemma mx_step_awake:
  assumes "mx_step tmo s s'" and "mx_ok s" and "mx_awake s" and "\<And>t. tmo t = 0"
  shows "mx_awake s'"
  using assms
proof (induction rule: mx_step.induct)
  case (acquire last_cpu cpu t s s')
  have "mx_awake (pass_step t s)"
    by (simp add: pass_step_def mutex_pass_def mutex_take_def mx_awake_def)
  moreover have "mx_awake (s\<lparr>ms_mutex := mutex_take t (ms_mutex s), ms_pc := (ms_pc s)(t := MHolds)\<rparr>)"
    by (simp add: mutex_take_def mx_awake_def)
  ultimately show ?case using acquire mx_awake_move [of s t]
    by (auto simp: kmutex_acquire_timeout_def try_round_def split: mx_pc.splits if_splits option.splits)
next
  case (release s t ts mx)
  let ?q = "wl_queue (mx_waiters (ms_mutex s))"
  have "ts = take 1 ?q" "mx = (ms_mutex s)\<lparr>mx_locked := False, mx_owner := None,
      mx_waiters := (mx_waiters (ms_mutex s))\<lparr>wl_queue := drop 1 ?q\<rparr>\<rparr>"
    using release(2) by (auto simp: kmutex_release_def wl_pop_def)
  then show ?case by (cases ?q) (auto simp: mx_awake_def wake_def)
qed (auto simp: mx_awake_def)

section \<open>Reader-writer lock invariants\<close>

lemma card_pc_update:
  assumes "finite {u. P (pc u)}"
  shows "card {u. P ((pc(t := p)) u)} =
    (if P p then (if P (pc t) then card {u. P (pc u)} else Suc (card {u. P (pc u)}))
     else (if P (pc t) then card {u. P (pc u)} - 1 else card {u. P (pc u)}))"
proof -
  have "{u. P ((pc(t := p)) u)} = (if P p then insert t {u. P (pc u)} else {u. P (pc u)} - {t})" by auto
  then show ?thesis using assms by (auto simp: card_insert_if)
qed

lemma rw_count_finite:
  assumes "rw_count (rw, pc)" and "\<not> P RIdle"
  shows "finite {t. P (pc t)}"
  by (rule finite_subset [of _ "{t. pc t \<noteq> RIdle}"]) (use assms in \<open>auto simp: rw_count_def intro: ccontr\<close>)

lemma rw_count_zero:
  assumes "rw_count (rw, pc)"
  shows "0 < rw_active_readers rw \<longleftrightarrow> somebody {Reading} pc"
    and "0 < rw_waiting_writers rw \<longleftrightarrow> somebody {WAsleep, WWoken} pc"
  using rw_count_finite [OF assms, of "\<lambda>p. p = Reading"] rw_count_finite [OF assms, of "\<lambda>p. p \<in> {WAsleep, WWoken}"] assms
  by (auto simp: rw_count_def somebody_def card_gt_0_iff)

text \<open>Statements about who is where reduce to propositional ones about single positions.\<close>

lemma somebody_insert [simp]:
  "somebody (insert a (insert b P)) pc \<longleftrightarrow> somebody {a} pc \<or> somebody (insert b P) pc"
  by (auto simp: somebody_def)

lemma somebody_here: "pc t = x \<Longrightarrow> somebody {x} pc"
  by (auto simp: somebody_def)

lemma somebody_enter: "pc t \<noteq> x \<Longrightarrow> somebody {x} (pc(t := p)) \<longleftrightarrow> p = x \<or> somebody {x} pc"
  by (auto simp: somebody_def)

lemma somebody_leave: "somebody {x} (pc(t := p)) \<Longrightarrow> p = x \<or> somebody {x} pc"
  by (auto simp: somebody_def split: if_splits)

lemma somebody_wake:
  "(\<And>t. t \<in> set ts \<Longrightarrow> pc t \<noteq> x) \<Longrightarrow> somebody {x} (wake p ts pc) \<longleftrightarrow> p = x \<and> ts \<noteq> [] \<or> somebody {x} pc"
  by (cases ts) (auto simp: somebody_def wake_def)

lemma somebody_wake_leave: "somebody {x} (wake p ts pc) \<Longrightarrow> p = x \<or> somebody {x} pc"
  by (auto simp: somebody_def wake_def split: if_splits)

text \<open>A step of one thread changes the counters by what the thread leaves and enters.\<close>

lemma rw_count_step:
  assumes "rw_count (rw, pc)"
    and "rw_active_readers rw' = rw_active_readers rw + of_bool (p = Reading) - of_bool (pc t = Reading)"
    and "rw_waiting_writers rw' =
      rw_waiting_writers rw + of_bool (p \<in> {WAsleep, WWoken}) - of_bool (pc t \<in> {WAsleep, WWoken})"
  shows "rw_count (rw', pc(t := p))"
proof -
  have fin: "finite {u. pc u \<noteq> RIdle}" "finite {u. pc u = Reading}" "finite {u. pc u \<in> {WAsleep, WWoken}}"
    using rw_count_finite [OF assms(1), of "\<lambda>p. p \<noteq> RIdle"] rw_count_finite [OF assms(1), of "\<lambda>p. p = Reading"]
      rw_count_finite [OF assms(1), of "\<lambda>p. p \<in> {WAsleep, WWoken}"] by simp_all
  have "{u. (pc(t := p)) u \<noteq> RIdle} \<subseteq> insert t {u. pc u \<noteq> RIdle}" by auto
  then have "finite {u. (pc(t := p)) u \<noteq> RIdle}" by (rule finite_subset) (use fin(1) in simp)
  moreover have "card {u. pc u = Reading} > 0" if "pc t = Reading" using that fin(2) by (auto simp: card_gt_0_iff)
  moreover have "card {u. pc u \<in> {WAsleep, WWoken}} > 0" if "pc t \<in> {WAsleep, WWoken}"
    using that fin(3) by (auto simp: card_gt_0_iff)
  ultimately show ?thesis
    using assms card_pc_update [of "\<lambda>x. x = Reading" pc t p] card_pc_update [of "\<lambda>x. x \<in> {WAsleep, WWoken}" pc t p] fin
    by (auto simp: rw_count_def simp del: fun_upd_apply)
qed

lemma rw_count_wake:
  assumes "rw_count (rw, pc)" and "\<And>t. t \<in> set ts \<Longrightarrow> pc t = RAsleep \<and> p = RWoken \<or> pc t = WAsleep \<and> p = WWoken"
    and "rw_active_readers rw' = rw_active_readers rw" and "rw_waiting_writers rw' = rw_waiting_writers rw"
  shows "rw_count (rw', wake p ts pc)"
proof -
  have "wake p ts pc t = RIdle \<longleftrightarrow> pc t = RIdle" "wake p ts pc t = Reading \<longleftrightarrow> pc t = Reading"
    "wake p ts pc t \<in> {WAsleep, WWoken} \<longleftrightarrow> pc t \<in> {WAsleep, WWoken}" for t
    using assms(2) [of t] by (auto simp: wake_def)
  with assms show ?thesis by (simp add: rw_count_def)
qed

lemma rw_okI:
  "rw_count s \<Longrightarrow> rw_queues s \<Longrightarrow> rw_exclusive s \<Longrightarrow> rw_awake s \<Longrightarrow> rw_ok s"
  by (simp add: rw_ok_def)

lemma rw_okE:
  assumes "rw_ok s"
  obtains "rw_count s" "rw_queues s" "rw_exclusive s" "rw_awake s"
  using assms by (simp add: rw_ok_def)

text \<open>Taking a writer off its waitlist.\<close>

lemma rw_pop_writer_ok:
  assumes "rw_count (rw, pc)" and "rw_queues (rw, pc)" and "rw_exclusive (rw, pc)"
    and "somebody {RAsleep} pc \<longrightarrow> somebody {Writing, WAsleep, WWoken} pc"
    and "wl_pop (rw_writers_waitlist rw) = (ts, w)"
  shows "rw_ok (rw\<lparr>rw_writers_waitlist := w\<rparr>, wake WWoken ts pc)"
proof (rule rw_okI)
  let ?q = "wl_queue (rw_writers_waitlist rw)"
  have pop: "ts = take 1 ?q" "wl_queue w = drop 1 ?q" using assms(5) by (auto simp: wl_pop_def)
  have q: "t \<in> set ?q \<longleftrightarrow> pc t = WAsleep" "distinct ?q" for t using assms(2) by (auto simp: rw_queues_def)
  have ts: "pc t = WAsleep" if "t \<in> set ts" for t using that q(1) [of t] pop(1) by (cases ?q) auto
  show "rw_count (rw\<lparr>rw_writers_waitlist := w\<rparr>, wake WWoken ts pc)"
    by (rule rw_count_wake [OF assms(1)]) (use ts in auto)
  show "rw_exclusive (rw\<lparr>rw_writers_waitlist := w\<rparr>, wake WWoken ts pc)"
  proof -
    have "wake WWoken ts pc t = Writing \<longleftrightarrow> pc t = Writing" "wake WWoken ts pc t = Reading \<longleftrightarrow> pc t = Reading" for t
      using ts [of t] by (auto simp: wake_def)
    then show ?thesis using assms(3) by (simp add: rw_exclusive_def somebody_def)
  qed
  show "rw_queues (rw\<lparr>rw_writers_waitlist := w\<rparr>, wake WWoken ts pc)"
  proof -
    have "wake WWoken ts pc t = RAsleep \<longleftrightarrow> pc t = RAsleep" for t using ts [of t] by (auto simp: wake_def)
    moreover have "t \<in> set (drop 1 ?q) \<longleftrightarrow> wake WWoken ts pc t = WAsleep" for t
      using q(1) [of t] q(2) pop(1) by (cases ?q) (auto simp: wake_def)
    ultimately show ?thesis using assms(2) pop(2) by (simp add: rw_queues_def distinct_drop)
  qed
  have "ts \<noteq> []" if "somebody {WAsleep} pc" using that q(1) pop(1) by (cases ?q) (auto simp: somebody_def)
  moreover have "somebody {Writing} (wake WWoken ts pc) = somebody {Writing} pc"
    "somebody {RAsleep} (wake WWoken ts pc) = somebody {RAsleep} pc"
    "somebody {WWoken} (wake WWoken ts pc) = (ts \<noteq> [] \<or> somebody {WWoken} pc)"
    using ts by (auto simp: somebody_wake)
  moreover have "somebody {WAsleep} pc" if "somebody {WAsleep} (wake WWoken ts pc)"
    using somebody_wake_leave [OF that] by simp
  ultimately show "rw_awake (rw\<lparr>rw_writers_waitlist := w\<rparr>, wake WWoken ts pc)"
    using assms(4) by (auto simp: rw_awake_def)
qed

lemma rw_read_ok:
  assumes "rw_ok (rw, pc)" and "pc t \<in> {RIdle, RWoken}" and "krwlock_acquire_read t rw = (got, rw')"
  shows "rw_ok (rw', pc(t := if got then Reading else RAsleep))"
proof -
  obtain count: "rw_count (rw, pc)" and parts: "rw_queues (rw, pc)" "rw_exclusive (rw, pc)" "rw_awake (rw, pc)"
    using assms(1) by (rule rw_okE)
  note zero = rw_count_zero [OF count]
  have pct: "pc t \<noteq> Writing" "pc t \<noteq> Reading" "pc t \<noteq> WAsleep" "pc t \<noteq> WWoken" "pc t \<noteq> RAsleep" using assms(2) by auto
  have notin: "t \<notin> set (wl_queue (rw_readers_waitlist rw))" using parts(1) pct by (simp add: rw_queues_def)
  show ?thesis
  proof (cases got)
    case True
    then have rw': "\<not> rw_writer_active rw" "rw_waiting_writers rw = 0"
      "rw' = rw\<lparr>rw_active_readers := rw_active_readers rw + 1\<rparr>"
      using assms(3) by (auto simp: krwlock_acquire_read_def split: if_splits)
    have none: "\<not> somebody {Writing} pc" "\<not> somebody {WAsleep} pc" "\<not> somebody {WWoken} pc"
      using rw'(1,2) zero(2) parts(2) by (simp_all add: rw_exclusive_def)
    have "rw_ok (rw', pc(t := Reading))"
    proof (rule rw_okI)
      show "rw_count (rw', pc(t := Reading))" by (rule rw_count_step [OF count]) (simp_all add: rw' pct)
      show "rw_queues (rw', pc(t := Reading))" using parts(1) pct by (auto simp: rw_queues_def rw')
      show "rw_exclusive (rw', pc(t := Reading))"
        using rw'(1) none(1) by (auto simp: rw_exclusive_def rw'(3) somebody_enter pct) (auto simp: somebody_def)
      show "rw_awake (rw', pc(t := Reading))"
        using none parts(3) pct by (simp add: rw_awake_def somebody_enter)
    qed
    with True show ?thesis by simp
  next
    case False
    then have rw': "rw_writer_active rw \<or> rw_waiting_writers rw > 0"
      "rw' = rw\<lparr>rw_readers_waitlist := wl_insert_tail t (rw_readers_waitlist rw)\<rparr>"
      using assms(3) by (auto simp: krwlock_acquire_read_def split: if_splits)
    then have some: "somebody {Writing, WAsleep, WWoken} pc"
      using zero(2) parts(2) by (auto simp: rw_exclusive_def)
    have "rw_ok (rw', pc(t := RAsleep))"
    proof (rule rw_okI)
      show "rw_count (rw', pc(t := RAsleep))" by (rule rw_count_step [OF count]) (simp_all add: rw' pct)
      show "rw_queues (rw', pc(t := RAsleep))" using parts(1) pct notin by (auto simp: rw_queues_def rw'(2))
      show "rw_exclusive (rw', pc(t := RAsleep))"
        using parts(2) by (auto simp: rw_exclusive_def rw'(2) somebody_enter pct)
      show "rw_awake (rw', pc(t := RAsleep))" using some parts(3) pct by (simp add: rw_awake_def somebody_enter)
    qed
    with False show ?thesis by simp
  qed
qed

lemma rw_write_again_ok:
  assumes "rw_ok (rw, pc)" and pct: "pc t = WWoken" and "acquire_write_pass t rw = (got, rw')"
  shows "rw_ok (rw', pc(t := if got then Writing else WAsleep))"
proof -
  obtain count: "rw_count (rw, pc)" and parts: "rw_queues (rw, pc)" "rw_exclusive (rw, pc)" "rw_awake (rw, pc)"
    using assms(1) by (rule rw_okE)
  note zero = rw_count_zero [OF count]
  have pos: "0 < rw_waiting_writers rw" using zero(2) somebody_here [of pc t WWoken] pct by simp
  have notin: "t \<notin> set (wl_queue (rw_writers_waitlist rw))" using parts(1) pct by (simp add: rw_queues_def)
  show ?thesis
  proof (cases got)
    case True
    then have rw': "\<not> rw_writer_active rw" "rw_active_readers rw = 0"
      "rw' = rw\<lparr>rw_waiting_writers := rw_waiting_writers rw - 1, rw_writer_active := True\<rparr>"
      using assms(3) by (auto simp: acquire_write_pass_def split: if_splits)
    have none: "\<not> somebody {Writing} pc" "\<not> somebody {Reading} pc"
      using rw'(1,2) zero(1) parts(2) by (simp_all add: rw_exclusive_def)
    have "rw_ok (rw', pc(t := Writing))"
    proof (rule rw_okI)
      show "rw_count (rw', pc(t := Writing))" by (rule rw_count_step [OF count]) (simp_all add: rw' pct)
      show "rw_queues (rw', pc(t := Writing))" using parts(1) pct notin by (auto simp: rw_queues_def rw'(3))
      show "rw_exclusive (rw', pc(t := Writing))"
        using none by (auto simp: rw_exclusive_def rw'(3) somebody_def)
      show "rw_awake (rw', pc(t := Writing))" by (simp add: rw_awake_def somebody_enter pct)
    qed
    with True show ?thesis by simp
  next
    case False
    then have rw': "rw_writer_active rw \<or> rw_active_readers rw > 0"
      "rw' = rw\<lparr>rw_writers_waitlist := wl_insert_tail t (rw_writers_waitlist rw)\<rparr>"
      using assms(3) by (auto simp: acquire_write_pass_def split: if_splits)
    then have some: "somebody {Writing, Reading} pc" using zero(1) parts(2) by (auto simp: rw_exclusive_def)
    have "rw_ok (rw', pc(t := WAsleep))"
    proof (rule rw_okI)
      show "rw_count (rw', pc(t := WAsleep))" by (rule rw_count_step [OF count]) (use pos in \<open>simp_all add: rw' pct\<close>)
      show "rw_queues (rw', pc(t := WAsleep))" using parts(1) pct notin by (auto simp: rw_queues_def rw'(2))
      show "rw_exclusive (rw', pc(t := WAsleep))"
        using parts(2) by (auto simp: rw_exclusive_def rw'(2) somebody_enter pct)
      show "rw_awake (rw', pc(t := WAsleep))" using some parts(3) by (auto simp: rw_awake_def somebody_enter pct)
    qed
    with False show ?thesis by simp
  qed
qed

lemma rw_write_ok:
  assumes "rw_ok (rw, pc)" and pct: "pc t = RIdle" and "krwlock_acquire_write t rw = (got, rw')"
  shows "rw_ok (rw', pc(t := if got then Writing else WAsleep))"
proof -
  obtain count: "rw_count (rw, pc)" and parts: "rw_queues (rw, pc)" "rw_exclusive (rw, pc)" "rw_awake (rw, pc)"
    using assms(1) by (rule rw_okE)
  let ?rw = "rw\<lparr>rw_waiting_writers := rw_waiting_writers rw + 1\<rparr>"
  have "rw_ok (?rw, pc(t := WWoken))"
  proof (rule rw_okI)
    show "rw_count (?rw, pc(t := WWoken))" by (rule rw_count_step [OF count]) (simp_all add: pct)
    show "rw_queues (?rw, pc(t := WWoken))" using parts(1) pct by (auto simp: rw_queues_def)
    show "rw_exclusive (?rw, pc(t := WWoken))" using parts(2) by (auto simp: rw_exclusive_def somebody_enter pct)
    show "rw_awake (?rw, pc(t := WWoken))" by (simp add: rw_awake_def somebody_enter pct)
  qed
  from rw_write_again_ok [OF this, of t got rw'] assms(3) show ?thesis by (simp add: krwlock_acquire_write_def)
qed

lemma rw_read_done_ok:
  assumes "rw_ok (rw, pc)" and pct: "pc t = Reading" and "krwlock_release_read rw = (ts, rw')"
  shows "rw_ok (rw', wake WWoken ts (pc(t := RIdle)))"
proof -
  obtain count: "rw_count (rw, pc)" and parts: "rw_queues (rw, pc)" "rw_exclusive (rw, pc)" "rw_awake (rw, pc)"
    using assms(1) by (rule rw_okE)
  let ?rw = "rw\<lparr>rw_active_readers := rw_active_readers rw - 1\<rparr>" and ?pc = "pc(t := RIdle)"
  have count1: "rw_count (?rw, ?pc)" by (rule rw_count_step [OF count]) (simp_all add: pct)
  note zero = rw_count_zero [OF count1]
  have queues1: "rw_queues (?rw, ?pc)" using parts(1) pct by (auto simp: rw_queues_def)
  have excl1: "rw_exclusive (?rw, ?pc)" using parts(2) by (auto simp: rw_exclusive_def somebody_enter pct)
  have awake1: "somebody {RAsleep} ?pc \<longrightarrow> somebody {Writing, WAsleep, WWoken} ?pc"
    using parts(3) by (simp add: rw_awake_def somebody_enter pct)
  show ?thesis
  proof (cases "rw_active_readers ?rw = 0 \<and> rw_waiting_writers ?rw > 0")
    case True
    then obtain w where "wl_pop (rw_writers_waitlist ?rw) = (ts, w)" "rw' = ?rw\<lparr>rw_writers_waitlist := w\<rparr>"
      using assms(3) by (auto simp: krwlock_release_read_def Let_def split: prod.splits)
    then show ?thesis using rw_pop_writer_ok [OF count1 queues1 excl1 awake1] by simp
  next
    case False
    then have rw': "rw' = ?rw" "ts = []" using assms(3) by (auto simp: krwlock_release_read_def Let_def)
    have "somebody {Reading} ?pc \<or> \<not> somebody {WAsleep, WWoken} ?pc" using False zero by auto
    then have "rw_awake (?rw, ?pc)" using awake1 by (auto simp: rw_awake_def)
    moreover have "wake WWoken [] ?pc = ?pc" by (auto simp: wake_def)
    ultimately show ?thesis using rw' count1 queues1 excl1 by (simp add: rw_ok_def)
  qed
qed

lemma rw_write_done_ok:
  assumes "rw_ok (rw, pc)" and pct: "pc t = Writing" and "krwlock_release_write rw = (ts, rw')"
  shows "rw_ok (rw', wake (if rw_waiting_writers rw = 0 then RWoken else WWoken) ts (pc(t := RIdle)))"
proof -
  obtain count: "rw_count (rw, pc)" and parts: "rw_queues (rw, pc)" "rw_exclusive (rw, pc)" "rw_awake (rw, pc)"
    using assms(1) by (rule rw_okE)
  let ?rw = "rw\<lparr>rw_writer_active := False\<rparr>" and ?pc = "pc(t := RIdle)"
  have count1: "rw_count (?rw, ?pc)" by (rule rw_count_step [OF count]) (simp_all add: pct)
  note zero = rw_count_zero [OF count1]
  have queues1: "rw_queues (?rw, ?pc)" using parts(1) pct by (auto simp: rw_queues_def)
  have only: "pc u \<noteq> Writing" "pc u \<noteq> Reading" if "u \<noteq> t" for u
    using parts(2) pct that by (auto simp: rw_exclusive_def)
  have excl1: "rw_exclusive (?rw, ?pc)" using only by (auto simp: rw_exclusive_def somebody_def)
  show ?thesis
  proof (cases "rw_waiting_writers rw = 0")
    case False
    then obtain w where w: "wl_pop (rw_writers_waitlist ?rw) = (ts, w)" "rw' = ?rw\<lparr>rw_writers_waitlist := w\<rparr>"
      using assms(3) by (auto simp: krwlock_release_write_def Let_def split: prod.splits)
    have "somebody {WAsleep, WWoken} ?pc" using zero(2) False by auto
    then show ?thesis using rw_pop_writer_ok [OF count1 queues1 excl1 _ w(1)] w(2) False by auto
  next
    case True
    let ?q = "wl_queue (rw_readers_waitlist rw)"
    have rw': "ts = ?q" "rw' = ?rw\<lparr>rw_readers_waitlist := (rw_readers_waitlist rw)\<lparr>wl_queue := []\<rparr>\<rparr>"
      using assms(3) True by (auto simp: krwlock_release_write_def Let_def wl_pop_all_def)
    have ts: "u \<in> set ts \<longleftrightarrow> pc u = RAsleep" for u using parts(1) rw'(1) by (simp add: rw_queues_def)
    have none: "\<not> somebody {WAsleep, WWoken} ?pc" using zero(2) True by simp
    let ?p = "wake RWoken ts ?pc"
    have "rw_ok (rw', ?p)"
    proof (rule rw_okI)
      show "rw_count (rw', ?p)" by (rule rw_count_wake [OF count1]) (use ts pct in \<open>auto simp: rw'(2)\<close>)
      show "rw_queues (rw', ?p)" using parts(1) ts pct by (auto simp: rw_queues_def rw'(2) wake_def)
      show "rw_exclusive (rw', ?p)" using only ts by (auto simp: rw_exclusive_def rw'(2) somebody_def wake_def)
      show "rw_awake (rw', ?p)" using none ts by (auto simp: rw_awake_def somebody_def wake_def)
    qed
    with True show ?thesis by simp
  qed
qed

lemma rw_signal_ok:
  assumes "rw_ok (rw, pc)"
  shows "pc t = RAsleep \<Longrightarrow> rw_ok (rw\<lparr>rw_readers_waitlist := wl_remove t (rw_readers_waitlist rw)\<rparr>, pc(t := RWoken))"
    and "pc t = WAsleep \<Longrightarrow> rw_ok (rw\<lparr>rw_writers_waitlist := wl_remove t (rw_writers_waitlist rw)\<rparr>, pc(t := WWoken))"
proof -
  obtain count: "rw_count (rw, pc)" and parts: "rw_queues (rw, pc)" "rw_exclusive (rw, pc)" "rw_awake (rw, pc)"
    using assms by (rule rw_okE)
  show "rw_ok (rw\<lparr>rw_readers_waitlist := wl_remove t (rw_readers_waitlist rw)\<rparr>, pc(t := RWoken))" if pct: "pc t = RAsleep"
  proof (rule rw_okI)
    show "rw_count (rw\<lparr>rw_readers_waitlist := wl_remove t (rw_readers_waitlist rw)\<rparr>, pc(t := RWoken))"
      by (rule rw_count_step [OF count]) (simp_all add: pct)
  qed (use parts pct in \<open>auto simp: rw_queues_def rw_exclusive_def rw_awake_def somebody_enter dest: somebody_leave\<close>)
  show "rw_ok (rw\<lparr>rw_writers_waitlist := wl_remove t (rw_writers_waitlist rw)\<rparr>, pc(t := WWoken))" if pct: "pc t = WAsleep"
  proof (rule rw_okI)
    have "0 < rw_waiting_writers rw" using rw_count_zero(2) [OF count] somebody_here [of pc t WAsleep] pct by simp
    then show "rw_count (rw\<lparr>rw_writers_waitlist := wl_remove t (rw_writers_waitlist rw)\<rparr>, pc(t := WWoken))"
      by (intro rw_count_step [OF count]) (simp_all add: pct)
  qed (use parts pct in \<open>auto simp: rw_queues_def rw_exclusive_def rw_awake_def somebody_enter\<close>)
qed

lemma rw_step_ok: "rw_step s s' \<Longrightarrow> rw_ok s \<Longrightarrow> rw_ok s'"
  by (induction rule: rw_step.induct)
    (blast intro: rw_read_ok rw_read_done_ok rw_write_ok rw_write_again_ok rw_write_done_ok rw_signal_ok)+

lemma rw_boot_ok: "rw_ok (KRWLOCK_INIT, \<lambda>_. RIdle)"
  by (simp add: rw_ok_def rw_count_def rw_queues_def rw_exclusive_def rw_awake_def somebody_def
      KRWLOCK_INIT_def COM_SYS_THREAD_WAITLIST_INIT_def)

lemma mx_boot_ok: "mx_ok mx_boot" "mx_awake mx_boot"
  by (simp_all add: mx_ok_def mx_awake_def mx_boot_def KMUTEX_INIT_def COM_SYS_THREAD_WAITLIST_INIT_def)

section \<open>Properties\<close>

text \<open>
  spinlocks nest. An acquisition followed by its release restores the lock depth of the thread
  and the interrupt flag, so that interrupts are enabled exactly outside all critical sections. An
  acquisition that times out restores the depth but leaves interrupts disabled.
\<close>

theorem kspinlock_nesting:
  assumes "cx_lock_depth x = Some d" and "0 \<le> d" and "cx_interrupts x \<longleftrightarrow> d = 0"
  shows "(\<exists>y. kspinlock_acquire KSPINLOCK_NEW x = Ok (True, y) \<and> \<not> cx_interrupts y \<and> cx_lock_depth y = Some (d + 1) \<and>
      kspinlock_release True y = (KSPINLOCK_NEW, x)) \<and>
    kspinlock_fake_release (kspinlock_fake_acquire x) = x \<and>
    (\<forall>start timeout os y. kspinlock_acquire_timeout start timeout os x = Ok (False, y) \<longrightarrow>
      cx_lock_depth y = Some d \<and> \<not> cx_interrupts y)"
proof -
  have "x = \<lparr>cx_lock_depth = Some d, cx_interrupts = (d = 0)\<rparr>" using assms(1,3) by (cases x) simp
  then show ?thesis
    by (auto simp: kspinlock_acquire_def kspinlock_release_def KSPINLOCK_NEW_def INCREMENT_CURR_LOCK_DEPTH_def
        DECREMENT_CURR_LOCK_DEPTH_def decrement_lock_depth_tested_def kspinlock_fake_acquire_def
        kspinlock_fake_release_def kspinlock_acquire_timeout_def Let_def res_bind_eq_Ok split: if_splits)
qed

theorem kspinlock_nesting_witness:
  "\<exists>y. kspinlock_acquire_timeout 0 5 [Obs True 0, Obs True 10] \<lparr>cx_lock_depth = Some 0, cx_interrupts = True\<rparr> = Ok (False, y) \<and>
    cx_lock_depth y = Some 0 \<and> \<not> cx_interrupts y"
proof -
  let ?x = "\<lparr>cx_lock_depth = Some 0, cx_interrupts = True\<rparr>"
  obtain y where y: "kspinlock_acquire_timeout 0 5 [Obs True 0, Obs True 10] ?x = Ok (False, y)"
    by (simp add: kspinlock_acquire_timeout_def Let_def)
  with kspinlock_nesting [of ?x 0] show ?thesis by auto
qed

text \<open>
  C9: reader-writer locks are safe and lose no wakeup. After any interleaving of acquisitions,
  releases and signals, a writer excludes all other readers and writers, and if some thread sleeps
  then another one holds the lock or is an awake writer about to take it.
\<close>

theorem krwlock_safe:
  assumes "rw_step\<^sup>*\<^sup>* (KRWLOCK_INIT, \<lambda>_. RIdle) (rw, pc)"
  shows "(\<forall>t u. pc t = Writing \<and> pc u \<in> {Reading, Writing} \<longrightarrow> t = u) \<and>
    ((\<exists>t. pc t \<in> {RAsleep, WAsleep}) \<longrightarrow> (\<exists>t. pc t \<in> {Reading, Writing, WWoken}))"
proof -
  have "rw_ok (rw, pc)" using assms by (induction rule: rtranclp_induct) (use rw_boot_ok rw_step_ok in blast)+
  then have "rw_exclusive (rw, pc)" "rw_awake (rw, pc)" by (simp_all add: rw_ok_def)
  then show ?thesis by (auto simp: rw_exclusive_def rw_awake_def somebody_def)
qed

theorem krwlock_safe_witness:
  "\<exists>rw pc. rw_step\<^sup>*\<^sup>* (KRWLOCK_INIT, \<lambda>_. RIdle) (rw, pc) \<and> pc 1 = WAsleep \<and> (\<exists>t. pc t \<in> {Reading, Writing, WWoken})"
proof -
  let ?rw1 = "KRWLOCK_INIT\<lparr>rw_active_readers := 1\<rparr>"
  let ?rw2 = "?rw1\<lparr>rw_waiting_writers := 1, rw_writers_waitlist := wl_insert_tail 1 (rw_writers_waitlist ?rw1)\<rparr>"
  have 1: "rw_step (KRWLOCK_INIT, \<lambda>_. RIdle) (?rw1, (\<lambda>_. RIdle)(0 := if True then Reading else RAsleep))"
    by (rule rw_step.read) (simp_all add: krwlock_acquire_read_def KRWLOCK_INIT_def)
  have 2: "rw_step (?rw1, (\<lambda>_. RIdle)(0 := if True then Reading else RAsleep))
      (?rw2, ((\<lambda>_. RIdle)(0 := if True then Reading else RAsleep))(1 := if False then Writing else WAsleep))"
    by (rule rw_step.writer) (simp_all add: krwlock_acquire_write_def acquire_write_pass_def KRWLOCK_INIT_def)
  have run: "rw_step\<^sup>*\<^sup>* (KRWLOCK_INIT, \<lambda>_. RIdle)
      (?rw2, ((\<lambda>_. RIdle)(0 := if True then Reading else RAsleep))(1 := if False then Writing else WAsleep))"
    using 1 2 by (meson rtranclp.rtrancl_refl rtranclp.rtrancl_into_rtrancl)
  define pc :: "nat \<Rightarrow> rw_pc" where
    "pc = ((\<lambda>_. RIdle)(0 := if True then Reading else RAsleep))(1 := if False then Writing else WAsleep)"
  have "pc 1 = WAsleep" by (simp add: pc_def)
  then have "pc 1 \<in> {RAsleep, WAsleep}" by simp
  with krwlock_safe [OF run [folded pc_def]] have "\<exists>t. pc t \<in> {Reading, Writing, WWoken}" by blast
  with run [folded pc_def] \<open>pc 1 = WAsleep\<close> show ?thesis by blast
qed

text \<open>
  C10: a mutex has at most one holder, which is its owner. When nobody passes a timeout, no wakeup is
  lost: whenever the mutex is free and threads sleep on it, some thread is awake to take it.
\<close>

theorem kmutex_safe:
  assumes "(mx_step tmo)\<^sup>*\<^sup>* mx_boot s"
  shows "(\<forall>t. ms_pc s t = MHolds \<longleftrightarrow> mx_owner (ms_mutex s) = Some t) \<and>
    (mx_locked (ms_mutex s) \<longleftrightarrow> (\<exists>t. ms_pc s t = MHolds)) \<and>
    ((\<forall>t. tmo t = 0) \<and> \<not> mx_locked (ms_mutex s) \<and> (\<exists>t. ms_pc s t = MAsleep) \<longrightarrow> (\<exists>t. ms_pc s t = MWoken))"
proof -
  have ok: "mx_ok s" using assms by (induction rule: rtranclp_induct) (use mx_boot_ok(1) mx_step_ok in blast)+
  have "mx_awake s" if "\<forall>t. tmo t = 0"
    using assms
  proof (induction rule: rtranclp_induct)
    case (step y z)
    have "mx_ok y" using step(1) by (induction rule: rtranclp_induct) (use mx_boot_ok(1) mx_step_ok in blast)+
    then show ?case using mx_step_awake [OF step(2)] step(3) that by simp
  qed (rule mx_boot_ok(2))
  moreover have "wl_queue (mx_waiters (ms_mutex s)) \<noteq> []" if "ms_pc s t = MAsleep" for t
    using ok that by (auto simp: mx_ok_def)
  moreover have "(\<forall>t. ms_pc s t = MHolds \<longleftrightarrow> mx_owner (ms_mutex s) = Some t)" "mx_locked (ms_mutex s) \<longleftrightarrow> mx_owner (ms_mutex s) \<noteq> None"
    using ok by (simp_all add: mx_ok_def)
  ultimately show ?thesis by (auto simp: mx_awake_def)
qed

theorem kmutex_safe_witness:
  "\<exists>s. (mx_step (\<lambda>_. 0))\<^sup>*\<^sup>* mx_boot s \<and> ms_pc s 0 = MHolds \<and> mx_owner (ms_mutex s) = Some 0"
proof -
  define s1 where "s1 = mx_boot\<lparr>ms_pc := (ms_pc mx_boot)(0 := MSpin 0)\<rparr>"
  define s2 where "s2 = s1\<lparr>ms_mutex := mutex_take 0 (ms_mutex s1), ms_pc := (ms_pc s1)(0 := MHolds)\<rparr>"
  have "kmutex_acquire_timeout (\<lambda>_. 0) (\<lambda>_. None) 0 0 mx_boot = Some s1"
    by (simp add: kmutex_acquire_timeout_def s1_def mx_boot_def)
  moreover have "kmutex_acquire_timeout (\<lambda>_. 0) (\<lambda>_. None) 0 0 s1 = Some s2"
    by (simp add: kmutex_acquire_timeout_def s2_def s1_def mx_boot_def KMUTEX_INIT_def try_round_def CONFIG_MUTEX_RETRIES_def)
  ultimately have run: "(mx_step (\<lambda>_. 0))\<^sup>*\<^sup>* mx_boot s2"
    by (meson mx_step.acquire rtranclp.rtrancl_into_rtrancl rtranclp.rtrancl_refl)
  have "ms_pc s2 0 = MHolds" by (simp add: s2_def)
  with kmutex_safe [OF run] run show ?thesis by blast
qed


end
