(* ===== verification/Sched.thy ===== *)
theory Sched
  imports Callout Locks
begin

text \<open>
  Threads and the scheduler: \<^verbatim>\<open>src/com/sys/thread.c\<close> and \<^verbatim>\<open>src/com/sys/sched.c\<close>. An operation runs on a
  processor \<open>cpu\<close> on behalf of that processor's current thread. A context switch ends the part of an
  operation that runs before the thread sleeps; what follows the switch, once the thread runs
  again, is a separate definition. Register contents, stacks, the profiler and the accounting of
  time slept are left out.
\<close>

section \<open>State\<close>

datatype com_thread_state =
    E_COM_THREAD_STATE_NEW | E_COM_THREAD_STATE_WAITING | E_COM_THREAD_STATE_READY
  | E_COM_THREAD_STATE_RUNNING | E_COM_THREAD_STATE_EXITED

text \<open>A waitlist is an object of its own, or the list of waiters of a mutex.\<close>

datatype wl_ref = Waitlist nat | MutexWaiters nat

record com_thread =
  th_sched_lock :: bool
  th_proc :: "nat option"
  th_cpu :: "nat option"
  th_last_cpu :: "nat option"
  th_state :: com_thread_state
  th_lock_depth :: int
  th_tid :: nat
  th_user :: bool
  th_waiting_on :: "wl_ref option"
  th_timed_wait_callout :: nat
  th_timed_wait_expired :: bool
  th_pending_signals :: u64
  th_masked_signals :: u64

record arch_cpu =
  cpu_thread :: "nat option"
  cpu_runqueue_lock :: bool
  cpu_sched_queue :: "nat list"
  cpu_idle_thread :: nat
  cpu_vmm :: "nat option"

datatype ipi = ARCH_CPU_IPI_RESCHEDULE | ARCH_CPU_IPI_SIGNAL

text \<open>
  \<open>sc_running\<close> and \<open>sc_vmm\<close> are the number of running threads and the address space of a process;
  \<open>sc_ipis\<close> lists the interrupts sent to other processors.
\<close>

record sched =
  sc_thread :: "nat \<Rightarrow> com_thread"
  sc_cpu :: "nat \<Rightarrow> arch_cpu"
  sc_waitlist :: "nat \<Rightarrow> com_waitlist"
  sc_mutex :: "nat \<Rightarrow> kmutex"
  sc_running :: "nat \<Rightarrow> u64"
  sc_vmm :: "nat \<Rightarrow> nat option"
  sc_callouts :: callouts
  sc_ipis :: "(nat \<times> ipi) list"
  sc_next_tid :: nat

definition upd_thread :: "nat \<Rightarrow> (com_thread \<Rightarrow> com_thread) \<Rightarrow> 'a sched_scheme \<Rightarrow> 'a sched_scheme" where
  "upd_thread t f s = s\<lparr>sc_thread := (sc_thread s)(t := f (sc_thread s t))\<rparr>"

definition upd_cpu :: "nat \<Rightarrow> (arch_cpu \<Rightarrow> arch_cpu) \<Rightarrow> 'a sched_scheme \<Rightarrow> 'a sched_scheme" where
  "upd_cpu c f s = s\<lparr>sc_cpu := (sc_cpu s)(c := f (sc_cpu s c))\<rparr>"

fun get_wl :: "wl_ref \<Rightarrow> 'a sched_scheme \<Rightarrow> com_waitlist" where
  "get_wl (Waitlist w) s = sc_waitlist s w"
| "get_wl (MutexWaiters m) s = mx_waiters (sc_mutex s m)"

fun upd_wl :: "wl_ref \<Rightarrow> (com_waitlist \<Rightarrow> com_waitlist) \<Rightarrow> 'a sched_scheme \<Rightarrow> 'a sched_scheme" where
  "upd_wl (Waitlist w) f s = s\<lparr>sc_waitlist := (sc_waitlist s)(w := f (sc_waitlist s w))\<rparr>"
| "upd_wl (MutexWaiters m) f s =
     s\<lparr>sc_mutex := (sc_mutex s)(m := (sc_mutex s m)\<lparr>mx_waiters := f (mx_waiters (sc_mutex s m))\<rparr>)\<rparr>"

definition send_ipi :: "nat \<Rightarrow> ipi \<Rightarrow> 'a sched_scheme \<Rightarrow> 'a sched_scheme" where
  "send_ipi c i s = s\<lparr>sc_ipis := sc_ipis s @ [(c, i)]\<rparr>"

text \<open>The lock depth of the thread that runs on a processor.\<close>

definition add_depth :: "nat \<Rightarrow> int \<Rightarrow> 'a sched_scheme \<Rightarrow> 'a sched_scheme" where
  "add_depth cpu d s =
     (case cpu_thread (sc_cpu s cpu) of
        None \<Rightarrow> s
      | Some t \<Rightarrow> upd_thread t (\<lambda>th. th\<lparr>th_lock_depth := th_lock_depth th + d\<rparr>) s)"

text \<open>Taking and dropping the scheduler lock of a thread.\<close>

definition sched_lock_acquire :: "nat \<Rightarrow> nat \<Rightarrow> 'a sched_scheme \<Rightarrow> 'a sched_scheme res" where
  "sched_lock_acquire cpu t s =
     (if th_sched_lock (sc_thread s t) then Blocked
      else Ok (add_depth cpu 1 (upd_thread t (\<lambda>th. th\<lparr>th_sched_lock := True\<rparr>) s)))"

definition sched_lock_release :: "nat \<Rightarrow> nat \<Rightarrow> 'a sched_scheme \<Rightarrow> 'a sched_scheme" where
  "sched_lock_release cpu t s = add_depth cpu (- 1) (upd_thread t (\<lambda>th. th\<lparr>th_sched_lock := False\<rparr>) s)"

section \<open>Thread states\<close>

definition com_sys_thread_transition_nolock ::
  "nat \<Rightarrow> com_thread_state \<Rightarrow> 'a sched_scheme \<Rightarrow> 'a sched_scheme res" where
  "com_sys_thread_transition_nolock t state s =
     (let th = sc_thread s t in
      kassert (th_state th \<noteq> E_COM_THREAD_STATE_EXITED)
        (kassert
          (case state of
             E_COM_THREAD_STATE_NEW \<Rightarrow> False
           | E_COM_THREAD_STATE_READY \<Rightarrow> th_state th \<noteq> E_COM_THREAD_STATE_EXITED \<and> th_waiting_on th = None
           | E_COM_THREAD_STATE_WAITING \<Rightarrow> th_waiting_on th \<noteq> None
           | E_COM_THREAD_STATE_RUNNING \<Rightarrow> th_cpu th \<noteq> None \<and> th_waiting_on th = None
           | E_COM_THREAD_STATE_EXITED \<Rightarrow> True)
          (Ok (upd_thread t (\<lambda>th. th\<lparr>th_state := state\<rparr>) s))))"

definition com_sys_thread_transition ::
  "nat \<Rightarrow> nat \<Rightarrow> com_thread_state \<Rightarrow> 'a sched_scheme \<Rightarrow> 'a sched_scheme res" where
  "com_sys_thread_transition cpu t state s =
     res_bind (sched_lock_acquire cpu t s) (\<lambda>s1.
     res_bind (com_sys_thread_transition_nolock t state s1) (\<lambda>s2.
     Ok (sched_lock_release cpu t s2)))"

text \<open>\<open>rnd\<close> is the processor that \<^verbatim>\<open>x86_64_smp_get_random\<close> picks for a thread that has not run yet.\<close>

definition com_sys_thread_ready_nolock :: "nat \<Rightarrow> nat \<Rightarrow> 'a sched_scheme \<Rightarrow> 'a sched_scheme res" where
  "com_sys_thread_ready_nolock rnd t s =
     (let s1 = upd_thread t (\<lambda>th. th\<lparr>th_waiting_on := None\<rparr>) s in
      res_bind (com_sys_thread_transition_nolock t E_COM_THREAD_STATE_READY s1) (\<lambda>s2.
        let ready_cpu = (case th_last_cpu (sc_thread s t) of None \<Rightarrow> rnd | Some c \<Rightarrow> c) in
        if cpu_runqueue_lock (sc_cpu s2 ready_cpu) then Blocked
        else Ok (send_ipi ready_cpu ARCH_CPU_IPI_RESCHEDULE
          (upd_cpu ready_cpu (\<lambda>c. c\<lparr>cpu_sched_queue := cpu_sched_queue c @ [t]\<rparr>) s2))))"

definition com_sys_thread_ready :: "nat \<Rightarrow> nat \<Rightarrow> nat \<Rightarrow> 'a sched_scheme \<Rightarrow> 'a sched_scheme res" where
  "com_sys_thread_ready cpu rnd t s =
     res_bind (sched_lock_acquire cpu t s) (\<lambda>s1.
     res_bind (com_sys_thread_ready_nolock rnd t s1) (\<lambda>s2.
     Ok (sched_lock_release cpu t s2)))"

fun ready_each :: "nat \<Rightarrow> nat \<Rightarrow> nat list \<Rightarrow> 'a sched_scheme \<Rightarrow> 'a sched_scheme res" where
  "ready_each cpu rnd [] s = Ok s"
| "ready_each cpu rnd (t # ts) s = res_bind (com_sys_thread_ready cpu rnd t s) (ready_each cpu rnd ts)"

section \<open>Yielding\<close>

definition sched_switch_vmm_context :: "nat \<Rightarrow> nat \<Rightarrow> nat \<Rightarrow> 'a sched_scheme \<Rightarrow> 'a sched_scheme" where
  "sched_switch_vmm_context cpu cur nxt s =
     (let s1 = (case th_proc (sc_thread s nxt) of
                  None \<Rightarrow> s | Some p \<Rightarrow> s\<lparr>sc_running := (sc_running s)(p := sc_running s p + 1)\<rparr>);
          next_ctx = (case th_proc (sc_thread s nxt) of None \<Rightarrow> None | Some p \<Rightarrow> sc_vmm s p);
          s2 = (case th_proc (sc_thread s cur) of
                  None \<Rightarrow> s1 | Some p \<Rightarrow> s1\<lparr>sc_running := (sc_running s1)(p := sc_running s1 p - 1)\<rparr>);
          prev_ctx = (case th_proc (sc_thread s cur) of None \<Rightarrow> None | Some p \<Rightarrow> sc_vmm s p)
      in if \<not> th_user (sc_thread s nxt) then upd_cpu cpu (\<lambda>c. c\<lparr>cpu_vmm := None\<rparr>) s2
         else if next_ctx \<noteq> None \<and> next_ctx \<noteq> prev_ctx then upd_cpu cpu (\<lambda>c. c\<lparr>cpu_vmm := next_ctx\<rparr>) s2
         else s2)"

text \<open>
  The thread to run next: the head of the run queue; the idle thread when the queue is empty and the
  current thread cannot go on. \<open>None\<close> means that the current thread goes on.
\<close>

definition pick_next :: "nat \<Rightarrow> nat \<Rightarrow> 'a sched_scheme \<Rightarrow> (nat \<times> 'a sched_scheme) option res" where
  "pick_next cpu cur s =
     (case cpu_sched_queue (sc_cpu s cpu) of
        [] \<Rightarrow> if th_state (sc_thread s cur) = E_COM_THREAD_STATE_RUNNING then Ok None
              else Ok (Some (cpu_idle_thread (sc_cpu s cpu), s))
      | nxt # rest \<Rightarrow>
          kassert (nxt \<noteq> cpu_idle_thread (sc_cpu s cpu))
            (Ok (Some (nxt, upd_cpu cpu (\<lambda>c. c\<lparr>cpu_sched_queue := rest\<rparr>) s))))"

text \<open>A thread that was running goes back to the run queue, unless it is the idle thread.\<close>

definition put_back :: "nat \<Rightarrow> nat \<Rightarrow> 'a sched_scheme \<Rightarrow> 'a sched_scheme res" where
  "put_back cpu cur s =
     (if th_state (sc_thread s cur) = E_COM_THREAD_STATE_RUNNING
      then res_bind (com_sys_thread_transition_nolock cur E_COM_THREAD_STATE_READY s) (\<lambda>s1.
        Ok (if cur \<noteq> cpu_idle_thread (sc_cpu s1 cpu)
            then upd_cpu cpu (\<lambda>c. c\<lparr>cpu_sched_queue := cpu_sched_queue c @ [cur]\<rparr>) s1 else s1))
      else Ok s)"

text \<open>The switch: the next thread becomes current and the lock of the old one is dropped.\<close>

definition switch_to :: "nat \<Rightarrow> nat \<Rightarrow> nat \<Rightarrow> 'a sched_scheme \<Rightarrow> 'a sched_scheme res" where
  "switch_to cpu cur nxt s =
     (let s1 = upd_thread cur (\<lambda>th. th\<lparr>th_cpu := None, th_last_cpu := Some cpu\<rparr>) s;
          s2 = add_depth cpu (- 1) s1;
          s3 = sched_switch_vmm_context cpu cur nxt s2;
          s4 = upd_thread nxt (\<lambda>th. th\<lparr>th_cpu := Some cpu\<rparr>) (upd_cpu cpu (\<lambda>c. c\<lparr>cpu_thread := Some nxt\<rparr>) s3)
      in res_bind (com_sys_thread_transition_nolock nxt E_COM_THREAD_STATE_RUNNING s4) (\<lambda>s5.
           Ok (upd_thread cur (\<lambda>th. th\<lparr>th_sched_lock := False\<rparr>)
             (upd_thread nxt (\<lambda>th. th\<lparr>th_lock_depth := th_lock_depth th - 1\<rparr>) s5))))"

definition com_sys_sched_yield_nolock :: "nat \<Rightarrow> 'a sched_scheme \<Rightarrow> 'a sched_scheme res" where
  "com_sys_sched_yield_nolock cpu s =
     (if cpu_runqueue_lock (sc_cpu s cpu) then Blocked
      else case cpu_thread (sc_cpu s cpu) of
        None \<Rightarrow> Ok s
      | Some cur \<Rightarrow>
          let s1 = add_depth cpu 1 s in
          kassert (th_sched_lock (sc_thread s1 cur))
            (kassert (th_lock_depth (sc_thread s1 cur) \<in> {2, 3})
              (res_bind (pick_next cpu cur s1) (\<lambda>r. case r of
                 None \<Rightarrow> Ok (sched_lock_release cpu cur (add_depth cpu (- 1) s1))
               | Some (nxt, s2) \<Rightarrow>
                   kassert (cur \<noteq> nxt)
                     (res_bind (put_back cpu cur s2) (\<lambda>s3.
                      kassert (th_state (sc_thread s3 cur) \<noteq> E_COM_THREAD_STATE_RUNNING)
                        (switch_to cpu cur nxt s3)))))))"

definition com_sys_sched_yield :: "nat \<Rightarrow> 'a sched_scheme \<Rightarrow> 'a sched_scheme res" where
  "com_sys_sched_yield cpu s =
     (case cpu_thread (sc_cpu s cpu) of
        None \<Rightarrow> com_sys_sched_yield_nolock cpu s
      | Some cur \<Rightarrow> res_bind (sched_lock_acquire cpu cur s) (com_sys_sched_yield_nolock cpu))"

definition com_sys_sched_isr :: "nat \<Rightarrow> 'a sched_scheme \<Rightarrow> 'a sched_scheme res" where
  "com_sys_sched_isr cpu s = com_sys_sched_yield cpu s"

definition com_sys_thread_exit_nolock :: "nat \<Rightarrow> nat \<Rightarrow> 'a sched_scheme \<Rightarrow> 'a sched_scheme res" where
  "com_sys_thread_exit_nolock cpu t s =
     res_bind (com_sys_thread_transition_nolock t E_COM_THREAD_STATE_EXITED s) (\<lambda>s1.
       case th_cpu (sc_thread s1 t) of
         None \<Rightarrow> Ok s1
       | Some c \<Rightarrow> if c \<noteq> cpu then Ok (send_ipi c ARCH_CPU_IPI_RESCHEDULE s1)
                   else com_sys_sched_yield_nolock cpu s1)"

text \<open>
  A thread that exits itself does not come back from the switch, which has dropped its lock; for
  another thread the lock is dropped at the end.
\<close>

definition com_sys_thread_exit :: "nat \<Rightarrow> nat \<Rightarrow> 'a sched_scheme \<Rightarrow> 'a sched_scheme res" where
  "com_sys_thread_exit cpu t s =
     res_bind (sched_lock_acquire cpu t s) (\<lambda>s1.
     res_bind (com_sys_thread_exit_nolock cpu t s1) (\<lambda>s2.
       Ok (if th_cpu (sc_thread s1 t) = Some cpu then s2 else sched_lock_release cpu t s2)))"

section \<open>Sleeping\<close>

definition sched_waitlist_insert :: "wl_ref \<Rightarrow> nat \<Rightarrow> 'a sched_scheme \<Rightarrow> 'a sched_scheme res" where
  "sched_waitlist_insert w t s =
     res_bind (com_sys_thread_transition_nolock t E_COM_THREAD_STATE_WAITING
       (upd_thread t (\<lambda>th. th\<lparr>th_waiting_on := Some w\<rparr>) s)) (\<lambda>s1.
     if wl_lock (get_wl w s1) then Blocked else Ok (upd_wl w (wl_insert_tail t) s1))"

text \<open>\<open>start_wait\<close> is the common beginning: lock the thread, queue it, drop what the caller holds, yield.\<close>

definition start_wait ::
  "nat \<Rightarrow> wl_ref \<Rightarrow> ('a sched_scheme \<Rightarrow> 'a sched_scheme res) \<Rightarrow> 'a sched_scheme \<Rightarrow> 'a sched_scheme res" where
  "start_wait cpu w unlock s =
     (case cpu_thread (sc_cpu s cpu) of
        None \<Rightarrow> Panic
      | Some cur \<Rightarrow>
          res_bind (sched_lock_acquire cpu cur s) (\<lambda>s1.
          res_bind (sched_waitlist_insert w cur s1) (\<lambda>s2.
          res_bind (unlock s2) (com_sys_sched_yield_nolock cpu))))"

definition cur_depth :: "nat \<Rightarrow> 'a sched_scheme \<Rightarrow> int" where
  "cur_depth cpu s = (case cpu_thread (sc_cpu s cpu) of None \<Rightarrow> 0 | Some t \<Rightarrow> th_lock_depth (sc_thread s t))"

definition com_sys_sched_wait_nodrop :: "nat \<Rightarrow> wl_ref \<Rightarrow> 'a sched_scheme \<Rightarrow> 'a sched_scheme res" where
  "com_sys_sched_wait_nodrop cpu w s = kassert (cur_depth cpu s = 0) (start_wait cpu w Ok s)"

text \<open>
  Waiting with a spinlock: the caller's lock, which counts one in the lock depth, is dropped before
  the switch and taken again by the caller afterwards.
\<close>

definition com_sys_sched_wait :: "nat \<Rightarrow> wl_ref \<Rightarrow> 'a sched_scheme \<Rightarrow> 'a sched_scheme res" where
  "com_sys_sched_wait cpu w s =
     kassert (cur_depth cpu s = 1) (start_wait cpu w (\<lambda>s. Ok (add_depth cpu (- 1) s)) s)"

definition mutex_drop :: "nat \<Rightarrow> nat \<Rightarrow> nat \<Rightarrow> 'a sched_scheme \<Rightarrow> 'a sched_scheme res" where
  "mutex_drop cpu rnd m s =
     res_bind (kmutex_release (sc_mutex s m)) (\<lambda>(ts, mx).
       ready_each cpu rnd ts (s\<lparr>sc_mutex := (sc_mutex s)(m := mx)\<rparr>))"

definition com_sys_sched_wait_mutex :: "nat \<Rightarrow> nat \<Rightarrow> wl_ref \<Rightarrow> nat \<Rightarrow> 'a sched_scheme \<Rightarrow> 'a sched_scheme res" where
  "com_sys_sched_wait_mutex cpu rnd w m s = start_wait cpu w (mutex_drop cpu rnd m) s"

definition SCHED_HANDLE_TIMEOUT :: u64 where
  "SCHED_HANDLE_TIMEOUT = 1"

definition arm_timeout :: "nat \<Rightarrow> u64 \<Rightarrow> 'a sched_scheme \<Rightarrow> 'a sched_scheme res" where
  "arm_timeout cpu timeout s =
     (case cpu_thread (sc_cpu s cpu) of
        None \<Rightarrow> Panic
      | Some cur \<Rightarrow>
          let s1 = upd_thread cur (\<lambda>th. th\<lparr>th_timed_wait_expired := False\<rparr>) s in
          if timeout \<noteq> 0
          then res_bind (com_sys_callout_set_and_enqueue (th_timed_wait_callout (sc_thread s cur))
                 SCHED_HANDLE_TIMEOUT timeout (sc_callouts s1)) (\<lambda>c. Ok (s1\<lparr>sc_callouts := c\<rparr>))
          else Ok s1)"

definition com_sys_sched_wait_nodrop_timeout :: "nat \<Rightarrow> wl_ref \<Rightarrow> u64 \<Rightarrow> 'a sched_scheme \<Rightarrow> 'a sched_scheme res" where
  "com_sys_sched_wait_nodrop_timeout cpu w timeout s =
     kassert (cur_depth cpu s = 0) (res_bind (arm_timeout cpu timeout s) (start_wait cpu w Ok))"

definition com_sys_sched_wait_spinlock_timeout :: "nat \<Rightarrow> wl_ref \<Rightarrow> u64 \<Rightarrow> 'a sched_scheme \<Rightarrow> 'a sched_scheme res" where
  "com_sys_sched_wait_spinlock_timeout cpu w timeout s =
     kassert (cur_depth cpu s = 1)
       (res_bind (arm_timeout cpu timeout s) (start_wait cpu w (\<lambda>s. Ok (add_depth cpu (- 1) s))))"

definition com_sys_sched_wait_mutex_timeout ::
  "nat \<Rightarrow> nat \<Rightarrow> wl_ref \<Rightarrow> nat \<Rightarrow> u64 \<Rightarrow> 'a sched_scheme \<Rightarrow> 'a sched_scheme res" where
  "com_sys_sched_wait_mutex_timeout cpu rnd w m timeout s =
     kassert (cur_depth cpu s = 0) (res_bind (arm_timeout cpu timeout s) (start_wait cpu w (mutex_drop cpu rnd m)))"

text \<open>After the switch back: the callout is cancelled and the timeout reported.\<close>

definition finish_timed_wait :: "nat \<Rightarrow> u64 \<Rightarrow> 'a sched_scheme \<Rightarrow> (errno \<times> 'a sched_scheme) res" where
  "finish_timed_wait cpu timeout s =
     (case cpu_thread (sc_cpu s cpu) of
        None \<Rightarrow> Panic
      | Some cur \<Rightarrow>
          res_bind (com_sys_callout_cancel (th_timed_wait_callout (sc_thread s cur)) (sc_callouts s)) (\<lambda>c.
            Ok (if timeout \<noteq> 0 \<and> th_timed_wait_expired (sc_thread s cur) then ETIMEDOUT else EOK,
                s\<lparr>sc_callouts := c\<rparr>)))"

section \<open>Waking\<close>

text \<open>
  A notification takes threads off the list under the list's lock and makes them ready afterwards,
  under their own locks.
\<close>

definition notify_pop :: "(com_waitlist \<Rightarrow> nat list \<times> com_waitlist) \<Rightarrow> wl_ref \<Rightarrow> 'a sched_scheme
    \<Rightarrow> (nat list \<times> 'a sched_scheme) res" where
  "notify_pop pop w s =
     (if wl_lock (get_wl w s) then Blocked
      else Ok (fst (pop (get_wl w s)), upd_wl w (\<lambda>wl. snd (pop wl)) s))"

definition com_sys_sched_notify :: "nat \<Rightarrow> nat \<Rightarrow> wl_ref \<Rightarrow> 'a sched_scheme \<Rightarrow> 'a sched_scheme res" where
  "com_sys_sched_notify cpu rnd w s = res_bind (notify_pop wl_pop w s) (\<lambda>(ts, s1). ready_each cpu rnd ts s1)"

definition com_sys_sched_notify_all :: "nat \<Rightarrow> nat \<Rightarrow> wl_ref \<Rightarrow> 'a sched_scheme \<Rightarrow> 'a sched_scheme res" where
  "com_sys_sched_notify_all cpu rnd w s = res_bind (notify_pop wl_pop_all w s) (\<lambda>(ts, s1). ready_each cpu rnd ts s1)"

definition com_sys_sched_notify_n :: "nat \<Rightarrow> nat \<Rightarrow> wl_ref \<Rightarrow> nat \<Rightarrow> 'a sched_scheme \<Rightarrow> 'a sched_scheme res" where
  "com_sys_sched_notify_n cpu rnd w n s = res_bind (notify_pop (wl_pop_n n) w s) (\<lambda>(ts, s1). ready_each cpu rnd ts s1)"

text \<open>Unlinking a thread that is not on the list follows stale links: a fault.\<close>

definition com_sys_sched_notify_thread_nolock :: "nat \<Rightarrow> nat \<Rightarrow> 'a sched_scheme \<Rightarrow> 'a sched_scheme res" where
  "com_sys_sched_notify_thread_nolock rnd t s =
     (case th_waiting_on (sc_thread s t) of
        None \<Rightarrow> Ok s
      | Some w \<Rightarrow>
          kassert (th_cpu (sc_thread s t) = None)
            (if wl_lock (get_wl w s) then Blocked
             else kassert (t \<in> set (wl_queue (get_wl w s)))
               (com_sys_thread_ready_nolock rnd t (upd_wl w (wl_remove t) s))))"

definition com_sys_sched_notify_thread :: "nat \<Rightarrow> nat \<Rightarrow> nat \<Rightarrow> 'a sched_scheme \<Rightarrow> 'a sched_scheme res" where
  "com_sys_sched_notify_thread cpu rnd t s =
     res_bind (sched_lock_acquire cpu t s) (\<lambda>s1.
     res_bind (com_sys_sched_notify_thread_nolock rnd t s1) (\<lambda>s2.
     Ok (sched_lock_release cpu t s2)))"

definition sched_handle_timeout :: "nat \<Rightarrow> nat \<Rightarrow> nat \<Rightarrow> 'a sched_scheme \<Rightarrow> 'a sched_scheme res" where
  "sched_handle_timeout cpu rnd t s =
     res_bind (sched_lock_acquire cpu t s) (\<lambda>s1.
     res_bind (com_sys_sched_notify_thread_nolock rnd t (upd_thread t (\<lambda>th. th\<lparr>th_timed_wait_expired := True\<rparr>) s1)) (\<lambda>s2.
     Ok (sched_lock_release cpu t s2)))"

text \<open>Prioritising has an empty body in the code.\<close>

definition com_sys_sched_prioritize_nolock :: "nat \<Rightarrow> 'a sched_scheme \<Rightarrow> 'a sched_scheme" where
  "com_sys_sched_prioritize_nolock t s = s"

definition com_sys_sched_prioritize :: "nat \<Rightarrow> nat \<Rightarrow> 'a sched_scheme \<Rightarrow> 'a sched_scheme res" where
  "com_sys_sched_prioritize cpu t s =
     res_bind (sched_lock_acquire cpu t s) (\<lambda>s1. Ok (sched_lock_release cpu t (com_sys_sched_prioritize_nolock t s1)))"

section \<open>Invariant\<close>

text \<open>
  Every thread is in one place: current on one processor, on one run queue, on the waitlist it waits
  on, or new. The idle thread of a processor is on no queue. Between operations no lock is held; the
  current thread of a processor has lock depth zero, the others keep the depth of one that the
  context switch will take from them.
\<close>

definition is_idle :: "'a sched_scheme \<Rightarrow> nat \<Rightarrow> bool" where
  "is_idle s t \<longleftrightarrow> (\<exists>c. cpu_idle_thread (sc_cpu s c) = t)"

definition cpus_ok :: "'a sched_scheme \<Rightarrow> bool" where
  "cpus_ok s \<longleftrightarrow>
     (\<forall>c t. cpu_thread (sc_cpu s c) = Some t \<longleftrightarrow> th_state (sc_thread s t) = E_COM_THREAD_STATE_RUNNING \<and> th_cpu (sc_thread s t) = Some c) \<and>
     (\<forall>t. th_state (sc_thread s t) = E_COM_THREAD_STATE_RUNNING \<longrightarrow> th_cpu (sc_thread s t) \<noteq> None) \<and>
     (\<forall>t. th_lock_depth (sc_thread s t) = (if th_state (sc_thread s t) = E_COM_THREAD_STATE_RUNNING then 0 else 1)) \<and>
     (\<forall>t. th_state (sc_thread s t) \<noteq> E_COM_THREAD_STATE_EXITED)"

definition queues_ok :: "'a sched_scheme \<Rightarrow> bool" where
  "queues_ok s \<longleftrightarrow>
     (\<forall>c. distinct (cpu_sched_queue (sc_cpu s c))) \<and>
     (\<forall>c d t. t \<in> set (cpu_sched_queue (sc_cpu s c)) \<and> t \<in> set (cpu_sched_queue (sc_cpu s d)) \<longrightarrow> c = d) \<and>
     (\<forall>t. (\<exists>c. t \<in> set (cpu_sched_queue (sc_cpu s c))) \<longleftrightarrow>
        th_state (sc_thread s t) = E_COM_THREAD_STATE_READY \<and> \<not> is_idle s t)"

text \<open>The threads of \<open>P\<close> have been taken off their waitlist and are about to be made ready.\<close>

definition waits_except :: "nat set \<Rightarrow> 'a sched_scheme \<Rightarrow> bool" where
  "waits_except P s \<longleftrightarrow>
     (\<forall>w t. t \<in> set (wl_queue (get_wl w s)) \<longleftrightarrow> th_waiting_on (sc_thread s t) = Some w \<and> t \<notin> P) \<and>
     (\<forall>w. distinct (wl_queue (get_wl w s))) \<and>
     (\<forall>t. th_waiting_on (sc_thread s t) \<noteq> None \<longleftrightarrow> th_state (sc_thread s t) = E_COM_THREAD_STATE_WAITING) \<and>
     (\<forall>t. th_state (sc_thread s t) = E_COM_THREAD_STATE_WAITING \<longrightarrow> th_cpu (sc_thread s t) = None) \<and>
     (\<forall>t. is_idle s t \<longrightarrow> th_state (sc_thread s t) \<in> {E_COM_THREAD_STATE_READY, E_COM_THREAD_STATE_RUNNING}) \<and>
     (\<forall>t \<in> P. th_state (sc_thread s t) = E_COM_THREAD_STATE_WAITING)"

definition waits_ok :: "'a sched_scheme \<Rightarrow> bool" where
  "waits_ok s \<longleftrightarrow> waits_except {} s"

definition unlocked :: "'a sched_scheme \<Rightarrow> bool" where
  "unlocked s \<longleftrightarrow> (\<forall>t. \<not> th_sched_lock (sc_thread s t)) \<and> (\<forall>c. \<not> cpu_runqueue_lock (sc_cpu s c)) \<and>
     (\<forall>w. \<not> wl_lock (get_wl w s))"

definition sched_except :: "nat set \<Rightarrow> 'a sched_scheme \<Rightarrow> bool" where
  "sched_except P s \<longleftrightarrow> cpus_ok s \<and> queues_ok s \<and> waits_except P s \<and> unlocked s \<and>
     inj (\<lambda>c. cpu_idle_thread (sc_cpu s c)) \<and>
     (\<forall>c t. cpu_thread (sc_cpu s c) = Some t \<and> is_idle s t \<longrightarrow> cpu_idle_thread (sc_cpu s c) = t)"

definition sched_ok :: "'a sched_scheme \<Rightarrow> bool" where
  "sched_ok s \<longleftrightarrow> sched_except {} s"

text \<open>What a state transition of the scheduler leaves of a processor, as far as the invariant goes.\<close>

definition same_cpu :: "arch_cpu \<Rightarrow> nat option \<Rightarrow> nat list \<Rightarrow> arch_cpu \<Rightarrow> bool" where
  "same_cpu c cur q c' \<longleftrightarrow> cpu_thread c' = cur \<and> cpu_sched_queue c' = q \<and> cpu_idle_thread c' = cpu_idle_thread c \<and>
     cpu_runqueue_lock c' = cpu_runqueue_lock c"

text \<open>
  A switch on \<open>cpu\<close> from \<open>cur\<close> to \<open>nxt\<close> that leaves \<open>cur\<close> in the state \<open>ns\<close>, waiting on \<open>wo\<close>, and
  the run queue \<open>q\<close>.
\<close>

definition switched ::
  "nat \<Rightarrow> nat \<Rightarrow> nat \<Rightarrow> com_thread_state \<Rightarrow> wl_ref option \<Rightarrow> nat list \<Rightarrow> 'a sched_scheme \<Rightarrow> 'a sched_scheme \<Rightarrow> bool" where
  "switched cpu cur nxt ns wo q s s' \<longleftrightarrow>
     (\<forall>t. th_state (sc_thread s' t) = (if t = cur then ns else if t = nxt then E_COM_THREAD_STATE_RUNNING else th_state (sc_thread s t)) \<and>
        th_cpu (sc_thread s' t) = (if t = cur then None else if t = nxt then Some cpu else th_cpu (sc_thread s t)) \<and>
        th_waiting_on (sc_thread s' t) = (if t = cur then wo else th_waiting_on (sc_thread s t)) \<and>
        th_lock_depth (sc_thread s' t) = (if t = cur then 1 else if t = nxt then 0 else th_lock_depth (sc_thread s t)) \<and>
        th_sched_lock (sc_thread s' t) = th_sched_lock (sc_thread s t)) \<and>
     (\<forall>c. same_cpu (sc_cpu s c) (if c = cpu then Some nxt else cpu_thread (sc_cpu s c))
        (if c = cpu then q else cpu_sched_queue (sc_cpu s c)) (sc_cpu s' c)) \<and>
     (\<forall>w. get_wl w s' = (if wo = Some w then wl_insert_tail cur (get_wl w s) else get_wl w s))"

text \<open>The thread that a processor runs next.\<close>

definition next_thread :: "nat \<Rightarrow> 'a sched_scheme \<Rightarrow> nat" where
  "next_thread cpu s = (case cpu_sched_queue (sc_cpu s cpu) of [] \<Rightarrow> cpu_idle_thread (sc_cpu s cpu) | n # _ \<Rightarrow> n)"

text \<open>
  The state after the switch of a yield, from the state \<open>s\<close> in which the lock of the current thread
  is held; \<open>back\<close> is what goes to the end of the run queue.
\<close>

definition switch_effect ::
  "nat \<Rightarrow> nat \<Rightarrow> nat \<Rightarrow> com_thread_state \<Rightarrow> nat list \<Rightarrow> 'a sched_scheme \<Rightarrow> 'a sched_scheme \<Rightarrow> bool" where
  "switch_effect cpu cur nxt ns back s s' \<longleftrightarrow>
     sc_thread s' = (sc_thread s)
      (cur := (sc_thread s cur)\<lparr>th_state := ns, th_cpu := None, th_last_cpu := Some cpu, th_lock_depth := 1, th_sched_lock := False\<rparr>,
       nxt := (sc_thread s nxt)\<lparr>th_cpu := Some cpu, th_state := E_COM_THREAD_STATE_RUNNING, th_lock_depth := 0\<rparr>) \<and>
     (\<forall>c. same_cpu (sc_cpu s c) (if c = cpu then Some nxt else cpu_thread (sc_cpu s c))
       (if c = cpu then tl (cpu_sched_queue (sc_cpu s cpu)) @ back else cpu_sched_queue (sc_cpu s c)) (sc_cpu s' c)) \<and>
     (\<forall>w. get_wl w s' = get_wl w s)"

text \<open>What making a thread ready does, on the processor \<open>rc\<close>.\<close>

definition made_ready :: "nat \<Rightarrow> nat \<Rightarrow> 'a sched_scheme \<Rightarrow> 'a sched_scheme \<Rightarrow> bool" where
  "made_ready rc t s s' \<longleftrightarrow>
     sc_thread s' = (sc_thread s)(t := (sc_thread s t)\<lparr>th_waiting_on := None, th_state := E_COM_THREAD_STATE_READY\<rparr>) \<and>
     (\<forall>c. same_cpu (sc_cpu s c) (cpu_thread (sc_cpu s c))
        (cpu_sched_queue (sc_cpu s c) @ (if c = rc then [t] else [])) (sc_cpu s' c)) \<and>
     (\<forall>w. get_wl w s' = get_wl w s)"

text \<open>The same of a whole wake-up, with the thread off its waitlist afterwards.\<close>

definition readied :: "nat \<Rightarrow> nat \<Rightarrow> 'a sched_scheme \<Rightarrow> 'a sched_scheme \<Rightarrow> bool" where
  "readied rc t s s' \<longleftrightarrow>
     (\<forall>u. u \<noteq> t \<longrightarrow> sc_thread s' u = sc_thread s u) \<and>
     th_state (sc_thread s' t) = E_COM_THREAD_STATE_READY \<and> th_waiting_on (sc_thread s' t) = None \<and>
     th_cpu (sc_thread s' t) = th_cpu (sc_thread s t) \<and> th_lock_depth (sc_thread s' t) = th_lock_depth (sc_thread s t) \<and>
     \<not> th_sched_lock (sc_thread s' t) \<and>
     (\<forall>c. same_cpu (sc_cpu s c) (cpu_thread (sc_cpu s c))
        (cpu_sched_queue (sc_cpu s c) @ (if c = rc then [t] else [])) (sc_cpu s' c)) \<and>
     (\<forall>w. wl_queue (get_wl w s') = remove1 t (wl_queue (get_wl w s)) \<and> wl_lock (get_wl w s') = wl_lock (get_wl w s))"

text \<open>
  The operations as steps of the machine. Only a thread that is not idle sleeps, and only new
  threads are made ready by hand; every other operation is allowed at any time. A caller of
  \<open>OpWait\<close> holds one spinlock.
\<close>

datatype sched_op =
    OpYield nat | OpWait nat wl_ref | OpWaitNodrop nat wl_ref
  | OpNotify nat nat wl_ref | OpNotifyAll nat nat wl_ref | OpNotifyN nat nat wl_ref nat
  | OpNotifyThread nat nat nat | OpTimeout nat nat nat | OpReady nat nat nat

fun run_op :: "sched_op \<Rightarrow> 'a sched_scheme \<Rightarrow> 'a sched_scheme res" where
  "run_op (OpYield cpu) s = com_sys_sched_yield cpu s"
| "run_op (OpWait cpu w) s = com_sys_sched_wait cpu w (add_depth cpu 1 s)"
| "run_op (OpWaitNodrop cpu w) s = com_sys_sched_wait_nodrop cpu w s"
| "run_op (OpNotify cpu rnd w) s = com_sys_sched_notify cpu rnd w s"
| "run_op (OpNotifyAll cpu rnd w) s = com_sys_sched_notify_all cpu rnd w s"
| "run_op (OpNotifyN cpu rnd w n) s = com_sys_sched_notify_n cpu rnd w n s"
| "run_op (OpNotifyThread cpu rnd t) s = com_sys_sched_notify_thread cpu rnd t s"
| "run_op (OpTimeout cpu rnd t) s = sched_handle_timeout cpu rnd t s"
| "run_op (OpReady cpu rnd t) s = com_sys_thread_ready cpu rnd t s"

definition can_sleep :: "nat \<Rightarrow> 'a sched_scheme \<Rightarrow> bool" where
  "can_sleep cpu s \<longleftrightarrow> (case cpu_thread (sc_cpu s cpu) of None \<Rightarrow> False | Some t \<Rightarrow> \<not> is_idle s t)"

fun op_enabled :: "sched_op \<Rightarrow> 'a sched_scheme \<Rightarrow> bool" where
  "op_enabled (OpYield cpu) s = (cpu_thread (sc_cpu s cpu) \<noteq> None)"
| "op_enabled (OpWait cpu w) s = can_sleep cpu s"
| "op_enabled (OpWaitNodrop cpu w) s = can_sleep cpu s"
| "op_enabled (OpReady cpu rnd t) s = (th_state (sc_thread s t) = E_COM_THREAD_STATE_NEW)"
| "op_enabled op s = True"

inductive sched_reach :: "'a sched_scheme \<Rightarrow> 'a sched_scheme \<Rightarrow> bool" for s0 where
  start: "sched_reach s0 s0"
| step: "sched_reach s0 s \<Longrightarrow> op_enabled op s \<Longrightarrow> run_op op s = Ok s' \<Longrightarrow> sched_reach s0 s'"

text \<open>
  A machine to start from: thread \<open>2 * c\<close> idles on processor \<open>c\<close>, thread 1 runs, thread 3 is ready,
  and thread 5 sleeps on waitlist 7.
\<close>

definition sample_thread :: "nat \<Rightarrow> com_thread" where
  "sample_thread t = \<lparr>th_sched_lock = False, th_proc = None, th_cpu = (if t = 1 then Some 0 else None), th_last_cpu = None,
     th_state = (if t = 1 then E_COM_THREAD_STATE_RUNNING else if t = 5 then E_COM_THREAD_STATE_WAITING
       else if even t \<or> t = 3 then E_COM_THREAD_STATE_READY else E_COM_THREAD_STATE_NEW),
     th_lock_depth = (if t = 1 then 0 else 1), th_tid = t, th_user = False,
     th_waiting_on = (if t = 5 then Some (Waitlist 7) else None),
     th_timed_wait_callout = 0, th_timed_wait_expired = False, th_pending_signals = 0, th_masked_signals = 0\<rparr>"

definition sample_sched :: sched where
  "sample_sched = \<lparr>sc_thread = sample_thread,
     sc_cpu = (\<lambda>c. \<lparr>cpu_thread = (if c = 0 then Some 1 else None), cpu_runqueue_lock = False,
       cpu_sched_queue = (if c = 0 then [3] else []), cpu_idle_thread = 2 * c, cpu_vmm = None\<rparr>),
     sc_waitlist = (\<lambda>_. COM_SYS_THREAD_WAITLIST_INIT)(7 := wl_insert_tail 5 COM_SYS_THREAD_WAITLIST_INIT), sc_mutex = (\<lambda>_. KMUTEX_INIT),
     sc_running = (\<lambda>_. 0), sc_vmm = (\<lambda>_. None), sc_callouts = callouts_boot, sc_ipis = [], sc_next_tid = 4\<rparr>"

section \<open>Effects of the operations\<close>

lemma upd_sched_simps [simp]:
  "sc_thread (upd_thread t f s) = (sc_thread s)(t := f (sc_thread s t))"
  "sc_cpu (upd_thread t f s) = sc_cpu s"
  "get_wl w (upd_thread t f s) = get_wl w s"
  "sc_thread (upd_cpu c g s) = sc_thread s"
  "sc_cpu (upd_cpu c g s) = (sc_cpu s)(c := g (sc_cpu s c))"
  "get_wl w (upd_cpu c g s) = get_wl w s"
  "sc_thread (send_ipi c i s) = sc_thread s"
  "sc_cpu (send_ipi c i s) = sc_cpu s"
  "get_wl w (send_ipi c i s) = get_wl w s"
  "sc_thread (upd_wl v h s) = sc_thread s"
  "sc_cpu (upd_wl v h s) = sc_cpu s"
  by (simp_all add: upd_thread_def upd_cpu_def send_ipi_def; cases w; simp; fail | cases v; simp)+

lemma get_upd_wl [simp]: "get_wl w (upd_wl v h s) = (if w = v then h (get_wl v s) else get_wl w s)"
  by (cases w; cases v) auto

lemma add_depth_simps [simp]:
  "sc_cpu (add_depth cpu d s) = sc_cpu s"
  "get_wl w (add_depth cpu d s) = get_wl w s"
  by (simp_all add: add_depth_def split: option.split)

lemma add_depth_thread:
  "cpu_thread (sc_cpu s cpu) = Some t \<Longrightarrow>
    sc_thread (add_depth cpu d s) = (sc_thread s)(t := (sc_thread s t)\<lparr>th_lock_depth := th_lock_depth (sc_thread s t) + d\<rparr>)"
  by (simp add: add_depth_def)

lemma get_wl_running: "get_wl w (s\<lparr>sc_running := r\<rparr>) = get_wl w s"
  by (cases w) simp_all

lemma switch_vmm_simps [simp]:
  "sc_thread (sched_switch_vmm_context cpu cur nxt s) = sc_thread s"
  "get_wl w (sched_switch_vmm_context cpu cur nxt s) = get_wl w s"
  "cpu_thread (sc_cpu (sched_switch_vmm_context cpu cur nxt s) c) = cpu_thread (sc_cpu s c)"
  "cpu_sched_queue (sc_cpu (sched_switch_vmm_context cpu cur nxt s) c) = cpu_sched_queue (sc_cpu s c)"
  "cpu_idle_thread (sc_cpu (sched_switch_vmm_context cpu cur nxt s) c) = cpu_idle_thread (sc_cpu s c)"
  "cpu_runqueue_lock (sc_cpu (sched_switch_vmm_context cpu cur nxt s) c) = cpu_runqueue_lock (sc_cpu s c)"
  by (simp_all add: sched_switch_vmm_context_def Let_def get_wl_running split: option.split)

lemma switch_to_effect:
  assumes "cpu_thread (sc_cpu s cpu) = Some cur" and "cur \<noteq> nxt"
    and "th_state (sc_thread s nxt) \<noteq> E_COM_THREAD_STATE_EXITED" and "th_waiting_on (sc_thread s nxt) = None"
  shows "\<exists>s'. switch_to cpu cur nxt s = Ok s' \<and>
    sc_thread s' = (sc_thread s)
      (cur := (sc_thread s cur)\<lparr>th_cpu := None, th_last_cpu := Some cpu,
         th_lock_depth := th_lock_depth (sc_thread s cur) - 1, th_sched_lock := False\<rparr>,
       nxt := (sc_thread s nxt)\<lparr>th_cpu := Some cpu, th_state := E_COM_THREAD_STATE_RUNNING,
         th_lock_depth := th_lock_depth (sc_thread s nxt) - 1\<rparr>) \<and>
    (\<forall>c. same_cpu (sc_cpu s c) (if c = cpu then Some nxt else cpu_thread (sc_cpu s c)) (cpu_sched_queue (sc_cpu s c)) (sc_cpu s' c)) \<and>
    (\<forall>w. get_wl w s' = get_wl w s)"
  using assms by (simp add: switch_to_def Let_def com_sys_thread_transition_nolock_def add_depth_thread same_cpu_def fun_upd_twist)

section \<open>Switching keeps the invariant\<close>

lemma cpus_okD:
  assumes "cpus_ok s"
  shows "cpu_thread (sc_cpu s c) = Some t \<longleftrightarrow> th_state (sc_thread s t) = E_COM_THREAD_STATE_RUNNING \<and> th_cpu (sc_thread s t) = Some c"
    and "th_state (sc_thread s t) = E_COM_THREAD_STATE_RUNNING \<Longrightarrow> th_cpu (sc_thread s t) \<noteq> None"
    and "th_lock_depth (sc_thread s t) = (if th_state (sc_thread s t) = E_COM_THREAD_STATE_RUNNING then 0 else 1)"
    and "th_state (sc_thread s t) \<noteq> E_COM_THREAD_STATE_EXITED"
  using assms unfolding cpus_ok_def by blast+

lemma queues_okD:
  assumes "queues_ok s"
  shows "distinct (cpu_sched_queue (sc_cpu s c))"
    and "t \<in> set (cpu_sched_queue (sc_cpu s c)) \<Longrightarrow> t \<in> set (cpu_sched_queue (sc_cpu s d)) \<Longrightarrow> c = d"
    and "(\<exists>c. t \<in> set (cpu_sched_queue (sc_cpu s c))) \<longleftrightarrow>
        th_state (sc_thread s t) = E_COM_THREAD_STATE_READY \<and> \<not> is_idle s t"
  using assms unfolding queues_ok_def by blast+

lemma waits_okD:
  assumes "waits_ok s"
  shows "t \<in> set (wl_queue (get_wl w s)) \<longleftrightarrow> th_waiting_on (sc_thread s t) = Some w"
    and "distinct (wl_queue (get_wl w s))"
    and "th_waiting_on (sc_thread s t) = None \<longleftrightarrow> th_state (sc_thread s t) \<noteq> E_COM_THREAD_STATE_WAITING"
    and "th_state (sc_thread s t) = E_COM_THREAD_STATE_WAITING \<Longrightarrow> th_cpu (sc_thread s t) = None"
    and "is_idle s t \<Longrightarrow> th_state (sc_thread s t) \<in> {E_COM_THREAD_STATE_READY, E_COM_THREAD_STATE_RUNNING}"
  using assms unfolding waits_ok_def waits_except_def by blast+

lemma sched_okD:
  assumes "sched_ok s"
  shows "cpus_ok s" "queues_ok s" "waits_ok s" "unlocked s" "inj (\<lambda>c. cpu_idle_thread (sc_cpu s c))"
    and "cpu_thread (sc_cpu s c) = Some t \<Longrightarrow> is_idle s t \<Longrightarrow> cpu_idle_thread (sc_cpu s c) = t"
  using assms unfolding sched_ok_def sched_except_def waits_ok_def by blast+

lemma switched_idle [simp]: "switched cpu cur nxt ns wo q s s' \<Longrightarrow> is_idle s' t = is_idle s t"
  by (simp add: switched_def same_cpu_def is_idle_def)

lemma switched_cpus_ok:
  assumes "cpus_ok s" and "cpu_thread (sc_cpu s cpu) = Some cur" and "cur \<noteq> nxt"
    and "th_state (sc_thread s nxt) = E_COM_THREAD_STATE_READY"
    and "ns \<in> {E_COM_THREAD_STATE_READY, E_COM_THREAD_STATE_WAITING}"
    and "switched cpu cur nxt ns wo q s s'"
  shows "cpus_ok s'"
proof -
  note D = cpus_okD [OF assms(1)]
  have cur: "th_state (sc_thread s cur) = E_COM_THREAD_STATE_RUNNING" "th_cpu (sc_thread s cur) = Some cpu"
    using D(1) assms(2) by auto
  have "cpu_thread (sc_cpu s' c) = Some t \<longleftrightarrow> th_state (sc_thread s' t) = E_COM_THREAD_STATE_RUNNING \<and> th_cpu (sc_thread s' t) = Some c" for c t
    using assms(3-6) D(1) [of c t] D(1) [of cpu t] assms(2) cur by (auto simp: switched_def same_cpu_def)
  moreover have "th_state (sc_thread s' t) = E_COM_THREAD_STATE_RUNNING \<Longrightarrow> th_cpu (sc_thread s' t) \<noteq> None" for t
    using assms(5,6) D(2) [of t] by (auto simp: switched_def split: if_splits)
  moreover have "th_lock_depth (sc_thread s' t) = (if th_state (sc_thread s' t) = E_COM_THREAD_STATE_RUNNING then 0 else 1)" for t
    using assms(3,5,6) D(3) [of t] by (auto simp: switched_def)
  moreover have "th_state (sc_thread s' t) \<noteq> E_COM_THREAD_STATE_EXITED" for t
    using assms(5,6) D(4) [of t] by (auto simp: switched_def)
  ultimately show ?thesis unfolding cpus_ok_def by blast
qed

lemma switched_queues_ok:
  assumes "queues_ok s" and "th_state (sc_thread s cur) = E_COM_THREAD_STATE_RUNNING" and "cur \<noteq> nxt"
    and "ns \<in> {E_COM_THREAD_STATE_READY, E_COM_THREAD_STATE_WAITING}"
    and "switched cpu cur nxt ns wo q s s'"
    and "cpu_sched_queue (sc_cpu s cpu) = (if is_idle s nxt then [] else [nxt]) @ rest"
    and "q = rest @ (if ns = E_COM_THREAD_STATE_READY \<and> \<not> is_idle s cur then [cur] else [])"
  shows "queues_ok s'"
proof -
  note D = queues_okD [OF assms(1)]
  have notin: "cur \<notin> set (cpu_sched_queue (sc_cpu s c))" for c using D(3) [of cur] assms(2) by auto
  have idle_out: "t \<notin> set (cpu_sched_queue (sc_cpu s c))" if "is_idle s t" for t c using D(3) [of t] that by blast
  have qu: "cpu_sched_queue (sc_cpu s' c) = (if c = cpu then q else cpu_sched_queue (sc_cpu s c))" for c
    using assms(5) by (simp add: switched_def same_cpu_def)
  have nxt: "nxt \<notin> set rest" using D(1) [of cpu] idle_out [of nxt cpu] assms(6) by (auto split: if_splits)
  have mem: "t \<in> set (cpu_sched_queue (sc_cpu s' c)) \<longleftrightarrow>
      (if t = cur then c = cpu \<and> ns = E_COM_THREAD_STATE_READY \<and> \<not> is_idle s cur
       else t \<noteq> nxt \<and> t \<in> set (cpu_sched_queue (sc_cpu s c)))" for t c
  proof -
    have "t \<notin> set (cpu_sched_queue (sc_cpu s c))" if "t = nxt" "c \<noteq> cpu"
      using that D(2) [of nxt cpu c] idle_out [of nxt c] assms(6) by (cases "is_idle s nxt") auto
    then show ?thesis using qu notin [of c] notin [of cpu] assms(3,6,7) nxt by auto
  qed
  have "distinct (cpu_sched_queue (sc_cpu s' c))" for c
    using qu D(1) [of c] D(1) [of cpu] notin [of cpu] assms(6,7) by auto
  moreover have "c = d" if "t \<in> set (cpu_sched_queue (sc_cpu s' c))" "t \<in> set (cpu_sched_queue (sc_cpu s' d))" for c d t
    using that mem D(2) [of t c d] by (auto split: if_splits)
  moreover have "(\<exists>c. t \<in> set (cpu_sched_queue (sc_cpu s' c))) \<longleftrightarrow>
      th_state (sc_thread s' t) = E_COM_THREAD_STATE_READY \<and> \<not> is_idle s' t" for t
    unfolding mem switched_idle [OF assms(5)]
    using D(3) [of t] assms(3-5) by (auto simp: switched_def)
  ultimately show ?thesis unfolding queues_ok_def by blast
qed

lemma switched_waits_ok:
  assumes "waits_ok s" and "th_state (sc_thread s cur) = E_COM_THREAD_STATE_RUNNING" and "cur \<noteq> nxt"
    and "th_state (sc_thread s nxt) = E_COM_THREAD_STATE_READY"
    and "ns = E_COM_THREAD_STATE_READY \<and> wo = None \<or> ns = E_COM_THREAD_STATE_WAITING \<and> wo \<noteq> None \<and> \<not> is_idle s cur"
    and "switched cpu cur nxt ns wo q s s'"
  shows "waits_ok s'"
proof -
  note D = waits_okD [OF assms(1)]
  have cur: "th_waiting_on (sc_thread s cur) = None" using D(3) [of cur] assms(2) by simp
  have nxt: "th_waiting_on (sc_thread s nxt) = None" using D(3) [of nxt] assms(4) by simp
  have notin: "cur \<notin> set (wl_queue (get_wl w s))" for w using D(1) cur by simp
  have "t \<in> set (wl_queue (get_wl w s')) \<longleftrightarrow> th_waiting_on (sc_thread s' t) = Some w" for t w
    using assms(6) D(1) [of t w] cur by (auto simp: switched_def)
  moreover have "distinct (wl_queue (get_wl w s'))" for w
    using assms(6) D(2) [of w] notin [of w] by (auto simp: switched_def)
  moreover have "th_waiting_on (sc_thread s' t) \<noteq> None \<longleftrightarrow> th_state (sc_thread s' t) = E_COM_THREAD_STATE_WAITING" for t
    using assms(3,5,6) D(3) [of t] nxt by (auto simp: switched_def)
  moreover have "th_cpu (sc_thread s' t) = None" if "th_state (sc_thread s' t) = E_COM_THREAD_STATE_WAITING" for t
    using assms(3,5,6) D(4) [of t] that by (auto simp: switched_def split: if_splits)
  moreover have "th_state (sc_thread s' t) \<in> {E_COM_THREAD_STATE_READY, E_COM_THREAD_STATE_RUNNING}" if "is_idle s' t" for t
  proof -
    have "is_idle s t" using that switched_idle [OF assms(6)] by blast
    then show ?thesis using assms(5,6) D(5) [of t] unfolding switched_def by auto
  qed
  ultimately show ?thesis unfolding waits_ok_def waits_except_def by blast
qed

lemma switched_ok:
  assumes "sched_ok s" and "cpu_thread (sc_cpu s cpu) = Some cur" and "cur \<noteq> nxt"
    and "nxt = cpu_idle_thread (sc_cpu s cpu) \<or> (\<exists>rest. cpu_sched_queue (sc_cpu s cpu) = nxt # rest)"
    and "th_state (sc_thread s nxt) = E_COM_THREAD_STATE_READY"
    and "ns = E_COM_THREAD_STATE_READY \<and> wo = None \<or> ns = E_COM_THREAD_STATE_WAITING \<and> wo \<noteq> None \<and> \<not> is_idle s cur"
    and "cpu_sched_queue (sc_cpu s cpu) = (if is_idle s nxt then [] else [nxt]) @ rest"
    and "q = rest @ (if ns = E_COM_THREAD_STATE_READY \<and> \<not> is_idle s cur then [cur] else [])"
    and "switched cpu cur nxt ns wo q s s'"
  shows "sched_ok s'"
proof -
  note ok = sched_okD(1-5) [OF assms(1)] and own = sched_okD(6) [OF assms(1)]
  have run: "th_state (sc_thread s cur) = E_COM_THREAD_STATE_RUNNING" using cpus_okD(1) [OF ok(1)] assms(2) by blast
  have ns: "ns \<in> {E_COM_THREAD_STATE_READY, E_COM_THREAD_STATE_WAITING}" using assms(6) by auto
  have "cpus_ok s'" by (rule switched_cpus_ok [OF ok(1) assms(2,3,5) ns assms(9)])
  moreover have "queues_ok s'" by (rule switched_queues_ok [OF ok(2) run assms(3) ns assms(9,7,8)])
  moreover have "waits_ok s'" by (rule switched_waits_ok [OF ok(3) run assms(3,5,6,9)])
  moreover have "unlocked s'" using ok(4) assms(9) by (auto simp: unlocked_def switched_def same_cpu_def wl_insert_tail_def)
  moreover have "inj (\<lambda>c. cpu_idle_thread (sc_cpu s' c))" using ok(5) assms(9) by (simp add: switched_def same_cpu_def)
  moreover have "cpu_idle_thread (sc_cpu s' c) = t" if "cpu_thread (sc_cpu s' c) = Some t" "is_idle s' t" for c t
  proof -
    have idle: "is_idle s t" using that(2) switched_idle [OF assms(9)] by blast
    have "\<not> is_idle s nxt" if "cpu_sched_queue (sc_cpu s cpu) = nxt # rest" for rest
    proof -
      have "nxt \<in> set (cpu_sched_queue (sc_cpu s cpu))" using that by simp
      then show ?thesis using queues_okD(3) [OF ok(2), of nxt] by blast
    qed
    then have "t \<noteq> nxt \<or> nxt = cpu_idle_thread (sc_cpu s cpu)" using assms(4) idle by blast
    then show ?thesis using that(1) assms(9) own idle by (auto simp: switched_def same_cpu_def split: if_splits)
  qed
  ultimately show ?thesis unfolding sched_ok_def sched_except_def waits_ok_def by blast
qed

text \<open>Yielding with the lock of the current thread held: the state \<open>s1\<close> has the lock taken once.\<close>

lemma yield_nolock_effect:
  assumes "cpu_thread (sc_cpu s cpu) = Some cur" and "\<not> cpu_runqueue_lock (sc_cpu s cpu)"
    and "th_sched_lock (sc_thread s cur)" and "th_lock_depth (sc_thread s cur) = 1"
    and "nxt = (case cpu_sched_queue (sc_cpu s cpu) of [] \<Rightarrow> cpu_idle_thread (sc_cpu s cpu) | n # _ \<Rightarrow> n)"
    and "cur \<noteq> nxt" and "cpu_sched_queue (sc_cpu s cpu) \<noteq> [] \<Longrightarrow> nxt \<noteq> cpu_idle_thread (sc_cpu s cpu)"
    and "th_state (sc_thread s nxt) = E_COM_THREAD_STATE_READY" and "th_waiting_on (sc_thread s nxt) = None"
    and "th_lock_depth (sc_thread s nxt) = 1"
    and "th_state (sc_thread s cur) = E_COM_THREAD_STATE_RUNNING \<and> th_waiting_on (sc_thread s cur) = None \<and> ns = E_COM_THREAD_STATE_READY
      \<and> cpu_sched_queue (sc_cpu s cpu) \<noteq> [] \<or> th_state (sc_thread s cur) = ns \<and> ns = E_COM_THREAD_STATE_WAITING"
    and "back = (if ns = E_COM_THREAD_STATE_READY \<and> cur \<noteq> cpu_idle_thread (sc_cpu s cpu) then [cur] else [])"
  shows "\<exists>s'. com_sys_sched_yield_nolock cpu s = Ok s' \<and> switch_effect cpu cur nxt ns back s s'"
proof -
  define s1 where "s1 = add_depth cpu 1 s"
  have s1: "sc_thread s1 = (sc_thread s)(cur := (sc_thread s cur)\<lparr>th_lock_depth := 2\<rparr>)" "sc_cpu s1 = sc_cpu s"
    "\<And>w. get_wl w s1 = get_wl w s"
    using add_depth_thread [OF assms(1), of 1] assms(4) by (simp_all add: s1_def)
  let ?q = "tl (cpu_sched_queue (sc_cpu s cpu))"
  obtain s2 where pick: "pick_next cpu cur s1 = Ok (Some (nxt, s2))" and s2: "sc_thread s2 = sc_thread s1"
    "\<And>c. same_cpu (sc_cpu s c) (cpu_thread (sc_cpu s c)) (if c = cpu then ?q else cpu_sched_queue (sc_cpu s c)) (sc_cpu s2 c)"
    "\<And>w. get_wl w s2 = get_wl w s"
  proof (cases "cpu_sched_queue (sc_cpu s cpu)")
    case Nil
    then have "pick_next cpu cur s1 = Ok (Some (nxt, s1))"
      using assms(5,11) by (auto simp: pick_next_def s1)
    then show ?thesis by (rule that) (use s1 Nil in \<open>auto simp: same_cpu_def\<close>)
  next
    case (Cons n rest)
    then have "pick_next cpu cur s1 = Ok (Some (nxt, upd_cpu cpu (\<lambda>c. c\<lparr>cpu_sched_queue := rest\<rparr>) s1))"
      using assms(5,7) by (simp add: pick_next_def s1)
    then show ?thesis by (rule that) (use s1 Cons in \<open>auto simp: same_cpu_def\<close>)
  qed
  obtain s3 where put: "put_back cpu cur s2 = Ok s3"
    and s3: "sc_thread s3 = (sc_thread s)(cur := (sc_thread s cur)\<lparr>th_lock_depth := 2, th_state := ns\<rparr>)"
    "\<And>c. same_cpu (sc_cpu s c) (cpu_thread (sc_cpu s c)) (if c = cpu then ?q @ back else cpu_sched_queue (sc_cpu s c)) (sc_cpu s3 c)"
    "\<And>w. get_wl w s3 = get_wl w s"
  proof (cases "th_state (sc_thread s cur) = E_COM_THREAD_STATE_RUNNING")
    case True
    then have wo: "th_waiting_on (sc_thread s cur) = None" "ns = E_COM_THREAD_STATE_READY" using assms(11) by auto
    from True have "put_back cpu cur s2 = Ok (if cur \<noteq> cpu_idle_thread (sc_cpu s cpu)
        then upd_cpu cpu (\<lambda>c. c\<lparr>cpu_sched_queue := cpu_sched_queue c @ [cur]\<rparr>)
          (upd_thread cur (\<lambda>th. th\<lparr>th_state := E_COM_THREAD_STATE_READY\<rparr>) s2)
        else upd_thread cur (\<lambda>th. th\<lparr>th_state := E_COM_THREAD_STATE_READY\<rparr>) s2)"
      using wo(1) s2(1) s2(2) [of cpu] s1(1)
      by (simp add: put_back_def com_sys_thread_transition_nolock_def same_cpu_def)
    then show ?thesis by (rule that) (use wo(2) s2 s1 assms(12) in \<open>auto simp: same_cpu_def\<close>)
  next
    case False
    have "(sc_thread s cur)\<lparr>th_lock_depth := 2, th_state := ns\<rparr> = (sc_thread s cur)\<lparr>th_lock_depth := 2\<rparr>"
      using False assms(11) by (cases "sc_thread s cur") auto
    then show ?thesis using that [of s2] False assms(11,12) s2 s1 by (auto simp: put_back_def same_cpu_def)
  qed
  have cur3: "cpu_thread (sc_cpu s3 cpu) = Some cur" using s3(2) [of cpu] assms(1) by (simp add: same_cpu_def)
  obtain s' where sw: "switch_to cpu cur nxt s3 = Ok s'"
    "sc_thread s' = (sc_thread s3)
      (cur := (sc_thread s3 cur)\<lparr>th_cpu := None, th_last_cpu := Some cpu,
         th_lock_depth := th_lock_depth (sc_thread s3 cur) - 1, th_sched_lock := False\<rparr>,
       nxt := (sc_thread s3 nxt)\<lparr>th_cpu := Some cpu, th_state := E_COM_THREAD_STATE_RUNNING,
         th_lock_depth := th_lock_depth (sc_thread s3 nxt) - 1\<rparr>)"
    "\<And>c. same_cpu (sc_cpu s3 c) (if c = cpu then Some nxt else cpu_thread (sc_cpu s3 c)) (cpu_sched_queue (sc_cpu s3 c)) (sc_cpu s' c)"
    "\<And>w. get_wl w s' = get_wl w s3"
    using switch_to_effect [OF cur3 assms(6)] assms(6,8,9) s3(1) by auto
  have ns: "ns \<noteq> E_COM_THREAD_STATE_RUNNING" using assms(11) by auto
  have "com_sys_sched_yield_nolock cpu s = Ok s'"
    using assms(1-3,6) ns pick put s1(1) s3(1) sw(1) by (simp add: com_sys_sched_yield_nolock_def Let_def s1_def [symmetric])
  moreover have "sc_thread s' = (sc_thread s)
      (cur := (sc_thread s cur)\<lparr>th_state := ns, th_cpu := None, th_last_cpu := Some cpu, th_lock_depth := 1, th_sched_lock := False\<rparr>,
       nxt := (sc_thread s nxt)\<lparr>th_cpu := Some cpu, th_state := E_COM_THREAD_STATE_RUNNING, th_lock_depth := 0\<rparr>)"
    using assms(6,10) by (simp add: sw(2) s3(1))
  ultimately show ?thesis using sw(3,4) s3(2,3) by (intro exI [of _ s']) (auto simp: same_cpu_def switch_effect_def)
qed

lemma th_same [simp]:
  "(x :: com_thread)\<lparr>th_lock_depth := th_lock_depth x\<rparr> = x"
  "\<not> th_sched_lock x \<Longrightarrow> x\<lparr>th_sched_lock := False\<rparr> = x"
  by (cases x; simp)+

lemma sched_except_cong:
  assumes "sc_thread s' = sc_thread s" and "sc_cpu s' = sc_cpu s" and "\<And>w. get_wl w s' = get_wl w s"
  shows "sched_except P s' = sched_except P s"
  using assms by (simp add: sched_except_def cpus_ok_def queues_ok_def waits_except_def unlocked_def is_idle_def)

lemma sched_ok_current:
  assumes "sched_ok s" and "cpu_thread (sc_cpu s cpu) = Some cur"
  shows "th_state (sc_thread s cur) = E_COM_THREAD_STATE_RUNNING" and "th_lock_depth (sc_thread s cur) = 0"
    and "th_waiting_on (sc_thread s cur) = None" and "\<not> th_sched_lock (sc_thread s t)" and "\<not> cpu_runqueue_lock (sc_cpu s c)"
    and "\<not> wl_lock (get_wl w s)" and "is_idle s cur \<longleftrightarrow> cur = cpu_idle_thread (sc_cpu s cpu)"
proof -
  note ok = sched_okD [OF assms(1)]
  show st: "th_state (sc_thread s cur) = E_COM_THREAD_STATE_RUNNING" using cpus_okD(1) [OF ok(1)] assms(2) by blast
  show "th_lock_depth (sc_thread s cur) = 0" using cpus_okD(3) [OF ok(1), of cur] st by simp
  show "th_waiting_on (sc_thread s cur) = None" using waits_okD(3) [OF ok(3), of cur] st by simp
  show "\<not> th_sched_lock (sc_thread s t)" "\<not> cpu_runqueue_lock (sc_cpu s c)" "\<not> wl_lock (get_wl w s)"
    using ok(4) by (simp_all add: unlocked_def)
  have "is_idle s (cpu_idle_thread (sc_cpu s cpu))" by (auto simp: is_idle_def)
  then show "is_idle s cur \<longleftrightarrow> cur = cpu_idle_thread (sc_cpu s cpu)" using ok(6) [OF assms(2)] by blast
qed

lemma next_thread_ready:
  assumes "sched_ok s" and "cpu_thread (sc_cpu s cpu) = Some cur"
    and "cpu_sched_queue (sc_cpu s cpu) \<noteq> [] \<or> \<not> is_idle s cur"
  shows "cur \<noteq> next_thread cpu s" and "th_state (sc_thread s (next_thread cpu s)) = E_COM_THREAD_STATE_READY"
    and "th_waiting_on (sc_thread s (next_thread cpu s)) = None" and "th_lock_depth (sc_thread s (next_thread cpu s)) = 1"
    and "cpu_sched_queue (sc_cpu s cpu) \<noteq> [] \<Longrightarrow> next_thread cpu s \<noteq> cpu_idle_thread (sc_cpu s cpu)"
    and "cpu_sched_queue (sc_cpu s cpu) = (if is_idle s (next_thread cpu s) then [] else [next_thread cpu s]) @ tl (cpu_sched_queue (sc_cpu s cpu))"
proof -
  note ok = sched_okD [OF assms(1)] and C = sched_ok_current [OF assms(1,2)]
  let ?n = "next_thread cpu s"
  have queued: "th_state (sc_thread s n) = E_COM_THREAD_STATE_READY \<and> \<not> is_idle s n" if "cpu_sched_queue (sc_cpu s cpu) = n # q" for n q
  proof -
    have "n \<in> set (cpu_sched_queue (sc_cpu s cpu))" using that by simp
    then show ?thesis using queues_okD(3) [OF ok(2), of n] by blast
  qed
  show ready: "th_state (sc_thread s ?n) = E_COM_THREAD_STATE_READY"
  proof (cases "cpu_sched_queue (sc_cpu s cpu)")
    case Nil
    let ?i = "cpu_idle_thread (sc_cpu s cpu)"
    have idle: "is_idle s ?i" "cur \<noteq> ?i" using assms(3) Nil by (auto simp: is_idle_def)
    have "th_state (sc_thread s ?i) \<noteq> E_COM_THREAD_STATE_RUNNING"
    proof
      assume r: "th_state (sc_thread s ?i) = E_COM_THREAD_STATE_RUNNING"
      then obtain c where "th_cpu (sc_thread s ?i) = Some c" using cpus_okD(2) [OF ok(1)] by blast
      then have c: "cpu_thread (sc_cpu s c) = Some ?i" using r cpus_okD(1) [OF ok(1)] by blast
      then have "c = cpu" using ok(6) [OF c idle(1)] ok(5) by (auto dest: injD)
      with c assms(2) idle(2) show False by simp
    qed
    then show ?thesis using waits_okD(5) [OF ok(3) idle(1)] Nil by (simp add: next_thread_def)
  next
    case (Cons n q)
    then show ?thesis using queued by (simp add: next_thread_def)
  qed
  show "cur \<noteq> ?n" using ready C(1) by auto
  show "th_waiting_on (sc_thread s ?n) = None" using waits_okD(3) [OF ok(3), of ?n] ready by simp
  show "th_lock_depth (sc_thread s ?n) = 1" using cpus_okD(3) [OF ok(1), of ?n] ready by simp
  show "cpu_sched_queue (sc_cpu s cpu) \<noteq> [] \<Longrightarrow> ?n \<noteq> cpu_idle_thread (sc_cpu s cpu)"
    using queued by (cases "cpu_sched_queue (sc_cpu s cpu)") (auto simp: next_thread_def is_idle_def)
  show "cpu_sched_queue (sc_cpu s cpu) = (if is_idle s ?n then [] else [?n]) @ tl (cpu_sched_queue (sc_cpu s cpu))"
  proof (cases "cpu_sched_queue (sc_cpu s cpu)")
    case Nil
    then have "is_idle s ?n" by (auto simp: next_thread_def is_idle_def)
    with Nil show ?thesis by simp
  next
    case (Cons n q)
    then show ?thesis using queued by (simp add: next_thread_def)
  qed
qed

lemma lock_acquire_current:
  assumes "cpu_thread (sc_cpu s cpu) = Some cur" and "\<not> th_sched_lock (sc_thread s cur)"
  shows "\<exists>s'. sched_lock_acquire cpu cur s = Ok s' \<and> sc_cpu s' = sc_cpu s \<and> (\<forall>w. get_wl w s' = get_wl w s) \<and>
    sc_thread s' = (sc_thread s)(cur := (sc_thread s cur)\<lparr>th_sched_lock := True, th_lock_depth := th_lock_depth (sc_thread s cur) + 1\<rparr>)"
  using assms by (simp add: sched_lock_acquire_def add_depth_def)

lemma switch_effect_switched:
  assumes "switch_effect cpu cur nxt ns back s0 s'" and "cur \<noteq> nxt"
    and "\<And>t. t \<noteq> cur \<Longrightarrow> sc_thread s0 t = sc_thread s t" and "th_waiting_on (sc_thread s0 cur) = wo"
    and "sc_cpu s0 = sc_cpu s" and "\<And>w. get_wl w s0 = (if wo = Some w then wl_insert_tail cur (get_wl w s) else get_wl w s)"
    and "\<not> th_sched_lock (sc_thread s cur)"
  shows "switched cpu cur nxt ns wo (tl (cpu_sched_queue (sc_cpu s cpu)) @ back) s s'"
proof -
  note e = assms(1) [unfolded switch_effect_def assms(5)]
  have thr: "sc_thread s' = (sc_thread s0)
      (cur := (sc_thread s0 cur)\<lparr>th_state := ns, th_cpu := None, th_last_cpu := Some cpu, th_lock_depth := 1, th_sched_lock := False\<rparr>,
       nxt := (sc_thread s0 nxt)\<lparr>th_cpu := Some cpu, th_state := E_COM_THREAD_STATE_RUNNING, th_lock_depth := 0\<rparr>)"
    using e by blast
  have "\<forall>w. get_wl w s' = (if wo = Some w then wl_insert_tail cur (get_wl w s) else get_wl w s)" using e assms(6) by simp
  then show ?thesis unfolding switched_def
    using e assms(2-4,7) by (intro conjI) (simp add: thr, blast, assumption)
qed

lemma yield_ok:
  assumes "sched_ok s" and "cpu_thread (sc_cpu s cpu) = Some cur"
  shows "\<exists>s'. com_sys_sched_yield cpu s = Ok s' \<and> sched_ok s' \<and>
    cpu_thread (sc_cpu s' cpu) = Some (if cpu_sched_queue (sc_cpu s cpu) = [] then cur else next_thread cpu s) \<and>
    (cpu_sched_queue (sc_cpu s cpu) \<noteq> [] \<longrightarrow>
      cpu_sched_queue (sc_cpu s' cpu) = tl (cpu_sched_queue (sc_cpu s cpu)) @ (if is_idle s cur then [] else [cur]))"
proof -
  note C = sched_ok_current [OF assms]
  obtain s0 where s0: "sched_lock_acquire cpu cur s = Ok s0" "sc_cpu s0 = sc_cpu s" "\<And>w. get_wl w s0 = get_wl w s"
    "sc_thread s0 = (sc_thread s)(cur := (sc_thread s cur)\<lparr>th_sched_lock := True, th_lock_depth := 1\<rparr>)"
    using lock_acquire_current [OF assms(2) C(4)] C(2) by auto
  have y: "com_sys_sched_yield cpu s = com_sys_sched_yield_nolock cpu s0"
    using assms(2) s0(1) by (simp add: com_sys_sched_yield_def)
  show ?thesis
  proof (cases "cpu_sched_queue (sc_cpu s cpu) = []")
    case True
    let ?s' = "sched_lock_release cpu cur (add_depth cpu (- 1) (add_depth cpu 1 s0))"
    have eff: "com_sys_sched_yield_nolock cpu s0 = Ok ?s'"
      using assms(2) s0(2,4) C(1,5) True add_depth_thread [of s0 cpu cur 1]
      by (simp add: com_sys_sched_yield_nolock_def Let_def pick_next_def)
    have "sc_thread ?s' = sc_thread s"
      using assms(2) s0(2,4) C(2,4) by (simp add: sched_lock_release_def add_depth_def) (cases "sc_thread s cur"; auto)
    then have "sched_ok ?s'"
      using assms(1) s0(2,3) sched_except_cong [of ?s' s "{}"] by (simp add: sched_ok_def sched_lock_release_def)
    with eff y True assms(2) s0(2) show ?thesis by (simp add: sched_lock_release_def)
  next
    case False
    let ?n = "next_thread cpu s" and ?rest = "if is_idle s cur then [] else [cur]"
    note N = next_thread_ready [OF assms disjI1 [OF False]]
    have nx: "?n = (case cpu_sched_queue (sc_cpu s0 cpu) of [] \<Rightarrow> cpu_idle_thread (sc_cpu s0 cpu) | n # _ \<Rightarrow> n)"
      by (simp only: next_thread_def s0(2))
    have "\<exists>s'. com_sys_sched_yield_nolock cpu s0 = Ok s' \<and> switch_effect cpu cur ?n E_COM_THREAD_STATE_READY ?rest s0 s'"
      by (rule yield_nolock_effect [OF _ _ _ _ nx]) (use assms(2) s0(2,4) C N(1-5) False in simp_all)
    then obtain s' where s': "com_sys_sched_yield_nolock cpu s0 = Ok s'"
      "switch_effect cpu cur ?n E_COM_THREAD_STATE_READY ?rest s0 s'" by blast
    have sw: "switched cpu cur ?n E_COM_THREAD_STATE_READY None (tl (cpu_sched_queue (sc_cpu s cpu)) @ ?rest) s s'"
      by (rule switch_effect_switched [OF s'(2) N(1)]) (use s0(2-4) C(3,4) in simp_all)
    have "sched_ok s'"
      by (rule switched_ok [OF assms N(1) _ N(2) _ N(6) _ sw]) (use False in \<open>auto simp: next_thread_def neq_Nil_conv\<close>)
    then show ?thesis using y s'(1) sw False by (simp add: switched_def same_cpu_def)
  qed
qed

text \<open>Going to sleep: \<open>s2\<close> is the state just before the switch.\<close>

lemma wait_switch_ok:
  fixes s s2 :: "'a sched_scheme"
  assumes "sched_ok s" and "cpu_thread (sc_cpu s cpu) = Some cur" and "\<not> is_idle s cur"
    and "sc_thread s2 = (sc_thread s)(cur := (sc_thread s cur)\<lparr>th_sched_lock := True, th_lock_depth := 1,
      th_waiting_on := Some w, th_state := E_COM_THREAD_STATE_WAITING\<rparr>)"
    and "sc_cpu s2 = sc_cpu s" and "\<And>v. get_wl v s2 = (if v = w then wl_insert_tail cur (get_wl v s) else get_wl v s)"
  shows "\<exists>s'. com_sys_sched_yield_nolock cpu s2 = Ok s' \<and> sched_ok s' \<and> cpu_thread (sc_cpu s' cpu) = Some (next_thread cpu s) \<and>
    th_waiting_on (sc_thread s' cur) = Some w"
proof -
  note C = sched_ok_current [OF assms(1,2)]
  let ?n = "next_thread cpu s"
  note N = next_thread_ready [OF assms(1,2) disjI2 [OF assms(3)]]
  have nx: "?n = (case cpu_sched_queue (sc_cpu s2 cpu) of [] \<Rightarrow> cpu_idle_thread (sc_cpu s2 cpu) | n # _ \<Rightarrow> n)"
    by (simp only: next_thread_def assms(5))
  have "\<exists>s'. com_sys_sched_yield_nolock cpu s2 = Ok s' \<and> switch_effect cpu cur ?n E_COM_THREAD_STATE_WAITING [] s2 s'"
    by (rule yield_nolock_effect [OF _ _ _ _ nx]) (use assms(2,4,5) C N(1-5) in simp_all)
  then obtain s' where s': "com_sys_sched_yield_nolock cpu s2 = Ok s'"
    "switch_effect cpu cur ?n E_COM_THREAD_STATE_WAITING [] s2 s'" by blast
  have sw: "switched cpu cur ?n E_COM_THREAD_STATE_WAITING (Some w) (tl (cpu_sched_queue (sc_cpu s cpu)) @ []) s s'"
    by (rule switch_effect_switched [OF s'(2) N(1)]) (use assms(4-6) C(4) in auto)
  have "sched_ok s'"
  proof (rule switched_ok [OF assms(1,2) N(1) _ N(2) _ N(6) _ sw])
    show "?n = cpu_idle_thread (sc_cpu s cpu) \<or> (\<exists>rest. cpu_sched_queue (sc_cpu s cpu) = ?n # rest)"
      by (auto simp: next_thread_def split: list.split)
  qed (use assms(3) in simp_all)
  moreover have "th_waiting_on (sc_thread s' cur) = Some w" "cpu_thread (sc_cpu s' cpu) = Some ?n"
    using sw by (simp_all add: switched_def same_cpu_def)
  ultimately show ?thesis using s'(1) by simp
qed

section \<open>Waiting and waking keep the invariant\<close>

lemma wait_nodrop_ok:
  assumes "sched_ok s" and "cpu_thread (sc_cpu s cpu) = Some cur" and "\<not> is_idle s cur"
  shows "\<exists>s'. com_sys_sched_wait_nodrop cpu w s = Ok s' \<and> sched_ok s' \<and>
    cpu_thread (sc_cpu s' cpu) = Some (next_thread cpu s) \<and> th_waiting_on (sc_thread s' cur) = Some w"
proof -
  note C = sched_ok_current [OF assms(1,2)]
  define s1 where "s1 = add_depth cpu 1 (upd_thread cur (\<lambda>th. th\<lparr>th_sched_lock := True\<rparr>) s)"
  define s2 where "s2 = upd_wl w (wl_insert_tail cur)
    (upd_thread cur (\<lambda>th. th\<lparr>th_state := E_COM_THREAD_STATE_WAITING\<rparr>) (upd_thread cur (\<lambda>th. th\<lparr>th_waiting_on := Some w\<rparr>) s1))"
  have s1: "sc_thread s1 = (sc_thread s)(cur := (sc_thread s cur)\<lparr>th_sched_lock := True, th_lock_depth := 1\<rparr>)" "sc_cpu s1 = sc_cpu s"
    using assms(2) C(2) by (simp_all add: s1_def add_depth_def)
  have "com_sys_sched_wait_nodrop cpu w s = com_sys_sched_yield_nolock cpu s2"
    using assms(2) C(1,2,4,6) s1
    by (simp add: com_sys_sched_wait_nodrop_def cur_depth_def start_wait_def sched_lock_acquire_def s1_def [symmetric]
        sched_waitlist_insert_def com_sys_thread_transition_nolock_def s2_def) (simp add: s1_def)
  moreover have "\<exists>s'. com_sys_sched_yield_nolock cpu s2 = Ok s' \<and> sched_ok s' \<and> cpu_thread (sc_cpu s' cpu) = Some (next_thread cpu s) \<and>
    th_waiting_on (sc_thread s' cur) = Some w"
    by (rule wait_switch_ok [OF assms]) (simp_all add: s2_def s1, simp_all add: s1_def)
  ultimately show ?thesis by simp
qed

text \<open>Waiting with a spinlock: the caller's lock accounts for a depth of one.\<close>

lemma wait_ok:
  assumes "sched_ok s" and "cpu_thread (sc_cpu s cpu) = Some cur" and "\<not> is_idle s cur"
  shows "\<exists>s'. com_sys_sched_wait cpu w (add_depth cpu 1 s) = Ok s' \<and> sched_ok s' \<and>
    cpu_thread (sc_cpu s' cpu) = Some (next_thread cpu s) \<and> th_waiting_on (sc_thread s' cur) = Some w"
proof -
  note C = sched_ok_current [OF assms(1,2)]
  define s0 where "s0 = add_depth cpu 1 s"
  define s1 where "s1 = add_depth cpu 1 (upd_thread cur (\<lambda>th. th\<lparr>th_sched_lock := True\<rparr>) s0)"
  define s2 where "s2 = add_depth cpu (- 1) (upd_wl w (wl_insert_tail cur)
    (upd_thread cur (\<lambda>th. th\<lparr>th_state := E_COM_THREAD_STATE_WAITING\<rparr>) (upd_thread cur (\<lambda>th. th\<lparr>th_waiting_on := Some w\<rparr>) s1)))"
  have s0: "sc_thread s0 = (sc_thread s)(cur := (sc_thread s cur)\<lparr>th_lock_depth := 1\<rparr>)" "sc_cpu s0 = sc_cpu s"
    using assms(2) C(2) by (simp_all add: s0_def add_depth_def)
  have s1: "sc_thread s1 = (sc_thread s)(cur := (sc_thread s cur)\<lparr>th_lock_depth := 2, th_sched_lock := True\<rparr>)" "sc_cpu s1 = sc_cpu s"
    using assms(2) s0 by (simp_all add: s1_def add_depth_def) (cases "sc_thread s cur"; simp)
  have wl1: "get_wl v s1 = get_wl v s" for v by (simp add: s1_def s0_def)
  have "com_sys_sched_wait cpu w s0 = com_sys_sched_yield_nolock cpu s2"
    using assms(2) C(1,2,4,6) s0 s1 wl1
    by (simp add: com_sys_sched_wait_def cur_depth_def start_wait_def sched_lock_acquire_def s1_def [symmetric]
        sched_waitlist_insert_def com_sys_thread_transition_nolock_def s2_def)
  moreover have "\<exists>s'. com_sys_sched_yield_nolock cpu s2 = Ok s' \<and> sched_ok s' \<and> cpu_thread (sc_cpu s' cpu) = Some (next_thread cpu s) \<and>
    th_waiting_on (sc_thread s' cur) = Some w"
  proof (rule wait_switch_ok [OF assms])
    show "sc_thread s2 = (sc_thread s)(cur := (sc_thread s cur)\<lparr>th_sched_lock := True, th_lock_depth := 1,
        th_waiting_on := Some w, th_state := E_COM_THREAD_STATE_WAITING\<rparr>)"
      using assms(2) by (simp add: s2_def s1 add_depth_thread) (cases "sc_thread s cur"; simp)
  qed (simp_all add: s2_def s1 wl1)
  ultimately show ?thesis by (simp add: s0_def)
qed

lemma ready_nolock_effect:
  assumes "\<And>c. \<not> cpu_runqueue_lock (sc_cpu s c)" and "th_state (sc_thread s t) \<noteq> E_COM_THREAD_STATE_EXITED"
  shows "\<exists>rc s'. com_sys_thread_ready_nolock rnd t s = Ok s' \<and> made_ready rc t s s'"
  using assms by (intro exI [of _ "case th_last_cpu (sc_thread s t) of None \<Rightarrow> rnd | Some c \<Rightarrow> c"])
    (simp add: com_sys_thread_ready_nolock_def Let_def com_sys_thread_transition_nolock_def made_ready_def same_cpu_def)

text \<open>A wake-up under the lock of the thread, as seen from outside the lock.\<close>

lemma made_ready_locked:
  fixes s s2 s3 :: "'a sched_scheme"
  assumes "cpu_thread (sc_cpu s cpu) \<noteq> Some t"
    and "sc_thread s2 = (sc_thread (add_depth cpu 1 s))(t := X)"
    and "th_cpu X = th_cpu (sc_thread s t)" "th_lock_depth X = th_lock_depth (sc_thread s t)"
    and "sc_cpu s2 = sc_cpu s"
    and "\<And>w. wl_queue (get_wl w s2) = remove1 t (wl_queue (get_wl w s)) \<and> wl_lock (get_wl w s2) = wl_lock (get_wl w s)"
    and "made_ready rc t s2 s3"
  shows "readied rc t s (sched_lock_release cpu t s3)"
proof -
  have cur: "cpu_thread (sc_cpu s3 cpu) = cpu_thread (sc_cpu s cpu)"
    using assms(5,7) by (simp add: made_ready_def same_cpu_def)
  show ?thesis
  proof (cases "cpu_thread (sc_cpu s cpu)")
    case None
    then show ?thesis using cur assms by (simp add: readied_def made_ready_def sched_lock_release_def add_depth_def)
  next
    case (Some u)
    then have "u \<noteq> t" using assms(1) by auto
    then show ?thesis using Some cur assms by (simp add: readied_def made_ready_def sched_lock_release_def add_depth_def)
  qed
qed

lemma acquire_thread:
  "sc_thread (add_depth cpu 1 (upd_thread t f s)) = (sc_thread (add_depth cpu 1 s))(t := f (sc_thread s t))"
  if "cpu_thread (sc_cpu s cpu) \<noteq> Some t" for f
  using that by (auto simp: add_depth_def split: option.split)

lemma thread_ready_effect:
  assumes "\<not> th_sched_lock (sc_thread s t)" and "\<And>c. \<not> cpu_runqueue_lock (sc_cpu s c)"
    and "th_state (sc_thread s t) \<noteq> E_COM_THREAD_STATE_EXITED" and "cpu_thread (sc_cpu s cpu) \<noteq> Some t"
    and "\<And>w. t \<notin> set (wl_queue (get_wl w s))"
  shows "\<exists>rc s'. com_sys_thread_ready cpu rnd t s = Ok s' \<and> readied rc t s s'"
proof -
  define s1 where "s1 = add_depth cpu 1 (upd_thread t (\<lambda>th. th\<lparr>th_sched_lock := True\<rparr>) s)"
  have s1: "sc_thread s1 = (sc_thread (add_depth cpu 1 s))(t := (sc_thread s t)\<lparr>th_sched_lock := True\<rparr>)" "sc_cpu s1 = sc_cpu s"
    "get_wl w s1 = get_wl w s" for w
    using acquire_thread [OF assms(4)] by (simp_all add: s1_def)
  have "\<not> cpu_runqueue_lock (sc_cpu s1 c)" for c using assms(2) s1(2) by simp
  moreover have "th_state (sc_thread s1 t) \<noteq> E_COM_THREAD_STATE_EXITED" using assms(3) s1(1) by simp
  ultimately obtain rc s3 where r: "com_sys_thread_ready_nolock rnd t s1 = Ok s3" "made_ready rc t s1 s3"
    using ready_nolock_effect by blast
  have "readied rc t s (sched_lock_release cpu t s3)"
    by (rule made_ready_locked [OF assms(4) s1(1) _ _ s1(2) _ r(2)]) (simp_all add: s1(3) remove1_idem assms(5))
  then show ?thesis using assms(1) r(1) by (auto simp: com_sys_thread_ready_def sched_lock_acquire_def s1_def [symmetric])
qed

lemma sched_exceptD:
  assumes "sched_except P s"
  shows "cpus_ok s" "queues_ok s" "waits_except P s" "\<not> th_sched_lock (sc_thread s t)" "\<not> cpu_runqueue_lock (sc_cpu s c)"
    "\<not> wl_lock (get_wl w s)" "inj (\<lambda>c. cpu_idle_thread (sc_cpu s c))"
    and "cpu_thread (sc_cpu s c) = Some t \<Longrightarrow> is_idle s t \<Longrightarrow> cpu_idle_thread (sc_cpu s c) = t"
  using assms unfolding sched_except_def unlocked_def by blast+

lemma waits_exceptD:
  assumes "waits_except P s"
  shows "t \<in> set (wl_queue (get_wl w s)) \<longleftrightarrow> th_waiting_on (sc_thread s t) = Some w \<and> t \<notin> P"
    and "distinct (wl_queue (get_wl w s))"
    and "th_waiting_on (sc_thread s t) = None \<longleftrightarrow> th_state (sc_thread s t) \<noteq> E_COM_THREAD_STATE_WAITING"
    and "th_state (sc_thread s t) = E_COM_THREAD_STATE_WAITING \<Longrightarrow> th_cpu (sc_thread s t) = None"
    and "is_idle s t \<Longrightarrow> th_state (sc_thread s t) \<in> {E_COM_THREAD_STATE_READY, E_COM_THREAD_STATE_RUNNING}"
    and "t \<in> P \<Longrightarrow> th_state (sc_thread s t) = E_COM_THREAD_STATE_WAITING"
  using assms unfolding waits_except_def by blast+

lemma readied_idle: "readied rc t s s' \<Longrightarrow> is_idle s' u = is_idle s u"
  by (simp add: readied_def same_cpu_def is_idle_def)

lemma readied_thread: "readied rc t s s' \<Longrightarrow>
    th_state (sc_thread s' u) = (if u = t then E_COM_THREAD_STATE_READY else th_state (sc_thread s u)) \<and>
    th_waiting_on (sc_thread s' u) = (if u = t then None else th_waiting_on (sc_thread s u)) \<and>
    th_cpu (sc_thread s' u) = th_cpu (sc_thread s u) \<and> th_lock_depth (sc_thread s' u) = th_lock_depth (sc_thread s u)"
  by (simp add: readied_def)

lemma readied_cpu: "readied rc t s s' \<Longrightarrow>
    cpu_thread (sc_cpu s' c) = cpu_thread (sc_cpu s c) \<and> cpu_idle_thread (sc_cpu s' c) = cpu_idle_thread (sc_cpu s c) \<and>
    cpu_runqueue_lock (sc_cpu s' c) = cpu_runqueue_lock (sc_cpu s c) \<and>
    cpu_sched_queue (sc_cpu s' c) = cpu_sched_queue (sc_cpu s c) @ (if c = rc then [t] else [])"
  by (simp add: readied_def same_cpu_def)

lemma readied_ok:
  assumes ok: "sched_except P s" and r: "readied rc t s s'"
    and st: "th_state (sc_thread s t) \<in> {E_COM_THREAD_STATE_NEW, E_COM_THREAD_STATE_WAITING}"
  shows "sched_except (P - {t}) s'"
proof -
  note S = sched_exceptD [OF ok] and W = waits_exceptD [OF sched_exceptD(3) [OF ok]]
  note T = readied_thread [OF r] and C = readied_cpu [OF r] and I = readied_idle [OF r]
  have nq: "t \<notin> set (cpu_sched_queue (sc_cpu s c))" for c using queues_okD(3) [OF S(2), of t] st by auto
  have ni: "\<not> is_idle s t" using W(5) [of t] st by auto
  have "cpus_ok s'" unfolding cpus_ok_def using cpus_okD [OF S(1)] T C st by (auto split: if_splits)
  moreover have "queues_ok s'"
    unfolding queues_ok_def
  proof (intro conjI allI impI)
    show "distinct (cpu_sched_queue (sc_cpu s' c))" for c using C queues_okD(1) [OF S(2)] nq by simp
    show "c = d" if "u \<in> set (cpu_sched_queue (sc_cpu s' c)) \<and> u \<in> set (cpu_sched_queue (sc_cpu s' d))" for c d u
      using that C nq queues_okD(2) [OF S(2), of u c d] by (auto split: if_splits)
    show "(\<exists>c. u \<in> set (cpu_sched_queue (sc_cpu s' c))) \<longleftrightarrow> th_state (sc_thread s' u) = E_COM_THREAD_STATE_READY \<and> \<not> is_idle s' u" for u
      using queues_okD(3) [OF S(2), of u] T [of u] C I ni by (cases "u = t") auto
  qed
  moreover have "waits_except (P - {t}) s'"
  proof -
    have q: "wl_queue (get_wl w s') = remove1 t (wl_queue (get_wl w s))" for w using r by (simp add: readied_def)
    have "u \<in> set (wl_queue (get_wl w s')) \<longleftrightarrow> th_waiting_on (sc_thread s' u) = Some w \<and> u \<notin> P - {t}" for u w
      using q W(1) [of u w] W(2) [of w] T [of u] by (cases "u = t") auto
    moreover have "distinct (wl_queue (get_wl w s'))" for w using q W(2) by simp
    moreover have "th_waiting_on (sc_thread s' u) \<noteq> None \<longleftrightarrow> th_state (sc_thread s' u) = E_COM_THREAD_STATE_WAITING" for u
      using T [of u] W(3) [of u] by (simp del: not_None_eq)
    ultimately show ?thesis unfolding waits_except_def using T I W(4-6) ni by simp
  qed
  moreover have "unlocked s'" unfolding unlocked_def
  proof (intro conjI allI)
    show "\<not> th_sched_lock (sc_thread s' u)" for u using r S(4) by (cases "u = t") (simp_all add: readied_def)
  qed (use r S(5,6) C in \<open>simp_all add: readied_def\<close>)
  ultimately show ?thesis unfolding sched_except_def using S(7,8) C I by simp
qed

lemma thread_ready_ok:
  assumes "sched_except P s" and "t \<in> P \<or> th_state (sc_thread s t) = E_COM_THREAD_STATE_NEW"
  shows "\<exists>s'. com_sys_thread_ready cpu rnd t s = Ok s' \<and> sched_except (P - {t}) s' \<and>
    th_state (sc_thread s' t) = E_COM_THREAD_STATE_READY \<and> (\<forall>u. u \<noteq> t \<longrightarrow> sc_thread s' u = sc_thread s u)"
proof -
  note S = sched_exceptD [OF assms(1)] and W = waits_exceptD [OF sched_exceptD(3) [OF assms(1)]]
  have st: "th_state (sc_thread s t) \<in> {E_COM_THREAD_STATE_NEW, E_COM_THREAD_STATE_WAITING}" using assms(2) W(6) by auto
  have "\<exists>rc s'. com_sys_thread_ready cpu rnd t s = Ok s' \<and> readied rc t s s'"
  proof (rule thread_ready_effect)
    show "cpu_thread (sc_cpu s cpu) \<noteq> Some t" using cpus_okD(1) [OF S(1)] st by auto
    show "t \<notin> set (wl_queue (get_wl w s))" for w using W(1,3) [of t] assms(2) by auto
  qed (use S st in auto)
  then obtain rc s' where "com_sys_thread_ready cpu rnd t s = Ok s'" "readied rc t s s'" by blast
  with readied_ok [OF assms(1) this(2) st] show ?thesis by (auto simp: readied_def)
qed

lemma ready_each_ok:
  "sched_except (set ts) s \<Longrightarrow> distinct ts \<Longrightarrow>
    \<exists>s'. ready_each cpu rnd ts s = Ok s' \<and> sched_ok s' \<and>
      (\<forall>u. if u \<in> set ts then th_state (sc_thread s' u) = E_COM_THREAD_STATE_READY else sc_thread s' u = sc_thread s u)"
proof (induction ts arbitrary: s)
  case Nil
  then show ?case by (simp add: sched_ok_def)
next
  case (Cons t ts)
  have "set (t # ts) - {t} = set ts" using Cons.prems(2) by auto
  with thread_ready_ok [OF Cons.prems(1), of t cpu rnd] obtain s1 where
    s1: "com_sys_thread_ready cpu rnd t s = Ok s1" "sched_except (set ts) s1" "th_state (sc_thread s1 t) = E_COM_THREAD_STATE_READY"
      "\<forall>u. u \<noteq> t \<longrightarrow> sc_thread s1 u = sc_thread s u" by auto
  from Cons.IH [OF s1(2)] Cons.prems(2) obtain s' where
    s': "ready_each cpu rnd ts s1 = Ok s'" "sched_ok s'"
      "\<forall>u. if u \<in> set ts then th_state (sc_thread s' u) = E_COM_THREAD_STATE_READY else sc_thread s' u = sc_thread s1 u" by auto
  have "if u \<in> set (t # ts) then th_state (sc_thread s' u) = E_COM_THREAD_STATE_READY else sc_thread s' u = sc_thread s u" for u
    using s1(3,4) s'(3) [rule_format, of u] Cons.prems(2) by (cases "u = t") (auto split: if_splits)
  then show ?case using s1(1) s'(1,2) by simp
qed

text \<open>Taking a prefix off a waitlist and making its threads ready.\<close>

lemma pop_ready_ok:
  assumes "sched_ok s" and "\<And>wl. pop wl = (take n (wl_queue wl), wl\<lparr>wl_queue := drop n (wl_queue wl)\<rparr>)"
  shows "\<exists>s'. res_bind (notify_pop pop w s) (\<lambda>(ts, s1). ready_each cpu rnd ts s1) = Ok s' \<and> sched_ok s' \<and>
    (\<forall>u. if u \<in> set (take n (wl_queue (get_wl w s))) then th_state (sc_thread s' u) = E_COM_THREAD_STATE_READY
       else sc_thread s' u = sc_thread s u)"
proof -
  let ?ts = "take n (wl_queue (get_wl w s))" and ?s1 = "upd_wl w (\<lambda>wl. snd (pop wl)) s"
  have ok: "sched_except {} s" using assms(1) by (simp add: sched_ok_def)
  note S = sched_exceptD [OF ok] and W = waits_exceptD [OF sched_exceptD(3) [OF ok]]
  have d: "distinct ?ts" "set ?ts \<inter> set (drop n (wl_queue (get_wl w s))) = {}"
    using W(2) [of w] by (auto dest: set_take_disj_set_drop_if_distinct)
  have un: "set (wl_queue (get_wl w s)) = set ?ts \<union> set (drop n (wl_queue (get_wl w s)))"
    by (metis append_take_drop_id set_append)
  have idle: "is_idle ?s1 u = is_idle s u" for u by (simp add: is_idle_def)
  have mem: "u \<in> set (wl_queue (get_wl v ?s1)) \<longleftrightarrow> th_waiting_on (sc_thread s u) = Some v \<and> u \<notin> set ?ts" for u v
    using W(1) [of u v] W(1) [of u w] d un assms(2) by auto
  have "waits_except (set ?ts) ?s1"
    unfolding waits_except_def
  proof (intro conjI allI)
    show "u \<in> set (wl_queue (get_wl v ?s1)) \<longleftrightarrow> th_waiting_on (sc_thread ?s1 u) = Some v \<and> u \<notin> set ?ts" for u v
      using mem by simp
    show "distinct (wl_queue (get_wl v ?s1))" for v using W(2) assms(2) by simp
    show "\<forall>t\<in>set ?ts. th_state (sc_thread ?s1 t) = E_COM_THREAD_STATE_WAITING" using un W(1,3) by (metis Un_iff option.distinct(1) upd_sched_simps)
  qed (use W(3-5) idle in auto)
  moreover have "cpus_ok ?s1" "queues_ok ?s1" using S(1,2) idle by (simp_all add: cpus_ok_def queues_ok_def)
  moreover have "unlocked ?s1" using S(4-6) assms(2) by (simp add: unlocked_def)
  ultimately have "sched_except (set ?ts) ?s1" using S(7,8) idle by (simp add: sched_except_def)
  note R = ready_each_ok [OF this d(1), of cpu rnd]
  have "sc_thread ?s1 = sc_thread s" by simp
  with R show ?thesis using S(6) by (simp only: notify_pop_def assms(2) res_bind.simps if_False prod.case fst_conv)
qed

text \<open>Waking one thread by name: a timeout or a signal.\<close>

lemma notify_thread_locked:
  assumes "sched_ok s" and "th_waiting_on (sc_thread s t) = Some w"
    and "\<And>x. th_waiting_on (f x) = th_waiting_on x \<and> th_cpu (f x) = th_cpu x \<and> th_lock_depth (f x) = th_lock_depth x \<and> th_state (f x) = th_state x"
  shows "\<exists>s3. com_sys_sched_notify_thread_nolock rnd t (add_depth cpu 1 (upd_thread t f s)) = Ok s3 \<and>
    sched_ok (sched_lock_release cpu t s3) \<and> th_state (sc_thread (sched_lock_release cpu t s3) t) = E_COM_THREAD_STATE_READY"
proof -
  have ok: "sched_except {} s" using assms(1) by (simp add: sched_ok_def)
  note S = sched_exceptD [OF ok] and W = waits_exceptD [OF sched_exceptD(3) [OF ok]]
  have st: "th_state (sc_thread s t) = E_COM_THREAD_STATE_WAITING" using W(3) [of t] assms(2) by simp
  have nc: "cpu_thread (sc_cpu s cpu) \<noteq> Some t" using cpus_okD(1) [OF S(1)] st by auto
  define s1 where "s1 = add_depth cpu 1 (upd_thread t f s)"
  define s2 where "s2 = upd_wl w (wl_remove t) s1"
  have s1: "sc_thread s1 = (sc_thread (add_depth cpu 1 s))(t := f (sc_thread s t))" "sc_cpu s1 = sc_cpu s"
    "get_wl v s1 = get_wl v s" for v using acquire_thread [OF nc] by (simp_all add: s1_def)
  have wl: "wl_queue (get_wl v s2) = remove1 t (wl_queue (get_wl v s)) \<and> wl_lock (get_wl v s2) = wl_lock (get_wl v s)" for v
    using W(1) [of t v] assms(2) by (simp add: s2_def s1(3) wl_remove_def remove1_idem)
  have rq: "\<not> cpu_runqueue_lock (sc_cpu s2 c)" for c using S(5) s1(2) by (simp add: s2_def)
  have ne: "th_state (sc_thread s2 t) \<noteq> E_COM_THREAD_STATE_EXITED" using st assms(3) s1(1) by (simp add: s2_def)
  obtain rc s3 where r: "com_sys_thread_ready_nolock rnd t s2 = Ok s3" "made_ready rc t s2 s3"
    using ready_nolock_effect [of s2, OF rq ne] by blast
  have "com_sys_sched_notify_thread_nolock rnd t s1 = Ok s3"
    using r(1) s1 assms(2,3) W(1) [of t w] W(4) [OF st] S(6) by (simp add: com_sys_sched_notify_thread_nolock_def s2_def)
  moreover have rd: "readied rc t s (sched_lock_release cpu t s3)"
    by (rule made_ready_locked [OF nc, where X = "f (sc_thread s t)", OF _ _ _ _ wl r(2)]) (simp_all add: s2_def s1 assms(3))
  ultimately show ?thesis using readied_ok [OF ok rd] st rd by (auto simp: sched_ok_def s1_def readied_def)
qed

lemma notify_thread_ok:
  assumes "sched_ok s" and "th_waiting_on (sc_thread s t) = Some w"
  shows "\<exists>s'. com_sys_sched_notify_thread cpu rnd t s = Ok s' \<and> sched_ok s' \<and> th_state (sc_thread s' t) = E_COM_THREAD_STATE_READY"
    and "\<exists>s'. sched_handle_timeout cpu rnd t s = Ok s' \<and> sched_ok s' \<and> th_state (sc_thread s' t) = E_COM_THREAD_STATE_READY"
proof -
  have ok: "sched_except {} s" using assms(1) by (simp add: sched_ok_def)
  note S = sched_exceptD [OF ok] and W = waits_exceptD [OF sched_exceptD(3) [OF ok]]
  have "th_state (sc_thread s t) = E_COM_THREAD_STATE_WAITING" using W(3) [of t] assms(2) by simp
  then have nc: "cpu_thread (sc_cpu s cpu) \<noteq> Some t" using cpus_okD(1) [OF S(1)] by auto
  show "\<exists>s'. com_sys_sched_notify_thread cpu rnd t s = Ok s' \<and> sched_ok s' \<and> th_state (sc_thread s' t) = E_COM_THREAD_STATE_READY"
    using notify_thread_locked [OF assms, of "\<lambda>th. th\<lparr>th_sched_lock := True\<rparr>" rnd cpu] S(4)
    by (auto simp: com_sys_sched_notify_thread_def sched_lock_acquire_def)
  have "upd_thread t (\<lambda>th. th\<lparr>th_timed_wait_expired := True\<rparr>) (add_depth cpu 1 (upd_thread t (\<lambda>th. th\<lparr>th_sched_lock := True\<rparr>) s)) =
      add_depth cpu 1 (upd_thread t (\<lambda>th. th\<lparr>th_sched_lock := True, th_timed_wait_expired := True\<rparr>) s)"
    using nc by (auto simp: add_depth_def upd_thread_def fun_upd_twist split: option.split)
  then show "\<exists>s'. sched_handle_timeout cpu rnd t s = Ok s' \<and> sched_ok s' \<and> th_state (sc_thread s' t) = E_COM_THREAD_STATE_READY"
    using notify_thread_locked [OF assms, of "\<lambda>th. th\<lparr>th_sched_lock := True, th_timed_wait_expired := True\<rparr>" rnd cpu] S(4)
    by (auto simp: sched_handle_timeout_def sched_lock_acquire_def)
qed

lemma sched_ok_fields:
  fixes s s' :: "'a sched_scheme"
  assumes "sched_ok s" and "\<And>t. th_state (sc_thread s' t) = th_state (sc_thread s t) \<and> th_cpu (sc_thread s' t) = th_cpu (sc_thread s t) \<and>
      th_waiting_on (sc_thread s' t) = th_waiting_on (sc_thread s t) \<and> th_lock_depth (sc_thread s' t) = th_lock_depth (sc_thread s t) \<and>
      th_sched_lock (sc_thread s' t) = th_sched_lock (sc_thread s t)"
    and "sc_cpu s' = sc_cpu s" and "\<And>w. get_wl w s' = get_wl w s"
  shows "sched_ok s'"
proof -
  have "sched_ok s' = sched_ok s"
    using assms(2-4) by (simp add: sched_ok_def sched_except_def cpus_ok_def queues_ok_def waits_except_def unlocked_def is_idle_def)
  then show ?thesis using assms(1) by simp
qed

lemma notify_thread_any:
  assumes "sched_ok s"
  shows "\<exists>s'. com_sys_sched_notify_thread cpu rnd t s = Ok s' \<and> sched_ok s'"
    and "\<exists>s'. sched_handle_timeout cpu rnd t s = Ok s' \<and> sched_ok s'"
proof -
  have ok: "sched_except {} s" using assms by (simp add: sched_ok_def)
  have *: "(\<exists>s'. com_sys_sched_notify_thread cpu rnd t s = Ok s' \<and> sched_ok s') \<and> (\<exists>s'. sched_handle_timeout cpu rnd t s = Ok s' \<and> sched_ok s')"
  proof (cases "th_waiting_on (sc_thread s t)")
    case None
    define s1 where "s1 = add_depth cpu 1 (upd_thread t (\<lambda>th. th\<lparr>th_sched_lock := True\<rparr>) s)"
    have "th_waiting_on (sc_thread s1 t) = None" using None by (auto simp: s1_def add_depth_def split: option.split)
    moreover have "sched_ok (sched_lock_release cpu t s1)" "sched_ok (sched_lock_release cpu t (upd_thread t (\<lambda>th. th\<lparr>th_timed_wait_expired := True\<rparr>) s1))"
      by (rule sched_ok_fields [OF assms]; use sched_exceptD(4) [OF ok] in
          \<open>auto simp: s1_def sched_lock_release_def add_depth_def split: option.split\<close>)+
    ultimately show ?thesis using sched_exceptD(4) [OF ok]
      by (simp add: com_sys_sched_notify_thread_def sched_handle_timeout_def sched_lock_acquire_def s1_def [symmetric] com_sys_sched_notify_thread_nolock_def)
  next
    case (Some w)
    then show ?thesis using notify_thread_ok [OF assms] by blast
  qed
  then show "\<exists>s'. com_sys_sched_notify_thread cpu rnd t s = Ok s' \<and> sched_ok s'" "\<exists>s'. sched_handle_timeout cpu rnd t s = Ok s' \<and> sched_ok s'"
    by blast+
qed

lemma run_op_ok: "\<exists>s'. run_op op s = Ok s' \<and> sched_ok s'" if ok: "sched_ok s" and en: "op_enabled op s"
proof (cases op)
  case (OpYield cpu)
  then show ?thesis using en yield_ok [OF ok, of cpu] by auto
next
  case (OpWait cpu w)
  then show ?thesis using en wait_ok [OF ok, of cpu _ w] by (auto simp: can_sleep_def split: option.splits)
next
  case (OpWaitNodrop cpu w)
  then show ?thesis using en wait_nodrop_ok [OF ok, of cpu _ w] by (auto simp: can_sleep_def split: option.splits)
next
  case (OpNotify cpu rnd w)
  then show ?thesis using pop_ready_ok [OF ok, of wl_pop 1 w cpu rnd] by (auto simp: com_sys_sched_notify_def wl_pop_def)
next
  case (OpNotifyAll cpu rnd w)
  have "\<exists>s'. com_sys_sched_notify_n cpu rnd w (length (wl_queue (get_wl w s))) s = Ok s' \<and> sched_ok s'"
    using pop_ready_ok [OF ok, of "wl_pop_n (length (wl_queue (get_wl w s)))" "length (wl_queue (get_wl w s))" w cpu rnd]
    by (auto simp: com_sys_sched_notify_n_def wl_pop_n_take)
  moreover have "upd_wl w (\<lambda>wl. snd (wl_pop_n (length (wl_queue (get_wl w s))) wl)) s = upd_wl w (\<lambda>wl. snd (wl_pop_all wl)) s"
    by (cases w) (simp_all add: wl_pop_n_take wl_pop_all_def)
  ultimately show ?thesis using OpNotifyAll
    by (simp add: com_sys_sched_notify_all_def com_sys_sched_notify_n_def notify_pop_def wl_pop_n_take wl_pop_all_def split: if_splits)
next
  case (OpNotifyN cpu rnd w n)
  then show ?thesis using pop_ready_ok [OF ok, of "wl_pop_n n" n w cpu rnd] by (auto simp: com_sys_sched_notify_n_def wl_pop_n_take)
next
  case (OpReady cpu rnd t)
  then show ?thesis using en thread_ready_ok [of "{}" s t cpu rnd] ok by (auto simp: sched_ok_def)
qed (use notify_thread_any [OF ok] in simp_all)

lemma sample_sched_ok: "sched_ok sample_sched"
proof -
  have idle: "is_idle sample_sched t \<longleftrightarrow> even t" for t by (auto simp: is_idle_def sample_sched_def)
  have wl: "get_wl w sample_sched = \<lparr>wl_queue = (if w = Waitlist 7 then [5] else []), wl_lock = False\<rparr>" for w
    by (cases w) (simp_all add: sample_sched_def COM_SYS_THREAD_WAITLIST_INIT_def KMUTEX_INIT_def KSPINLOCK_NEW_def wl_insert_tail_def)
  show ?thesis
    by (simp add: sched_ok_def sched_except_def cpus_ok_def queues_ok_def waits_except_def unlocked_def idle wl inj_def)
      (auto simp: sample_sched_def sample_thread_def)
qed

lemma exit_other_effect:
  fixes s :: "'a sched_scheme"
  assumes "sched_ok s" and "th_state (sc_thread s t) = E_COM_THREAD_STATE_READY" and "th_cpu (sc_thread s t) = None"
  shows "\<exists>s1. com_sys_thread_exit cpu t s = Ok s1 \<and>
    sc_thread s1 = (sc_thread s)(t := (sc_thread s t)\<lparr>th_state := E_COM_THREAD_STATE_EXITED\<rparr>) \<and> sc_cpu s1 = sc_cpu s"
proof -
  note ok = sched_okD [OF assms(1)]
  have un: "\<not> th_sched_lock (sc_thread s t)" using ok(4) by (simp add: unlocked_def)
  have ne: "(sc_thread s t)\<lparr>th_state := x, th_sched_lock := False\<rparr> = (sc_thread s t)\<lparr>th_state := x\<rparr>" for x
    using un by (cases "sc_thread s t") simp
  show ?thesis
  proof (cases "cpu_thread (sc_cpu s cpu)")
    case None
    then show ?thesis using assms un ne
      by (simp add: com_sys_thread_exit_def sched_lock_acquire_def com_sys_thread_exit_nolock_def com_sys_thread_transition_nolock_def
          sched_lock_release_def add_depth_def)
  next
    case (Some c)
    then have "c \<noteq> t" using cpus_okD(1) [OF ok(1), of cpu t] assms(2) by auto
    then show ?thesis using assms un ne Some
      by (simp add: com_sys_thread_exit_def sched_lock_acquire_def com_sys_thread_exit_nolock_def com_sys_thread_transition_nolock_def
          sched_lock_release_def add_depth_def fun_upd_twist)
  qed
qed

lemma yield_to_exited:
  assumes "cpu_thread (sc_cpu s cpu) = Some cur" and "cpu_sched_queue (sc_cpu s cpu) = n # q" and "cur \<noteq> n"
    and "n \<noteq> cpu_idle_thread (sc_cpu s cpu)" and "th_state (sc_thread s n) = E_COM_THREAD_STATE_EXITED"
    and "th_state (sc_thread s cur) = E_COM_THREAD_STATE_RUNNING" "th_lock_depth (sc_thread s cur) = 0"
    and "th_waiting_on (sc_thread s cur) = None" "\<not> th_sched_lock (sc_thread s cur)" "\<not> cpu_runqueue_lock (sc_cpu s cpu)"
  shows "com_sys_sched_yield cpu s = Panic"
  using assms by (simp add: com_sys_sched_yield_def sched_lock_acquire_def com_sys_sched_yield_nolock_def Let_def add_depth_thread
      pick_next_def put_back_def com_sys_thread_transition_nolock_def switch_to_def)

section \<open>Properties\<close>

text \<open>
  C1: From a sound state, whatever yields, waits, notifications, timeouts, single wake-ups and new
  threads follow, every operation returns: no assertion fails and no lock is found held. In every
  state reached each thread is in exactly one place: running on the processor that has it as its
  current thread, once on one run queue, or on the waitlist it waits on; the idle threads stay off
  the queues, and the lock depths are the ones a context switch expects.
\<close>

theorem sched_invariant:
  fixes s0 :: "'a sched_scheme"
  assumes "sched_ok s0" and "sched_reach s0 s"
  shows "sched_ok s \<and> (\<forall>op. op_enabled op s \<longrightarrow> (\<exists>s'. run_op op s = Ok s' \<and> sched_ok s'))"
proof -
  from assms(2) have "sched_ok s"
  proof induction
    case (step s op s')
    then show ?case using run_op_ok [OF step.IH step.hyps(2)] by simp
  qed (rule assms(1))
  then show ?thesis using run_op_ok by blast
qed

text \<open>
  A notification of at most \<open>n\<close> threads makes ready exactly the \<open>n\<close> threads that have slept
  longest on the list (all of them when there are fewer), and changes no other thread.
\<close>

theorem sched_notify_fifo:
  fixes s :: "'a sched_scheme"
  assumes "sched_ok s"
  shows "\<exists>s'. com_sys_sched_notify_n cpu rnd w n s = Ok s' \<and> sched_ok s' \<and>
    (\<forall>u. if u \<in> set (take n (wl_queue (get_wl w s))) then th_state (sc_thread s' u) = E_COM_THREAD_STATE_READY
       else sc_thread s' u = sc_thread s u)"
  using pop_ready_ok [OF assms, of "wl_pop_n n" n w cpu rnd] by (simp only: com_sys_sched_notify_n_def wl_pop_n_take)


text \<open>
  C28: A notification takes a thread off its waitlist before it takes the thread's lock. If the
  thread's timeout or a signal comes in between, it finds the thread still marked as waiting and
  unlinks it from a list it is no longer on.
\<close>

theorem sched_notify_timeout_race:
  fixes s :: "'a sched_scheme"
  assumes "sched_ok s" and "wl_queue (get_wl w s) = t # q"
  shows "\<exists>s1. notify_pop wl_pop w s = Ok ([t], s1) \<and> sched_handle_timeout cpu rnd t s1 = Panic \<and>
    com_sys_sched_notify_thread cpu rnd t s1 = Panic"
proof -
  note ok = sched_okD [OF assms(1)]
  have W: "th_waiting_on (sc_thread s t) = Some w" using waits_okD(1) [OF ok(3), of t w] assms(2) by simp
  have st: "th_state (sc_thread s t) = E_COM_THREAD_STATE_WAITING" using waits_okD(3) [OF ok(3), of t] W by simp
  have nc: "cpu_thread (sc_cpu s cpu) \<noteq> Some t" using cpus_okD(1) [OF ok(1)] st by auto
  have un: "\<not> th_sched_lock (sc_thread s t)" "\<not> wl_lock (get_wl w s)" using ok(4) by (simp_all add: unlocked_def)
  have nq: "t \<notin> set q" using waits_okD(2) [OF ok(3), of w] assms(2) by simp
  show ?thesis using W nc un nq assms(2) waits_okD(4) [OF ok(3) st]
    by (auto simp: notify_pop_def wl_pop_def sched_handle_timeout_def com_sys_sched_notify_thread_def sched_lock_acquire_def
        com_sys_sched_notify_thread_nolock_def add_depth_def split: option.split)
qed

section \<open>Witnesses\<close>

theorem sched_invariant_witness:
  "\<exists>s. sched_reach sample_sched s \<and> op_enabled (OpNotify 0 0 (Waitlist 7)) s \<and> th_waiting_on (sc_thread s 1) = Some (Waitlist 7) \<and> sched_ok s"
proof -
  have 1: "op_enabled (OpWaitNodrop 0 (Waitlist 7)) sample_sched"
    by (auto simp: can_sleep_def is_idle_def sample_sched_def)
  have cur: "cpu_thread (sc_cpu sample_sched 0) = Some 1" by (simp add: sample_sched_def)
  have "\<not> is_idle sample_sched 1" using 1 cur by (simp add: can_sleep_def)
  then obtain s where s: "com_sys_sched_wait_nodrop 0 (Waitlist 7) sample_sched = Ok s" "th_waiting_on (sc_thread s 1) = Some (Waitlist 7)"
    using wait_nodrop_ok [OF sample_sched_ok cur] by blast
  have "sched_reach sample_sched s" by (rule sched_reach.step [OF sched_reach.start 1]) (simp add: s(1))
  with sched_invariant [OF sample_sched_ok this] s(2) show ?thesis by auto
qed

theorem sched_notify_fifo_witness:
  "\<exists>s'. com_sys_sched_notify_n 0 0 (Waitlist 7) 2 sample_sched = Ok s' \<and> sched_ok s' \<and>
    th_state (sc_thread s' 5) = E_COM_THREAD_STATE_READY"
proof -
  have "wl_queue (get_wl (Waitlist 7) sample_sched) = [5]"
    by (simp add: sample_sched_def COM_SYS_THREAD_WAITLIST_INIT_def wl_insert_tail_def)
  then have "5 \<in> set (take 2 (wl_queue (get_wl (Waitlist 7) sample_sched)))" by simp
  with sched_notify_fifo [OF sample_sched_ok, of 0 0 "Waitlist 7" 2] show ?thesis by metis
qed


theorem sched_notify_timeout_race_witness:
  "\<exists>s1. notify_pop wl_pop (Waitlist 7) sample_sched = Ok ([5], s1) \<and> sched_handle_timeout 0 0 5 s1 = Panic"
proof -
  have "wl_queue (get_wl (Waitlist 7) sample_sched) = [5]"
    by (simp add: sample_sched_def COM_SYS_THREAD_WAITLIST_INIT_def wl_insert_tail_def)
  from sched_notify_timeout_race [OF sample_sched_ok this, of 0 0] show ?thesis by blast
qed

end
