(* ===== verification/Fdtable.thy ===== *)
theory Fdtable
  imports Kernel_Prelude
begin

text \<open>
  Open files and file descriptors: the descriptor part of \<^verbatim>\<open>src/com/sys/proc.c\<close> and the system
  calls that work on descriptors. A file object is shared by the descriptors that refer to it, in
  one process or in several after a fork, and counts them. The virtual file system is called
  through the node of the file; a system call that needs it takes the operation as an argument.
\<close>

section \<open>State\<close>

definition CONFIG_OPEN_MAX :: nat where
  "CONFIG_OPEN_MAX = 96"

text \<open>
  The reference counter counts references held in memory, so that it cannot come near the width of
  its type; it is an unbounded integer here.
\<close>

record com_file =
  f_off_lock :: bool
  f_off :: u64
  f_flags :: u64
  f_num_ref :: int
  f_vnode :: "nat option"

record com_filedesc =
  fd_file :: "nat option"
  fd_flags :: u64

record fdtab =
  ft_fd :: "com_filedesc list"
  ft_next_fd :: nat
  ft_max_fd :: nat
  ft_lock :: bool

text \<open>
  \<open>fs_file\<close> holds the file objects that are allocated, \<open>fs_vn_released\<close> the nodes whose reference was
  dropped with their last file.
\<close>

record fdsys =
  fs_tab :: "nat \<Rightarrow> fdtab"
  fs_file :: "nat \<Rightarrow> com_file option"
  fs_vn_released :: "nat list"

definition empty_filedesc :: com_filedesc where
  "empty_filedesc = \<lparr>fd_file = None, fd_flags = 0\<rparr>"

definition upd_tab :: "nat \<Rightarrow> (fdtab \<Rightarrow> fdtab) \<Rightarrow> fdsys \<Rightarrow> fdsys" where
  "upd_tab p f s = s\<lparr>fs_tab := (fs_tab s)(p := f (fs_tab s p))\<rparr>"

definition upd_file :: "nat \<Rightarrow> (com_file \<Rightarrow> com_file) \<Rightarrow> fdsys \<Rightarrow> fdsys" where
  "upd_file a f s = s\<lparr>fs_file := (fs_file s)(a := map_option f (fs_file s a))\<rparr>"

text \<open>The descriptor array has \<open>CONFIG_OPEN_MAX\<close> slots; touching any other is a fault.\<close>

definition fd_get :: "nat \<Rightarrow> int \<Rightarrow> fdsys \<Rightarrow> com_filedesc res" where
  "fd_get p fd s =
     (let t = ft_fd (fs_tab s p) in if 0 \<le> fd \<and> nat fd < length t then Ok (t ! nat fd) else Panic)"

definition fd_put :: "nat \<Rightarrow> int \<Rightarrow> com_filedesc \<Rightarrow> fdsys \<Rightarrow> fdsys res" where
  "fd_put p fd d s =
     (if 0 \<le> fd \<and> nat fd < length (ft_fd (fs_tab s p))
      then Ok (upd_tab p (\<lambda>t. t\<lparr>ft_fd := (ft_fd t)[nat fd := d]\<rparr>) s) else Panic)"

text \<open>A reference to a file object that is gone is a fault.\<close>

definition file_at :: "nat \<Rightarrow> fdsys \<Rightarrow> com_file res" where
  "file_at a s = (case fs_file s a of None \<Rightarrow> Panic | Some f \<Rightarrow> Ok f)"

definition COM_FS_FILE_HOLD :: "nat option \<Rightarrow> fdsys \<Rightarrow> fdsys res" where
  "COM_FS_FILE_HOLD fo s =
     (case fo of
        None \<Rightarrow> Ok s
      | Some a \<Rightarrow> res_bind (file_at a s) (\<lambda>_. Ok (upd_file a (\<lambda>f. f\<lparr>f_num_ref := f_num_ref f + 1\<rparr>) s)))"

definition COM_FS_FILE_RELEASE :: "nat option \<Rightarrow> fdsys \<Rightarrow> fdsys res" where
  "COM_FS_FILE_RELEASE fo s =
     (case fo of
        None \<Rightarrow> Ok s
      | Some a \<Rightarrow> res_bind (file_at a s) (\<lambda>f.
          case f_vnode f of
            None \<Rightarrow> Ok s
          | Some vn \<Rightarrow>
              if f_num_ref f - 1 = 0
              then Ok (s\<lparr>fs_file := (fs_file s)(a := None), fs_vn_released := fs_vn_released s @ [vn]\<rparr>)
              else Ok (upd_file a (\<lambda>f. f\<lparr>f_num_ref := f_num_ref f - 1\<rparr>) s)))"

definition fd_lock_acquire :: "nat \<Rightarrow> fdsys \<Rightarrow> fdsys res" where
  "fd_lock_acquire p s = (if ft_lock (fs_tab s p) then Blocked else Ok (upd_tab p (\<lambda>t. t\<lparr>ft_lock := True\<rparr>) s))"

definition fd_lock_release :: "nat \<Rightarrow> fdsys \<Rightarrow> fdsys" where
  "fd_lock_release p s = upd_tab p (\<lambda>t. t\<lparr>ft_lock := False\<rparr>) s"

section \<open>Descriptors of a process\<close>

text \<open>The loops that look for an empty slot, from \<open>i\<close> on.\<close>

function free_from :: "com_filedesc list \<Rightarrow> nat \<Rightarrow> nat" where
  "free_from t i = (if i < CONFIG_OPEN_MAX \<and> fd_file (t ! i) \<noteq> None then free_from t (i + 1) else i)"
  by pat_completeness auto
termination by (relation "measure (\<lambda>(t, i). CONFIG_OPEN_MAX - i)") auto

definition proc_update_fd_hint :: "fdtab \<Rightarrow> fdtab" where
  "proc_update_fd_hint t =
     (let n = free_from (ft_fd t) (ft_next_fd t);
          n' = (if n < CONFIG_OPEN_MAX then n else free_from (ft_fd t) 0)
      in t\<lparr>ft_next_fd := n', ft_max_fd := max (ft_max_fd t) n'\<rparr>)"

definition com_sys_proc_next_fd :: "nat \<Rightarrow> fdsys \<Rightarrow> (int \<times> fdsys) res" where
  "com_sys_proc_next_fd p s =
     res_bind (fd_lock_acquire p s) (\<lambda>s1.
       let ret = ft_next_fd (fs_tab s1 p);
           s2 = upd_tab p (\<lambda>t. proc_update_fd_hint (t\<lparr>ft_next_fd := ft_next_fd t + 1\<rparr>)) s1
       in Ok (if ret \<ge> CONFIG_OPEN_MAX then - 1 else int ret, fd_lock_release p s2))"

text \<open>The bound that the lookups check.\<close>

definition bad_fd :: "int \<Rightarrow> bool" where
  "bad_fd fd \<longleftrightarrow> fd > int CONFIG_OPEN_MAX \<or> fd < 0"

text \<open>A descriptor is found as its index; reading it or its file touches the slot.\<close>

definition com_sys_proc_get_fildesc_nolock :: "nat \<Rightarrow> int \<Rightarrow> int option" where
  "com_sys_proc_get_fildesc_nolock p fd = (if bad_fd fd then None else Some fd)"

definition com_sys_proc_get_file_nolock :: "nat \<Rightarrow> int \<Rightarrow> fdsys \<Rightarrow> (nat option \<times> fdsys) res" where
  "com_sys_proc_get_file_nolock p fd s =
     (if bad_fd fd then Ok (None, s)
      else res_bind (fd_get p fd s) (\<lambda>d.
           res_bind (COM_FS_FILE_HOLD (fd_file d) s) (\<lambda>s1. Ok (fd_file d, s1))))"

definition com_sys_proc_get_file :: "nat \<Rightarrow> int \<Rightarrow> fdsys \<Rightarrow> (nat option \<times> fdsys) res" where
  "com_sys_proc_get_file p fd s =
     res_bind (fd_lock_acquire p s) (\<lambda>s1.
     res_bind (com_sys_proc_get_file_nolock p fd s1) (\<lambda>(f, s2). Ok (f, fd_lock_release p s2)))"

text \<open>
  The loop of the duplication, which reads \<open>fd[new_fd]\<close> before it compares \<open>new_fd\<close> with the bound;
  \<open>None\<close> is the table being full.
\<close>

function dup_slot :: "com_filedesc list \<Rightarrow> nat \<Rightarrow> nat option res" where
  "dup_slot t i =
     (if i \<ge> length t then Panic
      else if fd_file (t ! i) \<noteq> None then (if i \<ge> CONFIG_OPEN_MAX then Ok None else dup_slot t (i + 1))
      else Ok (Some i))"
  by pat_completeness auto
termination by (relation "measure (\<lambda>(t, i). length t - i)") auto

text \<open>The result is a descriptor, or the error with its sign changed.\<close>

definition com_sys_proc_duplicate_file_nolock :: "nat \<Rightarrow> int \<Rightarrow> int \<Rightarrow> fdsys \<Rightarrow> ((errno + int) \<times> fdsys) res" where
  "com_sys_proc_duplicate_file_nolock p new_fd old_fd s =
     (if bad_fd old_fd \<or> bad_fd new_fd then Ok (Inl EINVAL, s)
      else res_bind (dup_slot (ft_fd (fs_tab s p)) (nat new_fd)) (\<lambda>r.
        case r of
          None \<Rightarrow> Ok (Inl EMFILE, s)
        | Some i \<Rightarrow>
            res_bind (fd_get p old_fd s) (\<lambda>d.
            res_bind (fd_put p (int i) (d\<lparr>fd_flags := 0\<rparr>) s) (\<lambda>s1.
            let s2 = upd_tab p proc_update_fd_hint s1 in
            res_bind (COM_FS_FILE_HOLD (fd_file d) s2) (\<lambda>s3. Ok (Inr (int i), s3))))))"

definition com_sys_proc_duplicate_file :: "nat \<Rightarrow> int \<Rightarrow> int \<Rightarrow> fdsys \<Rightarrow> ((errno + int) \<times> fdsys) res" where
  "com_sys_proc_duplicate_file p new_fd old_fd s =
     res_bind (fd_lock_acquire p s) (\<lambda>s1.
     res_bind (com_sys_proc_duplicate_file_nolock p new_fd old_fd s1) (\<lambda>(r, s2). Ok (r, fd_lock_release p s2)))"

definition com_sys_proc_close_file_nolock :: "nat \<Rightarrow> int \<Rightarrow> fdsys \<Rightarrow> (errno \<times> nat option \<times> fdsys) res" where
  "com_sys_proc_close_file_nolock p fd s =
     (if bad_fd fd then Ok (EBADF, None, s)
      else res_bind (fd_get p fd s) (\<lambda>d.
        case fd_file d of
          None \<Rightarrow> Ok (EBADF, None, s)
        | Some a \<Rightarrow>
            res_bind (fd_put p fd empty_filedesc s) (\<lambda>s1.
            Ok (EOK, Some a, upd_tab p (\<lambda>t. if nat fd < ft_next_fd t then t\<lparr>ft_next_fd := nat fd\<rparr> else t) s1))))"

definition com_sys_proc_close_file :: "nat \<Rightarrow> int \<Rightarrow> fdsys \<Rightarrow> (errno \<times> fdsys) res" where
  "com_sys_proc_close_file p fd s =
     res_bind (fd_lock_acquire p s) (\<lambda>s1.
     res_bind (com_sys_proc_close_file_nolock p fd s1) (\<lambda>(e, f, s2).
     res_bind (COM_FS_FILE_RELEASE f (fd_lock_release p s2)) (\<lambda>s3. Ok (e, s3))))"

declare free_from.simps [simp del] dup_slot.simps [simp del]

section \<open>System calls\<close>

record com_syscall_ret =
  sr_value :: int
  sr_err :: errno

definition COM_SYS_SYSCALL_OK :: "int \<Rightarrow> com_syscall_ret" where
  "COM_SYS_SYSCALL_OK v = \<lparr>sr_value = v, sr_err = EOK\<rparr>"

definition COM_SYS_SYSCALL_ERR :: "errno \<Rightarrow> com_syscall_ret" where
  "COM_SYS_SYSCALL_ERR e = \<lparr>sr_value = - 1, sr_err = e\<rparr>"

definition com_sys_syscall_close :: "nat \<Rightarrow> int \<Rightarrow> fdsys \<Rightarrow> (com_syscall_ret \<times> fdsys) res" where
  "com_sys_syscall_close p fd s =
     res_bind (com_sys_proc_close_file p fd s) (\<lambda>(e, s1).
       Ok (if e \<noteq> EOK then COM_SYS_SYSCALL_ERR e else COM_SYS_SYSCALL_OK 0, s1))"

definition com_sys_syscall_dup3 :: "nat \<Rightarrow> int \<Rightarrow> int \<Rightarrow> fdsys \<Rightarrow> (com_syscall_ret \<times> fdsys) res" where
  "com_sys_syscall_dup3 p old_fd new_fd s =
     res_bind (fd_lock_acquire p s) (\<lambda>s1.
     res_bind (com_sys_proc_close_file_nolock p new_fd s1) (\<lambda>(_, file, s2).
     res_bind (com_sys_proc_duplicate_file_nolock p new_fd old_fd s2) (\<lambda>(r, s3).
     res_bind (COM_FS_FILE_RELEASE file (fd_lock_release p s3)) (\<lambda>s4.
       Ok (case r of Inl e \<Rightarrow> COM_SYS_SYSCALL_ERR e | Inr _ \<Rightarrow> COM_SYS_SYSCALL_OK 0, s4)))))"

text \<open>The operations of \<^verbatim>\<open>fcntl\<close>; \<open>F_OTHER\<close> is every number the code does not know.\<close>

datatype fcntl_op = F_GETFL | F_GETFD | F_SETFL | F_SETFD | F_DUPFD | F_DUPFD_CLOEXEC | F_GETPIPE_SZ | F_OTHER

definition FD_CLOEXEC :: u64 where
  "FD_CLOEXEC = 1"

definition ARCH_PAGE_BYTES :: int where
  "ARCH_PAGE_BYTES = 4096"

definition set_fd_flags :: "nat \<Rightarrow> int \<Rightarrow> (u64 \<Rightarrow> u64) \<Rightarrow> fdsys \<Rightarrow> fdsys res" where
  "set_fd_flags p fd f s = res_bind (fd_get p fd s) (\<lambda>d. fd_put p fd (d\<lparr>fd_flags := f (fd_flags d)\<rparr>) s)"

definition fcntl_dup :: "nat \<Rightarrow> int \<Rightarrow> fcntl_op \<Rightarrow> int \<Rightarrow> fdsys \<Rightarrow> (com_syscall_ret \<times> fdsys) res" where
  "fcntl_dup p fd op arg1 s =
     res_bind (com_sys_proc_duplicate_file_nolock p arg1 fd s) (\<lambda>(r, s1).
       case r of
         Inl e \<Rightarrow> Ok (COM_SYS_SYSCALL_ERR e, s1)
       | Inr new_fd \<Rightarrow>
           if op = F_DUPFD_CLOEXEC
           then res_bind (set_fd_flags p new_fd (\<lambda>fl. fl OR FD_CLOEXEC) s1) (\<lambda>s2. Ok (COM_SYS_SYSCALL_OK new_fd, s2))
           else Ok (COM_SYS_SYSCALL_OK new_fd, s1))"

definition fcntl_on :: "nat \<Rightarrow> int \<Rightarrow> nat \<Rightarrow> fcntl_op \<Rightarrow> int \<Rightarrow> fdsys \<Rightarrow> (com_syscall_ret \<times> fdsys) res" where
  "fcntl_on p fd a op arg1 s =
     (case op of
        F_GETFL \<Rightarrow> res_bind (file_at a s) (\<lambda>f. Ok (COM_SYS_SYSCALL_OK (uint (f_flags f)), s))
      | F_GETFD \<Rightarrow> res_bind (fd_get p fd s) (\<lambda>d. Ok (COM_SYS_SYSCALL_OK (uint (fd_flags d)), s))
      | F_SETFL \<Rightarrow> Ok (COM_SYS_SYSCALL_OK 0, upd_file a (\<lambda>f. f\<lparr>f_flags := word_of_int arg1\<rparr>) s)
      | F_SETFD \<Rightarrow> res_bind (set_fd_flags p fd (\<lambda>_. word_of_int arg1) s) (\<lambda>s1. Ok (COM_SYS_SYSCALL_OK 0, s1))
      | F_DUPFD \<Rightarrow> fcntl_dup p fd op arg1 s
      | F_DUPFD_CLOEXEC \<Rightarrow> fcntl_dup p fd op arg1 s
      | F_GETPIPE_SZ \<Rightarrow> Ok (COM_SYS_SYSCALL_OK ARCH_PAGE_BYTES, s)
      | F_OTHER \<Rightarrow> Ok (COM_SYS_SYSCALL_ERR ENOSYS, s))"

definition com_sys_syscall_fcntl :: "nat \<Rightarrow> int \<Rightarrow> fcntl_op \<Rightarrow> int \<Rightarrow> fdsys \<Rightarrow> (com_syscall_ret \<times> fdsys) res" where
  "com_sys_syscall_fcntl p fd op arg1 s =
     res_bind (fd_lock_acquire p s) (\<lambda>s1.
     res_bind (com_sys_proc_get_file_nolock p fd s1) (\<lambda>(file, s2).
     res_bind (case file of
         None \<Rightarrow> Ok (COM_SYS_SYSCALL_ERR EBADF, s2)
       | Some a \<Rightarrow> fcntl_on p fd a op arg1 s2) (\<lambda>(ret, s3).
     res_bind (COM_FS_FILE_RELEASE file s3) (\<lambda>s4. Ok (ret, fd_lock_release p s4)))))"

text \<open>A new file object at the address \<open>a\<close> and its descriptor; the slot keeps its flags.\<close>

definition install_file :: "nat \<Rightarrow> int \<Rightarrow> nat \<Rightarrow> nat \<Rightarrow> u64 \<Rightarrow> fdsys \<Rightarrow> fdsys res" where
  "install_file p fd a vn flags s =
     res_bind (fd_get p fd s) (\<lambda>d. fd_put p fd (d\<lparr>fd_file := Some a\<rparr>)
       (s\<lparr>fs_file := (fs_file s)(a := Some \<lparr>f_off_lock = False, f_off = 0, f_flags = flags, f_num_ref = 1, f_vnode = Some vn\<rparr>)\<rparr>))"

text \<open>\<open>rd\<close> and \<open>wr\<close> are the nodes of a new pipe, \<open>ra\<close> and \<open>wa\<close> the addresses of the two file objects.\<close>

definition com_sys_syscall_pipe :: "nat \<Rightarrow> nat \<Rightarrow> nat \<Rightarrow> nat \<Rightarrow> nat \<Rightarrow> fdsys \<Rightarrow> ((com_syscall_ret \<times> (int \<times> int) option) \<times> fdsys) res" where
  "com_sys_syscall_pipe p rd wr ra wa s =
     res_bind (com_sys_proc_next_fd p s) (\<lambda>(rfd, s1).
     res_bind (com_sys_proc_next_fd p s1) (\<lambda>(wfd, s2).
       if rfd = - 1 \<or> wfd = - 1 then Ok ((COM_SYS_SYSCALL_ERR EMFILE, None), s2)
       else res_bind (install_file p rfd ra rd 0 s2) (\<lambda>s3.
            res_bind (install_file p wfd wa wr 0 s3) (\<lambda>s4.
            Ok ((COM_SYS_SYSCALL_OK 0, Some (rfd, wfd)), s4)))))"

text \<open>
  The socket call, with the type that \<^verbatim>\<open>com_ipc_socket_type_from_abi\<close> reports as supported or not, the
  flags it derives from the type argument and the node of the new socket.
\<close>

definition com_sys_syscall_socket :: "nat \<Rightarrow> bool \<Rightarrow> u64 \<Rightarrow> nat \<Rightarrow> nat \<Rightarrow> fdsys \<Rightarrow> (com_syscall_ret \<times> fdsys) res" where
  "com_sys_syscall_socket p supported flags vn a s =
     (if \<not> supported then Ok (COM_SYS_SYSCALL_ERR EAFNOSUPPORT, s)
      else res_bind (com_sys_proc_next_fd p s) (\<lambda>(fd, s1).
        if fd = - 1 then Ok (COM_SYS_SYSCALL_ERR EMFILE, s1)
        else res_bind (install_file p fd a vn flags s1) (\<lambda>s2. Ok (COM_SYS_SYSCALL_OK fd, s2))))"

text \<open>A directory argument: the current directory, or a descriptor.\<close>

datatype dir_ref = AT_FDCWD | DirFd int

definition com_sys_proc_get_directory :: "nat \<Rightarrow> nat \<Rightarrow> dir_ref \<Rightarrow> fdsys \<Rightarrow> ((errno \<times> nat option \<times> nat option) \<times> fdsys) res" where
  "com_sys_proc_get_directory p cwd dir_fd s =
     (case dir_fd of
        AT_FDCWD \<Rightarrow> Ok ((EOK, None, Some cwd), s)
      | DirFd fd \<Rightarrow>
          res_bind (com_sys_proc_get_file p fd s) (\<lambda>(file, s1).
            case file of
              None \<Rightarrow> Ok ((EBADF, None, None), s1)
            | Some a \<Rightarrow> res_bind (file_at a s1) (\<lambda>f. Ok ((EOK, Some a, f_vnode f), s1))))"

text \<open>
  Opening: \<open>resolve\<close> is the lookup or, with \<^verbatim>\<open>O_CREAT\<close>, the creation in a directory, \<open>opn\<close> the open
  operation of the node found, which may put another node in its place.
\<close>

definition vn_release :: "nat \<Rightarrow> fdsys \<Rightarrow> fdsys" where
  "vn_release vn s = s\<lparr>fs_vn_released := fs_vn_released s @ [vn]\<rparr>"

definition openat_node ::
  "nat \<Rightarrow> (nat \<Rightarrow> errno + nat option) \<Rightarrow> (nat \<Rightarrow> bool) \<Rightarrow> bool \<Rightarrow> u64 \<Rightarrow> nat \<Rightarrow> nat \<Rightarrow> fdsys \<Rightarrow> (com_syscall_ret \<times> fdsys) res" where
  "openat_node p opn is_dir o_directory flags a file_vn s =
     (case opn file_vn of
        Inl e \<Rightarrow> Ok (COM_SYS_SYSCALL_ERR e, vn_release file_vn s)
      | Inr new_vn \<Rightarrow>
          let (vn, s1) = (case new_vn of
                Some v \<Rightarrow> if v \<noteq> file_vn then (v, vn_release file_vn s) else (file_vn, s)
              | None \<Rightarrow> (file_vn, s))
          in if o_directory \<and> \<not> is_dir vn then Ok (COM_SYS_SYSCALL_ERR ENOTDIR, vn_release vn s1)
             else res_bind (com_sys_proc_next_fd p s1) (\<lambda>(fd, s2).
               if fd = - 1 then Ok (COM_SYS_SYSCALL_ERR EMFILE, s2)
               else res_bind (install_file p fd a vn flags s2) (\<lambda>s3. Ok (COM_SYS_SYSCALL_OK fd, s3))))"

definition com_sys_syscall_openat ::
  "nat \<Rightarrow> nat \<Rightarrow> (nat \<Rightarrow> errno + nat) \<Rightarrow> (nat \<Rightarrow> errno + nat option) \<Rightarrow> (nat \<Rightarrow> bool) \<Rightarrow> dir_ref \<Rightarrow> bool \<Rightarrow> u64 \<Rightarrow> nat \<Rightarrow> fdsys
   \<Rightarrow> (com_syscall_ret \<times> fdsys) res" where
  "com_sys_syscall_openat p cwd resolve opn is_dir dir_fd o_directory flags a s =
     res_bind (com_sys_proc_get_directory p cwd dir_fd s) (\<lambda>((e, dir_file, dir), s1).
     res_bind
       (if e \<noteq> EOK then Ok (COM_SYS_SYSCALL_ERR e, s1)
        else case dir of
          None \<Rightarrow> Panic
        | Some d \<Rightarrow>
            (case resolve d of
               Inl e \<Rightarrow> Ok (COM_SYS_SYSCALL_ERR e, s1)
             | Inr file_vn \<Rightarrow> openat_node p opn is_dir o_directory flags a file_vn s1)) (\<lambda>(ret, s2).
     res_bind (COM_FS_FILE_RELEASE dir_file s2) (\<lambda>s3. Ok (ret, s3))))"

text \<open>
  The calls on an open file: take a reference, work on the file, drop the reference. The operation
  of the virtual file system gets the node of the file.
\<close>

definition with_file ::
  "nat \<Rightarrow> int \<Rightarrow> (nat \<Rightarrow> fdsys \<Rightarrow> (com_syscall_ret \<times> fdsys) res) \<Rightarrow> fdsys \<Rightarrow> (com_syscall_ret \<times> fdsys) res" where
  "with_file p fd body s =
     res_bind (com_sys_proc_get_file p fd s) (\<lambda>(file, s1).
       case file of
         None \<Rightarrow> Ok (COM_SYS_SYSCALL_ERR EBADF, s1)
       | Some a \<Rightarrow> res_bind (body a s1) (\<lambda>(ret, s2). res_bind (COM_FS_FILE_RELEASE file s2) (\<lambda>s3. Ok (ret, s3))))"

definition file_vnode :: "nat \<Rightarrow> fdsys \<Rightarrow> nat res" where
  "file_vnode a s = res_bind (file_at a s) (\<lambda>f. case f_vnode f of None \<Rightarrow> Panic | Some v \<Rightarrow> Ok v)"

definition off_lock_acquire :: "nat \<Rightarrow> fdsys \<Rightarrow> com_file res" where
  "off_lock_acquire a s = res_bind (file_at a s) (\<lambda>f. if f_off_lock f then Blocked else Ok f)"

datatype seek_whence = SEEK_SET | SEEK_CUR | SEEK_END | SEEK_OTHER

definition com_sys_syscall_seek :: "nat \<Rightarrow> (nat \<Rightarrow> errno \<times> u64) \<Rightarrow> int \<Rightarrow> u64 \<Rightarrow> seek_whence \<Rightarrow> fdsys \<Rightarrow> (com_syscall_ret \<times> fdsys) res" where
  "com_sys_syscall_seek p stat fd offset whence s =
     with_file p fd (\<lambda>a s1.
       res_bind (off_lock_acquire a s1) (\<lambda>f.
         let done_at = (\<lambda>new_off. Ok (COM_SYS_SYSCALL_OK (sint new_off), upd_file a (\<lambda>f. f\<lparr>f_off := new_off\<rparr>) s1))
         in case whence of
              SEEK_SET \<Rightarrow> done_at offset
            | SEEK_CUR \<Rightarrow> done_at (f_off f + offset)
            | SEEK_END \<Rightarrow>
                res_bind (file_vnode a s1) (\<lambda>vn.
                  case stat vn of (e, st_size) \<Rightarrow>
                    if e \<noteq> EOK then Ok (\<lparr>sr_value = 0, sr_err = e\<rparr>, s1) else done_at (st_size + offset))
            | SEEK_OTHER \<Rightarrow> done_at (f_off f))) s"

text \<open>Reading and writing advance the offset by the bytes moved.\<close>

definition advance_off :: "nat \<Rightarrow> u64 \<Rightarrow> fdsys \<Rightarrow> fdsys res" where
  "advance_off a n s = res_bind (off_lock_acquire a s) (\<lambda>_. Ok (upd_file a (\<lambda>f. f\<lparr>f_off := f_off f + n\<rparr>) s))"

definition transfer_on ::
  "(nat \<Rightarrow> u64 \<Rightarrow> u64 \<Rightarrow> errno \<times> u64) \<Rightarrow> nat \<Rightarrow> fdsys \<Rightarrow> (com_syscall_ret \<times> fdsys) res" where
  "transfer_on vop a s1 =
     res_bind (file_at a s1) (\<lambda>f.
     res_bind (file_vnode a s1) (\<lambda>vn.
       case vop vn (f_off f) (f_flags f) of (e, n) \<Rightarrow>
         if e \<noteq> EOK then Ok (COM_SYS_SYSCALL_ERR e, s1)
         else res_bind (advance_off a n s1) (\<lambda>s2. Ok (COM_SYS_SYSCALL_OK (uint n), s2))))"

definition com_sys_syscall_readv ::
  "nat \<Rightarrow> (nat \<Rightarrow> u64 \<Rightarrow> u64 \<Rightarrow> errno \<times> u64) \<Rightarrow> int \<Rightarrow> fdsys \<Rightarrow> (com_syscall_ret \<times> fdsys) res" where
  "com_sys_syscall_readv p vfs_readv fd s = with_file p fd (transfer_on vfs_readv) s"

definition com_sys_syscall_writev ::
  "nat \<Rightarrow> (nat \<Rightarrow> u64 \<Rightarrow> u64 \<Rightarrow> errno \<times> u64) \<Rightarrow> int \<Rightarrow> fdsys \<Rightarrow> (com_syscall_ret \<times> fdsys) res" where
  "com_sys_syscall_writev p vfs_writev fd s = with_file p fd (transfer_on vfs_writev) s"

definition com_sys_syscall_readdir ::
  "nat \<Rightarrow> (nat \<Rightarrow> u64 \<Rightarrow> errno \<times> u64) \<Rightarrow> int \<Rightarrow> fdsys \<Rightarrow> (com_syscall_ret \<times> fdsys) res" where
  "com_sys_syscall_readdir p vfs_readdir fd s =
     with_file p fd (\<lambda>a s1.
       res_bind (file_at a s1) (\<lambda>f.
       res_bind (file_vnode a s1) (\<lambda>vn.
         case vfs_readdir vn (f_off f) of (e, n) \<Rightarrow>
           if e \<noteq> EOK then Ok (COM_SYS_SYSCALL_ERR e, s1)
           else res_bind (advance_off a (if n \<noteq> 0 then 1 else 0) s1) (\<lambda>s2. Ok (COM_SYS_SYSCALL_OK (uint n), s2))))) s"

text \<open>Truncating reports a failure only when the result of the file system is negative, which none is.\<close>

definition com_sys_syscall_truncate :: "nat \<Rightarrow> (nat \<Rightarrow> errno) \<Rightarrow> int \<Rightarrow> fdsys \<Rightarrow> (com_syscall_ret \<times> fdsys) res" where
  "com_sys_syscall_truncate p vfs_truncate fd s =
     with_file p fd (\<lambda>a s1. res_bind (file_vnode a s1) (\<lambda>vn. Ok (COM_SYS_SYSCALL_OK 0, s1))) s"

definition com_sys_syscall_isatty :: "nat \<Rightarrow> (nat \<Rightarrow> errno) \<Rightarrow> int \<Rightarrow> fdsys \<Rightarrow> (com_syscall_ret \<times> fdsys) res" where
  "com_sys_syscall_isatty p vfs_isatty fd s =
     with_file p fd (\<lambda>a s1. res_bind (file_vnode a s1) (\<lambda>vn.
       Ok (if vfs_isatty vn \<noteq> EOK then COM_SYS_SYSCALL_ERR (vfs_isatty vn) else COM_SYS_SYSCALL_OK 1, s1))) s"

text \<open>
  The requests that \<^verbatim>\<open>ioctl\<close> handles itself. For a descriptor out of range the function returns with
  the lock of the table still held.
\<close>

datatype ioctl_op = FIOCLEX | FIONREAD | IOCTL_OTHER

definition fd_ioctl :: "nat \<Rightarrow> int \<Rightarrow> ioctl_op \<Rightarrow> fdsys \<Rightarrow> (com_syscall_ret option \<times> fdsys) res" where
  "fd_ioctl p fd op s =
     res_bind (fd_lock_acquire p s) (\<lambda>s1.
       case com_sys_proc_get_fildesc_nolock p fd of
         None \<Rightarrow> Ok (Some (COM_SYS_SYSCALL_ERR EBADF), s1)
       | Some i \<Rightarrow>
           (case op of
              FIOCLEX \<Rightarrow> res_bind (set_fd_flags p i (\<lambda>fl. fl OR FD_CLOEXEC) s1) (\<lambda>s2. Ok (Some (COM_SYS_SYSCALL_OK 0), fd_lock_release p s2))
            | FIONREAD \<Rightarrow> Ok (Some (COM_SYS_SYSCALL_OK 0), fd_lock_release p s1)
            | IOCTL_OTHER \<Rightarrow> Ok (None, fd_lock_release p s1)))"

definition com_sys_syscall_ioctl :: "nat \<Rightarrow> (nat \<Rightarrow> errno) \<Rightarrow> int \<Rightarrow> ioctl_op \<Rightarrow> fdsys \<Rightarrow> (com_syscall_ret \<times> fdsys) res" where
  "com_sys_syscall_ioctl p vfs_ioctl fd op s =
     res_bind (fd_ioctl p fd op s) (\<lambda>(r, s1).
       case r of
         Some ret \<Rightarrow> Ok (ret, s1)
       | None \<Rightarrow>
           with_file p fd (\<lambda>a s2. res_bind (file_vnode a s2) (\<lambda>vn.
             Ok (if vfs_ioctl vn \<noteq> EOK then COM_SYS_SYSCALL_ERR (vfs_ioctl vn) else COM_SYS_SYSCALL_OK 0, s2))) s1)"

section \<open>Fork, execve and exit\<close>

definition fork_slot :: "nat \<Rightarrow> nat \<Rightarrow> nat \<Rightarrow> fdsys \<Rightarrow> fdsys res" where
  "fork_slot p c i s =
     res_bind (fd_get p (int i) s) (\<lambda>d.
       case fd_file d of
         None \<Rightarrow> Ok s
       | Some a \<Rightarrow> res_bind (COM_FS_FILE_HOLD (Some a) s) (fd_put c (int i) d))"

definition exec_slot :: "u64 \<Rightarrow> nat \<Rightarrow> nat \<Rightarrow> fdsys \<Rightarrow> fdsys res" where
  "exec_slot o_cloexec p i s =
     res_bind (fd_get p (int i) s) (\<lambda>d.
       case fd_file d of
         None \<Rightarrow> Ok s
       | Some a \<Rightarrow> res_bind (file_at a s) (\<lambda>f.
           if FD_CLOEXEC AND fd_flags d \<noteq> 0 \<or> o_cloexec AND f_flags f \<noteq> 0
           then res_bind (COM_FS_FILE_RELEASE (Some a) s) (fd_put p (int i) empty_filedesc)
           else Ok s))"

definition exit_slot :: "nat \<Rightarrow> nat \<Rightarrow> fdsys \<Rightarrow> fdsys res" where
  "exit_slot p i s =
     res_bind (fd_get p (int i) s) (\<lambda>d.
       case fd_file d of
         None \<Rightarrow> Ok s
       | Some a \<Rightarrow> res_bind (COM_FS_FILE_RELEASE (Some a) s) (\<lambda>s1.
           if fs_file s1 a = None then fd_put p (int i) (d\<lparr>fd_file := None\<rparr>) s1 else Ok s1))"

text \<open>The loops over the descriptors below a bound.\<close>

fun each_slot :: "(nat \<Rightarrow> fdsys \<Rightarrow> fdsys res) \<Rightarrow> nat list \<Rightarrow> fdsys \<Rightarrow> fdsys res" where
  "each_slot f [] s = Ok s"
| "each_slot f (i # is) s = res_bind (f i s) (each_slot f is)"

definition fork_fds :: "nat \<Rightarrow> nat \<Rightarrow> fdsys \<Rightarrow> fdsys res" where
  "fork_fds p c s =
     res_bind (fd_lock_acquire p s) (\<lambda>s1.
     res_bind (each_slot (fork_slot p c) [0..<ft_max_fd (fs_tab s1 p)]
       (upd_tab c (\<lambda>t. t\<lparr>ft_next_fd := ft_next_fd (fs_tab s1 p)\<rparr>) s1)) (\<lambda>s2.
     Ok (fd_lock_release p s2)))"

definition exec_fds :: "u64 \<Rightarrow> nat \<Rightarrow> fdsys \<Rightarrow> fdsys res" where
  "exec_fds o_cloexec p s = each_slot (exec_slot o_cloexec p) [0..<ft_max_fd (fs_tab s p)] s"

definition exit_fds :: "nat \<Rightarrow> fdsys \<Rightarrow> fdsys res" where
  "exit_fds p s = each_slot (exit_slot p) [0..<ft_max_fd (fs_tab s p)] s"

text \<open>A process starts with an empty table.\<close>

definition new_fdtab :: fdtab where
  "new_fdtab = \<lparr>ft_fd = replicate CONFIG_OPEN_MAX empty_filedesc, ft_next_fd = 0, ft_max_fd = 0, ft_lock = False\<rparr>"

section \<open>Invariant\<close>

text \<open>
  \<open>refs_ok Q ext\<close>: every file object counts the descriptors of the processes \<open>Q\<close> that refer to it and
  the references \<open>ext\<close> held elsewhere, and the objects are exactly the ones with a reference.
\<close>

definition tab_refs :: "fdtab \<Rightarrow> nat \<Rightarrow> nat" where
  "tab_refs t a = length (filter (\<lambda>d. fd_file d = Some a) (ft_fd t))"

definition file_ref :: "fdsys \<Rightarrow> nat \<Rightarrow> int" where
  "file_ref s a = (case fs_file s a of None \<Rightarrow> 0 | Some f \<Rightarrow> f_num_ref f)"

definition refs_ok :: "nat set \<Rightarrow> (nat \<Rightarrow> int) \<Rightarrow> fdsys \<Rightarrow> bool" where
  "refs_ok Q ext s \<longleftrightarrow> finite Q \<and> (\<forall>p a. p \<notin> Q \<longrightarrow> tab_refs (fs_tab s p) a = 0) \<and>
     (\<forall>a. file_ref s a = (\<Sum>p\<in>Q. int (tab_refs (fs_tab s p) a)) + ext a) \<and>
     (\<forall>a f. fs_file s a = Some f \<longrightarrow> f_vnode f \<noteq> None \<and> f_num_ref f > 0 \<and> \<not> f_off_lock f)"

definition tab_ok :: "fdtab \<Rightarrow> bool" where
  "tab_ok t \<longleftrightarrow> length (ft_fd t) = CONFIG_OPEN_MAX \<and> ft_next_fd t \<le> CONFIG_OPEN_MAX \<and> ft_max_fd t \<le> CONFIG_OPEN_MAX \<and>
     (ft_next_fd t < CONFIG_OPEN_MAX \<longrightarrow> fd_file (ft_fd t ! ft_next_fd t) = None)"

definition fd_ok :: "nat set \<Rightarrow> fdsys \<Rightarrow> bool" where
  "fd_ok Q s \<longleftrightarrow> refs_ok Q (\<lambda>_. 0) s \<and> (\<forall>p. tab_ok (fs_tab s p) \<and> \<not> ft_lock (fs_tab s p))"

text \<open>A reference more or less outside the tables.\<close>

definition bump :: "nat option \<Rightarrow> int \<Rightarrow> (nat \<Rightarrow> int) \<Rightarrow> nat \<Rightarrow> int" where
  "bump fo k ext a = ext a + (if fo = Some a then k else 0)"

definition live :: "nat option \<Rightarrow> fdsys \<Rightarrow> bool" where
  "live fo s \<longleftrightarrow> (case fo of None \<Rightarrow> True | Some a \<Rightarrow> fs_file s a \<noteq> None)"

definition free_slots :: "fdtab \<Rightarrow> nat set" where
  "free_slots t = {i. i < CONFIG_OPEN_MAX \<and> fd_file (ft_fd t ! i) = None}"

definition can_open :: "fdtab \<Rightarrow> bool" where
  "can_open t \<longleftrightarrow> ft_next_fd t = CONFIG_OPEN_MAX \<or> (\<exists>i \<in> free_slots t. i \<noteq> ft_next_fd t)"

text \<open>
  The system calls as steps. They are allowed on every descriptor but the number \<open>CONFIG_OPEN_MAX\<close>;
  opening needs a second free descriptor, unless the table is known to be full; duplicating needs
  a free descriptor at or above the one asked for. A fork needs a fresh process.
\<close>

datatype fd_op =
    OpClose nat int | OpDup3 nat int int | OpFcntl nat int fcntl_op int
  | OpOpenat nat nat "nat \<Rightarrow> errno + nat" "nat \<Rightarrow> errno + nat option" "nat \<Rightarrow> bool" dir_ref bool u64 nat
  | OpReadv nat "nat \<Rightarrow> u64 \<Rightarrow> u64 \<Rightarrow> errno \<times> u64" int | OpFork nat nat | OpExec u64 nat

definition as_call :: "fdsys res \<Rightarrow> (com_syscall_ret \<times> fdsys) res" where
  "as_call r = res_bind r (\<lambda>s. Ok (COM_SYS_SYSCALL_OK 0, s))"

fun run_fd_op :: "fd_op \<Rightarrow> fdsys \<Rightarrow> (com_syscall_ret \<times> fdsys) res" where
  "run_fd_op (OpClose p fd) s = com_sys_syscall_close p fd s"
| "run_fd_op (OpDup3 p old_fd new_fd) s = com_sys_syscall_dup3 p old_fd new_fd s"
| "run_fd_op (OpFcntl p fd op arg1) s = com_sys_syscall_fcntl p fd op arg1 s"
| "run_fd_op (OpOpenat p cwd resolve opn is_dir dir_fd od flags a) s =
     com_sys_syscall_openat p cwd resolve opn is_dir dir_fd od flags a s"
| "run_fd_op (OpReadv p vop fd) s = com_sys_syscall_readv p vop fd s"
| "run_fd_op (OpFork p c) s = as_call (fork_fds p c s)"
| "run_fd_op (OpExec m p) s = as_call (exec_fds m p s)"

definition dup_target :: "nat \<Rightarrow> int \<Rightarrow> fdsys \<Rightarrow> bool" where
  "dup_target p fd s \<longleftrightarrow> bad_fd fd \<or> (\<exists>j. nat fd \<le> j \<and> j < CONFIG_OPEN_MAX \<and> fd_file (ft_fd (fs_tab s p) ! j) = None)"

fun fd_op_enabled :: "nat set \<Rightarrow> fd_op \<Rightarrow> fdsys \<Rightarrow> bool" where
  "fd_op_enabled Q (OpClose p fd) s = (p \<in> Q \<and> fd \<noteq> int CONFIG_OPEN_MAX)"
| "fd_op_enabled Q (OpDup3 p old_fd new_fd) s = (p \<in> Q \<and> old_fd \<noteq> int CONFIG_OPEN_MAX \<and> new_fd \<noteq> int CONFIG_OPEN_MAX)"
| "fd_op_enabled Q (OpFcntl p fd op arg1) s = (p \<in> Q \<and> fd \<noteq> int CONFIG_OPEN_MAX \<and> dup_target p arg1 s)"
| "fd_op_enabled Q (OpOpenat p cwd resolve opn is_dir dir_fd od flags a) s =
     (p \<in> Q \<and> dir_fd \<noteq> DirFd (int CONFIG_OPEN_MAX) \<and> can_open (fs_tab s p) \<and> fs_file s a = None)"
| "fd_op_enabled Q (OpReadv p vop fd) s = (fd \<noteq> int CONFIG_OPEN_MAX)"
| "fd_op_enabled Q (OpFork p c) s = (p \<in> Q \<and> c \<in> Q \<and> p \<noteq> c \<and> fs_tab s c = new_fdtab)"
| "fd_op_enabled Q (OpExec m p) s = (p \<in> Q)"

inductive fd_reach :: "nat set \<Rightarrow> fdsys \<Rightarrow> fdsys \<Rightarrow> bool" for Q s0 where
  start: "fd_reach Q s0 s0"
| step: "fd_reach Q s0 s \<Longrightarrow> fd_op_enabled Q op s \<Longrightarrow> run_fd_op op s = Ok (r, s') \<Longrightarrow> fd_reach Q s0 s'"

text \<open>What an operation on the table of \<open>p\<close> leaves of the tables.\<close>

definition tab_frame :: "nat \<Rightarrow> fdsys \<Rightarrow> fdsys \<Rightarrow> bool" where
  "tab_frame p s s' \<longleftrightarrow> (\<forall>q. q \<noteq> p \<longrightarrow> fs_tab s' q = fs_tab s q) \<and> ft_lock (fs_tab s' p) = ft_lock (fs_tab s p) \<and>
     (tab_ok (fs_tab s p) \<longrightarrow> tab_ok (fs_tab s' p))"

text \<open>A child's table while a fork fills it from the table \<open>T\<close> of the parent, up to the slot \<open>i\<close>.\<close>

definition fork_part :: "com_filedesc list \<Rightarrow> nat \<Rightarrow> com_filedesc list \<Rightarrow> bool" where
  "fork_part T i t \<longleftrightarrow> length t = CONFIG_OPEN_MAX \<and>
     (\<forall>j < CONFIG_OPEN_MAX. fd_file (t ! j) = (if j < i then fd_file (T ! j) else None))"

text \<open>A system to start from: process 1 has one open file, the object at 100 on node 7, process 2 none.\<close>

definition sample_fds :: fdsys where
  "sample_fds = \<lparr>fs_tab = (\<lambda>_. new_fdtab)(1 := new_fdtab\<lparr>ft_fd := (replicate CONFIG_OPEN_MAX empty_filedesc)[0 := \<lparr>fd_file = Some 100, fd_flags = 1\<rparr>],
       ft_next_fd := 1, ft_max_fd := 1\<rparr>),
     fs_file = [100 \<mapsto> \<lparr>f_off_lock = False, f_off = 0, f_flags = 0, f_num_ref = 1, f_vnode = Some 7\<rparr>], fs_vn_released = []\<rparr>"

text \<open>The same with every descriptor of process 1 but the last in use.\<close>

definition nearly_full :: fdsys where
  "nearly_full = sample_fds\<lparr>fs_tab := (\<lambda>_. new_fdtab)(1 := new_fdtab\<lparr>
     ft_fd := (replicate CONFIG_OPEN_MAX \<lparr>fd_file = Some 100, fd_flags = 0\<rparr>)[95 := empty_filedesc], ft_next_fd := 95, ft_max_fd := 95\<rparr>)\<rparr>"

section \<open>References\<close>

lemma fdsys_simps [simp]:
  "fs_tab (upd_tab p f s) = (fs_tab s)(p := f (fs_tab s p))" "fs_file (upd_tab p f s) = fs_file s"
  "fs_tab (upd_file a g s) = fs_tab s" "fs_file (upd_file a g s) = (fs_file s)(a := map_option g (fs_file s a))"
  "fs_tab (vn_release v s) = fs_tab s" "fs_file (vn_release v s) = fs_file s"
  by (simp_all add: upd_tab_def upd_file_def vn_release_def)

lemma bump_simps [simp]:
  "bump None k ext = ext" "bump fo (- 1) (bump fo 1 ext) = ext" "bump fo 1 (bump fo (- 1) ext) = ext"
  "bump fo k (bump go l ext) = bump go l (bump fo k ext) \<longleftrightarrow> True"
  by (auto simp: bump_def fun_eq_iff)

lemma count_list_update:
  "i < length xs \<Longrightarrow> length (filter P (xs[i := d])) + (if P (xs ! i) then 1 else 0) = length (filter P xs) + (if P d then 1 else 0)"
proof (induction xs arbitrary: i)
  case (Cons x xs)
  then show ?case by (cases i) auto
qed simp

lemma refs_okD:
  assumes "refs_ok Q ext s"
  shows "finite Q" and "p \<notin> Q \<Longrightarrow> tab_refs (fs_tab s p) a = 0"
    and "file_ref s a = (\<Sum>p\<in>Q. int (tab_refs (fs_tab s p) a)) + ext a"
    and "fs_file s a = Some f \<Longrightarrow> f_vnode f \<noteq> None" and "fs_file s a = Some f \<Longrightarrow> 0 < f_num_ref f" and "fs_file s a = Some f \<Longrightarrow> \<not> f_off_lock f"
  using assms unfolding refs_ok_def by blast+

lemma refs_ok_upd:
  assumes ok: "refs_ok Q ext s" and "fs_tab s' = fs_tab s" and "fs_file s' = (fs_file s)(a := fo')"
    and "file_ref s' a = file_ref s a + k" and "\<And>f. fo' = Some f \<Longrightarrow> f_vnode f \<noteq> None \<and> 0 < f_num_ref f \<and> \<not> f_off_lock f"
  shows "refs_ok Q (bump (Some a) k ext) s'"
proof -
  have "file_ref s' b = file_ref s b" if "b \<noteq> a" for b using that assms(3) by (simp add: file_ref_def)
  then have "file_ref s' b = (\<Sum>p\<in>Q. int (tab_refs (fs_tab s' p) b)) + bump (Some a) k ext b" for b
    using refs_okD(3) [OF ok, of b] assms(2,4) by (cases "b = a") (auto simp: bump_def)
  moreover have "fs_file s' b = Some f \<longrightarrow> f_vnode f \<noteq> None \<and> 0 < f_num_ref f \<and> \<not> f_off_lock f" for b f
    using refs_okD(4-6) [OF ok, of b f] assms(3,5) by (cases "b = a") auto
  ultimately show ?thesis using refs_okD(1,2) [OF ok] assms(2) by (simp add: refs_ok_def)
qed

lemma refs_ok_live:
  assumes "refs_ok Q ext s" and "0 \<le> ext a"
  shows "fd_get p i s = Ok d \<Longrightarrow> fd_file d = Some a \<Longrightarrow> fs_file s a \<noteq> None"
    and "0 < ext a \<Longrightarrow> fs_file s a \<noteq> None"
proof -
  have sum: "file_ref s a = (\<Sum>p\<in>Q. int (tab_refs (fs_tab s p) a)) + ext a" "finite Q" using assms(1) by (simp_all add: refs_ok_def)
  have nn: "0 \<le> (\<Sum>p\<in>Q. int (tab_refs (fs_tab s p) a))" by (simp add: sum_nonneg)
  show "fs_file s a \<noteq> None" if "fd_get p i s = Ok d" "fd_file d = Some a"
  proof -
    have "d \<in> set (ft_fd (fs_tab s p))" using that(1) by (auto simp: fd_get_def Let_def split: if_splits)
    then have "d \<in> set (filter (\<lambda>d. fd_file d = Some a) (ft_fd (fs_tab s p)))" using that(2) by simp
    then have pos: "0 < tab_refs (fs_tab s p) a" unfolding tab_refs_def by (rule length_pos_if_in_set)
    then have "p \<in> Q" using assms(1) by (auto simp: refs_ok_def)
    then have "int (tab_refs (fs_tab s p) a) \<le> (\<Sum>p\<in>Q. int (tab_refs (fs_tab s p) a))"
      using sum(2) by (intro member_le_sum) auto
    with pos sum(1) assms(2) have "0 < file_ref s a" by linarith
    then show ?thesis by (auto simp: file_ref_def split: option.splits)
  qed
  show "fs_file s a \<noteq> None" if "0 < ext a" using that sum(1) nn by (auto simp: file_ref_def split: option.splits)
qed

lemma file_hold_ok:
  assumes "refs_ok Q ext s" and "live fo s"
  shows "\<exists>s'. COM_FS_FILE_HOLD fo s = Ok s' \<and> refs_ok Q (bump fo 1 ext) s' \<and> fs_tab s' = fs_tab s \<and>
    (\<forall>a. fs_file s' a = None \<longleftrightarrow> fs_file s a = None)"
proof (cases fo)
  case (Some a)
  then obtain f where f: "fs_file s a = Some f" using assms(2) by (auto simp: live_def)
  have "refs_ok Q (bump fo 1 ext) (upd_file a (\<lambda>f. f\<lparr>f_num_ref := f_num_ref f + 1\<rparr>) s)"
    unfolding Some by (rule refs_ok_upd [OF assms(1)]) (use f refs_okD(4-6) [OF assms(1) f] in \<open>auto simp: file_ref_def\<close>)
  then show ?thesis using Some f by (auto simp: COM_FS_FILE_HOLD_def file_at_def)
qed (use assms in \<open>simp add: COM_FS_FILE_HOLD_def\<close>)

lemma file_release_ok:
  assumes "refs_ok Q ext s" and "live fo s"
  shows "\<exists>s'. COM_FS_FILE_RELEASE fo s = Ok s' \<and> refs_ok Q (bump fo (- 1) ext) s' \<and> fs_tab s' = fs_tab s"
proof (cases fo)
  case (Some a)
  then obtain f where f: "fs_file s a = Some f" using assms(2) by (auto simp: live_def)
  then obtain vn where vn: "f_vnode f = Some vn" "0 < f_num_ref f" using refs_okD(4,5) [OF assms(1)] by blast
  show ?thesis
  proof (cases "f_num_ref f - 1 = 0")
    case True
    let ?s = "s\<lparr>fs_file := (fs_file s)(a := None), fs_vn_released := fs_vn_released s @ [vn]\<rparr>"
    have "refs_ok Q (bump fo (- 1) ext) ?s"
      unfolding Some by (rule refs_ok_upd [OF assms(1)]) (use f True in \<open>auto simp: file_ref_def\<close>)
    then show ?thesis using Some f vn True by (simp add: COM_FS_FILE_RELEASE_def file_at_def)
  next
    case False
    have "refs_ok Q (bump fo (- 1) ext) (upd_file a (\<lambda>f. f\<lparr>f_num_ref := f_num_ref f - 1\<rparr>) s)"
      unfolding Some by (rule refs_ok_upd [OF assms(1)]) (use f vn False refs_okD(6) [OF assms(1) f] in \<open>auto simp: file_ref_def\<close>)
    then show ?thesis using Some f vn False by (simp add: COM_FS_FILE_RELEASE_def file_at_def)
  qed
qed (use assms in \<open>simp add: COM_FS_FILE_RELEASE_def\<close>)

lemma refs_ok_tab:
  assumes "refs_ok Q ext s" and "fs_file s' = fs_file s" and "\<And>p. ft_fd (fs_tab s' p) = ft_fd (fs_tab s p)"
  shows "refs_ok Q ext s'"
  using assms by (simp add: refs_ok_def tab_refs_def file_ref_def)

lemma fd_put_ok:
  assumes "refs_ok Q ext s" and "p \<in> Q" and "fd_get p fd s = Ok old"
  shows "\<exists>s'. fd_put p fd d s = Ok s' \<and> refs_ok Q (bump (fd_file d) (- 1) (bump (fd_file old) 1 ext)) s' \<and>
    fs_file s' = fs_file s \<and> fs_tab s' = (fs_tab s)(p := (fs_tab s p)\<lparr>ft_fd := (ft_fd (fs_tab s p))[nat fd := d]\<rparr>)"
proof -
  let ?t = "fs_tab s p" and ?s = "upd_tab p (\<lambda>t. t\<lparr>ft_fd := (ft_fd t)[nat fd := d]\<rparr>) s"
  have i: "0 \<le> fd" "nat fd < length (ft_fd ?t)" "old = ft_fd ?t ! nat fd"
    using assms(3) by (auto simp: fd_get_def Let_def split: if_splits)
  have cnt: "int (tab_refs (?t\<lparr>ft_fd := (ft_fd ?t)[nat fd := d]\<rparr>) a) =
      int (tab_refs ?t a) + (if fd_file d = Some a then 1 else 0) - (if fd_file old = Some a then 1 else 0)" for a
    using count_list_update [OF i(2), of "\<lambda>d. fd_file d = Some a" d] i(3) by (simp add: tab_refs_def split: if_splits)
  have fin: "finite Q" using assms(1) by (simp add: refs_ok_def)
  have "(\<Sum>q\<in>Q. int (tab_refs (fs_tab ?s q) a)) =
      (\<Sum>q\<in>Q. int (tab_refs (fs_tab s q) a)) + (if fd_file d = Some a then 1 else 0) - (if fd_file old = Some a then 1 else 0)" for a
  proof -
    have "(\<Sum>q\<in>Q - {p}. int (tab_refs (fs_tab ?s q) a)) = (\<Sum>q\<in>Q - {p}. int (tab_refs (fs_tab s q) a))"
      by (rule sum.cong) auto
    then show ?thesis using sum.remove [OF fin assms(2), of "\<lambda>q. int (tab_refs (fs_tab ?s q) a)"]
        sum.remove [OF fin assms(2), of "\<lambda>q. int (tab_refs (fs_tab s q) a)"] cnt [of a] by simp
  qed
  then have "refs_ok Q (bump (fd_file d) (- 1) (bump (fd_file old) 1 ext)) ?s"
    using assms(1,2) by (auto simp: refs_ok_def bump_def file_ref_def)
  then show ?thesis using i by (auto simp: fd_put_def)
qed

section \<open>Tables\<close>

lemma free_from_bounds: "i \<le> CONFIG_OPEN_MAX \<Longrightarrow> i \<le> free_from t i \<and> free_from t i \<le> CONFIG_OPEN_MAX"
  by (induction t i rule: free_from.induct) (subst (1 2) free_from.simps, auto)

lemma free_from_free: "free_from t i < CONFIG_OPEN_MAX \<Longrightarrow> fd_file (t ! free_from t i) = None"
proof (induction t i rule: free_from.induct)
  case (1 t i)
  then show ?case by (simp add: free_from.simps [of t i] split: if_splits)
qed

lemma hint_fields [simp]:
  "ft_fd (proc_update_fd_hint t) = ft_fd t" "ft_lock (proc_update_fd_hint t) = ft_lock t"
  by (simp_all add: proc_update_fd_hint_def Let_def)

lemma hint_tab_ok:
  assumes "length (ft_fd t) = CONFIG_OPEN_MAX" and "ft_max_fd t \<le> CONFIG_OPEN_MAX" and "ft_next_fd t \<le> CONFIG_OPEN_MAX + 1"
  shows "tab_ok (proc_update_fd_hint t)"
proof -
  let ?n = "free_from (ft_fd t) (ft_next_fd t)" and ?m = "free_from (ft_fd t) 0"
  have "?m \<le> CONFIG_OPEN_MAX" using free_from_bounds [of 0] by blast
  moreover have "?n < CONFIG_OPEN_MAX \<Longrightarrow> fd_file (ft_fd t ! ?n) = None" "?m < CONFIG_OPEN_MAX \<Longrightarrow> fd_file (ft_fd t ! ?m) = None"
    by (rule free_from_free; assumption)+
  ultimately show ?thesis using assms by (simp add: tab_ok_def proc_update_fd_hint_def Let_def)
qed

lemma dup_slot_free:
  "length t = CONFIG_OPEN_MAX \<Longrightarrow> i \<le> j \<Longrightarrow> j < CONFIG_OPEN_MAX \<Longrightarrow> fd_file (t ! j) = None \<Longrightarrow>
    \<exists>k. dup_slot t i = Ok (Some k) \<and> k < CONFIG_OPEN_MAX \<and> fd_file (t ! k) = None"
proof (induction t i rule: dup_slot.induct)
  case (1 t i)
  show ?case
  proof (cases "fd_file (t ! i) = None")
    case True
    then show ?thesis using 1 by (simp add: dup_slot.simps [of t i])
  next
    case False
    then have "i \<noteq> j" using 1 by auto
    then have "\<exists>k. dup_slot t (i + 1) = Ok (Some k) \<and> k < CONFIG_OPEN_MAX \<and> fd_file (t ! k) = None"
      using 1 False by auto
    then show ?thesis using 1 False \<open>i \<noteq> j\<close> by (simp add: dup_slot.simps [of t i])
  qed
qed

lemma tab_frame_trans: "tab_frame p s s1 \<Longrightarrow> tab_frame p s1 s2 \<Longrightarrow> tab_frame p s s2"
  by (simp add: tab_frame_def)

lemma tab_frame_same: "fs_tab s' = fs_tab s \<Longrightarrow> tab_frame p s s'"
  by (simp add: tab_frame_def)

lemma fd_get_valid:
  assumes "tab_ok (fs_tab s p)" and "\<not> bad_fd fd" and "fd \<noteq> int CONFIG_OPEN_MAX"
  shows "fd_get p fd s = Ok (ft_fd (fs_tab s p) ! nat fd)" and "nat fd < CONFIG_OPEN_MAX" and "0 \<le> fd"
  using assms by (auto simp: fd_get_def Let_def bad_fd_def tab_ok_def)

lemma close_nolock_ok:
  assumes ok: "refs_ok Q ext s" and "\<And>a. 0 \<le> ext a" and "p \<in> Q" and t: "tab_ok (fs_tab s p)" and "fd \<noteq> int CONFIG_OPEN_MAX"
  shows "\<exists>e fo s'. com_sys_proc_close_file_nolock p fd s = Ok (e, fo, s') \<and> refs_ok Q (bump fo 1 ext) s' \<and> tab_frame p s s' \<and>
    live fo s' \<and> (\<not> bad_fd fd \<longrightarrow> fd_file (ft_fd (fs_tab s' p) ! nat fd) = None)"
proof (cases "bad_fd fd \<or> fd_file (ft_fd (fs_tab s p) ! nat fd) = None")
  case True
  then show ?thesis using ok fd_get_valid [OF t _ assms(5)]
    by (cases "bad_fd fd") (simp_all add: com_sys_proc_close_file_nolock_def tab_frame_def live_def)
next
  case False
  note V = fd_get_valid [OF t _ assms(5)]
  let ?d = "ft_fd (fs_tab s p) ! nat fd"
  obtain a where a: "fd_file ?d = Some a" using False by blast
  have get: "fd_get p fd s = Ok ?d" using V(1) False by blast
  from fd_put_ok [OF ok assms(3) get, of empty_filedesc] a obtain s1 where
    s1: "fd_put p fd empty_filedesc s = Ok s1" "refs_ok Q (bump (Some a) 1 ext) s1" "fs_file s1 = fs_file s"
      "fs_tab s1 = (fs_tab s)(p := (fs_tab s p)\<lparr>ft_fd := (ft_fd (fs_tab s p))[nat fd := empty_filedesc]\<rparr>)"
    by (auto simp: empty_filedesc_def)
  let ?s = "upd_tab p (\<lambda>t. if nat fd < ft_next_fd t then t\<lparr>ft_next_fd := nat fd\<rparr> else t) s1"
  have "refs_ok Q (bump (Some a) 1 ext) ?s" by (rule refs_ok_tab [OF s1(2)]) simp_all
  moreover have "tab_frame p s ?s"
    using s1(4) V(2) False t by (auto simp: tab_frame_def tab_ok_def nth_list_update empty_filedesc_def)
  moreover have "live (Some a) ?s"
    using refs_ok_live(1) [OF ok assms(2) get a] s1(3) by (simp add: live_def)
  moreover have "fd_file (ft_fd (fs_tab ?s p) ! nat fd) = None"
    using s1(4) V(2) False t by (simp add: tab_ok_def empty_filedesc_def)
  ultimately show ?thesis using False get a s1(1) by (auto simp: com_sys_proc_close_file_nolock_def)
qed

lemma duplicate_nolock_ok:
  assumes ok: "refs_ok Q ext s" and "\<And>a. 0 \<le> ext a" and "p \<in> Q" and t: "tab_ok (fs_tab s p)" and "old \<noteq> int CONFIG_OPEN_MAX"
    and free: "bad_fd new \<or> (\<exists>j. nat new \<le> j \<and> j < CONFIG_OPEN_MAX \<and> fd_file (ft_fd (fs_tab s p) ! j) = None)"
  shows "\<exists>r s'. com_sys_proc_duplicate_file_nolock p new old s = Ok (r, s') \<and> refs_ok Q ext s' \<and> tab_frame p s s' \<and>
    (\<forall>a. fs_file s' a = None \<longleftrightarrow> fs_file s a = None) \<and> (\<forall>fd. r = Inr fd \<longrightarrow> 0 \<le> fd \<and> fd < int CONFIG_OPEN_MAX)"
proof (cases "bad_fd old \<or> bad_fd new")
  case True
  then show ?thesis using ok by (simp add: com_sys_proc_duplicate_file_nolock_def tab_frame_def)
next
  case False
  note V = fd_get_valid [OF t _ assms(5)]
  let ?t = "ft_fd (fs_tab s p)" and ?d = "ft_fd (fs_tab s p) ! nat old"
  have len: "length ?t = CONFIG_OPEN_MAX" using t by (simp add: tab_ok_def)
  obtain k where k: "dup_slot ?t (nat new) = Ok (Some k)" "k < CONFIG_OPEN_MAX" "fd_file (?t ! k) = None"
    using dup_slot_free [OF len] free False by blast
  have get: "fd_get p old s = Ok ?d" using V(1) False by blast
  have slot: "fd_get p (int k) s = Ok (?t ! k)" using k(2) len by (simp add: fd_get_def Let_def)
  from fd_put_ok [OF ok assms(3) slot, of "?d\<lparr>fd_flags := 0\<rparr>"] k(3) obtain s1 where
    s1: "fd_put p (int k) (?d\<lparr>fd_flags := 0\<rparr>) s = Ok s1" "refs_ok Q (bump (fd_file ?d) (- 1) ext) s1" "fs_file s1 = fs_file s"
      "fs_tab s1 = (fs_tab s)(p := (fs_tab s p)\<lparr>ft_fd := ?t[k := ?d\<lparr>fd_flags := 0\<rparr>]\<rparr>)" by auto
  let ?s2 = "upd_tab p proc_update_fd_hint s1"
  have "refs_ok Q (bump (fd_file ?d) (- 1) ext) ?s2" by (rule refs_ok_tab [OF s1(2)]) simp_all
  moreover have "live (fd_file ?d) ?s2" using refs_ok_live(1) [OF ok assms(2) get] s1(3) by (auto simp: live_def split: option.split)
  ultimately obtain s3 where s3: "COM_FS_FILE_HOLD (fd_file ?d) ?s2 = Ok s3" "refs_ok Q ext s3" "fs_tab s3 = fs_tab ?s2"
      "\<forall>a. fs_file s3 a = None \<longleftrightarrow> fs_file ?s2 a = None"
    using file_hold_ok [of Q "bump (fd_file ?d) (- 1) ext" ?s2 "fd_file ?d"] by auto
  have "tab_ok (proc_update_fd_hint (fs_tab s1 p))" using t s1(4) by (intro hint_tab_ok) (simp_all add: tab_ok_def)
  then have "tab_frame p s s3" using s3(3) s1(4) by (simp add: tab_frame_def)
  then show ?thesis using False k(1,2) get s1(1,3) s3 by (simp add: com_sys_proc_duplicate_file_nolock_def)
qed

section \<open>System calls keep the invariant\<close>

lemma tab_ok_lock [simp]: "tab_ok (t\<lparr>ft_lock := b\<rparr>) = tab_ok t"
  by (simp add: tab_ok_def)

lemma unlock_frame:
  assumes "\<not> ft_lock (fs_tab s p)" and "tab_frame p (upd_tab p (\<lambda>t. t\<lparr>ft_lock := True\<rparr>) s) s'"
  shows "tab_frame p s (fd_lock_release p s')"
  using assms by (simp add: tab_frame_def fd_lock_release_def)

lemma release_files [simp]: "fs_file (fd_lock_release p s) = fs_file s" "live fo (fd_lock_release p s) = live fo s"
  by (simp_all add: fd_lock_release_def live_def split: option.split)

lemma release_refs: "refs_ok Q ext s \<Longrightarrow> refs_ok Q ext (fd_lock_release p s)"
  by (erule refs_ok_tab) (simp_all add: fd_lock_release_def)

lemma fd_okD:
  assumes "fd_ok Q s"
  shows "refs_ok Q (\<lambda>_. 0) s" "tab_ok (fs_tab s p)" "\<not> ft_lock (fs_tab s p)"
  using assms by (simp_all add: fd_ok_def)

lemma fd_okI: "fd_ok Q s \<Longrightarrow> refs_ok Q (\<lambda>_. 0) s' \<Longrightarrow> tab_frame p s s' \<Longrightarrow> fd_ok Q s'"
  unfolding fd_ok_def tab_frame_def by metis

lemma locked_state:
  assumes "fd_ok Q s"
  shows "fd_lock_acquire p s = Ok (upd_tab p (\<lambda>t. t\<lparr>ft_lock := True\<rparr>) s)"
    and "refs_ok Q (\<lambda>_. 0) (upd_tab p (\<lambda>t. t\<lparr>ft_lock := True\<rparr>) s)" and "tab_ok (fs_tab (upd_tab p (\<lambda>t. t\<lparr>ft_lock := True\<rparr>) s) p)"
proof -
  show "refs_ok Q (\<lambda>_. 0) (upd_tab p (\<lambda>t. t\<lparr>ft_lock := True\<rparr>) s)" by (rule refs_ok_tab [OF fd_okD(1) [OF assms]]) simp_all
qed (use fd_okD [OF assms] in \<open>simp_all add: fd_lock_acquire_def\<close>)

lemma close_ok:
  assumes ok: "fd_ok Q s" and "p \<in> Q" and "fd \<noteq> int CONFIG_OPEN_MAX"
  shows "\<exists>r s'. com_sys_syscall_close p fd s = Ok (r, s') \<and> fd_ok Q s'"
proof -
  note L = locked_state [OF ok, of p]
  obtain e fo s2 where s2: "com_sys_proc_close_file_nolock p fd (upd_tab p (\<lambda>t. t\<lparr>ft_lock := True\<rparr>) s) = Ok (e, fo, s2)"
      "refs_ok Q (bump fo 1 (\<lambda>_. 0)) s2" "tab_frame p (upd_tab p (\<lambda>t. t\<lparr>ft_lock := True\<rparr>) s) s2" "live fo s2"
    using close_nolock_ok [OF L(2) _ assms(2) L(3) assms(3)] by auto
  have "live fo (fd_lock_release p s2)" using s2(4) by simp
  from file_release_ok [OF release_refs [OF s2(2)] this] obtain s3 where
    s3: "COM_FS_FILE_RELEASE fo (fd_lock_release p s2) = Ok s3" "refs_ok Q (\<lambda>_. 0) s3" "fs_tab s3 = fs_tab (fd_lock_release p s2)" by auto
  have "fd_ok Q s3"
    by (rule fd_okI [OF ok s3(2) tab_frame_trans [OF unlock_frame [OF fd_okD(3) [OF ok] s2(3)] tab_frame_same [OF s3(3)]]])
  then show ?thesis using L(1) s2(1) s3(1) by (simp add: com_sys_syscall_close_def com_sys_proc_close_file_def)
qed

lemma dup3_ok:
  assumes ok: "fd_ok Q s" and "p \<in> Q" and "old \<noteq> int CONFIG_OPEN_MAX" and "new \<noteq> int CONFIG_OPEN_MAX"
  shows "\<exists>r s'. com_sys_syscall_dup3 p old new s = Ok (r, s') \<and> fd_ok Q s'"
proof -
  note L = locked_state [OF ok, of p]
  let ?s1 = "upd_tab p (\<lambda>t. t\<lparr>ft_lock := True\<rparr>) s"
  obtain e fo s2 where s2: "com_sys_proc_close_file_nolock p new ?s1 = Ok (e, fo, s2)"
      "refs_ok Q (bump fo 1 (\<lambda>_. 0)) s2" "tab_frame p ?s1 s2" "live fo s2" "\<not> bad_fd new \<longrightarrow> fd_file (ft_fd (fs_tab s2 p) ! nat new) = None"
    using close_nolock_ok [OF L(2) _ assms(2) L(3) assms(4)] by auto
  have t2: "tab_ok (fs_tab s2 p)" using s2(3) L(3) by (simp add: tab_frame_def)
  have "bad_fd new \<or> (\<exists>j. nat new \<le> j \<and> j < CONFIG_OPEN_MAX \<and> fd_file (ft_fd (fs_tab s2 p) ! j) = None)"
    using s2(5) fd_get_valid(2) [OF t2 _ assms(4)] by blast
  moreover have "0 \<le> bump fo 1 (\<lambda>_. 0) a" for a by (simp add: bump_def)
  ultimately obtain r s3 where s3: "com_sys_proc_duplicate_file_nolock p new old s2 = Ok (r, s3)" "refs_ok Q (bump fo 1 (\<lambda>_. 0)) s3"
      "tab_frame p s2 s3" "\<forall>a. fs_file s3 a = None \<longleftrightarrow> fs_file s2 a = None"
    using duplicate_nolock_ok [OF s2(2) _ assms(2) t2 assms(3)] by blast
  have "live fo (fd_lock_release p s3)" using s2(4) s3(4) by (simp add: live_def split: option.splits)
  from file_release_ok [OF release_refs [OF s3(2)] this] obtain s4 where
    s4: "COM_FS_FILE_RELEASE fo (fd_lock_release p s3) = Ok s4" "refs_ok Q (\<lambda>_. 0) s4" "fs_tab s4 = fs_tab (fd_lock_release p s3)" by auto
  have "fd_ok Q s4"
    by (rule fd_okI [OF ok s4(2) tab_frame_trans [OF unlock_frame [OF fd_okD(3) [OF ok] tab_frame_trans [OF s2(3) s3(3)]] tab_frame_same [OF s4(3)]]])
  then show ?thesis using L(1) s2(1) s3(1) s4(1) by (simp add: com_sys_syscall_dup3_def)
qed

lemma get_file_nolock_ok:
  assumes ok: "refs_ok Q ext s" and "\<And>a. 0 \<le> ext a" and t: "tab_ok (fs_tab s p)" and "fd \<noteq> int CONFIG_OPEN_MAX"
  shows "\<exists>fo s'. com_sys_proc_get_file_nolock p fd s = Ok (fo, s') \<and> refs_ok Q (bump fo 1 ext) s' \<and> fs_tab s' = fs_tab s \<and>
    live fo s' \<and> (fo \<noteq> None \<longrightarrow> \<not> bad_fd fd) \<and> (\<forall>a. fs_file s' a = None \<longleftrightarrow> fs_file s a = None)"
proof (cases "bad_fd fd")
  case False
  note V = fd_get_valid [OF t False assms(4)]
  let ?d = "ft_fd (fs_tab s p) ! nat fd"
  have lv: "live (fd_file ?d) s" using refs_ok_live(1) [OF ok assms(2) V(1)] by (auto simp: live_def split: option.split)
  from file_hold_ok [OF ok lv] obtain s1 where s1: "COM_FS_FILE_HOLD (fd_file ?d) s = Ok s1" "refs_ok Q (bump (fd_file ?d) 1 ext) s1"
      "fs_tab s1 = fs_tab s" "\<forall>a. fs_file s1 a = None \<longleftrightarrow> fs_file s a = None" by auto
  moreover have "live (fd_file ?d) s1" using lv s1(4) by (simp add: live_def split: option.splits)
  ultimately show ?thesis using False V(1) by (simp add: com_sys_proc_get_file_nolock_def)
qed (use ok in \<open>simp add: com_sys_proc_get_file_nolock_def live_def\<close>)

lemma get_file_ok:
  assumes ok: "fd_ok Q s" and "fd \<noteq> int CONFIG_OPEN_MAX"
  shows "\<exists>fo s'. com_sys_proc_get_file p fd s = Ok (fo, s') \<and> refs_ok Q (bump fo 1 (\<lambda>_. 0)) s' \<and> fs_tab s' = fs_tab s \<and> live fo s' \<and>
    (\<forall>a. fs_file s' a = None \<longleftrightarrow> fs_file s a = None)"
proof -
  note L = locked_state [OF ok, of p]
  obtain fo s2 where s2: "com_sys_proc_get_file_nolock p fd (upd_tab p (\<lambda>t. t\<lparr>ft_lock := True\<rparr>) s) = Ok (fo, s2)"
      "refs_ok Q (bump fo 1 (\<lambda>_. 0)) s2" "fs_tab s2 = fs_tab (upd_tab p (\<lambda>t. t\<lparr>ft_lock := True\<rparr>) s)" "live fo s2"
      "\<forall>a. fs_file s2 a = None \<longleftrightarrow> fs_file s a = None"
    using get_file_nolock_ok [OF L(2) _ L(3) assms(2)] by auto
  have "fs_tab (fd_lock_release p s2) = fs_tab s" using s2(3) fd_okD(3) [OF ok, of p] by (auto simp: fd_lock_release_def fun_eq_iff)
  then show ?thesis using L(1) s2 release_refs [OF s2(2)] by (auto simp: com_sys_proc_get_file_def)
qed

text \<open>An operation that only changes a file object's offset or flags.\<close>

lemma upd_file_ok:
  assumes "refs_ok Q ext s" and "\<And>f. f_num_ref (g f) = f_num_ref f \<and> f_vnode (g f) = f_vnode f \<and> f_off_lock (g f) = f_off_lock f"
  shows "refs_ok Q ext (upd_file a g s)"
proof -
  have "refs_ok Q (bump (Some a) 0 ext) (upd_file a g s)"
    by (rule refs_ok_upd [OF assms(1)]) (use assms(2) refs_okD(4-6) [OF assms(1)] in \<open>auto simp: file_ref_def split: option.splits\<close>)
  then show ?thesis by (simp add: bump_def [abs_def] cong: if_cong)
qed

lemma live_upd_file [simp]: "live fo (upd_file a g s) = live fo s"
  by (simp add: live_def split: option.split)

lemma transfer_on_ok:
  assumes ok: "refs_ok Q ext s" and "live (Some a) s"
  shows "\<exists>r s'. transfer_on vop a s = Ok (r, s') \<and> refs_ok Q ext s' \<and> live (Some a) s' \<and> fs_tab s' = fs_tab s"
proof -
  obtain f where f: "fs_file s a = Some f" using assms(2) by (auto simp: live_def)
  obtain vn where vn: "f_vnode f = Some vn" "\<not> f_off_lock f" using refs_okD(4,6) [OF ok f] by blast
  obtain e n where v: "vop vn (f_off f) (f_flags f) = (e, n)" by fastforce
  have "refs_ok Q ext (upd_file a (\<lambda>f. f\<lparr>f_off := f_off f + n\<rparr>) s)" by (rule upd_file_ok [OF ok]) simp
  then show ?thesis using ok f vn v assms(2)
    by (simp add: transfer_on_def file_vnode_def file_at_def advance_off_def off_lock_acquire_def)
qed

lemma with_file_ok:
  assumes ok: "fd_ok Q s" and "fd \<noteq> int CONFIG_OPEN_MAX"
    and body: "\<And>a s1. refs_ok Q (bump (Some a) 1 (\<lambda>_. 0)) s1 \<Longrightarrow> live (Some a) s1 \<Longrightarrow>
      \<exists>r s2. body a s1 = Ok (r, s2) \<and> refs_ok Q (bump (Some a) 1 (\<lambda>_. 0)) s2 \<and> live (Some a) s2 \<and> fs_tab s2 = fs_tab s1"
  shows "\<exists>r s'. with_file p fd body s = Ok (r, s') \<and> fd_ok Q s'"
proof -
  obtain fo s1 where s1: "com_sys_proc_get_file p fd s = Ok (fo, s1)" "refs_ok Q (bump fo 1 (\<lambda>_. 0)) s1" "fs_tab s1 = fs_tab s" "live fo s1"
    using get_file_ok [OF ok assms(2)] by blast
  show ?thesis
  proof (cases fo)
    case None
    then have "fd_ok Q s1" using s1(2,3) fd_okI [OF ok _ tab_frame_same] by simp
    then show ?thesis using s1(1) None by (simp add: with_file_def)
  next
    case (Some a)
    then obtain r s2 where s2: "body a s1 = Ok (r, s2)" "refs_ok Q (bump fo 1 (\<lambda>_. 0)) s2" "live fo s2" "fs_tab s2 = fs_tab s1"
      using body s1(2,4) by blast
    from file_release_ok [OF s2(2,3)] obtain s3 where s3: "COM_FS_FILE_RELEASE fo s2 = Ok s3" "refs_ok Q (\<lambda>_. 0) s3" "fs_tab s3 = fs_tab s2"
      by auto
    have "fd_ok Q s3" by (rule fd_okI [OF ok s3(2) tab_frame_same]) (simp add: s1(3) s2(4) s3(3))
    then show ?thesis using s1(1) s2(1) s3(1) Some by (simp add: with_file_def)
  qed
qed

lemma readv_ok: "fd_ok Q s \<Longrightarrow> fd \<noteq> int CONFIG_OPEN_MAX \<Longrightarrow> \<exists>r s'. com_sys_syscall_readv p vop fd s = Ok (r, s') \<and> fd_ok Q s'"
  unfolding com_sys_syscall_readv_def by (erule with_file_ok) (blast intro: transfer_on_ok)+

lemma set_fd_flags_ok:
  assumes ok: "refs_ok Q ext s" and "p \<in> Q" and t: "tab_ok (fs_tab s p)" and "0 \<le> fd" and "fd < int CONFIG_OPEN_MAX"
  shows "\<exists>s'. set_fd_flags p fd g s = Ok s' \<and> refs_ok Q ext s' \<and> fs_file s' = fs_file s \<and> tab_frame p s s'"
proof -
  let ?d = "ft_fd (fs_tab s p) ! nat fd"
  have get: "fd_get p fd s = Ok ?d" using t assms(4,5) by (simp add: fd_get_def Let_def tab_ok_def)
  from fd_put_ok [OF ok assms(2) get, of "?d\<lparr>fd_flags := g (fd_flags ?d)\<rparr>"] obtain s1 where
    s1: "fd_put p fd (?d\<lparr>fd_flags := g (fd_flags ?d)\<rparr>) s = Ok s1" "refs_ok Q ext s1" "fs_file s1 = fs_file s"
      "fs_tab s1 = (fs_tab s)(p := (fs_tab s p)\<lparr>ft_fd := (ft_fd (fs_tab s p))[nat fd := ?d\<lparr>fd_flags := g (fd_flags ?d)\<rparr>]\<rparr>)" by auto
  moreover have "tab_frame p s s1" using s1(4) t assms(4,5) by (auto simp: tab_frame_def tab_ok_def nth_list_update)
  ultimately show ?thesis using get by (simp add: set_fd_flags_def)
qed

lemma fcntl_dup_ok:
  assumes ok: "refs_ok Q ext s" and "\<And>a. 0 \<le> ext a" and "p \<in> Q" and t: "tab_ok (fs_tab s p)" and "fd \<noteq> int CONFIG_OPEN_MAX"
    and free: "bad_fd arg \<or> (\<exists>j. nat arg \<le> j \<and> j < CONFIG_OPEN_MAX \<and> fd_file (ft_fd (fs_tab s p) ! j) = None)"
  shows "\<exists>r s'. fcntl_dup p fd op arg s = Ok (r, s') \<and> refs_ok Q ext s' \<and> (\<forall>a. fs_file s' a = None \<longleftrightarrow> fs_file s a = None) \<and> tab_frame p s s'"
proof -
  obtain r s1 where s1: "com_sys_proc_duplicate_file_nolock p arg fd s = Ok (r, s1)" "refs_ok Q ext s1" "tab_frame p s s1"
      "\<forall>a. fs_file s1 a = None \<longleftrightarrow> fs_file s a = None" "\<forall>fd. r = Inr fd \<longrightarrow> 0 \<le> fd \<and> fd < int CONFIG_OPEN_MAX"
    using duplicate_nolock_ok [OF assms] by blast
  show ?thesis
  proof (cases "r = Inr (projr r) \<and> op = F_DUPFD_CLOEXEC")
    case True
    have "tab_ok (fs_tab s1 p)" using s1(3) t by (simp add: tab_frame_def)
    from set_fd_flags_ok [OF s1(2) assms(3) this, of "projr r" "\<lambda>fl. fl OR FD_CLOEXEC"] True s1(5) obtain s2 where
      "set_fd_flags p (projr r) (\<lambda>fl. fl OR FD_CLOEXEC) s1 = Ok s2" "refs_ok Q ext s2" "fs_file s2 = fs_file s1" "tab_frame p s1 s2" by metis
    then show ?thesis using s1 True tab_frame_trans [OF s1(3)] by (cases r) (auto simp: fcntl_dup_def)
  next
    case False
    then show ?thesis using s1 by (cases r) (auto simp: fcntl_dup_def)
  qed
qed

lemma fcntl_on_ok:
  assumes ok: "refs_ok Q ext s" and "\<And>a. 0 \<le> ext a" and "p \<in> Q" and t: "tab_ok (fs_tab s p)" and fd: "\<not> bad_fd fd" "fd \<noteq> int CONFIG_OPEN_MAX"
    and "live (Some a) s"
    and free: "bad_fd arg \<or> (\<exists>j. nat arg \<le> j \<and> j < CONFIG_OPEN_MAX \<and> fd_file (ft_fd (fs_tab s p) ! j) = None)"
  shows "\<exists>r s'. fcntl_on p fd a op arg s = Ok (r, s') \<and> refs_ok Q ext s' \<and> live (Some a) s' \<and> tab_frame p s s'"
proof -
  obtain f where f: "fs_file s a = Some f" using assms(7) by (auto simp: live_def)
  note V = fd_get_valid [OF t fd]
  have fl: "refs_ok Q ext (upd_file a (\<lambda>f. f\<lparr>f_flags := x\<rparr>) s)" for x by (rule upd_file_ok [OF ok]) simp
  have dup: "\<exists>r s'. fcntl_dup p fd op arg s = Ok (r, s') \<and> refs_ok Q ext s' \<and> live (Some a) s' \<and> tab_frame p s s'"
    using fcntl_dup_ok [OF assms(1-4) fd(2) free, of op] f unfolding live_def by fastforce
  have setfd: "\<exists>s'. set_fd_flags p fd g s = Ok s' \<and> refs_ok Q ext s' \<and> live (Some a) s' \<and> tab_frame p s s'" for g
    using set_fd_flags_ok [OF ok assms(3) t V(3), of g] V(2,3) f by (fastforce simp: live_def)
  show ?thesis
  proof (cases op)
    case F_SETFD
    then show ?thesis using setfd [of "\<lambda>_. word_of_int arg"] by (auto simp: fcntl_on_def)
  next
    case F_SETFL
    then show ?thesis using fl assms(7) by (simp add: fcntl_on_def tab_frame_def)
  qed (use dup ok f V assms(7) in \<open>simp_all add: fcntl_on_def file_at_def tab_frame_def live_def\<close>)
qed

lemma fcntl_ok:
  assumes ok: "fd_ok Q s" and "p \<in> Q" and "fd \<noteq> int CONFIG_OPEN_MAX"
    and free: "bad_fd arg \<or> (\<exists>j. nat arg \<le> j \<and> j < CONFIG_OPEN_MAX \<and> fd_file (ft_fd (fs_tab s p) ! j) = None)"
  shows "\<exists>r s'. com_sys_syscall_fcntl p fd op arg s = Ok (r, s') \<and> fd_ok Q s'"
proof -
  note L = locked_state [OF ok, of p]
  let ?s1 = "upd_tab p (\<lambda>t. t\<lparr>ft_lock := True\<rparr>) s"
  obtain fo s2 where s2: "com_sys_proc_get_file_nolock p fd ?s1 = Ok (fo, s2)" "refs_ok Q (bump fo 1 (\<lambda>_. 0)) s2" "fs_tab s2 = fs_tab ?s1"
      "live fo s2" "fo \<noteq> None \<longrightarrow> \<not> bad_fd fd"
    using get_file_nolock_ok [OF L(2) _ L(3) assms(3)] by auto
  have nn: "0 \<le> bump fo 1 (\<lambda>_. 0) a" for a by (simp add: bump_def)
  have t2: "tab_ok (fs_tab s2 p)" using s2(3) L(3) by simp
  have fr: "bad_fd arg \<or> (\<exists>j. nat arg \<le> j \<and> j < CONFIG_OPEN_MAX \<and> fd_file (ft_fd (fs_tab s2 p) ! j) = None)"
    using free s2(3) by simp
  have "\<exists>r s3. (case fo of None \<Rightarrow> Ok (COM_SYS_SYSCALL_ERR EBADF, s2) | Some a \<Rightarrow> fcntl_on p fd a op arg s2) = Ok (r, s3) \<and>
      refs_ok Q (bump fo 1 (\<lambda>_. 0)) s3 \<and> live fo s3 \<and> tab_frame p s2 s3"
  proof (cases fo)
    case (Some a)
    then show ?thesis using fcntl_on_ok [OF s2(2) nn assms(2) t2 _ assms(3) _ fr, of a op] s2(4,5) by simp
  qed (use s2 in \<open>simp add: tab_frame_def\<close>)
  then obtain r s3 where s3: "(case fo of None \<Rightarrow> Ok (COM_SYS_SYSCALL_ERR EBADF, s2) | Some a \<Rightarrow> fcntl_on p fd a op arg s2) = Ok (r, s3)"
      "refs_ok Q (bump fo 1 (\<lambda>_. 0)) s3" "live fo s3" "tab_frame p s2 s3" by blast
  from file_release_ok [OF s3(2,3)] obtain s4 where s4: "COM_FS_FILE_RELEASE fo s3 = Ok s4" "refs_ok Q (\<lambda>_. 0) s4" "fs_tab s4 = fs_tab s3" by auto
  have "tab_frame p ?s1 s4" using tab_frame_trans [OF tab_frame_same [OF s2(3)] tab_frame_trans [OF s3(4) tab_frame_same [OF s4(3)]]] .
  then have "fd_ok Q (fd_lock_release p s4)" using fd_okI [OF ok release_refs [OF s4(2)] unlock_frame [OF fd_okD(3) [OF ok]]] by blast
  then show ?thesis using L(1) s2(1) s3(1) s4(1) by (simp add: com_sys_syscall_fcntl_def)
qed

section \<open>New descriptors\<close>

lemma free_from_le: "i \<le> j \<Longrightarrow> j < CONFIG_OPEN_MAX \<Longrightarrow> fd_file (t ! j) = None \<Longrightarrow> free_from t i \<le> j"
proof (induction t i rule: free_from.induct)
  case (1 t i)
  have "free_from t j = j" using "1.prems" by (subst free_from.simps) simp
  then show ?case using 1 by (cases "i = j") (simp_all add: free_from.simps [of t i])
qed

text \<open>With a second empty slot the hint moves on from the descriptor that is handed out.\<close>

lemma hint_moves:
  assumes "i \<in> free_slots t" and "i \<noteq> ft_next_fd t" and "ft_next_fd t < CONFIG_OPEN_MAX"
  shows "ft_next_fd (proc_update_fd_hint (t\<lparr>ft_next_fd := ft_next_fd t + 1\<rparr>)) \<noteq> ft_next_fd t"
proof -
  have i: "i < CONFIG_OPEN_MAX" "fd_file (ft_fd t ! i) = None" using assms(1) by (simp_all add: free_slots_def)
  show ?thesis
  proof (cases "free_from (ft_fd t) (ft_next_fd t + 1) < CONFIG_OPEN_MAX")
    case True
    then show ?thesis using free_from_bounds [of "ft_next_fd t + 1" "ft_fd t"] assms(3) by (simp add: proc_update_fd_hint_def Let_def)
  next
    case False
    then have "\<not> ft_next_fd t + 1 \<le> i" using free_from_le [of "ft_next_fd t + 1" i "ft_fd t"] i by auto
    moreover have "free_from (ft_fd t) 0 \<le> i" using free_from_le [of 0 i "ft_fd t"] i by simp
    ultimately show ?thesis using False assms(2) by (simp add: proc_update_fd_hint_def Let_def)
  qed
qed

lemma next_fd_install_ok:
  assumes ok: "refs_ok Q ext s" and "p \<in> Q" and t: "tab_ok (fs_tab s p)" "\<not> ft_lock (fs_tab s p)" and "can_open (fs_tab s p)"
    and "fs_file s a = None"
  shows "\<exists>fd s1. com_sys_proc_next_fd p s = Ok (fd, s1) \<and> refs_ok Q ext s1 \<and> fs_file s1 = fs_file s \<and> tab_frame p s s1 \<and>
    (fd \<noteq> - 1 \<longrightarrow> (\<exists>s2. install_file p fd a vn flags s1 = Ok s2 \<and> refs_ok Q ext s2 \<and> tab_frame p s s2 \<and>
       (\<forall>b. fs_file s b \<noteq> None \<longrightarrow> fs_file s2 b \<noteq> None)))"
proof -
  let ?t = "fs_tab s p" and ?n = "ft_next_fd (fs_tab s p)"
  let ?t1 = "proc_update_fd_hint (?t\<lparr>ft_next_fd := ?n + 1\<rparr>)"
  define s1 where "s1 = fd_lock_release p (upd_tab p (\<lambda>t. proc_update_fd_hint (t\<lparr>ft_next_fd := ft_next_fd t + 1\<rparr>))
    (upd_tab p (\<lambda>t. t\<lparr>ft_lock := True\<rparr>) s))"
  have tab1: "tab_ok ?t1" using t by (intro hint_tab_ok) (simp_all add: tab_ok_def)
  have s1: "fs_file s1 = fs_file s" "fs_tab s1 = (fs_tab s)(p := ?t1)"
    using t(2) by (auto simp: s1_def fd_lock_release_def proc_update_fd_hint_def Let_def fun_eq_iff)
  have r1: "refs_ok Q ext s1" by (rule refs_ok_tab [OF ok]) (simp_all add: s1)
  have fr1: "tab_frame p s s1" using tab1 s1(2) by (simp add: tab_frame_def)
  have next_fd: "com_sys_proc_next_fd p s = Ok (if ?n \<ge> CONFIG_OPEN_MAX then - 1 else int ?n, s1)"
    using t(2) by (simp add: com_sys_proc_next_fd_def fd_lock_acquire_def Let_def s1_def)
  have "\<exists>s2. install_file p (int ?n) a vn flags s1 = Ok s2 \<and> refs_ok Q ext s2 \<and> tab_frame p s s2 \<and>
       (\<forall>b. fs_file s b \<noteq> None \<longrightarrow> fs_file s2 b \<noteq> None)" if n: "?n < CONFIG_OPEN_MAX"
  proof -
    let ?s = "s1\<lparr>fs_file := (fs_file s1)(a := Some \<lparr>f_off_lock = False, f_off = 0, f_flags = flags, f_num_ref = 1, f_vnode = Some vn\<rparr>)\<rparr>"
    let ?d = "ft_fd ?t ! ?n"
    have "ft_next_fd ?t1 \<noteq> ?n" using hint_moves n assms(5) by (auto simp: can_open_def)
    have "refs_ok Q (bump (Some a) 1 ext) ?s" by (rule refs_ok_upd [OF r1]) (auto simp: file_ref_def s1(1) assms(6))
    moreover have get: "fd_get p (int ?n) ?s = Ok ?d" using n t(1) s1(2) by (simp add: fd_get_def Let_def tab_ok_def)
    moreover have "fd_file ?d = None" using t(1) n by (simp add: tab_ok_def)
    ultimately obtain s2 where s2: "fd_put p (int ?n) (?d\<lparr>fd_file := Some a\<rparr>) ?s = Ok s2" "refs_ok Q ext s2" "fs_file s2 = fs_file ?s"
        "fs_tab s2 = (fs_tab s1)(p := ?t1\<lparr>ft_fd := (ft_fd ?t)[?n := ?d\<lparr>fd_file := Some a\<rparr>]\<rparr>)"
      using fd_put_ok [of Q "bump (Some a) 1 ext" ?s p "int ?n" ?d "?d\<lparr>fd_file := Some a\<rparr>"] assms(2) s1(2) by auto
    have "tab_frame p s s2" using s2(4) s1(2) tab1 \<open>ft_next_fd ?t1 \<noteq> ?n\<close> by (auto simp: tab_frame_def tab_ok_def)
    then show ?thesis using s2 get s1(1,2) by (auto simp: install_file_def fd_get_def)
  qed
  then show ?thesis using next_fd r1 s1(1) fr1 by auto
qed

lemma openat_node_ok:
  assumes ok: "refs_ok Q ext s" and "p \<in> Q" and t: "tab_ok (fs_tab s p)" "\<not> ft_lock (fs_tab s p)" and "can_open (fs_tab s p)"
    and "fs_file s a = None"
  shows "\<exists>r s'. openat_node p opn is_dir od flags a vn s = Ok (r, s') \<and> refs_ok Q ext s' \<and> tab_frame p s s' \<and>
    (\<forall>b. fs_file s b \<noteq> None \<longrightarrow> fs_file s' b \<noteq> None)"
proof -
  have rel: "refs_ok Q ext (vn_release v s')" if "refs_ok Q ext s'" for v s' by (rule refs_ok_tab [OF that]) simp_all
  have fin: "\<exists>r s'. res_bind (com_sys_proc_next_fd p s0) (\<lambda>(fd, s2).
      if fd = - 1 then Ok (COM_SYS_SYSCALL_ERR EMFILE, s2)
      else res_bind (install_file p fd a v flags s2) (\<lambda>s3. Ok (COM_SYS_SYSCALL_OK fd, s3))) = Ok (r, s') \<and> refs_ok Q ext s' \<and> tab_frame p s s' \<and>
      (\<forall>b. fs_file s b \<noteq> None \<longrightarrow> fs_file s' b \<noteq> None)" if s0: "refs_ok Q ext s0" "fs_tab s0 = fs_tab s" "fs_file s0 = fs_file s" for s0 v
  proof -
    obtain fd s1 where s1: "com_sys_proc_next_fd p s0 = Ok (fd, s1)" "refs_ok Q ext s1" "fs_file s1 = fs_file s0" "tab_frame p s0 s1"
        "fd \<noteq> - 1 \<longrightarrow> (\<exists>s2. install_file p fd a v flags s1 = Ok s2 \<and> refs_ok Q ext s2 \<and> tab_frame p s0 s2 \<and>
          (\<forall>b. fs_file s0 b \<noteq> None \<longrightarrow> fs_file s2 b \<noteq> None))"
      using next_fd_install_ok [OF s0(1) assms(2), of a v flags] t assms(5,6) s0(2,3) by metis
    have frame: "tab_frame p s0 x \<longleftrightarrow> tab_frame p s x" for x using s0(2) by (simp add: tab_frame_def)
    show ?thesis using s1 s0(3) by (cases "fd = - 1") (auto simp: frame)
  qed
  show ?thesis
  proof (cases "opn vn")
    case (Inl e)
    then show ?thesis using rel [OF ok] by (simp add: openat_node_def tab_frame_def)
  next
    case (Inr nv)
    define v s1 where "v = (case nv of Some x \<Rightarrow> x | None \<Rightarrow> vn)" and "s1 = (if v \<noteq> vn then vn_release vn s else s)"
    have pair: "(case nv of Some v \<Rightarrow> if v \<noteq> vn then (v, vn_release vn s) else (vn, s) | None \<Rightarrow> (vn, s)) = (v, s1)"
      by (simp add: v_def s1_def split: option.split)
    have s1: "refs_ok Q ext s1" "fs_tab s1 = fs_tab s" "fs_file s1 = fs_file s" using rel [OF ok] ok by (simp_all add: s1_def)
    have "refs_ok Q ext (vn_release v s1)" by (rule rel [OF s1(1)])
    then show ?thesis using fin [OF s1, of v] s1(2,3) Inr pair by (cases "od \<and> \<not> is_dir v") (simp_all add: openat_node_def tab_frame_def)
  qed
qed

lemma openat_ok:
  assumes ok: "fd_ok Q s" and "p \<in> Q" and "dir \<noteq> DirFd (int CONFIG_OPEN_MAX)" and "can_open (fs_tab s p)" and "fs_file s a = None"
  shows "\<exists>r s'. com_sys_syscall_openat p cwd resolve opn is_dir dir od flags a s = Ok (r, s') \<and> fd_ok Q s'"
proof -
  have "\<exists>e fo d s1. com_sys_proc_get_directory p cwd dir s = Ok ((e, fo, d), s1) \<and> refs_ok Q (bump fo 1 (\<lambda>_. 0)) s1 \<and>
      fs_tab s1 = fs_tab s \<and> live fo s1 \<and> (e = EOK \<longrightarrow> d \<noteq> None) \<and> (\<forall>b. fs_file s1 b = None \<longleftrightarrow> fs_file s b = None)"
  proof (cases dir)
    case AT_FDCWD
    then show ?thesis using fd_okD(1) [OF ok] by (simp add: com_sys_proc_get_directory_def live_def)
  next
    case (DirFd fd)
    then obtain fo s1 where s1: "com_sys_proc_get_file p fd s = Ok (fo, s1)" "refs_ok Q (bump fo 1 (\<lambda>_. 0)) s1" "fs_tab s1 = fs_tab s" "live fo s1"
        "\<forall>b. fs_file s1 b = None \<longleftrightarrow> fs_file s b = None"
      using get_file_ok [OF ok, of fd p] assms(3) by auto
    show ?thesis
    proof (cases fo)
      case (Some b)
      then obtain f where f: "fs_file s1 b = Some f" using s1(4) by (auto simp: live_def)
      then show ?thesis using s1 Some DirFd refs_okD(4) [OF s1(2) f] by (simp add: com_sys_proc_get_directory_def file_at_def)
    qed (use s1 DirFd in \<open>simp add: com_sys_proc_get_directory_def\<close>)
  qed
  then obtain e fo d s1 where s1: "com_sys_proc_get_directory p cwd dir s = Ok ((e, fo, d), s1)" "refs_ok Q (bump fo 1 (\<lambda>_. 0)) s1"
      "fs_tab s1 = fs_tab s" "live fo s1" "e = EOK \<longrightarrow> d \<noteq> None" "\<forall>b. fs_file s1 b = None \<longleftrightarrow> fs_file s b = None" by blast
  have node: "\<exists>r s'. openat_node p opn is_dir od flags a vn s1 = Ok (r, s') \<and> refs_ok Q (bump fo 1 (\<lambda>_. 0)) s' \<and> tab_frame p s1 s' \<and>
    (\<forall>b. fs_file s1 b \<noteq> None \<longrightarrow> fs_file s' b \<noteq> None)" for vn
    by (rule openat_node_ok [OF s1(2) assms(2)]) (use s1 fd_okD(2,3) [OF ok] assms in simp_all)
  have "\<exists>r s2. (if e \<noteq> EOK then Ok (COM_SYS_SYSCALL_ERR e, s1)
        else case d of None \<Rightarrow> Panic | Some d \<Rightarrow>
            (case resolve d of Inl e \<Rightarrow> Ok (COM_SYS_SYSCALL_ERR e, s1) | Inr vn \<Rightarrow> openat_node p opn is_dir od flags a vn s1)) = Ok (r, s2) \<and>
      refs_ok Q (bump fo 1 (\<lambda>_. 0)) s2 \<and> tab_frame p s1 s2 \<and> live fo s2"
    using s1(2,4,5) node unfolding live_def by (cases "e = EOK"; cases d; cases "resolve (the d)"; cases fo) (auto simp: tab_frame_def, blast+)
  then obtain r s2 where s2: "(if e \<noteq> EOK then Ok (COM_SYS_SYSCALL_ERR e, s1)
        else case d of None \<Rightarrow> Panic | Some d \<Rightarrow>
            (case resolve d of Inl e \<Rightarrow> Ok (COM_SYS_SYSCALL_ERR e, s1) | Inr vn \<Rightarrow> openat_node p opn is_dir od flags a vn s1)) = Ok (r, s2)"
      "refs_ok Q (bump fo 1 (\<lambda>_. 0)) s2" "tab_frame p s1 s2" "live fo s2" by blast
  from file_release_ok [OF s2(2,4)] obtain s3 where s3: "COM_FS_FILE_RELEASE fo s2 = Ok s3" "refs_ok Q (\<lambda>_. 0) s3" "fs_tab s3 = fs_tab s2" by auto
  have "fd_ok Q s3"
    by (rule fd_okI [OF ok s3(2) tab_frame_trans [OF tab_frame_same [OF s1(3)] tab_frame_trans [OF s2(3) tab_frame_same [OF s3(3)]]]])
  then show ?thesis using s1(1) s2(1) s3(1) by (simp add: com_sys_syscall_openat_def)
qed

section \<open>Fork and execve\<close>

lemma fork_slot_ok:
  assumes ok: "refs_ok Q (\<lambda>_. 0) s" and "c \<in> Q" and "p \<noteq> c" and "length (ft_fd (fs_tab s p)) = CONFIG_OPEN_MAX" and i: "i < CONFIG_OPEN_MAX"
    and part: "fork_part (ft_fd (fs_tab s p)) i (ft_fd (fs_tab s c))"
  shows "\<exists>s'. fork_slot p c i s = Ok s' \<and> refs_ok Q (\<lambda>_. 0) s' \<and> fork_part (ft_fd (fs_tab s p)) (Suc i) (ft_fd (fs_tab s' c)) \<and>
    (\<exists>t. fs_tab s' = (fs_tab s)(c := (fs_tab s c)\<lparr>ft_fd := t\<rparr>))"
proof -
  let ?T = "ft_fd (fs_tab s p)" and ?C = "ft_fd (fs_tab s c)"
  let ?d = "?T ! i"
  have get: "fd_get p (int i) s = Ok ?d" "fd_get c (int i) s = Ok (?C ! i)"
    using i assms(4) part by (simp_all add: fd_get_def Let_def fork_part_def)
  show ?thesis
  proof (cases "fd_file ?d")
    case None
    then have "fork_part ?T (Suc i) ?C" using part by (auto simp: fork_part_def less_Suc_eq)
    then show ?thesis using None get ok by (auto simp: fork_slot_def intro!: exI [of _ "?C"] fun_upd_idem [symmetric])
  next
    case (Some a)
    have "live (Some a) s" using refs_ok_live(1) [OF ok _ get(1) Some] by (simp add: live_def)
    then obtain s1 where s1: "COM_FS_FILE_HOLD (Some a) s = Ok s1" "refs_ok Q (bump (Some a) 1 (\<lambda>_. 0)) s1" "fs_tab s1 = fs_tab s"
      using file_hold_ok [OF ok] by blast
    have "fd_file (?C ! i) = None" "fd_get c (int i) s1 = Ok (?C ! i)" using part i get(2) s1(3) by (simp_all add: fork_part_def fd_get_def)
    with fd_put_ok [OF s1(2) assms(2), of "int i" "?C ! i" ?d] Some obtain s2 where
      s2: "fd_put c (int i) ?d s1 = Ok s2" "refs_ok Q (\<lambda>_. 0) s2" "fs_tab s2 = (fs_tab s)(c := (fs_tab s c)\<lparr>ft_fd := ?C[i := ?d]\<rparr>)"
      using s1(3) by auto
    moreover have "fork_part ?T (Suc i) (?C[i := ?d])" using part i by (auto simp: fork_part_def nth_list_update less_Suc_eq)
    ultimately show ?thesis using get(1) Some s1(1) by (auto simp: fork_slot_def)
  qed
qed

lemma fork_loop_ok:
  assumes "c \<in> Q" and "p \<noteq> c"
  shows "refs_ok Q (\<lambda>_. 0) s \<Longrightarrow> length (ft_fd (fs_tab s p)) = CONFIG_OPEN_MAX \<Longrightarrow> i \<le> m \<Longrightarrow> m \<le> CONFIG_OPEN_MAX \<Longrightarrow>
    fork_part (ft_fd (fs_tab s p)) i (ft_fd (fs_tab s c)) \<Longrightarrow>
    \<exists>s'. each_slot (fork_slot p c) [i..<m] s = Ok s' \<and> refs_ok Q (\<lambda>_. 0) s' \<and> fork_part (ft_fd (fs_tab s p)) m (ft_fd (fs_tab s' c)) \<and>
      (\<exists>t. fs_tab s' = (fs_tab s)(c := (fs_tab s c)\<lparr>ft_fd := t\<rparr>))"
proof (induction "m - i" arbitrary: i s)
  case 0
  then show ?case by (auto intro!: exI [of _ "ft_fd (fs_tab s c)"] fun_upd_idem [symmetric])
next
  case (Suc n)
  then have im: "i < m" by simp
  obtain s1 t where s1: "fork_slot p c i s = Ok s1" "refs_ok Q (\<lambda>_. 0) s1" "fork_part (ft_fd (fs_tab s p)) (Suc i) (ft_fd (fs_tab s1 c))"
      "fs_tab s1 = (fs_tab s)(c := (fs_tab s c)\<lparr>ft_fd := t\<rparr>)"
    using fork_slot_ok [OF Suc.prems(1) assms Suc.prems(2)] im Suc.prems(4,5) by (meson less_le_trans)
  have p: "fs_tab s1 p = fs_tab s p" using s1(4) assms(2) by simp
  have n: "n = m - Suc i" "Suc i \<le> m" using Suc.hyps(2) by auto
  obtain s2 u where "each_slot (fork_slot p c) [Suc i..<m] s1 = Ok s2" "refs_ok Q (\<lambda>_. 0) s2"
      "fork_part (ft_fd (fs_tab s p)) m (ft_fd (fs_tab s2 c))" "fs_tab s2 = (fs_tab s1)(c := (fs_tab s1 c)\<lparr>ft_fd := u\<rparr>)"
    using Suc.hyps(1) [OF n(1) s1(2)] n(2) Suc.prems(2,4) s1(3) unfolding p by blast
  then show ?case using s1 im by (auto simp: upt_conv_Cons)
qed

lemma fork_fds_ok:
  assumes ok: "fd_ok Q s" and "p \<in> Q" "c \<in> Q" "p \<noteq> c" and new: "fs_tab s c = new_fdtab"
  shows "\<exists>s'. fork_fds p c s = Ok s' \<and> fd_ok Q s' \<and> ft_max_fd (fs_tab s' c) = 0 \<and>
    fork_part (ft_fd (fs_tab s p)) (ft_max_fd (fs_tab s p)) (ft_fd (fs_tab s' c)) \<and> fs_tab s' p = fs_tab s p"
proof -
  note L = locked_state [OF ok, of p]
  let ?s0 = "upd_tab c (\<lambda>t. t\<lparr>ft_next_fd := ft_next_fd (fs_tab s p)\<rparr>) (upd_tab p (\<lambda>t. t\<lparr>ft_lock := True\<rparr>) s)"
  let ?m = "ft_max_fd (fs_tab s p)" and ?T = "ft_fd (fs_tab s p)"
  have tp: "tab_ok (fs_tab s p)" using fd_okD(2) [OF ok] .
  have r0: "refs_ok Q (\<lambda>_. 0) ?s0" by (rule refs_ok_tab [OF L(2)]) simp_all
  have p0: "ft_fd (fs_tab ?s0 p) = ?T" "fork_part ?T 0 (ft_fd (fs_tab ?s0 c))"
    using assms(4) new by (simp_all add: fork_part_def new_fdtab_def empty_filedesc_def)
  obtain s1 t where s1: "each_slot (fork_slot p c) [0..<?m] ?s0 = Ok s1" "refs_ok Q (\<lambda>_. 0) s1" "fork_part ?T ?m (ft_fd (fs_tab s1 c))"
      "fs_tab s1 = (fs_tab ?s0)(c := (fs_tab ?s0 c)\<lparr>ft_fd := t\<rparr>)"
    using fork_loop_ok [OF assms(3,4) r0, of 0 ?m] p0 tp by (auto simp: tab_ok_def)
  have tabs: "fs_tab (fd_lock_release p s1) = (fs_tab s)(c := new_fdtab\<lparr>ft_next_fd := ft_next_fd (fs_tab s p), ft_fd := t\<rparr>)"
    using s1(4) assms(4) new fd_okD(3) [OF ok, of p] by (auto simp: fd_lock_release_def fun_eq_iff)
  have part: "fork_part ?T ?m t" using s1(3,4) by simp
  have "tab_ok (new_fdtab\<lparr>ft_next_fd := ft_next_fd (fs_tab s p), ft_fd := t\<rparr>)"
    using tp part by (auto simp: tab_ok_def fork_part_def new_fdtab_def)
  then have "fd_ok Q (fd_lock_release p s1)"
    using release_refs [OF s1(2)] tabs fd_okD [OF ok] by (simp add: fd_ok_def new_fdtab_def)
  then show ?thesis using L(1) s1(1) tabs part assms(4) by (simp add: fork_fds_def new_fdtab_def)
qed

lemma exec_slot_ok:
  assumes ok: "refs_ok Q (\<lambda>_. 0) s" and "p \<in> Q" and t: "tab_ok (fs_tab s p)" and i: "i < CONFIG_OPEN_MAX"
  shows "\<exists>s'. exec_slot m p i s = Ok s' \<and> refs_ok Q (\<lambda>_. 0) s' \<and> tab_frame p s s' \<and> tab_ok (fs_tab s' p)"
proof -
  let ?d = "ft_fd (fs_tab s p) ! i"
  have get: "fd_get p (int i) s = Ok ?d" using i t by (simp add: fd_get_def Let_def tab_ok_def)
  show ?thesis
  proof (cases "fd_file ?d")
    case None
    then show ?thesis using ok get t by (simp add: exec_slot_def tab_frame_def)
  next
    case (Some a)
    then obtain f where f: "fs_file s a = Some f" using refs_ok_live(1) [OF ok _ get] by fastforce
    show ?thesis
    proof (cases "FD_CLOEXEC AND fd_flags ?d \<noteq> 0 \<or> m AND f_flags f \<noteq> 0")
      case False
      then show ?thesis using ok get t Some f by (simp add: exec_slot_def tab_frame_def file_at_def)
    next
      case True
      obtain s1 where s1: "COM_FS_FILE_RELEASE (Some a) s = Ok s1" "refs_ok Q (bump (Some a) (- 1) (\<lambda>_. 0)) s1" "fs_tab s1 = fs_tab s"
        using file_release_ok [OF ok, of "Some a"] f by (auto simp: live_def)
      have "fd_get p (int i) s1 = Ok ?d" using get s1(3) by (simp add: fd_get_def)
      with fd_put_ok [OF s1(2) assms(2) this, of empty_filedesc] Some obtain s2 where
        s2: "fd_put p (int i) empty_filedesc s1 = Ok s2" "refs_ok Q (\<lambda>_. 0) s2"
          "fs_tab s2 = (fs_tab s)(p := (fs_tab s p)\<lparr>ft_fd := (ft_fd (fs_tab s p))[i := empty_filedesc]\<rparr>)"
        using s1(3) by (auto simp: empty_filedesc_def)
      have "tab_ok (fs_tab s2 p)" using s2(3) t i by (auto simp: tab_ok_def nth_list_update empty_filedesc_def)
      then show ?thesis using True Some f get s1(1) s2 by (simp add: exec_slot_def tab_frame_def file_at_def)
    qed
  qed
qed

lemma exec_fds_ok:
  assumes ok: "fd_ok Q s" and "p \<in> Q"
  shows "\<exists>s'. exec_fds m p s = Ok s' \<and> fd_ok Q s'"
proof -
  have "refs_ok Q (\<lambda>_. 0) s1 \<Longrightarrow> tab_ok (fs_tab s1 p) \<Longrightarrow> set is \<subseteq> {..<CONFIG_OPEN_MAX} \<Longrightarrow>
    \<exists>s'. each_slot (exec_slot m p) is s1 = Ok s' \<and> refs_ok Q (\<lambda>_. 0) s' \<and> tab_frame p s1 s'" for "is" s1
  proof (induction "is" arbitrary: s1)
    case Nil
    then show ?case by (simp add: tab_frame_def)
  next
    case (Cons i "is")
    then obtain s2 where s2: "exec_slot m p i s1 = Ok s2" "refs_ok Q (\<lambda>_. 0) s2" "tab_frame p s1 s2" "tab_ok (fs_tab s2 p)"
      using exec_slot_ok [OF Cons.prems(1) assms(2) Cons.prems(2), of i m] by auto
    have "set is \<subseteq> {..<CONFIG_OPEN_MAX}" using Cons.prems(3) by simp
    from Cons.IH [OF s2(2,4) this] obtain s3 where "each_slot (exec_slot m p) is s2 = Ok s3" "refs_ok Q (\<lambda>_. 0) s3" "tab_frame p s2 s3"
      by blast
    then show ?case using s2(1) tab_frame_trans [OF s2(3)] by simp
  qed
  moreover have "set [0..<ft_max_fd (fs_tab s p)] \<subseteq> {..<CONFIG_OPEN_MAX}" using fd_okD(2) [OF ok, of p] by (auto simp: tab_ok_def)
  ultimately obtain s' where "exec_fds m p s = Ok s'" "refs_ok Q (\<lambda>_. 0) s'" "tab_frame p s s'"
    unfolding exec_fds_def using fd_okD(1,2) [OF ok] by blast
  then show ?thesis using fd_okI [OF ok] by blast
qed

lemma run_fd_op_ok: "fd_ok Q s \<Longrightarrow> fd_op_enabled Q op s \<Longrightarrow> \<exists>r s'. run_fd_op op s = Ok (r, s') \<and> fd_ok Q s'"
proof (cases op)
  case (OpFork p c)
  assume "fd_ok Q s" "fd_op_enabled Q op s"
  then show ?thesis using fork_fds_ok [of Q s p c] OpFork by (auto simp: as_call_def)
next
  case (OpExec m p)
  assume "fd_ok Q s" "fd_op_enabled Q op s"
  then show ?thesis using exec_fds_ok [of Q s p m] OpExec by (auto simp: as_call_def)
qed (simp_all add: close_ok dup3_ok fcntl_ok openat_ok readv_ok dup_target_def)

lemma sample_fds_ok: "fd_ok {1, 2} sample_fds"
proof -
  let ?d = "\<lparr>fd_file = Some 100, fd_flags = 1\<rparr>"
  have pos: "0 < CONFIG_OPEN_MAX" "1 < CONFIG_OPEN_MAX" by (simp_all add: CONFIG_OPEN_MAX_def)
  have e: "length (filter (\<lambda>d. fd_file d = Some a) (replicate CONFIG_OPEN_MAX empty_filedesc)) = 0" for a
    by (simp add: empty_filedesc_def)
  have u: "length (filter (\<lambda>d. fd_file d = Some a) ((replicate CONFIG_OPEN_MAX empty_filedesc)[0 := ?d])) = (if a = 100 then 1 else 0)" for a
    using count_list_update [of 0 "replicate CONFIG_OPEN_MAX empty_filedesc" "\<lambda>d. fd_file d = Some a" ?d] e [of a] pos
    by (simp add: empty_filedesc_def)
  have tabs: "tab_refs (fs_tab sample_fds p) a = (if p = 1 \<and> a = 100 then 1 else 0)" for p a
    using u [of a] e [of a] by (cases "a = 100") (simp_all add: tab_refs_def sample_fds_def new_fdtab_def del: length_0_conv)
  have "file_ref sample_fds a = (\<Sum>p\<in>{1, 2}. int (tab_refs (fs_tab sample_fds p) a)) + 0" for a
    by (simp add: tabs file_ref_def) (simp add: sample_fds_def)
  moreover have "tab_ok (fs_tab sample_fds p) \<and> \<not> ft_lock (fs_tab sample_fds p)" for p
    using pos by (simp add: tab_ok_def sample_fds_def new_fdtab_def empty_filedesc_def)
  moreover have "fs_file sample_fds a = Some f \<longrightarrow> f_vnode f \<noteq> None \<and> f_num_ref f > 0 \<and> \<not> f_off_lock f" for a f
    by (auto simp: sample_fds_def)
  ultimately show ?thesis by (simp add: fd_ok_def refs_ok_def tabs)
qed

section \<open>Properties\<close>


text \<open>
  C29: Of all descriptor numbers exactly one makes the lookup and the closing of a descriptor leave
  the array of the process: \<open>CONFIG_OPEN_MAX\<close> itself, which the range check lets through. Every
  negative number and every larger one is rejected, and every smaller one is in range.
\<close>

theorem fd_range_check:
  assumes "fd_ok Q s" and "p \<in> Q"
  shows "(com_sys_proc_get_file p fd s = Panic \<longleftrightarrow> fd = int CONFIG_OPEN_MAX) \<and>
    (com_sys_proc_close_file p fd s = Panic \<longleftrightarrow> fd = int CONFIG_OPEN_MAX)"
proof -
  have len: "length (ft_fd (fs_tab s p)) = CONFIG_OPEN_MAX" using fd_okD(2) [OF assms(1), of p] by (simp add: tab_ok_def)
  have "com_sys_proc_get_file p fd s = Panic" "com_sys_proc_close_file p fd s = Panic" if "fd = int CONFIG_OPEN_MAX"
    using that len locked_state(1) [OF assms(1), of p]
    by (simp_all add: com_sys_proc_get_file_def com_sys_proc_get_file_nolock_def com_sys_proc_close_file_def
        com_sys_proc_close_file_nolock_def bad_fd_def fd_get_def)
  moreover have "com_sys_proc_get_file p fd s \<noteq> Panic" if "fd \<noteq> int CONFIG_OPEN_MAX"
    using get_file_ok [OF assms(1) that, of p] by auto
  moreover have "com_sys_proc_close_file p fd s \<noteq> Panic" if "fd \<noteq> int CONFIG_OPEN_MAX"
    using close_ok [OF assms that] by (auto simp: com_sys_syscall_close_def)
  ultimately show ?thesis by blast
qed

text \<open>
  C30: When one descriptor is left, a pipe gets it twice: the search for the next free descriptor
  starts over and finds the one just handed out, which is not in use yet. The call succeeds, both
  ends have the same number, the number stands for the write end, and the file object of the read
  end is lost.
\<close>

theorem pipe_takes_last_fd_twice:
  assumes t: "tab_ok (fs_tab s p)" "\<not> ft_lock (fs_tab s p)" and last: "free_slots (fs_tab s p) = {i}" and hint: "ft_next_fd (fs_tab s p) = i"
    and "ra \<noteq> wa" and fresh: "tab_refs (fs_tab s p) ra = 0"
  shows "\<exists>s' f. com_sys_syscall_pipe p rd wr ra wa s = Ok ((COM_SYS_SYSCALL_OK 0, Some (int i, int i)), s') \<and>
    fd_get p (int i) s' = Ok ((ft_fd (fs_tab s p) ! i)\<lparr>fd_file := Some wa\<rparr>) \<and> fs_file s' ra = Some f \<and> f_num_ref f = 1 \<and>
    tab_refs (fs_tab s' p) ra = 0"
proof -
  let ?t = "fs_tab s p" and ?T = "ft_fd (fs_tab s p)"
  let ?t1 = "proc_update_fd_hint (?t\<lparr>ft_next_fd := Suc i\<rparr>)"
  have i: "i < CONFIG_OPEN_MAX" "fd_file (?T ! i) = None" "length ?T = CONFIG_OPEN_MAX"
    using last t(1) by (auto simp: free_slots_def tab_ok_def)
  have only: "j = i" if "j < CONFIG_OPEN_MAX" "fd_file (?T ! j) = None" for j using last that by (auto simp: free_slots_def)
  have "\<not> free_from ?T (Suc i) < CONFIG_OPEN_MAX"
  proof
    assume lt: "free_from ?T (Suc i) < CONFIG_OPEN_MAX"
    have "free_from ?T (Suc i) = i" by (rule only [OF lt free_from_free [OF lt]])
    then show False using free_from_bounds [of "Suc i" ?T] i(1) by simp
  qed
  moreover have "free_from ?T 0 = i"
  proof -
    have lt: "free_from ?T 0 < CONFIG_OPEN_MAX" using free_from_le [OF _ i(1,2), of 0] i(1) by simp
    show ?thesis by (rule only [OF lt free_from_free [OF lt]])
  qed
  ultimately have t1: "ft_next_fd ?t1 = i" "ft_fd ?t1 = ?T" "ft_lock ?t1 = ft_lock ?t" by (simp_all add: proc_update_fd_hint_def Let_def)
  define s1 where "s1 = upd_tab p (\<lambda>_. ?t1) s"
  define s2 where "s2 = upd_tab p (\<lambda>_. proc_update_fd_hint (?t1\<lparr>ft_next_fd := Suc i\<rparr>)) s"
  have t_unlock: "x\<lparr>ft_lock := False\<rparr> = x" if "\<not> ft_lock x" for x :: fdtab using that by simp
  have lock_hint: "(proc_update_fd_hint (x\<lparr>ft_lock := True, ft_next_fd := n\<rparr>))\<lparr>ft_lock := False\<rparr> = proc_update_fd_hint (x\<lparr>ft_next_fd := n\<rparr>)"
    if "\<not> ft_lock x" for x n using that by (simp add: proc_update_fd_hint_def Let_def)
  have n1: "com_sys_proc_next_fd p s = Ok (int i, s1)"
    using t(2) hint i(1) lock_hint [OF t(2)] by (simp add: com_sys_proc_next_fd_def fd_lock_acquire_def fd_lock_release_def upd_tab_def s1_def)
  have n2: "com_sys_proc_next_fd p s1 = Ok (int i, s2)"
    using t(2) t1 i(1) lock_hint [of ?t1] by (simp add: com_sys_proc_next_fd_def fd_lock_acquire_def fd_lock_release_def upd_tab_def s1_def s2_def)
  have s2: "ft_fd (fs_tab s2 p) = ?T" by (simp add: s2_def)
  have cnt: "tab_refs (?t\<lparr>ft_fd := ?T[i := (?T ! i)\<lparr>fd_file := Some wa\<rparr>]\<rparr>) ra = 0"
    using fresh assms(5) count_list_update [of i ?T "\<lambda>d. fd_file d = Some ra" "(?T ! i)\<lparr>fd_file := Some wa\<rparr>"] i by (simp add: tab_refs_def)
  show ?thesis using n1 n2 i s2 assms(5) cnt
    by (simp add: com_sys_syscall_pipe_def install_file_def fd_get_def fd_put_def Let_def tab_refs_def)
qed

text \<open>
  A child process gets the parent's descriptors below the parent's bound, but its own bound
  stays zero. The loop of \<^verbatim>\<open>execve\<close> that closes the descriptors marked close-on-exec and the loop of
  \<^verbatim>\<open>exit\<close> that releases the files therefore do nothing in it.
\<close>

theorem fork_child_keeps_all_fds:
  assumes "fd_ok Q s" and "p \<in> Q" and "c \<in> Q" and "p \<noteq> c" and "fs_tab s c = new_fdtab"
  shows "\<exists>s'. fork_fds p c s = Ok s' \<and> exec_fds o_cloexec c s' = Ok s' \<and> exit_fds c s' = Ok s' \<and>
    (\<forall>i < CONFIG_OPEN_MAX. fd_file (ft_fd (fs_tab s' c) ! i) =
       (if i < ft_max_fd (fs_tab s p) then fd_file (ft_fd (fs_tab s p) ! i) else None))"
  using fork_fds_ok [OF assms] by (auto simp: exec_fds_def exit_fds_def fork_part_def)


section \<open>Witnesses\<close>


theorem fd_range_check_witness: "com_sys_proc_get_file 1 96 sample_fds = Panic"
  using fd_range_check [OF sample_fds_ok, of 1 96] by (simp add: CONFIG_OPEN_MAX_def)

theorem pipe_takes_last_fd_twice_witness:
  "\<exists>s'. com_sys_syscall_pipe 1 8 9 101 102 nearly_full = Ok ((COM_SYS_SYSCALL_OK 0, Some (95, 95)), s')"
proof -
  let ?d = "\<lparr>fd_file = Some 100, fd_flags = 0\<rparr>"
  have lt: "95 < CONFIG_OPEN_MAX" by (simp add: CONFIG_OPEN_MAX_def)
  have "tab_ok (fs_tab nearly_full 1)"
    using lt by (simp add: nearly_full_def tab_ok_def empty_filedesc_def new_fdtab_def)
  moreover have "free_slots (fs_tab nearly_full 1) = {95}"
    using lt by (auto simp: free_slots_def nearly_full_def nth_list_update empty_filedesc_def split: if_splits)
  moreover have "tab_refs (fs_tab nearly_full 1) 101 = 0"
    using count_list_update [of 95 "replicate CONFIG_OPEN_MAX ?d" "\<lambda>d. fd_file d = Some 101" empty_filedesc] lt
    by (simp add: tab_refs_def nearly_full_def empty_filedesc_def)
  moreover have "\<not> ft_lock (fs_tab nearly_full 1)" "ft_next_fd (fs_tab nearly_full 1) = 95" by (simp_all add: nearly_full_def new_fdtab_def)
  ultimately have "\<exists>s' f. com_sys_syscall_pipe 1 8 9 101 102 nearly_full = Ok ((COM_SYS_SYSCALL_OK 0, Some (int 95, int 95)), s') \<and>
    fd_get 1 (int 95) s' = Ok ((ft_fd (fs_tab nearly_full 1) ! 95)\<lparr>fd_file := Some 102\<rparr>) \<and> fs_file s' 101 = Some f \<and> f_num_ref f = 1 \<and>
    tab_refs (fs_tab s' 1) 101 = 0"
    by (intro pipe_takes_last_fd_twice) simp_all
  then show ?thesis by auto
qed

theorem fork_child_keeps_all_fds_witness:
  "\<exists>s'. fork_fds 1 2 sample_fds = Ok s' \<and> exec_fds 0 2 s' = Ok s' \<and> fd_file (ft_fd (fs_tab s' 2) ! 0) = Some 100"
proof -
  have new: "fs_tab sample_fds 2 = new_fdtab" by (simp add: sample_fds_def)
  have t: "ft_max_fd (fs_tab sample_fds 1) = 1" "fd_file (ft_fd (fs_tab sample_fds 1) ! 0) = Some 100"
    by (simp_all add: sample_fds_def) (simp add: CONFIG_OPEN_MAX_def)
  from fork_child_keeps_all_fds [OF sample_fds_ok _ _ _ new, of 1 0] obtain s' where
    s': "fork_fds 1 2 sample_fds = Ok s'" "exec_fds 0 2 s' = Ok s'"
      "\<forall>i < CONFIG_OPEN_MAX. fd_file (ft_fd (fs_tab s' 2) ! i) =
         (if i < ft_max_fd (fs_tab sample_fds 1) then fd_file (ft_fd (fs_tab sample_fds 1) ! i) else None)" by auto
  from s'(3) [rule_format, of 0] have "fd_file (ft_fd (fs_tab s' 2) ! 0) = Some 100" using t by (simp add: CONFIG_OPEN_MAX_def)
  then show ?thesis using s'(1,2) by blast
qed


end
