(* ===== verification/Tmpfs_File.thy ===== *)
theory Tmpfs_File
  imports Radixtree
begin

text \<open>
  The contents of files in the in-memory file system: the page cache of \<^verbatim>\<open>src/com/fs/pagecache.c\<close> and
  the reading, writing and truncating of \<^verbatim>\<open>src/com/fs/tmpfs.c\<close>. A file is its size and a radix tree
  from page numbers to pages; a page that is not in the tree reads as zeros. The contract is a
  file as a list of bytes. Each operation holds the reader-writer lock of the file from its first
  access to the pages to its last (the lock itself is the one of the theory of locks), so an
  operation here is one step.
\<close>

unbundle bit_operations_syntax

section \<open>Page cache\<close>

text \<open>
  The memory holds the bytes of every page and the pages the physical memory manager hands out
  next; it panics when there is none left. The pages of the tree itself come from the same place.
\<close>

record page_mem =
  pg_byte :: "nat \<Rightarrow> nat \<Rightarrow> u8"
  pg_free :: "nat list"

definition ARCH_PAGE_SIZE :: u64 where
  "ARCH_PAGE_SIZE = 4096"

definition com_fs_pagecache_get :: "nat kradixtree \<Rightarrow> u64 \<Rightarrow> nat option res" where
  "com_fs_pagecache_get root index =
     res_bind (kradixtree_get_nolock root index) (\<lambda>(e, v). Ok (if e \<noteq> EOK then None else v))"

definition com_fs_pagecache_default :: "nat kradixtree \<Rightarrow> u64 \<Rightarrow> page_mem \<Rightarrow> (nat \<times> nat kradixtree \<times> page_mem) res" where
  "com_fs_pagecache_default root index m =
     res_bind (com_fs_pagecache_get root index) (\<lambda>r.
       case r of
         Some page \<Rightarrow> Ok (page, root, m)
       | None \<Rightarrow>
           (case pg_free m of
              [] \<Rightarrow> Panic
            | page # fr \<Rightarrow>
                res_bind (kradixtree_put_nolock (length fr) root index (Some page)) (\<lambda>(_, root', left).
                  Ok (page, root', m\<lparr>pg_byte := (pg_byte m)(page := (\<lambda>_. 0)), pg_free := drop (length fr - left) fr\<rparr>))))"

definition com_fs_pagecache_new :: "page_mem \<Rightarrow> (nat kradixtree \<times> page_mem) res" where
  "com_fs_pagecache_new m =
     res_bind (kradixtree_new (length (pg_free m)) 4) (\<lambda>(root, left).
       Ok (root, m\<lparr>pg_free := drop (length (pg_free m) - left) (pg_free m)\<rparr>))"

section \<open>Files\<close>

record tmpfs_file =
  tf_size :: u64
  tf_data :: "nat kradixtree"

text \<open>The end of the piece that starts at \<open>cur\<close>: the end of its page or of the range.\<close>

definition piece_end :: "u64 \<Rightarrow> u64 \<Rightarrow> u64" where
  "piece_end cur lim =
     (let page_base = cur AND NOT (ARCH_PAGE_SIZE - 1); e = page_base + ARCH_PAGE_SIZE
      in if e > lim then lim else e)"

text \<open>The loops; they need not end when the end of a page wraps around.\<close>

partial_function (option) read_pieces ::
  "nat kradixtree \<Rightarrow> page_mem \<Rightarrow> u64 \<Rightarrow> u64 \<Rightarrow> u64 \<Rightarrow> u8 list \<Rightarrow> (u64 \<times> u8 list) res option" where
  "read_pieces root m lim cur count buf =
     (if cur < lim
      then (case com_fs_pagecache_get root (cur div ARCH_PAGE_SIZE) of
              Panic \<Rightarrow> Some Panic
            | Blocked \<Rightarrow> Some Blocked
            | Ok r \<Rightarrow>
                let e = piece_end cur lim; n = unat (e - cur);
                    bytes = (case r of None \<Rightarrow> replicate n 0
                             | Some page \<Rightarrow> map (pg_byte m page) [unat (cur mod ARCH_PAGE_SIZE)..<unat (cur mod ARCH_PAGE_SIZE) + n])
                in read_pieces root m lim e (count + (e - cur)) (buf @ bytes))
      else Some (Ok (count, buf)))"

definition com_fs_tmpfs_read :: "bool \<Rightarrow> tmpfs_file \<Rightarrow> page_mem \<Rightarrow> u64 \<Rightarrow> u64 \<Rightarrow> (errno \<times> u64 \<times> u8 list) res option" where
  "com_fs_tmpfs_read is_dir f m buflen off =
     (if is_dir then Some (Ok (EISDIR, 0, []))
      else if off \<ge> tf_size f then Some (Ok (EOK, 0, []))
      else let len = (if off + buflen \<ge> tf_size f then (if tf_size f > off then tf_size f - off else 0) else buflen)
           in if len = 0 then Some (Ok (EOK, 0, []))
              else Option.bind (read_pieces (tf_data f) m (off + len) off 0 [])
                (\<lambda>r. Some (res_bind r (\<lambda>(count, buf). Ok (EOK, count, buf)))))"

text \<open>Copying into a page.\<close>

definition page_store :: "nat \<Rightarrow> nat \<Rightarrow> u8 list \<Rightarrow> page_mem \<Rightarrow> page_mem" where
  "page_store page i bytes m =
     m\<lparr>pg_byte := (pg_byte m)(page := (\<lambda>j. if i \<le> j \<and> j < i + length bytes then bytes ! (j - i) else pg_byte m page j))\<rparr>"

partial_function (option) write_pieces ::
  "nat kradixtree \<Rightarrow> page_mem \<Rightarrow> u64 \<Rightarrow> u64 \<Rightarrow> u8 list \<Rightarrow> u64 \<Rightarrow> (u64 \<times> nat kradixtree \<times> page_mem) res option" where
  "write_pieces root m lim cur buf count =
     (if cur < lim
      then (case com_fs_pagecache_default root (cur div ARCH_PAGE_SIZE) m of
              Panic \<Rightarrow> Some Panic
            | Blocked \<Rightarrow> Some Blocked
            | Ok (page, root', m') \<Rightarrow>
                let e = piece_end cur lim; n = unat (e - cur)
                in write_pieces root' (page_store page (unat (cur mod ARCH_PAGE_SIZE)) (take n buf) m') lim e (drop n buf) (count + (e - cur)))
      else Some (Ok (count, root, m)))"

text \<open>\<open>buf\<close> are the bytes to write; a write of nothing leaves the caller's counter alone.\<close>

definition com_fs_tmpfs_write ::
  "bool \<Rightarrow> tmpfs_file \<Rightarrow> page_mem \<Rightarrow> u8 list \<Rightarrow> u64 \<Rightarrow> (errno \<times> u64 option \<times> tmpfs_file \<times> page_mem) res option" where
  "com_fs_tmpfs_write is_dir f m buf off =
     (let buflen = of_nat (length buf) in
      if is_dir then Some (Ok (EISDIR, None, f, m))
      else if buflen = 0 then Some (Ok (EOK, None, f, m))
      else let f1 = (if off + buflen > tf_size f then f\<lparr>tf_size := off + buflen\<rparr> else f)
           in Option.bind (write_pieces (tf_data f1) m (off + buflen) off buf 0)
             (\<lambda>r. Some (res_bind r (\<lambda>(count, root, m'). Ok (EOK, Some count, f1\<lparr>tf_data := root\<rparr>, m')))))"

definition com_fs_tmpfs_truncate :: "bool \<Rightarrow> tmpfs_file \<Rightarrow> u64 \<Rightarrow> errno \<times> tmpfs_file" where
  "com_fs_tmpfs_truncate is_dir f sz = (if is_dir then (EISDIR, f) else (EOK, f\<lparr>tf_size := sz\<rparr>))"

text \<open>A file as \<^verbatim>\<open>com_fs_tmpfs_create\<close> makes it.\<close>

definition new_tmpfs_file :: "page_mem \<Rightarrow> (tmpfs_file \<times> page_mem) res" where
  "new_tmpfs_file m = res_bind (com_fs_pagecache_new m) (\<lambda>(root, m'). Ok (\<lparr>tf_size = 0, tf_data = root\<rparr>, m'))"

section \<open>The contract\<close>

text \<open>A file is a list of bytes; writing beyond its end fills the gap with zeros.\<close>

definition spec_write :: "u8 list \<Rightarrow> nat \<Rightarrow> u8 list \<Rightarrow> u8 list" where
  "spec_write c off buf =
     (if buf = [] then c
      else take off (c @ replicate (off - length c) 0) @ buf @ drop (off + length buf) c)"

definition spec_read :: "u8 list \<Rightarrow> nat \<Rightarrow> nat \<Rightarrow> u8 list" where
  "spec_read c off len = take len (drop off c)"

definition page_byte :: "nat kradixtree \<Rightarrow> page_mem \<Rightarrow> nat \<Rightarrow> u8" where
  "page_byte root m i =
     (case rt_lookup root (of_nat (i div 4096)) of None \<Rightarrow> 0 | Some p \<Rightarrow> pg_byte m p (i mod 4096))"

definition file_contents :: "tmpfs_file \<Rightarrow> page_mem \<Rightarrow> u8 list" where
  "file_contents f m = map (page_byte (tf_data f) m) [0..<unat (tf_size f)]"

text \<open>The offsets that the four layers of the tree tell apart.\<close>

definition file_limit :: nat where
  "file_limit = 2 ^ 48"

definition pages_ok :: "nat kradixtree \<Rightarrow> page_mem \<Rightarrow> bool" where
  "pages_ok root m \<longleftrightarrow> rt_ok 4 root \<and> distinct (pg_free m) \<and>
     (\<forall>k k' p. rt_key 4 k \<and> rt_key 4 k' \<and> rt_lookup root k = Some p \<and> rt_lookup root k' = Some p \<longrightarrow> k = k') \<and>
     (\<forall>k p. rt_key 4 k \<and> rt_lookup root k = Some p \<longrightarrow> p \<notin> set (pg_free m))"

text \<open>A clean file has zeros behind its end.\<close>

definition file_ok :: "tmpfs_file \<Rightarrow> page_mem \<Rightarrow> bool" where
  "file_ok f m \<longleftrightarrow> pages_ok (tf_data f) m \<and> unat (tf_size f) \<le> file_limit \<and>
     (\<forall>i. unat (tf_size f) \<le> i \<and> i < file_limit \<longrightarrow> page_byte (tf_data f) m i = 0)"

text \<open>The pages a write may need: for each page it touches, the page and three inner pages.\<close>

definition write_need :: "nat \<Rightarrow> nat" where
  "write_need n = 4 * (n div 4096 + 2)"

text \<open>What an operation on the file at \<open>root\<close> leaves alone: every page that is neither its own nor free.\<close>

definition pages_frame :: "nat kradixtree \<Rightarrow> page_mem \<Rightarrow> page_mem \<Rightarrow> bool" where
  "pages_frame root m m' \<longleftrightarrow> set (pg_free m') \<subseteq> set (pg_free m) \<and>
     (\<forall>p. p \<notin> set (pg_free m) \<and> (\<forall>k. rt_key 4 k \<longrightarrow> rt_lookup root k \<noteq> Some p) \<longrightarrow> pg_byte m' p = pg_byte m p)"

text \<open>The number of pages that the bytes from \<open>a\<close> up to \<open>b\<close> touch.\<close>

definition span :: "nat \<Rightarrow> nat \<Rightarrow> nat" where
  "span a b = (if a < b then (b - 1) div 4096 - a div 4096 + 1 else 0)"

text \<open>A tree only ever gains pages that were free.\<close>

definition tree_grows :: "nat kradixtree \<Rightarrow> page_mem \<Rightarrow> nat kradixtree \<Rightarrow> bool" where
  "tree_grows root m root' \<longleftrightarrow> (\<forall>k. rt_key 4 k \<longrightarrow> (\<forall>p. rt_lookup root' k = Some p \<longrightarrow> rt_lookup root k = Some p \<or> p \<in> set (pg_free m)))"

text \<open>
  Several files over one memory, and a sequence of operations on them: creating a file, which
  gets the next number, and writing bytes at an offset of a file.
\<close>

datatype file_op = Create | Write_At nat u64 "u8 list"

fun file_step :: "tmpfs_file list \<Rightarrow> page_mem \<Rightarrow> file_op \<Rightarrow> (tmpfs_file list \<times> page_mem) option" where
  "file_step fs m Create = (case new_tmpfs_file m of Ok (f, m') \<Rightarrow> Some (fs @ [f], m') | _ \<Rightarrow> None)"
| "file_step fs m (Write_At i off buf) =
     (case com_fs_tmpfs_write False (fs ! i) m buf off of
        Some (Ok (EOK, _, f', m')) \<Rightarrow> Some (fs[i := f'], m')
      | _ \<Rightarrow> None)"

fun run_files :: "tmpfs_file list \<Rightarrow> page_mem \<Rightarrow> file_op list \<Rightarrow> (tmpfs_file list \<times> page_mem) option" where
  "run_files fs m [] = Some (fs, m)"
| "run_files fs m (a # as) = Option.bind (file_step fs m a) (\<lambda>(fs', m'). run_files fs' m' as)"

fun spec_step :: "u8 list list \<Rightarrow> file_op \<Rightarrow> u8 list list" where
  "spec_step cs Create = cs @ [[]]"
| "spec_step cs (Write_At i off buf) = cs[i := spec_write (cs ! i) (unat off) buf]"

text \<open>An operation is on an existing file and within the limit.\<close>

fun step_fits :: "u8 list list \<Rightarrow> file_op \<Rightarrow> bool" where
  "step_fits cs Create = True"
| "step_fits cs (Write_At i off buf) = (i < length cs \<and> unat off + length buf \<le> file_limit)"

fun ops_fit :: "u8 list list \<Rightarrow> file_op list \<Rightarrow> bool" where
  "ops_fit cs [] = True"
| "ops_fit cs (a # as) = (step_fits cs a \<and> ops_fit (spec_step cs a) as)"

fun step_need :: "file_op \<Rightarrow> nat" where
  "step_need Create = 1"
| "step_need (Write_At i off buf) = write_need (length buf)"

definition ops_need :: "file_op list \<Rightarrow> nat" where
  "ops_need as = sum_list (map step_need as)"

text \<open>No page belongs to two files.\<close>

definition files_ok :: "tmpfs_file list \<Rightarrow> page_mem \<Rightarrow> bool" where
  "files_ok fs m \<longleftrightarrow> distinct (pg_free m) \<and> (\<forall>i < length fs. file_ok (fs ! i) m) \<and>
     (\<forall>i j k k' p. i < length fs \<and> j < length fs \<and> i \<noteq> j \<and> rt_key 4 k \<and> rt_key 4 k' \<and>
        rt_lookup (tf_data (fs ! i)) k = Some p \<longrightarrow> rt_lookup (tf_data (fs ! j)) k' \<noteq> Some p)"

section \<open>Page numbers\<close>

lemma unat_take_bit12: "unat (take_bit 12 (x :: u64)) = unat x mod 4096"
  by (simp add: take_bit_eq_mod unat_mod)

lemma page_base: "unat ((x :: u64) AND NOT (ARCH_PAGE_SIZE - 1)) = unat x div 4096 * 4096"
proof -
  have m: "ARCH_PAGE_SIZE - 1 = mask 12" by (simp add: ARCH_PAGE_SIZE_def mask_eq_exp_minus_1)
  have "x - take_bit 12 x = x AND NOT (take_bit 12 x)" by (rule disjunctive_diff) (simp add: bit_take_bit_iff)
  also have "\<dots> = x AND NOT (mask 12)" by (rule bit_eqI) (auto simp: bit_and_iff bit_not_iff bit_take_bit_iff bit_mask_iff)
  finally have "x AND NOT (ARCH_PAGE_SIZE - 1) = x - take_bit 12 x" by (simp add: m)
  moreover have "take_bit 12 x \<le> x" by (simp add: word_le_nat_alt unat_take_bit12)
  ultimately have "unat (x AND NOT (ARCH_PAGE_SIZE - 1)) = unat x - unat x mod 4096" by (simp add: unat_sub unat_take_bit12)
  then show ?thesis by (simp add: minus_mod_eq_div_mult)
qed

lemma piece_end_unat:
  assumes "cur < lim" and "unat lim \<le> file_limit"
  shows "unat (piece_end cur lim) = min (unat lim) (unat cur div 4096 * 4096 + 4096)"
proof -
  let ?b = "unat cur div 4096 * 4096"
  have lt: "unat cur < unat lim" using assms(1) by (simp add: word_less_nat_alt)
  have "?b + 4096 \<le> file_limit + 4096" using lt assms(2) div_times_less_eq_dividend [of "unat cur" 4096] by linarith
  then have "unat (cur AND NOT (ARCH_PAGE_SIZE - 1)) + unat ARCH_PAGE_SIZE < 2 ^ 64"
    unfolding page_base by (simp add: file_limit_def) (simp add: ARCH_PAGE_SIZE_def)
  then have "unat ((cur AND NOT (ARCH_PAGE_SIZE - 1)) + ARCH_PAGE_SIZE) = ?b + 4096"
    by (subst unat_add_no_wrap) (simp_all only: page_base, simp add: ARCH_PAGE_SIZE_def)
  then show ?thesis by (simp add: piece_end_def Let_def word_less_nat_alt min_def)
qed

lemma piece_end_bounds:
  assumes "cur < lim" and "unat lim \<le> file_limit"
  shows "cur < piece_end cur lim" and "piece_end cur lim \<le> lim"
    and "unat (piece_end cur lim) \<le> unat cur div 4096 * 4096 + 4096" and "unat (piece_end cur lim - cur) = unat (piece_end cur lim) - unat cur"
proof -
  note e = piece_end_unat [OF assms]
  have "unat cur < unat cur div 4096 * 4096 + 4096" using mod_less_divisor [of 4096 "unat cur"] div_mult_mod_eq [of "unat cur" 4096] by linarith
  then show lt: "cur < piece_end cur lim" using e assms(1) by (simp add: word_less_nat_alt)
  show "piece_end cur lim \<le> lim" "unat (piece_end cur lim) \<le> unat cur div 4096 * 4096 + 4096"
    using e by (simp_all add: word_le_nat_alt)
  show "unat (piece_end cur lim - cur) = unat (piece_end cur lim) - unat cur" using lt by (simp add: unat_sub)
qed

lemma piece_index:
  assumes "a \<le> i" and "i < a div 4096 * 4096 + (4096 :: nat)"
  shows "i div 4096 = a div 4096" and "i mod 4096 = a mod 4096 + (i - a)"
proof -
  have "a div 4096 * 4096 \<le> i" using assms(1) div_times_less_eq_dividend [of a 4096] by linarith
  then show d: "i div 4096 = a div 4096" using assms by (simp add: div_nat_eqI)
  show "i mod 4096 = a mod 4096 + (i - a)" using d assms(1) div_mult_mod_eq [of a 4096] div_mult_mod_eq [of i 4096] by linarith
qed

lemma page_key:
  assumes "i < file_limit"
  shows "rt_key 4 (of_nat (i div 4096))" and "unat (of_nat (i div 4096) :: u64) = i div 4096"
proof -
  have lt: "i div 4096 < 2 ^ 36" using assms by (simp add: file_limit_def less_mult_imp_div_less)
  then show u: "unat (of_nat (i div 4096) :: u64) = i div 4096" by (simp add: unat_of_nat64)
  show "rt_key 4 (of_nat (i div 4096))" using lt by (simp add: rt_key_def u KRADIXTREE_INDEX_BITS_def)
qed

lemma page_number: "unat cur < file_limit \<Longrightarrow> cur div ARCH_PAGE_SIZE = of_nat (unat cur div 4096)"
  by (simp add: word_unat_eq_iff unat_div page_key ARCH_PAGE_SIZE_def)

lemma page_offset: "unat (cur mod ARCH_PAGE_SIZE) = unat cur mod 4096"
  by (simp add: unat_mod ARCH_PAGE_SIZE_def)

section \<open>Reading\<close>

lemma pagecache_get_eq: "rt_ok 4 root \<Longrightarrow> com_fs_pagecache_get root k = Ok (rt_lookup root k)"
  using get_walk_eq [OF rt_ok_page [of 4 root], of k]
  by (simp add: com_fs_pagecache_get_def kradixtree_get_nolock_def rt_lookup_def rt_ok_def split: option.splits)

text \<open>The bytes of one piece.\<close>

lemma piece_bytes:
  assumes "cur < lim" and "unat lim \<le> file_limit"
  shows "(case rt_lookup root (cur div ARCH_PAGE_SIZE) of
      None \<Rightarrow> replicate (unat (piece_end cur lim - cur)) 0
    | Some page \<Rightarrow> map (pg_byte m page) [unat (cur mod ARCH_PAGE_SIZE)..<unat (cur mod ARCH_PAGE_SIZE) + unat (piece_end cur lim - cur)]) =
    map (page_byte root m) [unat cur..<unat (piece_end cur lim)]"
proof -
  note B = piece_end_bounds [OF assms]
  let ?n = "unat (piece_end cur lim - cur)"
  have cur: "unat cur < file_limit" using assms by (simp add: word_less_nat_alt)
  have len: "unat (piece_end cur lim) = unat cur + ?n" using B(1,4) by (simp add: word_less_nat_alt)
  have byte: "page_byte root m (unat cur + j) =
      (case rt_lookup root (cur div ARCH_PAGE_SIZE) of None \<Rightarrow> 0 | Some p \<Rightarrow> pg_byte m p (unat (cur mod ARCH_PAGE_SIZE) + j))" if "j < ?n" for j
  proof -
    have "unat cur + j < unat cur div 4096 * 4096 + 4096" using that B(3) len by linarith
    note I = piece_index [OF le_add1 this]
    show ?thesis by (simp only: page_byte_def I page_number [OF cur] page_offset add_diff_cancel_left')
  qed
  show ?thesis
    by (rule nth_equalityI) (use len byte in \<open>auto split: option.splits simp: nth_append\<close>)
qed

lemma read_pieces_reads:
  assumes "rt_ok 4 root" and "unat lim \<le> file_limit"
  shows "cur \<le> lim \<Longrightarrow> read_pieces root m lim cur count buf =
    Some (Ok (count + (lim - cur), buf @ map (page_byte root m) [unat cur..<unat lim]))"
proof (induction "unat lim - unat cur" arbitrary: cur count buf rule: less_induct)
  case less
  show ?case
  proof (cases "cur < lim")
    case False
    then show ?thesis using less.prems by (simp add: read_pieces.simps)
  next
    case True
    note B = piece_end_bounds [OF True assms(2)]
    let ?e = "piece_end cur lim"
    have lt: "unat lim - unat ?e < unat lim - unat cur" using B(1,2) by (simp add: word_less_nat_alt word_le_nat_alt)
    have "read_pieces root m lim cur count buf = read_pieces root m lim ?e (count + (?e - cur)) (buf @ map (page_byte root m) [unat cur..<unat ?e])"
      by (subst read_pieces.simps) (simp add: True pagecache_get_eq [OF assms(1)] Let_def piece_bytes [OF True assms(2)])
    moreover have "\<dots> = Some (Ok (count + (?e - cur) + (lim - ?e), (buf @ map (page_byte root m) [unat cur..<unat ?e]) @ map (page_byte root m) [unat ?e..<unat lim]))"
      by (rule less.hyps [OF lt B(2)])
    moreover have "[unat cur..<unat ?e] @ [unat ?e..<unat lim] = [unat cur..<unat lim]"
      using B(1,2) by (metis upt_add_eq_append le_add_diff_inverse less_imp_le word_le_nat_alt)
    then have "map (page_byte root m) [unat cur..<unat ?e] @ map (page_byte root m) [unat ?e..<unat lim] = map (page_byte root m) [unat cur..<unat lim]"
      by (metis map_append)
    ultimately show ?thesis by simp
  qed
qed

section \<open>Writing\<close>

lemma put_walk_free: "put_walk free p is d = Ok (p', free') \<Longrightarrow> free' \<le> free \<and> free \<le> free' + (length is - 1)"
proof (induction free p "is" d arbitrary: p' free' rule: put_walk.induct)
  case (3 free root i i' "is" data)
  show ?case
  proof (cases "root i")
    case Null
    then obtain tmp where "0 < free" "put_walk (free - 1) zero_page (i' # is) data = Ok (tmp, free')"
      using "3.prems" by (auto simp: kassert_def res_bind_eq_Ok split: if_splits)
    then show ?thesis using "3.IH"(1) [OF Null] by fastforce
  next
    case (Branch q)
    then obtain tmp where "put_walk free q (i' # is) data = Ok (tmp, free')"
      using "3.prems" by (auto simp: res_bind_eq_Ok)
    then show ?thesis using "3.IH"(2) [OF Branch] by fastforce
  qed (use "3.prems" in simp)
qed (auto simp: kassert_def split: if_splits)

lemma pages_okD:
  assumes "pages_ok root m"
  shows "rt_ok 4 root" "distinct (pg_free m)"
    and "rt_key 4 k \<Longrightarrow> rt_key 4 k' \<Longrightarrow> rt_lookup root k = Some p \<Longrightarrow> rt_lookup root k' = Some p \<Longrightarrow> k = k'"
    and "rt_key 4 k \<Longrightarrow> rt_lookup root k = Some p \<Longrightarrow> p \<notin> set (pg_free m)"
  using assms unfolding pages_ok_def by blast+

lemma put_nolock_absent:
  assumes "rt_ok 4 root" and "rt_key 4 k" and "rt_lookup root k = None" and "3 \<le> free"
  shows "\<exists>root' left. kradixtree_put_nolock free root k (Some page) = Ok (EOK, root', left) \<and> rt_ok 4 root' \<and> left \<le> free \<and> free \<le> left + 3 \<and>
    (\<forall>k'. rt_key 4 k' \<longrightarrow> rt_lookup root' k' = (if k' = k then Some page else rt_lookup root k'))"
proof -
  have n: "rt_num_layers root = 4" using assms(1) by (simp add: rt_ok_def)
  have len: "length (split_index j 4) = 4" for j by (simp add: split_index_def)
  have inj: "split_index k' 4 = split_index k 4 \<longleftrightarrow> k' = k" if "rt_key 4 k'" for k' using split_index_inj [OF that assms(2)] by blast
  have "unat (4 :: u64) \<le> Suc free" using assms(4) by simp
  then obtain t' left where put: "kradixtree_put free root k (Some page) = Ok (EOK, t', left)" "rt_ok 4 t'"
      "\<forall>k'. split_index k' 4 = split_index k 4 \<longrightarrow> rt_lookup t' k' = Some page"
      "\<forall>k'. split_index k' 4 \<noteq> split_index k 4 \<longrightarrow> rt_lookup t' k' = rt_lookup root k'"
    using kradixtree_put_absent [OF assms(1,3), of free page] by blast
  have unl: "\<not> rt_lock root" "root\<lparr>rt_lock := True, rt_lock := False\<rparr> = root" using assms(1) by (simp_all add: rt_ok_def)
  obtain bk where w: "put_walk free (rt_back root) (split_index k 4) (Some page) = Ok (bk, left)" "t' = root\<lparr>rt_back := bk\<rparr>"
    using put(1) unl(1) n by (auto simp: kradixtree_put_def kradixtree_put_nolock_def res_bind_eq_Ok)
  have "left \<le> free \<and> free \<le> left + 3" using put_walk_free [OF w(1)] by (simp add: len)
  moreover have "kradixtree_put_nolock free root k (Some page) = Ok (EOK, t', left)" using w n by (simp add: kradixtree_put_nolock_def)
  ultimately show ?thesis using put(2-4) inj by auto
qed

lemma pagecache_default_ok:
  assumes ok: "pages_ok root m" and key: "rt_key 4 k" and free: "4 \<le> length (pg_free m)"
  shows "\<exists>page root' m'. com_fs_pagecache_default root k m = Ok (page, root', m') \<and> pages_ok root' m' \<and> rt_lookup root' k = Some page \<and>
    (\<forall>i < file_limit. page_byte root' m' i = page_byte root m i) \<and> length (pg_free m) \<le> length (pg_free m') + 4 \<and>
    pages_frame root m m' \<and> tree_grows root m root'"
proof (cases "rt_lookup root k")
  case (Some page)
  then show ?thesis using ok
    by (intro exI [of _ page] exI [of _ root] exI [of _ m]) (simp add: com_fs_pagecache_default_def pagecache_get_eq [OF pages_okD(1) [OF ok]] pages_frame_def tree_grows_def)
next
  case None
  note P = pages_okD [OF ok]
  obtain page fr where fr: "pg_free m = page # fr" using free by (cases "pg_free m") auto
  then have "3 \<le> length fr" using free by simp
  then obtain root' left where r: "kradixtree_put_nolock (length fr) root k (Some page) = Ok (EOK, root', left)" "rt_ok 4 root'"
      "left \<le> length fr" "length fr \<le> left + 3" "\<forall>k'. rt_key 4 k' \<longrightarrow> rt_lookup root' k' = (if k' = k then Some page else rt_lookup root k')"
    using put_nolock_absent [OF P(1) key None] by blast
  let ?m = "m\<lparr>pg_byte := (pg_byte m)(page := (\<lambda>_. 0)), pg_free := drop (length fr - left) fr\<rparr>"
  have sub: "set (pg_free ?m) \<subseteq> set fr" by (simp add: set_drop_subset)
  have dist: "distinct fr" "page \<notin> set fr" using P(2) fr by simp_all
  have own: "rt_lookup root k' = Some p \<Longrightarrow> rt_key 4 k' \<Longrightarrow> p \<noteq> page \<and> p \<notin> set fr" for k' p using P(4) fr by fastforce
  have look: "k' = k \<and> p = page \<or> rt_lookup root k' = Some p" if "rt_lookup root' k' = Some p" "rt_key 4 k'" for k' p
    using r(5) [rule_format, OF that(2)] that(1) by (cases "k' = k") simp_all
  have "pages_ok root' ?m"
    unfolding pages_ok_def
  proof (intro conjI allI impI)
    fix k1 k2 p
    assume a: "rt_key 4 k1 \<and> rt_key 4 k2 \<and> rt_lookup root' k1 = Some p \<and> rt_lookup root' k2 = Some p"
    show "k1 = k2"
    proof (cases "p = page")
      case True
      then have "k1 = k" "k2 = k" using a look [of k1 p] look [of k2 p] own by metis+
      then show ?thesis by simp
    next
      case False
      then show ?thesis using a look [of k1 p] look [of k2 p] P(3) [of k1 k2 p] by blast
    qed
  next
    fix k' p
    assume "rt_key 4 k' \<and> rt_lookup root' k' = Some p"
    then have "p = page \<or> p \<notin> set fr" using look [of k' p] own [of k' p] by blast
    then show "p \<notin> set (pg_free ?m)" using sub dist(2) by blast
  qed (use r(2) dist in \<open>simp_all add: distinct_drop\<close>)
  moreover have "page_byte root' ?m i = page_byte root m i" if "i < file_limit" for i
    using r(5) page_key(1) [OF that] None own [of "of_nat (i div 4096)"] by (auto simp: page_byte_def split: option.splits)
  moreover have "pages_frame root m ?m" using sub fr by (auto simp: pages_frame_def)
  moreover have "length (pg_free m) \<le> length (pg_free ?m) + 4" using fr r(3,4) by simp
  moreover have "com_fs_pagecache_default root k m = Ok (page, root', ?m)"
    using None fr r(1) by (simp add: com_fs_pagecache_default_def pagecache_get_eq [OF P(1)])
  moreover have "tree_grows root m root'"
    using r(5) fr by (auto simp: tree_grows_def split: if_splits)
  moreover have "rt_lookup root' k = Some page" using r(5) key by simp
  ultimately show ?thesis by blast
qed

lemma page_store_byte:
  assumes ok: "pages_ok root m" and key: "rt_key 4 k" and page: "rt_lookup root k = Some page" and i: "i < file_limit"
  shows "page_byte root (page_store page o' bytes m) i =
    (if i div 4096 = unat k \<and> o' \<le> i mod 4096 \<and> i mod 4096 < o' + length bytes then bytes ! (i mod 4096 - o') else page_byte root m i)"
proof (cases "i div 4096 = unat k")
  case True
  then have "of_nat (i div 4096) = k" by simp
  then show ?thesis using True page by (simp add: page_byte_def page_store_def)
next
  case False
  note K = page_key [OF i]
  have "rt_lookup root (of_nat (i div 4096)) \<noteq> Some page" using pages_okD(3) [OF ok K(1) key _ page] K(2) False by auto
  then show ?thesis using False by (auto simp: page_byte_def page_store_def split: option.splits)
qed

lemma page_store_ok:
  assumes "pages_ok root m"
  shows "pages_ok root (page_store page i bytes m)"
  using assms by (simp add: pages_ok_def page_store_def)

lemma span_step:
  assumes "a < b" and "e = min b (a div 4096 * 4096 + 4096)"
  shows "span a b = Suc (span e b)"
proof (cases "b \<le> a div 4096 * 4096 + 4096")
  case True
  then have "(b - 1) div 4096 = a div 4096" using assms(1) by (intro piece_index(1)) auto
  then show ?thesis using True assms by (simp add: span_def)
next
  case False
  then have e: "e = (a div 4096 + 1) * 4096" using assms(2) by simp
  then have "e div 4096 = a div 4096 + 1" by simp
  moreover have "e \<le> b - 1" using False e by simp
  then have "e div 4096 \<le> (b - 1) div 4096" by (rule div_le_mono)
  ultimately have d: "e div 4096 = a div 4096 + 1" "a div 4096 + 1 \<le> (b - 1) div 4096" by linarith+
  have "e < b" using False e by simp
  then have "span e b = (b - 1) div 4096 - (a div 4096 + 1) + 1" using d(1) by (simp add: span_def)
  moreover have "span a b = (b - 1) div 4096 - a div 4096 + 1" using assms(1) by (simp add: span_def)
  moreover have "X - A + 1 = Suc (X - (A + 1) + 1)" if "A + 1 \<le> X" for X A :: nat using that by simp
  ultimately show ?thesis using d(2) by (simp only:)
qed

lemma pages_frame_step:
  assumes "pages_frame root m m1" and "tree_grows root m root1" and "rt_key 4 k" and "rt_lookup root1 k = Some page"
    and "pages_frame root1 (page_store page i bytes m1) m2"
  shows "pages_frame root m m2"
proof -
  have sub: "set (pg_free m1) \<subseteq> set (pg_free m)" "set (pg_free m2) \<subseteq> set (pg_free m1)"
    using assms(1,5) by (simp_all add: pages_frame_def page_store_def)
  have "pg_byte m2 p = pg_byte m p" if p: "p \<notin> set (pg_free m)" "\<forall>k. rt_key 4 k \<longrightarrow> rt_lookup root k \<noteq> Some p" for p
  proof -
    have r: "\<forall>k. rt_key 4 k \<longrightarrow> rt_lookup root1 k \<noteq> Some p" using assms(2) p unfolding tree_grows_def by blast
    have "p \<noteq> page" using r assms(3,4) by blast
    moreover have "pg_byte m2 p = pg_byte (page_store page i bytes m1) p"
      using assms(5) r p(1) sub(1) unfolding pages_frame_def by (auto simp: page_store_def)
    ultimately show ?thesis using assms(1) p unfolding pages_frame_def by (simp add: page_store_def)
  qed
  then show ?thesis using sub unfolding pages_frame_def by blast
qed

lemma tree_grows_step:
  assumes "pages_frame root m m1" and "tree_grows root m root1" and "tree_grows root1 (page_store page i bytes m1) root2"
  shows "tree_grows root m root2"
proof -
  have "set (pg_free m1) \<subseteq> set (pg_free m)" using assms(1) by (simp add: pages_frame_def)
  then show ?thesis using assms(2,3) unfolding tree_grows_def page_store_def by simp blast
qed

text \<open>One piece of a write.\<close>

lemma piece_store:
  assumes "cur < lim" and "unat lim \<le> file_limit" and "pages_ok root m" and "rt_lookup root (cur div ARCH_PAGE_SIZE) = Some page"
    and "unat (piece_end cur lim - cur) \<le> length buf" and i: "i < file_limit"
  shows "page_byte root (page_store page (unat (cur mod ARCH_PAGE_SIZE)) (take (unat (piece_end cur lim - cur)) buf) m) i =
    (if unat cur \<le> i \<and> i < unat (piece_end cur lim) then buf ! (i - unat cur) else page_byte root m i)"
proof -
  note B = piece_end_bounds [OF assms(1,2)]
  have cur: "unat cur < file_limit" using assms(1,2) by (simp add: word_less_nat_alt)
  note N = page_number [OF cur] and K = page_key [OF cur]
  let ?n = "unat (piece_end cur lim - cur)" and ?o = "unat cur mod 4096"
  have e: "unat (piece_end cur lim) = unat cur + ?n" using B(1,4) by (simp add: word_less_nat_alt)
  have iff: "i div 4096 = unat cur div 4096 \<and> ?o \<le> i mod 4096 \<and> i mod 4096 < ?o + ?n \<longleftrightarrow> unat cur \<le> i \<and> i < unat cur + ?n"
  proof
    assume a: "i div 4096 = unat cur div 4096 \<and> ?o \<le> i mod 4096 \<and> i mod 4096 < ?o + ?n"
    then show "unat cur \<le> i \<and> i < unat cur + ?n" using div_mult_mod_eq [of i 4096] div_mult_mod_eq [of "unat cur" 4096] by linarith
  next
    assume a: "unat cur \<le> i \<and> i < unat cur + ?n"
    then have "i < unat cur div 4096 * 4096 + 4096" using B(3) e by linarith
    then show "i div 4096 = unat cur div 4096 \<and> ?o \<le> i mod 4096 \<and> i mod 4096 < ?o + ?n" using piece_index [of "unat cur" i] a by auto
  qed
  have at: "i mod 4096 - ?o = i - unat cur" if "unat cur \<le> i \<and> i < unat cur + ?n"
  proof -
    have "i < unat cur div 4096 * 4096 + 4096" using that B(3) e by linarith
    then show ?thesis using piece_index(2) [of "unat cur" i] that by simp
  qed
  have key: "rt_key 4 (cur div ARCH_PAGE_SIZE)" "unat (cur div ARCH_PAGE_SIZE) = unat cur div 4096" using K N by simp_all
  have len: "length (take ?n buf) = ?n" using assms(5) by simp
  have st: "page_byte root (page_store page ?o (take ?n buf) m) i =
      (if unat cur \<le> i \<and> i < unat cur + ?n then take ?n buf ! (i mod 4096 - ?o) else page_byte root m i)"
    using page_store_byte [OF assms(3) key(1) assms(4) i, of ?o "take ?n buf"] unfolding key(2) len iff .
  show ?thesis
  proof (cases "unat cur \<le> i \<and> i < unat cur + ?n")
    case True
    then have "i - unat cur < ?n" by linarith
    then show ?thesis unfolding page_offset st e at [OF True] using True by (simp only: if_True nth_take)
  qed (simp only: page_offset st e if_False)
qed

text \<open>What a write of \<open>buf\<close> from the offset \<open>a\<close> on does.\<close>

lemma write_pieces_writes:
  assumes lim: "unat lim \<le> file_limit"
  shows "cur \<le> lim \<Longrightarrow> pages_ok root m \<Longrightarrow> length buf = unat lim - unat cur \<Longrightarrow> 4 * span (unat cur) (unat lim) \<le> length (pg_free m) \<Longrightarrow>
    \<exists>root' m'. write_pieces root m lim cur buf count = Some (Ok (count + (lim - cur), root', m')) \<and> pages_ok root' m' \<and>
      (\<forall>i < file_limit. page_byte root' m' i = (if unat cur \<le> i \<and> i < unat lim then buf ! (i - unat cur) else page_byte root m i)) \<and>
      pages_frame root m m' \<and> length (pg_free m) \<le> length (pg_free m') + 4 * span (unat cur) (unat lim) \<and> tree_grows root m root'"
proof (induction "unat lim - unat cur" arbitrary: cur root m buf count rule: less_induct)
  case less
  show ?case
  proof (cases "cur < lim")
    case False
    then have "cur = lim" using less.prems(1) by simp
    then show ?thesis using less.prems
      by (intro exI [of _ root] exI [of _ m]) (auto simp: write_pieces.simps pages_frame_def tree_grows_def span_def)
  next
    case True
    note B = piece_end_bounds [OF True lim] and E = piece_end_unat [OF True lim]
    let ?e = "piece_end cur lim" and ?k = "cur div ARCH_PAGE_SIZE" and ?n = "unat (piece_end cur lim - cur)"
    have ab: "unat cur < unat lim" "unat cur < unat ?e" "unat ?e \<le> unat lim" using True B(1,2) by (simp_all add: word_less_nat_alt word_le_nat_alt)
    have cur: "unat cur < file_limit" using ab(1) lim by linarith
    note N = page_number [OF cur] and K = page_key [OF cur]
    note sp = span_step [OF ab(1) E]
    have "4 \<le> length (pg_free m)" using less.prems(4) sp by simp
    then obtain page root1 m1 where d: "com_fs_pagecache_default root ?k m = Ok (page, root1, m1)" "pages_ok root1 m1" "rt_lookup root1 ?k = Some page"
        "\<forall>i < file_limit. page_byte root1 m1 i = page_byte root m i" "length (pg_free m) \<le> length (pg_free m1) + 4" "pages_frame root m m1"
        "tree_grows root m root1"
      using pagecache_default_ok [OF less.prems(2), of ?k] K(1) unfolding N by blast
    let ?m2 = "page_store page (unat (cur mod ARCH_PAGE_SIZE)) (take ?n buf) m1"
    have n: "?n \<le> length buf" "length (drop ?n buf) = unat lim - unat ?e" using less.prems(3) B(4) ab by simp_all
    have lt: "unat lim - unat ?e < unat lim - unat cur" using ab by linarith
    have "4 * span (unat ?e) (unat lim) \<le> length (pg_free ?m2)" using less.prems(4) d(5) sp by (simp add: page_store_def)
    from less.hyps [OF lt B(2) page_store_ok [OF d(2)] n(2) this, of "count + (?e - cur)"] obtain root' m' where
      ih: "write_pieces root1 ?m2 lim ?e (drop ?n buf) (count + (?e - cur)) = Some (Ok (count + (?e - cur) + (lim - ?e), root', m'))" "pages_ok root' m'"
        "\<forall>i < file_limit. page_byte root' m' i = (if unat ?e \<le> i \<and> i < unat lim then drop ?n buf ! (i - unat ?e) else page_byte root1 ?m2 i)"
        "pages_frame root1 ?m2 m'" "length (pg_free ?m2) \<le> length (pg_free m') + 4 * span (unat ?e) (unat lim)"
        "tree_grows root1 ?m2 root'" by blast
    have "write_pieces root m lim cur buf count = Some (Ok (count + (lim - cur), root', m'))"
      using ih(1) by (subst write_pieces.simps) (simp add: True d(1) Let_def)
    moreover have "page_byte root' m' i = (if unat cur \<le> i \<and> i < unat lim then buf ! (i - unat cur) else page_byte root m i)" if i: "i < file_limit" for i
      using ih(3) [rule_format, OF i] piece_store [OF True lim d(2,3) n(1) i] d(4) i n B(4) ab by (auto simp: nth_drop)
    moreover have "pages_frame root m m'" using pages_frame_step [OF d(6,7) _ d(3) ih(4)] K(1) N by simp
    moreover have "length (pg_free m) \<le> length (pg_free m') + 4 * span (unat cur) (unat lim)" using ih(5) d(5) sp by (simp add: page_store_def)
    moreover have "tree_grows root m root'" by (rule tree_grows_step [OF d(6,7) ih(6)])
    ultimately show ?thesis using ih(2) by blast
  qed
qed


section \<open>Whole operations\<close>

lemma span_le: "span a (a + n) \<le> n div 4096 + 2"
proof (cases "n = 0")
  case False
  have "a + n - 1 = a div 4096 * 4096 + (a mod 4096 + n - 1)" using False div_mult_mod_eq [of a 4096] by linarith
  then have "(a + n - 1) div 4096 = a div 4096 + (a mod 4096 + n - 1) div 4096" by simp
  moreover have "(a mod 4096 + n - 1) div 4096 \<le> (4096 + n) div 4096" by (rule div_le_mono) (use mod_less_divisor [of 4096 a] in linarith)
  moreover have "(4096 + n) div 4096 = n div 4096 + 1" by simp
  ultimately have "(a + n - 1) div 4096 - a div 4096 \<le> n div 4096 + 1" by linarith
  then show ?thesis by (simp add: span_def)
qed (simp add: span_def)

lemma file_contents_nth: "i < unat (tf_size f) \<Longrightarrow> file_contents f m ! i = page_byte (tf_data f) m i"
  by (simp add: file_contents_def)

lemma length_file_contents [simp]: "length (file_contents f m) = unat (tf_size f)"
  by (simp add: file_contents_def)

lemma length_spec_write: "length (spec_write c off buf) = (if buf = [] then length c else max (length c) (off + length buf))"
  by (auto simp: spec_write_def)

lemma spec_write_nth:
  assumes "buf \<noteq> []" and "i < max (length c) (off + length buf)"
  shows "spec_write c off buf ! i = (if off \<le> i \<and> i < off + length buf then buf ! (i - off) else if i < length c then c ! i else 0)"
proof -
  let ?p = "take off (c @ replicate (off - length c) 0)"
  have len: "length ?p = off" by simp
  have pre: "?p ! i = (if i < length c then c ! i else 0)" if "i < off" using that by (auto simp: nth_append)
  have "(?p @ buf @ drop (off + length buf) c) ! i =
      (if i < off then ?p ! i else if i < off + length buf then buf ! (i - off) else c ! i)"
    unfolding nth_append len using assms(2) by (auto simp: nth_append)
  then show ?thesis using pre assms by (auto simp: spec_write_def)
qed

lemma tmpfs_read_spec:
  assumes "rt_ok 4 (tf_data f)" and "unat (tf_size f) \<le> file_limit" and "unat off + unat buflen < 2 ^ 64"
  shows "com_fs_tmpfs_read False f m buflen off =
    Some (Ok (EOK, of_nat (length (spec_read (file_contents f m) (unat off) (unat buflen))), spec_read (file_contents f m) (unat off) (unat buflen)))"
proof (cases "off < tf_size f")
  case False
  then show ?thesis by (simp add: com_fs_tmpfs_read_def spec_read_def word_le_nat_alt not_less)
next
  case True
  let ?s = "unat (tf_size f)" and ?o = "unat off" and ?n = "unat buflen"
  have lt: "?o < ?s" using True by (simp add: word_less_nat_alt)
  have add: "unat (off + buflen) = ?o + ?n" using assms(3) by (simp add: unat_add_no_wrap)
  define len where "len = (if off + buflen \<ge> tf_size f then (if tf_size f > off then tf_size f - off else 0) else buflen)"
  have len: "unat len = min ?n (?s - ?o)" using True lt add by (auto simp: len_def word_le_nat_alt unat_sub)
  have lim: "unat (off + len) = ?o + unat len" using lt len by (subst unat_add_no_wrap) (use assms(2) in \<open>simp_all add: file_limit_def\<close>)
  have "map (page_byte (tf_data f) m) [?o..<?o + unat len] = spec_read (file_contents f m) ?o ?n"
    unfolding spec_read_def file_contents_def by (rule nth_equalityI) (use lt len in \<open>auto\<close>)
  moreover have "read_pieces (tf_data f) m (off + len) off 0 [] = Some (Ok (len, map (page_byte (tf_data f) m) [?o..<?o + unat len]))"
    using read_pieces_reads [OF assms(1), of "off + len" off m 0 "[]"] lim len lt assms(2) by (simp add: word_le_nat_alt)
  moreover have "of_nat (length (spec_read (file_contents f m) ?o ?n)) = len" using len by (simp add: spec_read_def min.commute word_unat_eq_iff flip: len)
  moreover have "spec_read (file_contents f m) ?o ?n = []" if "len = 0" using len that lt by (auto simp: spec_read_def)
  ultimately show ?thesis using True unfolding com_fs_tmpfs_read_def len_def [symmetric] by (auto simp: Let_def)
qed

lemma tmpfs_write_bytes:
  assumes P: "pages_ok (tf_data f) m" and fit: "unat off + length buf \<le> file_limit" and free: "write_need (length buf) \<le> length (pg_free m)"
    and False: "buf \<noteq> []"
  shows "\<exists>f' m'. com_fs_tmpfs_write False f m buf off = Some (Ok (EOK, Some (of_nat (length buf)), f', m')) \<and>
    unat (tf_size f') = max (unat (tf_size f)) (unat off + length buf) \<and> pages_ok (tf_data f') m' \<and>
    (\<forall>i < file_limit. page_byte (tf_data f') m' i =
      (if unat off \<le> i \<and> i < unat off + length buf then buf ! (i - unat off) else page_byte (tf_data f) m i)) \<and>
    pages_frame (tf_data f) m m' \<and> length (pg_free m) \<le> length (pg_free m') + write_need (length buf) \<and> tree_grows (tf_data f) m (tf_data f')"
proof -
  let ?l = "of_nat (length buf) :: u64"
  have l: "unat ?l = length buf" using fit by (simp add: unat_of_nat64 file_limit_def)
  have lim: "unat (off + ?l) = unat off + length buf" using fit l by (subst unat_add_no_wrap) (simp_all add: file_limit_def)
  have sp: "4 * span (unat off) (unat (off + ?l)) \<le> write_need (length buf)" using span_le [of "unat off" "length buf"] lim by (simp add: write_need_def)
  have pre: "off \<le> off + ?l" "length buf = unat (off + ?l) - unat off" "4 * span (unat off) (unat (off + ?l)) \<le> length (pg_free m)"
    using lim sp free by (simp_all add: word_le_nat_alt)
  have limit: "unat (off + ?l) \<le> file_limit" using lim fit by simp
  obtain root' m' where w: "write_pieces (tf_data f) m (off + ?l) off buf 0 = Some (Ok (?l, root', m'))" "pages_ok root' m'"
      "\<forall>i < file_limit. page_byte root' m' i = (if unat off \<le> i \<and> i < unat off + length buf then buf ! (i - unat off) else page_byte (tf_data f) m i)"
      "pages_frame (tf_data f) m m'" "length (pg_free m) \<le> length (pg_free m') + 4 * span (unat off) (unat (off + ?l))"
      "tree_grows (tf_data f) m root'"
    using write_pieces_writes [OF limit pre(1) P pre(2,3), of 0] unfolding lim by auto
  let ?f = "(if off + ?l > tf_size f then f\<lparr>tf_size := off + ?l\<rparr> else f)\<lparr>tf_data := root'\<rparr>"
  have sz: "unat (tf_size ?f) = max (unat (tf_size f)) (unat off + length buf)" using lim by (auto simp: word_less_nat_alt)
  have "?l \<noteq> 0" using False l by auto
  then have "com_fs_tmpfs_write False f m buf off = Some (Ok (EOK, Some ?l, ?f, m'))" using w(1) by (simp add: com_fs_tmpfs_write_def Let_def)
  then show ?thesis using w(2-6) sp sz by (intro exI [of _ ?f] exI [of _ m']) simp
qed

lemma tmpfs_write_spec:
  assumes ok: "file_ok f m" and fit: "unat off + length buf \<le> file_limit" and free: "write_need (length buf) \<le> length (pg_free m)"
  shows "\<exists>f' m'. com_fs_tmpfs_write False f m buf off = Some (Ok (EOK, (if buf = [] then None else Some (of_nat (length buf))), f', m')) \<and>
    file_ok f' m' \<and> file_contents f' m' = spec_write (file_contents f m) (unat off) buf \<and> pages_frame (tf_data f) m m' \<and>
    length (pg_free m) \<le> length (pg_free m') + write_need (length buf) \<and> tree_grows (tf_data f) m (tf_data f')"
proof (cases "buf = []")
  case True
  then show ?thesis using ok by (intro exI [of _ f] exI [of _ m]) (simp add: com_fs_tmpfs_write_def spec_write_def pages_frame_def tree_grows_def)
next
  case False
  let ?s = "unat (tf_size f)"
  have P: "pages_ok (tf_data f) m" "?s \<le> file_limit" "\<And>i. ?s \<le> i \<Longrightarrow> i < file_limit \<Longrightarrow> page_byte (tf_data f) m i = 0" using ok by (simp_all add: file_ok_def)
  obtain f' m' where w: "com_fs_tmpfs_write False f m buf off = Some (Ok (EOK, Some (of_nat (length buf)), f', m'))"
      "unat (tf_size f') = max ?s (unat off + length buf)" "pages_ok (tf_data f') m'"
      "\<forall>i < file_limit. page_byte (tf_data f') m' i = (if unat off \<le> i \<and> i < unat off + length buf then buf ! (i - unat off) else page_byte (tf_data f) m i)"
      "pages_frame (tf_data f) m m'" "length (pg_free m) \<le> length (pg_free m') + write_need (length buf)" "tree_grows (tf_data f) m (tf_data f')"
    using tmpfs_write_bytes [OF P(1) fit free False] by blast
  have bound: "max ?s (unat off + length buf) \<le> file_limit" using P(2) fit by simp
  have "file_contents f' m' = spec_write (file_contents f m) (unat off) buf"
  proof (rule nth_equalityI)
    show "length (file_contents f' m') = length (spec_write (file_contents f m) (unat off) buf)" unfolding length_spec_write length_file_contents w(2) using False by simp
    fix i assume "i < length (file_contents f' m')"
    then have i: "i < max ?s (unat off + length buf)" unfolding length_file_contents w(2) .
    then have il: "i < file_limit" using bound by linarith
    have "file_contents f' m' ! i = page_byte (tf_data f') m' i" using file_contents_nth [of i f' m'] i unfolding w(2) by simp
    moreover have "page_byte (tf_data f) m i = (if i < ?s then file_contents f m ! i else 0)" using P(3) [OF _ il] file_contents_nth [of i f m] by simp
    moreover have "i < max (length (file_contents f m)) (unat off + length buf)" using i by simp
    note spec_write_nth [OF False this]
    ultimately show "file_contents f' m' ! i = spec_write (file_contents f m) (unat off) buf ! i"
      using w(4) [rule_format, OF il] by (simp only: length_file_contents)
  qed
  moreover have "file_ok f' m'"
    unfolding file_ok_def w(2) using w(3,4) P(3) bound by simp
  ultimately show ?thesis using False w(1,5-7) by (intro exI [of _ f'] exI [of _ m']) simp
qed

section \<open>Several files\<close>

lemma files_okD:
  assumes "files_ok fs m"
  shows "distinct (pg_free m)" "i < length fs \<Longrightarrow> file_ok (fs ! i) m"
    and "i < length fs \<Longrightarrow> j < length fs \<Longrightarrow> i \<noteq> j \<Longrightarrow> rt_key 4 k \<Longrightarrow> rt_key 4 k' \<Longrightarrow>
      rt_lookup (tf_data (fs ! i)) k = Some p \<Longrightarrow> rt_lookup (tf_data (fs ! j)) k' \<noteq> Some p"
  using assms unfolding files_ok_def by blast+

text \<open>What an operation that keeps a file's pages alone does to the file.\<close>

lemma other_file_kept:
  assumes "file_ok g m" and "pages_frame root m m'" and "distinct (pg_free m')"
    and "\<And>k k' p. rt_key 4 k \<Longrightarrow> rt_key 4 k' \<Longrightarrow> rt_lookup root k = Some p \<Longrightarrow> rt_lookup (tf_data g) k' \<noteq> Some p"
  shows "file_ok g m'" and "file_contents g m' = file_contents g m"
proof -
  have P: "pages_ok (tf_data g) m" and sub: "set (pg_free m') \<subseteq> set (pg_free m)" using assms(1,2) by (simp_all add: file_ok_def pages_frame_def)
  have byte: "page_byte (tf_data g) m' i = page_byte (tf_data g) m i" if "i < file_limit" for i
  proof (cases "rt_lookup (tf_data g) (of_nat (i div 4096))")
    case (Some p)
    then have "p \<notin> set (pg_free m)" "\<forall>k. rt_key 4 k \<longrightarrow> rt_lookup root k \<noteq> Some p" using pages_okD(4) [OF P] assms(4) page_key(1) [OF that] by blast+
    then show ?thesis using assms(2) Some by (simp add: pages_frame_def page_byte_def)
  qed (simp add: page_byte_def)
  have "pages_ok (tf_data g) m'" using P sub assms(3) unfolding pages_ok_def by blast
  then show "file_ok g m'" using assms(1) byte by (simp add: file_ok_def)
  show "file_contents g m' = file_contents g m" using byte assms(1) by (auto simp: file_contents_def file_ok_def)
qed

lemma new_tmpfs_file_spec:
  assumes "pg_free m \<noteq> []"
  shows "\<exists>f m'. new_tmpfs_file m = Ok (f, m') \<and> tf_size f = 0 \<and> rt_ok 4 (tf_data f) \<and> (\<forall>k. rt_lookup (tf_data f) k = None) \<and>
    pg_byte m' = pg_byte m \<and> pg_free m' = tl (pg_free m)"
proof -
  have d: "drop (length (pg_free m) - (length (pg_free m) - 1)) (pg_free m) = tl (pg_free m)" using assms by (cases "pg_free m") simp_all
  show ?thesis using assms
    by (simp add: new_tmpfs_file_def com_fs_pagecache_new_def kradixtree_new_def KRADIXTREE_INIT_def max_layers kassert_def rt_ok_def rt_lookup_def) (use d in simp)
qed

lemma file_step_ok:
  assumes ok: "files_ok fs m" and cs: "map (\<lambda>f. file_contents f m) fs = cs" and fits: "step_fits cs a" and need: "step_need a \<le> length (pg_free m)"
  shows "\<exists>fs' m'. file_step fs m a = Some (fs', m') \<and> files_ok fs' m' \<and> map (\<lambda>f. file_contents f m') fs' = spec_step cs a \<and>
    length (pg_free m) \<le> length (pg_free m') + step_need a"
proof (cases a)
  case Create
  then have ne: "pg_free m \<noteq> []" using need by auto
  obtain f m' where n: "new_tmpfs_file m = Ok (f, m')" "tf_size f = 0" "rt_ok 4 (tf_data f)" "\<forall>k. rt_lookup (tf_data f) k = None"
      "pg_byte m' = pg_byte m" "pg_free m' = tl (pg_free m)" using new_tmpfs_file_spec [OF ne] by blast
  have dist: "distinct (pg_free m')" using files_okD(1) [OF ok] n(6) by (simp add: distinct_tl)
  have frame: "pages_frame (tf_data f) m m'" using n(5,6) ne by (auto simp: pages_frame_def dest: list.set_sel(2))
  have old: "file_ok (fs ! i) m'" "file_contents (fs ! i) m' = file_contents (fs ! i) m" if "i < length fs" for i
    using other_file_kept [OF files_okD(2) [OF ok that] frame dist] n(4) by simp_all
  have new: "file_ok f m'" "file_contents f m' = []" using n(2,3,4) dist by (simp_all add: file_ok_def pages_ok_def page_byte_def file_contents_def)
  have "rt_lookup (tf_data ((fs @ [f]) ! j)) k' \<noteq> Some p" if "i < length (fs @ [f])" "j < length (fs @ [f])" "i \<noteq> j" "rt_key 4 k" "rt_key 4 k'"
      "rt_lookup (tf_data ((fs @ [f]) ! i)) k = Some p" for i j k k' p
  proof (cases "i < length fs \<and> j < length fs")
    case True
    then show ?thesis using files_okD(3) [OF ok, of i j k k' p] that(3-6) by (simp add: nth_append)
  next
    case False
    then have "(fs @ [f]) ! i = f \<or> (fs @ [f]) ! j = f" using that(1,2) by (auto simp: nth_append less_Suc_eq)
    then show ?thesis using n(4) that(6) by auto
  qed
  moreover have "file_ok ((fs @ [f]) ! i) m'" if "i < length (fs @ [f])" for i using that old(1) new(1) by (auto simp: nth_append less_Suc_eq)
  ultimately have "files_ok (fs @ [f]) m'" unfolding files_ok_def using dist by blast
  moreover have "map (\<lambda>f. file_contents f m') fs = cs" unfolding cs [symmetric] using old(2) by (metis (no_types, lifting) map_equality_iff length_map nth_map)
  ultimately show ?thesis using Create n(1,6) new(2) by auto
next
  case (Write_At i off buf)
  have len: "length cs = length fs" using cs by auto
  have i: "i < length fs" "unat off + length buf \<le> file_limit" "write_need (length buf) \<le> length (pg_free m)" using fits need len Write_At by simp_all
  obtain f' m' r where w: "com_fs_tmpfs_write False (fs ! i) m buf off = Some (Ok (EOK, r, f', m'))" "file_ok f' m'"
      "file_contents f' m' = spec_write (file_contents (fs ! i) m) (unat off) buf" "pages_frame (tf_data (fs ! i)) m m'"
      "length (pg_free m) \<le> length (pg_free m') + write_need (length buf)" "tree_grows (tf_data (fs ! i)) m (tf_data f')"
    using tmpfs_write_spec [OF files_okD(2) [OF ok i(1)] i(2,3)] by blast
  have dist: "distinct (pg_free m')" using w(2) by (simp add: file_ok_def pages_ok_def)
  have old: "file_ok (fs ! j) m'" "file_contents (fs ! j) m' = file_contents (fs ! j) m" if "j < length fs" "j \<noteq> i" for j
    using other_file_kept [OF files_okD(2) [OF ok that(1)] w(4) dist] files_okD(3) [OF ok i(1) that(1)] that(2) by blast+
  have sep: "rt_lookup (tf_data (fs ! j)) k \<noteq> Some p" if j: "j < length fs" "j \<noteq> i" "rt_key 4 k" "rt_key 4 k'" "rt_lookup (tf_data f') k' = Some p" for j k k' p
  proof -
    have "rt_lookup (tf_data (fs ! i)) k' = Some p \<or> p \<in> set (pg_free m)" using w(6) j(4,5) by (simp add: tree_grows_def)
    moreover have "pages_ok (tf_data (fs ! j)) m" using files_okD(2) [OF ok j(1)] by (simp add: file_ok_def)
    ultimately show ?thesis using files_okD(3) [OF ok i(1) j(1)] pages_okD(4) j by blast
  qed
  have "rt_lookup (tf_data (fs[i := f'] ! j)) k' \<noteq> Some p" if "h < length fs" "j < length fs" "h \<noteq> j" "rt_key 4 k" "rt_key 4 k'"
      "rt_lookup (tf_data (fs[i := f'] ! h)) k = Some p" for h j k k' p
  proof (cases "h = i")
    case True
    then show ?thesis using sep [of j k' k p] that i(1) by simp
  next
    case False
    then show ?thesis using sep [of h k k' p] files_okD(3) [OF ok, of h j k k' p] that i(1) by (cases "j = i") auto
  qed
  moreover have "file_ok (fs[i := f'] ! j) m'" if "j < length fs" for j using that old(1) w(2) by (cases "j = i") simp_all
  ultimately have "files_ok (fs[i := f']) m'" unfolding files_ok_def length_list_update using dist by blast
  moreover have "map (\<lambda>f. file_contents f m') (fs[i := f']) = spec_step cs a"
    using old(2) w(3) i(1) Write_At by - (rule nth_equalityI, auto simp: cs [symmetric] nth_list_update)
  ultimately show ?thesis using w(1,5) Write_At by simp
qed

lemma run_files_ok:
  "files_ok fs m \<Longrightarrow> ops_fit (map (\<lambda>f. file_contents f m) fs) as \<Longrightarrow> ops_need as \<le> length (pg_free m) \<Longrightarrow>
    \<exists>fs' m'. run_files fs m as = Some (fs', m') \<and> files_ok fs' m' \<and>
      map (\<lambda>f. file_contents f m') fs' = foldl spec_step (map (\<lambda>f. file_contents f m) fs) as"
proof (induction "as" arbitrary: fs m)
  case (Cons a "as")
  let ?cs = "map (\<lambda>f. file_contents f m) fs"
  have pre: "step_fits ?cs a" "step_need a \<le> length (pg_free m)" using Cons.prems(2,3) by (simp_all add: ops_need_def)
  obtain fs1 m1 where s: "file_step fs m a = Some (fs1, m1)" "files_ok fs1 m1" "map (\<lambda>f. file_contents f m1) fs1 = spec_step ?cs a"
      "length (pg_free m) \<le> length (pg_free m1) + step_need a" using file_step_ok [OF Cons.prems(1) refl pre] by blast
  have "ops_need as \<le> length (pg_free m1)" "ops_fit (map (\<lambda>f. file_contents f m1) fs1) as"
    using Cons.prems(2,3) s(3,4) by (simp_all add: ops_need_def)
  then show ?case using Cons.IH [OF s(2)] s(1,3) by simp
qed simp

section \<open>Properties\<close>

text \<open>
  C11: Files of the in-memory file system behave as lists of bytes. Whatever files are created and
  whatever is written to them, below the limit of the page tree and with pages enough, every call
  returns, a read of any file at any offset gives the bytes that a list of bytes would hold
  (zeros in the gaps, short at the end), and no write to a file is seen in another.
\<close>

theorem tmpfs_files_refine:
  assumes "distinct (pg_free m)" and "ops_fit [] as" and "ops_need as \<le> length (pg_free m)"
    and "i < length (foldl spec_step [] as)" and "unat off + unat buflen < 2 ^ 64"
    and "r = spec_read (foldl spec_step [] as ! i) (unat off) (unat buflen)"
  shows "\<exists>fs m'. run_files [] m as = Some (fs, m') \<and> length fs = length (foldl spec_step [] as) \<and>
    com_fs_tmpfs_read False (fs ! i) m' buflen off = Some (Ok (EOK, of_nat (length r), r))"
proof -
  have "files_ok [] m" using assms(1) by (simp add: files_ok_def)
  then obtain fs m' where f: "run_files [] m as = Some (fs, m')" "files_ok fs m'" "map (\<lambda>f. file_contents f m') fs = foldl spec_step [] as"
    using run_files_ok [of "[]" m "as"] assms(2,3) by auto
  have i: "i < length fs" "file_contents (fs ! i) m' = foldl spec_step [] as ! i" using f(3) assms(4) by (metis length_map, metis length_map nth_map)
  have "rt_ok 4 (tf_data (fs ! i))" "unat (tf_size (fs ! i)) \<le> file_limit" using files_okD(2) [OF f(2) i(1)] by (simp_all add: file_ok_def pages_ok_def)
  note tmpfs_read_spec [OF this assms(5), of m']
  then show ?thesis using f(1) f(3) [THEN arg_cong, of length] unfolding i(2) assms(6) [symmetric] by simp
qed

theorem tmpfs_files_refine_witness:
  "\<exists>fs m'. run_files [] \<lparr>pg_byte = (\<lambda>_ _. 0), pg_free = [0..<40]\<rparr> [Create, Write_At 0 2 [1, 2, 3, 4], Create, Write_At 1 0 [9], Write_At 0 3 [7]] = Some (fs, m') \<and>
    length fs = 2 \<and> com_fs_tmpfs_read False (fs ! 0) m' 8 1 = Some (Ok (EOK, 5, [0, 1, 7, 3, 4]))"
proof -
  let ?m = "\<lparr>pg_byte = (\<lambda>_ _. 0), pg_free = [0..<40]\<rparr>"
  let ?as = "[Create, Write_At 0 2 [1, 2, 3, 4], Create, Write_At 1 0 [9], Write_At 0 3 [7]]"
  have spec: "foldl spec_step [] ?as = [[0, 0, 1, 7, 3, 4], [9]]" by (simp add: spec_write_def)
  have len: "length [[0, 0, 1, 7, 3, 4], [9 :: u8]] = 2" by simp
  have "ops_fit [] ?as" by (simp add: file_limit_def)
  moreover have "ops_need ?as \<le> length (pg_free ?m)" by (simp add: ops_need_def write_need_def)
  ultimately show ?thesis
    using tmpfs_files_refine [of ?m ?as 0 1 8 "[0, 1, 7, 3, 4]"] unfolding spec len by (simp add: spec_read_def del: run_files.simps)
qed

text \<open>
  C32: Shrinking a file keeps its pages and their bytes. After a truncation to nothing, a write of
  one byte behind an old byte makes the old byte readable again, where the file should read as zero.
\<close>

theorem tmpfs_truncate_keeps_bytes:
  assumes "file_ok f m" and "i < off" and "i < tf_size f" and "unat off < file_limit" and "write_need 1 \<le> length (pg_free m)"
  shows "\<exists>f' m'. com_fs_tmpfs_write False (snd (com_fs_tmpfs_truncate False f 0)) m [b] off = Some (Ok (EOK, Some 1, f', m')) \<and>
    com_fs_tmpfs_read False f' m' 1 i = Some (Ok (EOK, 1, [file_contents f m ! unat i]))"
proof -
  let ?t = "snd (com_fs_tmpfs_truncate False f 0)"
  have t: "tf_data ?t = tf_data f" "tf_size ?t = 0" by (simp_all add: com_fs_tmpfs_truncate_def)
  have P: "pages_ok (tf_data ?t) m" using assms(1) t by (simp add: file_ok_def)
  have fit: "unat off + length [b] \<le> file_limit" using assms(4) by simp
  obtain f' m' where w: "com_fs_tmpfs_write False ?t m [b] off = Some (Ok (EOK, Some (of_nat (length [b])), f', m'))"
      "unat (tf_size f') = max (unat (tf_size ?t)) (unat off + length [b])" "pages_ok (tf_data f') m'"
      "\<forall>i < file_limit. page_byte (tf_data f') m' i = (if unat off \<le> i \<and> i < unat off + length [b] then [b] ! (i - unat off) else page_byte (tf_data ?t) m i)"
    using tmpfs_write_bytes [OF P fit] assms(5) by (metis One_nat_def length_Cons list.distinct(1) list.size(3))
  have i: "unat i < unat off" "unat i < unat (tf_size f)" using assms(2,3) by (simp_all add: word_less_nat_alt)
  have sz: "unat (tf_size f') = unat off + 1" using w(2) t(2) by simp
  have "unat i < file_limit" using i(1) assms(4) by linarith
  then have "page_byte (tf_data f') m' (unat i) = file_contents f m ! unat i" using w(4) i t(1) by (simp add: file_contents_nth)
  then have r: "spec_read (file_contents f' m') (unat i) (unat (1 :: u64)) = [file_contents f m ! unat i]"
    using i(1) sz by (simp add: spec_read_def take_Suc_conv_app_nth hd_drop_conv_nth file_contents_nth take_Suc)
  have "unat i + unat (1 :: u64) < 2 ^ 64" using i(1) assms(4) by (simp add: file_limit_def)
  moreover have "unat (tf_size f') \<le> file_limit" using sz assms(4) by linarith
  ultimately have "com_fs_tmpfs_read False f' m' 1 i = Some (Ok (EOK, 1, [file_contents f m ! unat i]))"
    using tmpfs_read_spec [OF pages_okD(1) [OF w(3)], of i 1 m'] unfolding r by simp
  moreover have "com_fs_tmpfs_write False ?t m [b] off = Some (Ok (EOK, Some 1, f', m'))" using w(1) by simp
  ultimately show ?thesis by blast
qed


theorem tmpfs_truncate_keeps_bytes_witness:
  "\<exists>f m f' m'. file_contents f m = [5, 6] \<and>
    com_fs_tmpfs_write False (snd (com_fs_tmpfs_truncate False f 0)) m [1] 3 = Some (Ok (EOK, Some 1, f', m')) \<and>
    com_fs_tmpfs_read False f' m' 1 0 = Some (Ok (EOK, 1, [5]))"
proof -
  let ?m = "\<lparr>pg_byte = (\<lambda>_ _. 0), pg_free = [0..<40]\<rparr>"
  have "files_ok [] ?m" by (simp add: files_ok_def)
  then obtain fs m1 where c: "files_ok fs m1" "map (\<lambda>f. file_contents f m1) fs = [[]]" "39 \<le> length (pg_free m1)"
    using file_step_ok [of "[]" ?m "[]" Create] by auto
  obtain fs' m2 where w: "files_ok fs' m2" "map (\<lambda>f. file_contents f m2) fs' = [[5, 6]]" "31 \<le> length (pg_free m2)"
    using file_step_ok [OF c(1,2), of "Write_At 0 0 [5, 6]"] c(3) by (auto simp: write_need_def file_limit_def spec_write_def)
  then obtain f where f: "fs' = [f]" "file_contents f m2 = [5, 6]" by auto
  then have "file_ok f m2" "unat (tf_size f) = 2" using files_okD(2) [OF w(1), of 0] length_file_contents [of f m2] by auto
  moreover have "write_need 1 \<le> length (pg_free m2)" using w(3) by (simp add: write_need_def)
  ultimately show ?thesis using tmpfs_truncate_keeps_bytes [of f m2 0 3 1] f(2) by (auto simp: word_less_nat_alt file_limit_def)
qed

end
