(* ===== verification/Tmpfs.thy ===== *)
theory Tmpfs
  imports Vfs Tmpfs_File
begin

text \<open>
  Directories of the in-memory file system, \<^verbatim>\<open>src/com/fs/tmpfs.c\<close>, and its table of operations. A
  node of the file system belongs to one node of the virtual file system. The entry of a node in
  its directory is allocated with the node, so the number of the node also names the entry; a
  directory is the list of its entries in order. The contents are the union of the source.
\<close>

section \<open>State\<close>

datatype tmpfs_contents =
    T_Zero
  | T_Dir "(nat \<times> string) list"
  | T_File tmpfs_file
  | T_Link string
  | T_Other nat

record tmpfs_node =
  tn_vnode :: "nat option"
  num_links :: u64
  tn_dirent :: "string option"
  tn_parent :: "nat option"
  tn_data :: tmpfs_contents

record tmpfs_state = vfs_state +
  tnodes :: "nat \<Rightarrow> tmpfs_node"
  next_tnode :: nat
  next_vfs :: nat
  pmem :: page_mem

definition tmpfs_ops_id :: nat where
  "tmpfs_ops_id = 0"

definition zero_tnode :: tmpfs_node where
  "zero_tnode = \<lparr>tn_vnode = None, num_links = 0, tn_dirent = None, tn_parent = None, tn_data = T_Zero\<rparr>"

definition set_tnode :: "nat \<Rightarrow> tmpfs_node \<Rightarrow> tmpfs_state \<Rightarrow> tmpfs_state" where
  "set_tnode t n s = s\<lparr>tnodes := (tnodes s)(t := n)\<rparr>"

abbreviation tnode_of :: "tmpfs_state \<Rightarrow> nat \<Rightarrow> tmpfs_node" where
  "tnode_of s v \<equiv> tnodes s (extra (vnodes s v))"

section \<open>Creation\<close>

definition COM_FS_TMPFS_ATTR_GHOST :: u64 where
  "COM_FS_TMPFS_ATTR_GHOST = 1"

definition COM_FS_TMPFS_ATTR_NO_DIRENT :: u64 where
  "COM_FS_TMPFS_ATTR_NO_DIRENT = push_bit 1 1"

text \<open>The result tells whether there is an entry, and the new node.\<close>

definition create_common :: "nat \<Rightarrow> string \<Rightarrow> u64 \<Rightarrow> com_vnode_type \<Rightarrow> tmpfs_state \<Rightarrow> (bool \<times> nat option \<times> tmpfs_state) res" where
  "create_common dir name fsattr type s =
     kassert (vn_type (vnodes s dir) = E_COM_VNODE_TYPE_DIR)
       (let t = next_tnode s;
            dirent = (and COM_FS_TMPFS_ATTR_NO_DIRENT fsattr = 0);
            (_, out, s1) = com_fs_vfs_alloc_vnode (vn_vfs (vnodes s dir)) type tmpfs_ops_id t (s\<lparr>next_tnode := t + 1\<rparr>)
        in Ok (dirent, out,
             set_tnode t (zero_tnode\<lparr>num_links := 1, tn_vnode := out, tn_dirent := (if dirent then Some name else None)\<rparr>) s1))"

text \<open>Appending the entry of \<open>t\<close> to the directory \<open>p\<close>; the list of anything else is a wild pointer.\<close>

definition insert_entry :: "nat \<Rightarrow> nat \<Rightarrow> tmpfs_state \<Rightarrow> tmpfs_state res" where
  "insert_entry p t s =
     (case tn_data (tnodes s p) of
        T_Dir es \<Rightarrow>
          (case tn_dirent (tnodes s t) of
             None \<Rightarrow> Panic
           | Some name \<Rightarrow> Ok (set_tnode p ((tnodes s p)\<lparr>tn_data := T_Dir (es @ [(t, name)])\<rparr>) s))
      | _ \<Rightarrow> Panic)"

definition set_parent :: "nat \<Rightarrow> nat \<Rightarrow> tmpfs_state \<Rightarrow> tmpfs_state" where
  "set_parent t p s = set_tnode t ((tnodes s t)\<lparr>tn_parent := Some p\<rparr>) s"

definition set_data :: "nat \<Rightarrow> tmpfs_contents \<Rightarrow> tmpfs_state \<Rightarrow> tmpfs_state" where
  "set_data t d s = set_tnode t ((tnodes s t)\<lparr>tn_data := d\<rparr>) s"

definition com_fs_tmpfs_create :: "nat \<Rightarrow> string \<Rightarrow> u64 \<Rightarrow> u64 \<Rightarrow> tmpfs_state \<Rightarrow> (errno \<times> nat option \<times> tmpfs_state) res" where
  "com_fs_tmpfs_create dir name attr fsattr s =
     res_bind (create_common dir name fsattr E_COM_VNODE_TYPE_FILE s) (\<lambda>(dirent, out, s1).
       case out of
         None \<Rightarrow> Panic
       | Some v \<Rightarrow>
           let t = extra (vnodes s1 v) in
           res_bind
             (if and COM_FS_TMPFS_ATTR_GHOST fsattr = 0
              then res_bind (new_tmpfs_file (pmem s1)) (\<lambda>(f, pm). Ok (set_data t (T_File f) (s1\<lparr>pmem := pm\<rparr>)))
              else Ok s1)
             (\<lambda>s2.
                if dirent then res_bind (insert_entry (extra (vnodes s2 dir)) t s2) (\<lambda>s3. Ok (EOK, out, set_parent t (extra (vnodes s2 dir)) s3))
                else Ok (EOK, out, s2)))"

definition com_fs_tmpfs_mkdir :: "nat \<Rightarrow> string \<Rightarrow> u64 \<Rightarrow> u64 \<Rightarrow> tmpfs_state \<Rightarrow> (errno \<times> nat option \<times> tmpfs_state) res" where
  "com_fs_tmpfs_mkdir parent name attr fsattr s =
     res_bind (create_common parent name fsattr E_COM_VNODE_TYPE_DIR s) (\<lambda>(dirent, out, s1).
       case out of
         None \<Rightarrow> Panic
       | Some v \<Rightarrow>
           let t = extra (vnodes s1 v); p = extra (vnodes s1 parent)
           in res_bind (insert_entry p t (set_data t (T_Dir []) (set_parent t p s1))) (\<lambda>s2. Ok (EOK, out, s2)))"

definition com_fs_tmpfs_symlink :: "nat \<Rightarrow> string \<Rightarrow> string \<Rightarrow> tmpfs_state \<Rightarrow> (errno \<times> tmpfs_state) res" where
  "com_fs_tmpfs_symlink dir linkname path s =
     res_bind (create_common dir linkname 0 E_COM_VNODE_TYPE_LINK s) (\<lambda>(dirent, out, s1).
       case out of
         None \<Rightarrow> Panic
       | Some v \<Rightarrow>
           let t = extra (vnodes s1 v); p = extra (vnodes s1 dir)
           in res_bind (insert_entry p t (set_data t (T_Link path) s1)) (\<lambda>s2. Ok (EOK, set_parent t p s2)))"

definition com_fs_tmpfs_mksocket :: "nat \<Rightarrow> string \<Rightarrow> u64 \<Rightarrow> u64 \<Rightarrow> tmpfs_state \<Rightarrow> (errno \<times> nat option \<times> tmpfs_state) res" where
  "com_fs_tmpfs_mksocket dir name attr fsattr s =
     res_bind (create_common dir name fsattr E_COM_VNODE_TYPE_SOCKET s) (\<lambda>(dirent, out, s1).
       case out of
         None \<Rightarrow> Panic
       | Some v \<Rightarrow>
           let t = extra (vnodes s1 v); p = extra (vnodes s1 dir)
           in if dirent then res_bind (insert_entry p t s1) (\<lambda>s2. Ok (EOK, out, set_parent t p s2))
              else Ok (EOK, out, s1))"

text \<open>Mounting; \<^verbatim>\<open>TmpfsOps\<close> has no other operation.\<close>

definition com_fs_tmpfs_mount :: "nat option \<Rightarrow> tmpfs_state \<Rightarrow> (errno \<times> nat \<times> tmpfs_state) res" where
  "com_fs_tmpfs_mount mountpt s =
     (let fs = next_vfs s; t = next_tnode s;
          (_, out, s1) = com_fs_vfs_alloc_vnode fs E_COM_VNODE_TYPE_DIR tmpfs_ops_id t (s\<lparr>next_tnode := t + 1, next_vfs := fs + 1\<rparr>)
      in case out of
           None \<Rightarrow> Panic
         | Some v \<Rightarrow>
             let s2 = set_tnode t (zero_tnode\<lparr>tn_vnode := Some v, tn_data := T_Dir []\<rparr>) s1;
                 s3 = s2\<lparr>vnodes := (vnodes s2)(v := (vnodes s2 v)\<lparr>isroot := True\<rparr>),
                         vfss := (vfss s2)(fs := \<lparr>mountpoint = mountpt, vfs_root = v\<rparr>)\<rparr>
             in case mountpt of
                  None \<Rightarrow> Ok (EOK, fs, s3)
                | Some w \<Rightarrow>
                    kassert (vn_type (vnodes s3 w) = E_COM_VNODE_TYPE_DIR)
                      (Ok (EOK, fs, s3\<lparr>vnodes := (vnodes s3)(w := (vnodes s3 w)\<lparr>mountpointof := Some fs\<rparr>)\<rparr>)))"

definition com_fs_tmpfs_vget :: "nat \<Rightarrow> tmpfs_state \<Rightarrow> errno \<times> nat option \<times> tmpfs_state" where
  "com_fs_tmpfs_vget t s =
     (case tn_vnode (tnodes s t) of
        Some v \<Rightarrow> (EOK, Some v, COM_FS_VFS_VNODE_HOLD v s)
      | None \<Rightarrow> (ENOENT, None, s))"

section \<open>Looking up and removing\<close>

definition dir_entries :: "tmpfs_state \<Rightarrow> nat \<Rightarrow> (nat \<times> string) list" where
  "dir_entries s t = (case tn_data (tnodes s t) of T_Dir es \<Rightarrow> es | _ \<Rightarrow> [])"

definition com_fs_tmpfs_lookup :: "nat \<Rightarrow> string \<Rightarrow> tmpfs_state \<Rightarrow> (errno \<times> nat option \<times> tmpfs_state) res" where
  "com_fs_tmpfs_lookup dir name s =
     kassert (vn_type (vnodes s dir) = E_COM_VNODE_TYPE_DIR)
       (if name = ''..'' then
          (case tn_parent (tnode_of s dir) of
             Some p \<Rightarrow>
               (case tn_vnode (tnodes s p) of
                  None \<Rightarrow> Panic
                | Some v \<Rightarrow> Ok (EOK, Some v, COM_FS_VFS_VNODE_HOLD v s))
           | None \<Rightarrow> Ok (EOK, Some dir, s))
        else
          (case tn_data (tnode_of s dir) of
             T_Dir es \<Rightarrow>
               (case find (\<lambda>(_, n). n = name) es of
                  None \<Rightarrow> Ok (ENOENT, None, s)
                | Some (t, _) \<Rightarrow>
                    (case tn_vnode (tnodes s t) of
                       None \<Rightarrow> Panic
                     | Some v \<Rightarrow> Ok (EOK, Some v, COM_FS_VFS_VNODE_HOLD v s)))
           | _ \<Rightarrow> Panic))"

definition com_fs_tmpfs_readlink :: "nat \<Rightarrow> tmpfs_state \<Rightarrow> (errno \<times> string) res" where
  "com_fs_tmpfs_readlink link s =
     kassert (vn_type (vnodes s link) = E_COM_VNODE_TYPE_LINK)
       (case tn_data (tnode_of s link) of T_Link path \<Rightarrow> Ok (EOK, path) | _ \<Rightarrow> Panic)"

text \<open>
  Removing; taking out an entry that is not in the list corrupts it. Releasing the node runs the
  \<^verbatim>\<open>close\<close> entry of its table, which the argument gives; \<^verbatim>\<open>TmpfsNodeOps\<close> has none.
\<close>

type_synonym tmpfs_optab = "unit tmpfs_state_ext optab"

definition com_fs_tmpfs_unlink :: "tmpfs_optab \<Rightarrow> nat \<Rightarrow> bool \<Rightarrow> tmpfs_state \<Rightarrow> (errno \<times> tmpfs_state) res" where
  "com_fs_tmpfs_unlink optab node removedir s =
     (let t = extra (vnodes s node);
          is_dir = (vn_type (vnodes s node) = E_COM_VNODE_TYPE_DIR)
      in if is_dir \<and> \<not> removedir then Ok (EISDIR, s)
         else if is_dir \<and> dir_entries s t \<noteq> [] then Ok (ENOTEMPTY, s)
         else
           (case tn_parent (tnodes s t) of
              None \<Rightarrow> Ok (EOK, s)
            | Some p \<Rightarrow>
                kassert (t \<in> set (map fst (dir_entries s p)))
                  (res_bind (COM_FS_VFS_VNODE_RELEASE optab (Some node) (set_data p (T_Dir (filter (\<lambda>(x, _). x \<noteq> t) (dir_entries s p))) s))
                     (\<lambda>s'. Ok (EOK, s')))))"

section \<open>Contents and status\<close>

text \<open>The file of a node; reading another kind of node as a file is a wild access.\<close>

definition com_fs_tmpfs_read_node :: "nat \<Rightarrow> u64 \<Rightarrow> u64 \<Rightarrow> u64 \<Rightarrow> tmpfs_state \<Rightarrow> (errno \<times> u64 \<times> u8 list \<times> tmpfs_state) res" where
  "com_fs_tmpfs_read_node node buflen off flags s =
     (if vn_type (vnodes s node) = E_COM_VNODE_TYPE_DIR then Ok (EISDIR, 0, [], s)
      else case tn_data (tnode_of s node) of
             T_File f \<Rightarrow>
               (case com_fs_tmpfs_read False f (pmem s) buflen off of
                  None \<Rightarrow> Blocked
                | Some r \<Rightarrow> res_bind r (\<lambda>(ret, n, bytes). Ok (ret, n, bytes, s)))
           | _ \<Rightarrow> Panic)"

definition com_fs_tmpfs_write_node :: "nat \<Rightarrow> u8 list \<Rightarrow> u64 \<Rightarrow> u64 \<Rightarrow> tmpfs_state \<Rightarrow> (errno \<times> u64 option \<times> tmpfs_state) res" where
  "com_fs_tmpfs_write_node node buf off flags s =
     (if vn_type (vnodes s node) = E_COM_VNODE_TYPE_DIR then Ok (EISDIR, None, s)
      else case tn_data (tnode_of s node) of
             T_File f \<Rightarrow>
               (case com_fs_tmpfs_write False f (pmem s) buf off of
                  None \<Rightarrow> Blocked
                | Some r \<Rightarrow> res_bind r (\<lambda>(ret, n, f', pm). Ok (ret, n, set_data (extra (vnodes s node)) (T_File f') (s\<lparr>pmem := pm\<rparr>))))
           | _ \<Rightarrow> Panic)"

definition com_fs_tmpfs_truncate_node :: "nat \<Rightarrow> u64 \<Rightarrow> tmpfs_state \<Rightarrow> (errno \<times> tmpfs_state) res" where
  "com_fs_tmpfs_truncate_node node sz s =
     (if vn_type (vnodes s node) = E_COM_VNODE_TYPE_DIR then Ok (EISDIR, s)
      else case tn_data (tnode_of s node) of
             T_File f \<Rightarrow>
               (case com_fs_tmpfs_truncate False f sz of (ret, f') \<Rightarrow> Ok (ret, set_data (extra (vnodes s node)) (T_File f') s))
           | _ \<Rightarrow> Panic)"

definition com_fs_tmpfs_stat :: "com_stat \<Rightarrow> nat \<Rightarrow> tmpfs_state \<Rightarrow> errno \<times> com_stat" where
  "com_fs_tmpfs_stat out node s =
     (let type = vn_type (vnodes s node);
          o1 = out\<lparr>st_blksize := 512, st_ino := extra (vnodes s node), st_perm := 448\<rparr>;
          o2 = (if type = E_COM_VNODE_TYPE_FILE then
                  (let sz = (case tn_data (tnode_of s node) of T_File f \<Rightarrow> tf_size f | _ \<Rightarrow> 0)
                   in o1\<lparr>st_type := Some type, st_size := sz, st_blocks := (sz + 511) div 512\<rparr>)
                else if type \<in> {E_COM_VNODE_TYPE_DIR, E_COM_VNODE_TYPE_LINK, E_COM_VNODE_TYPE_SOCKET} then o1\<lparr>st_type := Some type\<rparr>
                else o1)
      in (EOK, o2\<lparr>st_nlink := 1\<rparr>))"

text \<open>The size of \<^verbatim>\<open>com_dirent_t\<close>: two 8-byte fields, three bytes, and the padding.\<close>

definition dirent_size :: u64 where
  "dirent_size = 24"

text \<open>
  One entry per call: first the two dot entries, then the entries in order. The parent of a root
  is the null pointer, 0 here.
\<close>

definition com_fs_tmpfs_readdir :: "nat \<Rightarrow> u64 \<Rightarrow> u64 \<Rightarrow> tmpfs_state \<Rightarrow> errno \<times> u64 option \<times> com_dirent option" where
  "com_fs_tmpfs_readdir dir buflen off s =
     (let t = extra (vnodes s dir) in
      if vn_type (vnodes s dir) \<noteq> E_COM_VNODE_TYPE_DIR then (ENOTDIR, None, None)
      else if buflen = 0 then (EOK, None, None)
      else if off = 0 then
        if buflen < dirent_size + 2 then (EOVERFLOW, None, None)
        else (EOK, Some (dirent_size + 2),
          Some \<lparr>d_ino = t, d_off = 0, d_reclen = ucast (dirent_size + 2), d_type = Some E_COM_VNODE_TYPE_DIR, d_name = ''.''\<rparr>)
      else if off = 1 then
        if buflen < dirent_size + 3 then (EOVERFLOW, None, None)
        else (EOK, Some (dirent_size + 3),
          Some \<lparr>d_ino = (case tn_parent (tnodes s t) of None \<Rightarrow> 0 | Some p \<Rightarrow> p), d_off = 1, d_reclen = ucast (dirent_size + 3),
                d_type = Some E_COM_VNODE_TYPE_DIR, d_name = ''..''\<rparr>)
      else
        let i = unat (off - 2); es = dir_entries s t in
        if length es \<le> i then (EOK, Some 0, None)
        else
          let (x, name) = es ! i; req_size = dirent_size + of_nat (length name) + 1
          in if buflen < req_size then (EOVERFLOW, None, None)
             else (EOK, Some req_size,
               Some \<lparr>d_ino = x, d_off = off, d_reclen = ucast req_size,
                     d_type = map_option (\<lambda>v. vn_type (vnodes s v)) (tn_vnode (tnodes s x)), d_name = name\<rparr>))"

definition COM_FS_VFS_VNCTL_GETNAME :: u64 where
  "COM_FS_VFS_VNCTL_GETNAME = 1"

definition com_fs_tmpfs_vnctl :: "nat \<Rightarrow> u64 \<Rightarrow> tmpfs_state \<Rightarrow> errno \<times> string option" where
  "com_fs_tmpfs_vnctl node op s =
     (if op = COM_FS_VFS_VNCTL_GETNAME
      then (EOK, Some (case tn_dirent (tnode_of s node) of None \<Rightarrow> [] | Some name \<Rightarrow> name))
      else (ENOTSUP, None))"

definition com_fs_tmpfs_set_other :: "nat \<Rightarrow> nat \<Rightarrow> tmpfs_state \<Rightarrow> tmpfs_state" where
  "com_fs_tmpfs_set_other v data s = set_data (extra (vnodes s v)) (T_Other data) s"

definition com_fs_tmpfs_get_other :: "nat \<Rightarrow> tmpfs_state \<Rightarrow> nat option" where
  "com_fs_tmpfs_get_other v s = (case tn_data (tnode_of s v) of T_Other d \<Rightarrow> Some d | _ \<Rightarrow> None)"

section \<open>The table of operations\<close>

definition no_ops :: "'a com_vnode_ops" where
  "no_ops = \<lparr>op_close = None, op_lookup = None, op_create = None, op_mkdir = None, op_link = None, op_unlink = None, op_read = None,
     op_write = None, op_readv = None, op_writev = None, op_symlink = None, op_readlink = None, op_truncate = None, op_open = None,
     op_mksocket = None, op_isatty = None, op_readdir = None, op_ioctl = None, op_stat = None, op_vnctl = None, op_poll_head = None,
     op_poll = None, op_mmap = None\<rparr>"

definition TmpfsNodeOps :: "unit tmpfs_state_ext com_vnode_ops" where
  "TmpfsNodeOps = no_ops\<lparr>
     op_create := Some com_fs_tmpfs_create, op_mkdir := Some com_fs_tmpfs_mkdir, op_lookup := Some com_fs_tmpfs_lookup,
     op_read := Some com_fs_tmpfs_read_node, op_write := Some com_fs_tmpfs_write_node, op_symlink := Some com_fs_tmpfs_symlink,
     op_readlink := Some com_fs_tmpfs_readlink, op_unlink := Some (com_fs_tmpfs_unlink (\<lambda>_. no_ops)), op_stat := Some com_fs_tmpfs_stat,
     op_truncate := Some com_fs_tmpfs_truncate_node, op_readdir := Some com_fs_tmpfs_readdir, op_vnctl := Some com_fs_tmpfs_vnctl,
     op_mksocket := Some com_fs_tmpfs_mksocket\<rparr>"

definition tmpfs_optab :: tmpfs_optab where
  "tmpfs_optab = (\<lambda>_. TmpfsNodeOps)"

section \<open>Trees and their operations\<close>

text \<open>What a directory holds and where a symbolic link points, over the state alone.\<close>

definition tmpfs_child :: "tmpfs_state \<Rightarrow> nat \<Rightarrow> string \<Rightarrow> nat option" where
  "tmpfs_child s v c =
     (if c = ''..'' then (case tn_parent (tnode_of s v) of None \<Rightarrow> Some v | Some p \<Rightarrow> tn_vnode (tnodes s p))
      else Option.bind (find (\<lambda>(_, n). n = c) (dir_entries s (extra (vnodes s v)))) (\<lambda>(t, _). tn_vnode (tnodes s t)))"

definition tmpfs_target :: "tmpfs_state \<Rightarrow> nat \<Rightarrow> string" where
  "tmpfs_target s v = (case tn_data (tnode_of s v) of T_Link p \<Rightarrow> p | _ \<Rightarrow> [])"

text \<open>Operations on nodes, through the virtual file system, and mounting another file system.\<close>

datatype tree_op = Mk_File nat string | Mk_Dir nat string | Mk_Link nat string string | Mk_Socket nat string | Remove nat bool | Mount nat

fun exec :: "tree_op \<Rightarrow> tmpfs_state \<Rightarrow> tmpfs_state res" where
  "exec (Mk_File d name) s = res_bind (com_fs_vfs_create tmpfs_optab d name 0 s) (\<lambda>(_, _, s'). Ok s')"
| "exec (Mk_Dir d name) s = res_bind (com_fs_vfs_mkdir tmpfs_optab d name 0 s) (\<lambda>(_, _, s'). Ok s')"
| "exec (Mk_Link d name path) s = res_bind (com_fs_vfs_symlink tmpfs_optab d name path s) (\<lambda>(_, s'). Ok s')"
| "exec (Mk_Socket d name) s = res_bind (com_fs_vfs_mksocket tmpfs_optab d name 0 s) (\<lambda>(_, _, s'). Ok s')"
| "exec (Remove v removedir) s = res_bind (com_fs_vfs_unlink tmpfs_optab v removedir s) (\<lambda>(_, s'). Ok s')"
| "exec (Mount v) s = res_bind (com_fs_tmpfs_mount (Some v) s) (\<lambda>(_, _, s'). Ok s')"

definition live_dir :: "tmpfs_state \<Rightarrow> nat \<Rightarrow> bool" where
  "live_dir s v \<longleftrightarrow> v < next_vnode s \<and> vn_type (vnodes s v) = E_COM_VNODE_TYPE_DIR"

text \<open>A node is removed at most once; a file needs a page.\<close>

fun op_valid :: "tree_op \<Rightarrow> tmpfs_state \<Rightarrow> bool" where
  "op_valid (Mk_File d name) s = (live_dir s d \<and> pg_free (pmem s) \<noteq> [])"
| "op_valid (Mk_Dir d name) s = live_dir s d"
| "op_valid (Mk_Link d name path) s = live_dir s d"
| "op_valid (Mk_Socket d name) s = live_dir s d"
| "op_valid (Remove v removedir) s =
     (v < next_vnode s \<and>
      (case tn_parent (tnode_of s v) of None \<Rightarrow> True | Some p \<Rightarrow> extra (vnodes s v) \<in> set (map fst (dir_entries s p))))"
| "op_valid (Mount v) s = live_dir s v"

definition empty_state :: "page_mem \<Rightarrow> tmpfs_state" where
  "empty_state pm =
     \<lparr>vnodes = (\<lambda>_. \<lparr>mountpointof = None, vn_vfs = 0, vn_ops = 0, vn_type = E_COM_VNODE_TYPE_FILE, num_ref = 0, isroot = False, extra = 0\<rparr>),
      vfss = (\<lambda>_. \<lparr>mountpoint = None, vfs_root = 0\<rparr>), next_vnode = 0, tnodes = (\<lambda>_. zero_tnode), next_tnode = 0, next_vfs = 0, pmem = pm\<rparr>"

text \<open>The trees that grow from a mounted root.\<close>

inductive reachable :: "page_mem \<Rightarrow> tmpfs_state \<Rightarrow> bool" for pm where
  reachable_root: "com_fs_tmpfs_mount None (empty_state pm) = Ok (e, fs, s) \<Longrightarrow> reachable pm s"
| reachable_step: "reachable pm s \<Longrightarrow> op_valid a s \<Longrightarrow> exec a s = Ok s' \<Longrightarrow> reachable pm s'"

text \<open>
  Well-formed trees. The two kinds of nodes correspond; directories and links have the contents of
  their type; parents are directories; the entries of a directory are nodes with that name and that
  parent, each once; a mounted root is younger than what it is mounted on.
\<close>

definition is_dir_data :: "tmpfs_contents \<Rightarrow> bool" where
  "is_dir_data d \<longleftrightarrow> (\<exists>es. d = T_Dir es)"

definition is_link_data :: "tmpfs_contents \<Rightarrow> bool" where
  "is_link_data d \<longleftrightarrow> (\<exists>p. d = T_Link p)"

definition entries_ok :: "tmpfs_state \<Rightarrow> nat \<Rightarrow> (nat \<times> string) list \<Rightarrow> bool" where
  "entries_ok s t es \<longleftrightarrow> distinct (map fst es) \<and>
     (\<forall>x n. (x, n) \<in> set es \<longrightarrow> x < next_tnode s \<and> tn_parent (tnodes s x) = Some t \<and> tn_dirent (tnodes s x) = Some n)"

definition nodes_wf :: "tmpfs_state \<Rightarrow> bool" where
  "nodes_wf s \<longleftrightarrow>
     (\<forall>v < next_vnode s. extra (vnodes s v) < next_tnode s \<and> tn_vnode (tnode_of s v) = Some v) \<and>
     (\<forall>t < next_tnode s. \<exists>v < next_vnode s. tn_vnode (tnodes s t) = Some v \<and> extra (vnodes s v) = t) \<and>
     (\<forall>v \<ge> next_vnode s. vn_type (vnodes s v) = E_COM_VNODE_TYPE_FILE \<and> \<not> isroot (vnodes s v) \<and> mountpointof (vnodes s v) = None) \<and>
     (\<forall>v. vn_type (vnodes s v) = E_COM_VNODE_TYPE_DIR \<longrightarrow> is_dir_data (tn_data (tnode_of s v))) \<and>
     (\<forall>v. vn_type (vnodes s v) = E_COM_VNODE_TYPE_LINK \<longrightarrow> is_link_data (tn_data (tnode_of s v))) \<and>
     (\<forall>t < next_tnode s. \<forall>p. tn_parent (tnodes s t) = Some p \<longrightarrow> p < next_tnode s \<and> is_dir_data (tn_data (tnodes s p))) \<and>
     (\<forall>t < next_tnode s. entries_ok s t (dir_entries s t))"

definition edges_wf :: "'a vfs_state_scheme \<Rightarrow> nat \<Rightarrow> bool" where
  "edges_wf s nfs \<longleftrightarrow>
     (\<forall>v w. (w, v) \<in> up_edge s \<longrightarrow> w < v) \<and> (\<forall>v w. (w, v) \<in> down_edge s \<longrightarrow> v < w \<and> w < next_vnode s) \<and>
     (\<forall>v. isroot (vnodes s v) \<longrightarrow> vn_vfs (vnodes s v) < nfs) \<and> (\<forall>v fs. mountpointof (vnodes s v) = Some fs \<longrightarrow> fs < nfs)"

definition tmpfs_wf :: "tmpfs_state \<Rightarrow> bool" where
  "tmpfs_wf s \<longleftrightarrow> nodes_wf s \<and> edges_wf s (next_vfs s)"

text \<open>The state after a node is added to the directory \<open>d\<close>.\<close>

definition add_node :: "nat \<Rightarrow> com_vnode_type \<Rightarrow> string \<Rightarrow> tmpfs_contents \<Rightarrow> page_mem \<Rightarrow> tmpfs_state \<Rightarrow> tmpfs_state" where
  "add_node d type name data pm s =
     (let p = extra (vnodes s d); t = next_tnode s; v = next_vnode s in
      s\<lparr>vnodes := (vnodes s)(v := \<lparr>mountpointof = None, vn_vfs = vn_vfs (vnodes s d), vn_ops = tmpfs_ops_id, vn_type = type, num_ref = 1, isroot = False, extra = t\<rparr>),
        next_vnode := v + 1,
        tnodes := (tnodes s)(t := \<lparr>tn_vnode = Some v, num_links = 1, tn_dirent = Some name, tn_parent = Some p, tn_data = data\<rparr>,
                             p := (tnodes s p)\<lparr>tn_data := T_Dir (dir_entries s p @ [(t, name)])\<rparr>),
        next_tnode := t + 1, pmem := pm\<rparr>)"

section \<open>Well-formed trees\<close>

lemma nodes_wfD:
  assumes "nodes_wf s"
  shows "v < next_vnode s \<Longrightarrow> extra (vnodes s v) < next_tnode s" "v < next_vnode s \<Longrightarrow> tn_vnode (tnode_of s v) = Some v"
    "t < next_tnode s \<Longrightarrow> \<exists>v < next_vnode s. tn_vnode (tnodes s t) = Some v \<and> extra (vnodes s v) = t"
    "vn_type (vnodes s v) \<noteq> E_COM_VNODE_TYPE_FILE \<Longrightarrow> v < next_vnode s"
    "vn_type (vnodes s v) = E_COM_VNODE_TYPE_DIR \<Longrightarrow> is_dir_data (tn_data (tnode_of s v))"
    "vn_type (vnodes s v) = E_COM_VNODE_TYPE_LINK \<Longrightarrow> is_link_data (tn_data (tnode_of s v))"
    "t < next_tnode s \<Longrightarrow> tn_parent (tnodes s t) = Some p \<Longrightarrow> p < next_tnode s \<and> is_dir_data (tn_data (tnodes s p))"
    "t < next_tnode s \<Longrightarrow> entries_ok s t (dir_entries s t)"
    "next_vnode s \<le> v \<Longrightarrow> \<not> isroot (vnodes s v) \<and> mountpointof (vnodes s v) = None \<and> vn_type (vnodes s v) = E_COM_VNODE_TYPE_FILE"
  using assms unfolding nodes_wf_def by (metis not_less)+

lemma contents_simps [simp]:
  "is_dir_data (T_Dir es)" "\<not> is_dir_data T_Zero" "\<not> is_dir_data (T_File f)" "\<not> is_dir_data (T_Link l)" "\<not> is_dir_data (T_Other x)" "is_link_data (T_Link l)"
  by (simp_all add: is_dir_data_def is_link_data_def)

lemma dir_data: "is_dir_data (tn_data (tnodes s t)) \<Longrightarrow> tn_data (tnodes s t) = T_Dir (dir_entries s t)"
  by (auto simp: is_dir_data_def dir_entries_def)

text \<open>The creating operations all add a node.\<close>

lemmas create_defs = tmpfs_optab_def TmpfsNodeOps_def create_common_def com_fs_vfs_alloc_vnode_def set_tnode_def set_data_def
  set_parent_def insert_entry_def Let_def add_node_def zero_tnode_def fun_eq_iff

lemma live_dirD:
  assumes "nodes_wf s" and "live_dir s d"
  shows "d < next_vnode s" "vn_type (vnodes s d) = E_COM_VNODE_TYPE_DIR" "extra (vnodes s d) < next_tnode s"
    "tn_data (tnode_of s d) = T_Dir (dir_entries s (extra (vnodes s d)))"
  using assms nodes_wfD(1,5) [OF assms(1)] dir_data by (auto simp: live_dir_def)

lemma create_adds:
  assumes wf: "nodes_wf s" and d: "live_dir s d" and free: "pg_free (pmem s) \<noteq> []"
  shows "\<exists>f pm. com_fs_vfs_create tmpfs_optab d name attr s = Ok (EOK, Some (next_vnode s), add_node d E_COM_VNODE_TYPE_FILE name (T_File f) pm s)"
proof -
  obtain f pm where f: "new_tmpfs_file (pmem s) = Ok (f, pm)" using new_tmpfs_file_spec [OF free] by blast
  show ?thesis using live_dirD [OF wf d] f
    by (intro exI [of _ f] exI [of _ pm]) (auto simp: com_fs_vfs_create_def com_fs_tmpfs_create_def create_defs)
qed

lemma mkdir_adds:
  assumes "nodes_wf s" and "live_dir s d"
  shows "com_fs_vfs_mkdir tmpfs_optab d name attr s = Ok (EOK, Some (next_vnode s), add_node d E_COM_VNODE_TYPE_DIR name (T_Dir []) (pmem s) s)"
  using live_dirD [OF assms] by (auto simp: com_fs_vfs_mkdir_def com_fs_tmpfs_mkdir_def create_defs)

lemma symlink_adds:
  assumes "nodes_wf s" and "live_dir s d"
  shows "com_fs_vfs_symlink tmpfs_optab d name path s = Ok (EOK, add_node d E_COM_VNODE_TYPE_LINK name (T_Link path) (pmem s) s)"
  using live_dirD [OF assms] by (auto simp: com_fs_vfs_symlink_def com_fs_tmpfs_symlink_def create_defs)

lemma mksocket_adds:
  assumes "nodes_wf s" and "live_dir s d"
  shows "com_fs_vfs_mksocket tmpfs_optab d name attr s = Ok (EOK, Some (next_vnode s), add_node d E_COM_VNODE_TYPE_SOCKET name T_Zero (pmem s) s)"
  using live_dirD [OF assms] by (auto simp: com_fs_vfs_mksocket_def com_fs_tmpfs_mksocket_def create_defs)

lemma add_node_entries:
  assumes "nodes_wf s" and "live_dir s d"
  shows "dir_entries (add_node d ty name data pm s) t =
    (if t = extra (vnodes s d) then dir_entries s t @ [(next_tnode s, name)]
     else if t = next_tnode s then (case data of T_Dir es \<Rightarrow> es | _ \<Rightarrow> []) else dir_entries s t)"
  using live_dirD [OF assms] by (auto simp: dir_entries_def add_node_def Let_def)

lemma nodes_wf_add_node:
  assumes wf: "nodes_wf s" and d: "live_dir s d"
    and ty: "ty = E_COM_VNODE_TYPE_DIR \<Longrightarrow> data = T_Dir []" "ty = E_COM_VNODE_TYPE_LINK \<Longrightarrow> is_link_data data" "ty \<noteq> E_COM_VNODE_TYPE_DIR \<Longrightarrow> \<not> is_dir_data data"
  shows "nodes_wf (add_node d ty name data pm s)"
proof -
  let ?s = "add_node d ty name data pm s" and ?p = "extra (vnodes s d)" and ?t = "next_tnode s" and ?v = "next_vnode s"
  note D = live_dirD [OF wf d] and W = nodes_wfD [OF wf]
  have p: "?p < ?t" by (rule D(3))
  have N: "next_vnode ?s = Suc ?v" "next_tnode ?s = Suc ?t" by (simp_all add: add_node_def Let_def)
  have V: "vnodes ?s x = (if x = ?v then \<lparr>mountpointof = None, vn_vfs = vn_vfs (vnodes s d), vn_ops = tmpfs_ops_id, vn_type = ty, num_ref = 1, isroot = False, extra = ?t\<rparr> else vnodes s x)" for x
    by (simp add: add_node_def Let_def)
  have X: "tn_vnode (tnodes ?s x) = (if x = ?t then Some ?v else tn_vnode (tnodes s x))"
      "tn_parent (tnodes ?s x) = (if x = ?t then Some ?p else tn_parent (tnodes s x))"
      "tn_dirent (tnodes ?s x) = (if x = ?t then Some name else tn_dirent (tnodes s x))"
      "is_dir_data (tn_data (tnodes ?s x)) = (if x = ?t then is_dir_data data else is_dir_data (tn_data (tnodes s x)))"
      "is_link_data (tn_data (tnodes ?s x)) = (if x = ?t then is_link_data data else is_link_data (tn_data (tnodes s x)))" for x
    using p D(4) by (auto simp: add_node_def Let_def is_dir_data_def is_link_data_def)
  note E = add_node_entries [OF wf d, of ty name data pm]
  have ent: "entries_ok ?s x (dir_entries ?s x)" if "x < Suc ?t" for x
  proof (cases "x = ?t")
    case True
    then have "dir_entries ?s x = []" using E ty(1,3) p by (auto simp: is_dir_data_def split: tmpfs_contents.splits)
    then show ?thesis by (simp add: entries_ok_def)
  next
    case False
    then have ok: "entries_ok s x (dir_entries s x)" using W(8) that by simp
    then have "?t \<notin> fst ` set (dir_entries s x)" unfolding entries_ok_def by (metis imageE less_irrefl prod.collapse)
    then show ?thesis using ok False p E by (auto simp: entries_ok_def X N less_Suc_eq)
  qed
  show ?thesis
    unfolding nodes_wf_def N
  proof (intro conjI allI impI)
    fix v assume v: "v < Suc ?v"
    show "extra (vnodes ?s v) < Suc ?t" using v W(1) [of v] by (auto simp: V less_Suc_eq)
    show "tn_vnode (tnode_of ?s v) = Some v" using v W(1,2) [of v] by (auto simp: V X less_Suc_eq)
  next
    fix t assume t: "t < Suc ?t"
    show "\<exists>v<Suc ?v. tn_vnode (tnodes ?s t) = Some v \<and> extra (vnodes ?s v) = t"
    proof (cases "t = ?t")
      case True
      then show ?thesis by (intro exI [of _ ?v]) (simp add: V X)
    next
      case False
      then obtain v where "v < ?v" "tn_vnode (tnodes s t) = Some v" "extra (vnodes s v) = t" using W(3) [of t] t by auto
      then show ?thesis using False by (intro exI [of _ v]) (simp add: V X)
    qed
  next
    fix v assume "Suc ?v \<le> v"
    then show "vn_type (vnodes ?s v) = E_COM_VNODE_TYPE_FILE" "\<not> isroot (vnodes ?s v)" "mountpointof (vnodes ?s v) = None" using W(9) [of v] by (auto simp: V)
  next
    fix v assume "vn_type (vnodes ?s v) = E_COM_VNODE_TYPE_DIR"
    then show "is_dir_data (tn_data (tnode_of ?s v))" using ty(1) W(1,4,5) [of v] by (auto simp: V X split: if_splits)
  next
    fix v assume "vn_type (vnodes ?s v) = E_COM_VNODE_TYPE_LINK"
    then show "is_link_data (tn_data (tnode_of ?s v))" using ty(2) W(1,4,6) [of v] by (auto simp: V X split: if_splits)
  next
    fix t q assume "t < Suc ?t" "tn_parent (tnodes ?s t) = Some q"
    then show "q < Suc ?t" "is_dir_data (tn_data (tnodes ?s q))" using W(7) [of t q] p W(5) [of d] D(2) by (auto simp: X less_Suc_eq split: if_splits)
  qed (use ent in simp)
qed

lemma edges_add_node:
  assumes "nodes_wf s" and "edges_wf s nfs"
  shows "edges_wf (add_node d ty name data pm s) nfs"
proof -
  let ?s = "add_node d ty name data pm s" and ?v = "next_vnode s"
  have V: "isroot (vnodes ?s v) = isroot (vnodes s v)" "mountpointof (vnodes ?s v) = mountpointof (vnodes s v)" "vfss ?s = vfss s"
      "v \<noteq> ?v \<Longrightarrow> vn_vfs (vnodes ?s v) = vn_vfs (vnodes s v)" for v
    using nodes_wfD(9) [OF assms(1), of ?v] by (auto simp: add_node_def Let_def)
  have root: "isroot (vnodes s v) \<Longrightarrow> v \<noteq> ?v" for v using nodes_wfD(9) [OF assms(1), of ?v] by auto
  have "up_edge ?s = up_edge s" using V root by (auto simp: up_edge_def)
  moreover have "down_edge ?s = down_edge s" using V by (auto simp: down_edge_def)
  moreover have "next_vnode ?s = Suc ?v" by (simp add: add_node_def Let_def)
  ultimately show ?thesis using assms(2) V root unfolding edges_wf_def by (auto simp: less_Suc_eq)
qed

lemma wf_add_node:
  assumes "tmpfs_wf s" and "live_dir s d"
    and "ty = E_COM_VNODE_TYPE_DIR \<Longrightarrow> data = T_Dir []" "ty = E_COM_VNODE_TYPE_LINK \<Longrightarrow> is_link_data data" "ty \<noteq> E_COM_VNODE_TYPE_DIR \<Longrightarrow> \<not> is_dir_data data"
  shows "tmpfs_wf (add_node d ty name data pm s)"
proof -
  have "next_vfs (add_node d ty name data pm s) = next_vfs s" by (simp add: add_node_def Let_def)
  then show ?thesis using assms nodes_wf_add_node edges_add_node unfolding tmpfs_wf_def by metis
qed

text \<open>Reference counts are no part of the tree.\<close>

lemma upd_ref_tree [simp]:
  "tnodes (upd_ref f v s) = tnodes s" "next_tnode (upd_ref f v s) = next_tnode s" "next_vfs (upd_ref f v s) = next_vfs s"
  "next_vnode (upd_ref f v s) = next_vnode s" "vfss (upd_ref f v s) = vfss s" "vn_type (vnodes (upd_ref f v s) x) = vn_type (vnodes s x)"
  "extra (vnodes (upd_ref f v s) x) = extra (vnodes s x)" "isroot (vnodes (upd_ref f v s) x) = isroot (vnodes s x)"
  "mountpointof (vnodes (upd_ref f v s) x) = mountpointof (vnodes s x)" "vn_vfs (vnodes (upd_ref f v s) x) = vn_vfs (vnodes s x)"
  by (simp_all add: upd_ref_def)

lemma wf_upd_ref [simp]: "tmpfs_wf (upd_ref f v s) = tmpfs_wf s"
  by (simp add: tmpfs_wf_def nodes_wf_def edges_wf_def entries_ok_def dir_entries_def up_edge_def down_edge_def)

lemma wf_remove_entry:
  assumes wf: "tmpfs_wf s" and p: "p < next_tnode s" "is_dir_data (tn_data (tnodes s p))"
  shows "tmpfs_wf (set_data p (T_Dir (filter P (dir_entries s p))) s)" (is "tmpfs_wf ?s")
proof -
  have X: "vnodes ?s = vnodes s" "vfss ?s = vfss s" "next_vnode ?s = next_vnode s" "next_tnode ?s = next_tnode s" "next_vfs ?s = next_vfs s"
      "tn_vnode (tnodes ?s x) = tn_vnode (tnodes s x)" "tn_parent (tnodes ?s x) = tn_parent (tnodes s x)" "tn_dirent (tnodes ?s x) = tn_dirent (tnodes s x)"
      "is_dir_data (tn_data (tnodes ?s x)) = is_dir_data (tn_data (tnodes s x))" "is_link_data (tn_data (tnodes ?s x)) = is_link_data (tn_data (tnodes s x))"
      "dir_entries ?s x = (if x = p then filter P (dir_entries s p) else dir_entries s x)" for x
    using p(2) by (auto simp: set_data_def set_tnode_def is_dir_data_def is_link_data_def dir_entries_def)
  have n: "nodes_wf s" "edges_wf s (next_vfs s)" using wf by (simp_all add: tmpfs_wf_def)
  have "entries_ok ?s t (dir_entries ?s t)" if "t < next_tnode s" for t
    using nodes_wfD(8) [OF n(1) that] by (auto simp: entries_ok_def X distinct_map_filter)
  then have "nodes_wf ?s" using n(1) unfolding nodes_wf_def X by blast
  moreover have "edges_wf ?s (next_vfs ?s)" using n(2) by (simp add: edges_wf_def up_edge_def down_edge_def X)
  ultimately show ?thesis by (simp add: tmpfs_wf_def)
qed

lemma remove_ok:
  assumes wf: "tmpfs_wf s" and v: "op_valid (Remove v r) s"
  shows "\<exists>e s'. com_fs_vfs_unlink tmpfs_optab v r s = Ok (e, s') \<and> tmpfs_wf s'"
proof -
  have n: "nodes_wf s" using wf by (simp add: tmpfs_wf_def)
  let ?t = "extra (vnodes s v)"
  have t: "?t < next_tnode s" using v nodes_wfD(1) [OF n] by simp
  have rel: "COM_FS_VFS_VNODE_RELEASE (\<lambda>_. no_ops) (Some v) s' = Ok (upd_ref (\<lambda>n. n - 1) v s')" for s' :: tmpfs_state
    by (simp add: COM_FS_VFS_VNODE_RELEASE_def Let_def com_fs_vfs_close_def no_ops_def)
  have ul: "com_fs_vfs_unlink tmpfs_optab v r s = com_fs_tmpfs_unlink (\<lambda>_. no_ops) v r s"
    by (simp add: com_fs_vfs_unlink_def tmpfs_optab_def TmpfsNodeOps_def)
  show ?thesis
  proof (cases "tn_parent (tnodes s ?t)")
    case None
    then show ?thesis using wf by (auto simp: ul com_fs_tmpfs_unlink_def Let_def)
  next
    case (Some p)
    then have "p < next_tnode s" "is_dir_data (tn_data (tnodes s p))" using nodes_wfD(7) [OF n t] by auto
    then show ?thesis using Some v wf wf_remove_entry [OF wf, of p "\<lambda>(x, _). x \<noteq> ?t"] by (auto simp: ul com_fs_tmpfs_unlink_def Let_def rel)
  qed
qed

text \<open>Mounting adds a root; the root of the whole tree is mounted on nothing.\<close>

definition add_root :: "nat option \<Rightarrow> tmpfs_state \<Rightarrow> tmpfs_state" where
  "add_root w s =
     (let fs = next_vfs s; t = next_tnode s; v = next_vnode s;
          vs = (vnodes s)(v := \<lparr>mountpointof = None, vn_vfs = fs, vn_ops = tmpfs_ops_id, vn_type = E_COM_VNODE_TYPE_DIR, num_ref = 1, isroot = True, extra = t\<rparr>)
      in s\<lparr>vnodes := (case w of None \<Rightarrow> vs | Some m \<Rightarrow> vs(m := (vs m)\<lparr>mountpointof := Some fs\<rparr>)),
           vfss := (vfss s)(fs := \<lparr>mountpoint = w, vfs_root = v\<rparr>), next_vnode := v + 1,
           tnodes := (tnodes s)(t := \<lparr>tn_vnode = Some v, num_links = 0, tn_dirent = None, tn_parent = None, tn_data = T_Dir []\<rparr>),
           next_tnode := t + 1, next_vfs := fs + 1\<rparr>)"

lemma mount_adds:
  assumes "\<And>m. w = Some m \<Longrightarrow> live_dir s m"
  shows "com_fs_tmpfs_mount w s = Ok (EOK, next_vfs s, add_root w s)"
  using assms by (cases w) (auto simp: com_fs_tmpfs_mount_def com_fs_vfs_alloc_vnode_def add_root_def set_tnode_def zero_tnode_def Let_def live_dir_def kassert_def)

lemma wf_add_root:
  assumes wf: "tmpfs_wf s" and m: "\<And>m. w = Some m \<Longrightarrow> live_dir s m"
  shows "tmpfs_wf (add_root w s)"
proof -
  let ?s = "add_root w s" and ?v = "next_vnode s" and ?t = "next_tnode s" and ?fs = "next_vfs s"
  have n: "nodes_wf s" and e: "edges_wf s ?fs" using wf by (simp_all add: tmpfs_wf_def)
  note W = nodes_wfD [OF n]
  have lt: "w = Some x \<Longrightarrow> x < ?v" for x using m by (auto simp: live_dir_def)
  have N: "next_vnode ?s = Suc ?v" "next_tnode ?s = Suc ?t" "next_vfs ?s = Suc ?fs" by (simp_all add: add_root_def Let_def)
  have V: "vn_type (vnodes ?s x) = (if x = ?v then E_COM_VNODE_TYPE_DIR else vn_type (vnodes s x))" "extra (vnodes ?s x) = (if x = ?v then ?t else extra (vnodes s x))"
      "isroot (vnodes ?s x) = (x = ?v \<or> isroot (vnodes s x))" "vn_vfs (vnodes ?s x) = (if x = ?v then ?fs else vn_vfs (vnodes s x))"
      "mountpointof (vnodes ?s x) = (if w = Some x then Some ?fs else if x = ?v then None else mountpointof (vnodes s x))"
      "vfss ?s i = (if i = ?fs then \<lparr>mountpoint = w, vfs_root = ?v\<rparr> else vfss s i)" for x i
    using lt by (auto simp: add_root_def Let_def split: option.splits)
  have X: "tnodes ?s x = (if x = ?t then \<lparr>tn_vnode = Some ?v, num_links = 0, tn_dirent = None, tn_parent = None, tn_data = T_Dir []\<rparr> else tnodes s x)" for x
    by (simp add: add_root_def Let_def)
  have E: "dir_entries ?s x = (if x = ?t then [] else dir_entries s x)" for x by (simp add: dir_entries_def X)
  have ent: "entries_ok ?s x (dir_entries ?s x)" if "x < Suc ?t" for x
  proof (cases "x = ?t")
    case False
    then show ?thesis using W(8) [of x] that by (auto simp: entries_ok_def E X N less_Suc_eq)
  qed (simp add: entries_ok_def E)
  have "nodes_wf ?s"
    unfolding nodes_wf_def N
  proof (intro conjI allI impI)
    fix v assume v: "v < Suc ?v"
    show "extra (vnodes ?s v) < Suc ?t" using v W(1) [of v] by (auto simp: V less_Suc_eq)
    show "tn_vnode (tnode_of ?s v) = Some v" using v W(1,2) [of v] by (auto simp: V X less_Suc_eq)
  next
    fix t assume t: "t < Suc ?t"
    show "\<exists>v<Suc ?v. tn_vnode (tnodes ?s t) = Some v \<and> extra (vnodes ?s v) = t"
    proof (cases "t = ?t")
      case True
      then show ?thesis by (intro exI [of _ ?v]) (simp add: V X)
    next
      case False
      then obtain v where "v < ?v" "tn_vnode (tnodes s t) = Some v" "extra (vnodes s v) = t" using W(3) [of t] t by auto
      then show ?thesis using False by (intro exI [of _ v]) (simp add: V X)
    qed
  next
    fix v assume "Suc ?v \<le> v"
    then show "vn_type (vnodes ?s v) = E_COM_VNODE_TYPE_FILE" "\<not> isroot (vnodes ?s v)" "mountpointof (vnodes ?s v) = None" using W(9) [of v] lt [of v] by (auto simp: V)
  next
    fix v assume "vn_type (vnodes ?s v) = E_COM_VNODE_TYPE_DIR"
    then show "is_dir_data (tn_data (tnode_of ?s v))" using W(1,4,5) [of v] by (auto simp: V X split: if_splits)
  next
    fix v assume "vn_type (vnodes ?s v) = E_COM_VNODE_TYPE_LINK"
    then show "is_link_data (tn_data (tnode_of ?s v))" using W(1,4,6) [of v] by (auto simp: V X split: if_splits)
  next
    fix t q assume "t < Suc ?t" "tn_parent (tnodes ?s t) = Some q"
    then show "q < Suc ?t" "is_dir_data (tn_data (tnodes ?s q))" using W(7) [of t q] by (auto simp: X less_Suc_eq split: if_splits)
  qed (use ent in simp)
  moreover have "edges_wf ?s (Suc ?fs)"
    unfolding edges_wf_def N
  proof (intro conjI allI impI)
    have E4: "\<And>v x. (x, v) \<in> up_edge s \<Longrightarrow> x < v" "\<And>v x. (x, v) \<in> down_edge s \<Longrightarrow> v < x \<and> x < ?v"
        "\<And>v. isroot (vnodes s v) \<Longrightarrow> vn_vfs (vnodes s v) < ?fs" "\<And>v i. mountpointof (vnodes s v) = Some i \<Longrightarrow> i < ?fs"
      using e unfolding edges_wf_def by blast+
    show "x < v" if "(x, v) \<in> up_edge ?s" for v x
      using that lt E4(1) [of x v] E4(3) [of v] by (auto simp: up_edge_def V split: if_splits)
    show "isroot (vnodes ?s v) \<Longrightarrow> vn_vfs (vnodes ?s v) < Suc ?fs" for v using E4(3) [of v] by (auto simp: V split: if_splits)
    show "mountpointof (vnodes ?s v) = Some i \<Longrightarrow> i < Suc ?fs" for v i using E4(4) [of v i] by (auto simp: V split: if_splits)
    have "v < x \<and> x < Suc ?v" if d: "(x, v) \<in> down_edge ?s" for v x
    proof (cases "w = Some v")
      case True
      then have "mountpointof (vnodes ?s v) = Some ?fs" "vfs_root (vfss ?s ?fs) = ?v" using V(5) [of v] V(6) [of ?fs] by simp_all
      then have "x = ?v" using d by (simp add: down_edge_def)
      then show ?thesis using lt True by simp
    next
      case False
      then obtain i where i: "v \<noteq> ?v" "mountpointof (vnodes s v) = Some i" "x = vfs_root (vfss ?s i)" using d by (auto simp: down_edge_def V split: if_splits)
      then have "(x, v) \<in> down_edge s" using E4(4) [of v i] by (auto simp: down_edge_def V)
      then show ?thesis using E4(2) [of x v] by auto
    qed
    then show "(x, v) \<in> down_edge ?s \<Longrightarrow> v < x" "(x, v) \<in> down_edge ?s \<Longrightarrow> x < Suc ?v" for v x by blast+
  qed
  ultimately show ?thesis by (simp add: tmpfs_wf_def N)
qed

lemma wf_empty: "tmpfs_wf (empty_state pm)"
  by (simp add: tmpfs_wf_def nodes_wf_def edges_wf_def empty_state_def up_edge_def down_edge_def)

lemma exec_ok:
  assumes wf: "tmpfs_wf s" and v: "op_valid a s"
  shows "\<exists>s'. exec a s = Ok s' \<and> tmpfs_wf s'"
proof -
  have n: "nodes_wf s" using wf by (simp add: tmpfs_wf_def)
  show ?thesis
  proof (cases a)
    case (Mk_File d name)
    then obtain f pm where "com_fs_vfs_create tmpfs_optab d name 0 s = Ok (EOK, Some (next_vnode s), add_node d E_COM_VNODE_TYPE_FILE name (T_File f) pm s)"
      using create_adds [OF n, of d name 0] v by auto
    then show ?thesis using Mk_File v wf_add_node [OF wf, of d E_COM_VNODE_TYPE_FILE "T_File f"] by (simp add: is_dir_data_def)
  next
    case (Mk_Dir d name)
    then show ?thesis using v mkdir_adds [OF n, of d name 0] wf_add_node [OF wf, of d E_COM_VNODE_TYPE_DIR "T_Dir []"] by simp
  next
    case (Mk_Link d name path)
    then show ?thesis using v symlink_adds [OF n, of d name path] wf_add_node [OF wf, of d E_COM_VNODE_TYPE_LINK "T_Link path"] by (simp add: is_link_data_def is_dir_data_def)
  next
    case (Mk_Socket d name)
    then show ?thesis using v mksocket_adds [OF n, of d name 0] wf_add_node [OF wf, of d E_COM_VNODE_TYPE_SOCKET T_Zero] by (simp add: is_dir_data_def)
  next
    case (Remove x r)
    then show ?thesis using v remove_ok [OF wf, of x r] by auto
  next
    case (Mount x)
    then show ?thesis using v mount_adds [of "Some x" s] wf_add_root [OF wf, of "Some x"] by simp
  qed
qed

lemma reachable_wf: "reachable pm s \<Longrightarrow> tmpfs_wf s"
proof (induction rule: reachable.induct)
  case (reachable_root e fs s)
  then show ?case using mount_adds [of None "empty_state pm"] wf_add_root [OF wf_empty, of None] by simp
next
  case (reachable_step s a s')
  then show ?case using exec_ok by fastforce
qed

section \<open>The tree as a provider of path resolution\<close>

lemma same_tree_tmpfs:
  assumes "same_tree s s'"
  shows "tnodes s' = tnodes s" "next_tnode s' = next_tnode s" "next_vfs s' = next_vfs s" "pmem s' = pmem s"
  using assms by (auto simp: same_tree_def)

lemma same_tree_wf:
  assumes "same_tree s s'"
  shows "tmpfs_wf s' = tmpfs_wf s"
  by (simp add: tmpfs_wf_def nodes_wf_def edges_wf_def entries_ok_def dir_entries_def up_edge_def down_edge_def same_treeD [OF assms] same_tree_tmpfs [OF assms])

lemma tmpfs_lookup_child:
  assumes wf: "nodes_wf s" and d: "vn_type (vnodes s v) = E_COM_VNODE_TYPE_DIR"
  shows "\<exists>s'. com_fs_tmpfs_lookup v c s = Ok (case tmpfs_child s v c of None \<Rightarrow> (ENOENT, None, s') | Some w \<Rightarrow> (EOK, Some w, s')) \<and> same_tree s s'"
proof -
  have v: "v < next_vnode s" using nodes_wfD(4) [OF wf] d by auto
  have t: "extra (vnodes s v) < next_tnode s" by (rule nodes_wfD(1) [OF wf v])
  have data: "tn_data (tnode_of s v) = T_Dir (dir_entries s (extra (vnodes s v)))" by (rule dir_data [OF nodes_wfD(5) [OF wf d]])
  show ?thesis
  proof (cases "c = ''..''")
    case True
    show ?thesis
    proof (cases "tn_parent (tnode_of s v)")
      case None
      then show ?thesis using d True by (intro exI [of _ s]) (simp add: com_fs_tmpfs_lookup_def tmpfs_child_def)
    next
      case (Some p)
      then obtain w where "tn_vnode (tnodes s p) = Some w" using nodes_wfD(3,7) [OF wf] t by blast
      then show ?thesis using d True Some
        by (intro exI [of _ "COM_FS_VFS_VNODE_HOLD w s"]) (simp add: com_fs_tmpfs_lookup_def tmpfs_child_def same_tree_hold)
    qed
  next
    case False
    show ?thesis
    proof (cases "find (\<lambda>(_, n). n = c) (dir_entries s (extra (vnodes s v)))")
      case None
      then show ?thesis using d False data by (intro exI [of _ s]) (simp add: com_fs_tmpfs_lookup_def tmpfs_child_def)
    next
      case (Some e)
      obtain x n where e: "e = (x, n)" by (cases e)
      then have "(x, n) \<in> set (dir_entries s (extra (vnodes s v)))" using Some by (auto simp: find_Some_iff in_set_conv_nth)
      then have "x < next_tnode s" using nodes_wfD(8) [OF wf t] by (auto simp: entries_ok_def)
      then obtain w where "tn_vnode (tnodes s x) = Some w" using nodes_wfD(3) [OF wf] by blast
      then show ?thesis using d False data Some e
        by (intro exI [of _ "COM_FS_VFS_VNODE_HOLD w s"]) (simp add: com_fs_tmpfs_lookup_def tmpfs_child_def same_tree_hold)
    qed
  qed
qed

interpretation tmpfs_tree: file_tree tmpfs_optab tmpfs_wf tmpfs_child tmpfs_target
proof unfold_locales
  fix s s' :: tmpfs_state
  assume t: "same_tree s s'" and wf: "tmpfs_wf s"
  show "tmpfs_wf s' \<and> tmpfs_child s' = tmpfs_child s \<and> tmpfs_target s' = tmpfs_target s"
    using same_tree_wf [OF t] wf
    by (intro conjI ext) (simp_all add: tmpfs_child_def tmpfs_target_def dir_entries_def same_treeD [OF t] same_tree_tmpfs [OF t] cong: option.case_cong)
next
  fix s :: tmpfs_state and v
  show "op_close (ops_of tmpfs_optab s v) = None" by (simp add: tmpfs_optab_def TmpfsNodeOps_def no_ops_def)
next
  fix s :: tmpfs_state and v c
  assume "tmpfs_wf s" "vn_type (vnodes s v) = E_COM_VNODE_TYPE_DIR"
  then show "\<exists>f s'. op_lookup (ops_of tmpfs_optab s v) = Some f \<and> same_tree s s' \<and>
      f v c s = Ok (case tmpfs_child s v c of None \<Rightarrow> (ENOENT, None, s') | Some w \<Rightarrow> (EOK, Some w, s'))"
    using tmpfs_lookup_child [of s v c] by (auto simp: tmpfs_optab_def TmpfsNodeOps_def tmpfs_wf_def)
next
  fix s :: tmpfs_state and v
  assume "tmpfs_wf s" and l: "vn_type (vnodes s v) = E_COM_VNODE_TYPE_LINK"
  then have "is_link_data (tn_data (tnode_of s v))" using nodes_wfD(6) by (simp add: tmpfs_wf_def)
  then show "\<exists>f. op_readlink (ops_of tmpfs_optab s v) = Some f \<and> f v s = Ok (EOK, tmpfs_target s v)"
    using l by (auto simp: tmpfs_optab_def TmpfsNodeOps_def com_fs_tmpfs_readlink_def tmpfs_target_def is_link_data_def)
qed

section \<open>Names\<close>

lemma wf_mounts: "tmpfs_wf s \<Longrightarrow> mounts_wf s"
proof -
  assume "tmpfs_wf s"
  then have e: "\<And>v w. (w, v) \<in> up_edge s \<Longrightarrow> w < v" "\<And>v w. (w, v) \<in> down_edge s \<Longrightarrow> v < w \<and> w < next_vnode s"
    unfolding tmpfs_wf_def edges_wf_def by blast+
  have "up_edge s \<subseteq> less_than" "down_edge s \<subseteq> measure (\<lambda>v. next_vnode s - v)" using e by (fastforce simp: less_than_iff)+
  then show ?thesis unfolding mounts_wf_def by (meson wf_less_than wf_measure wf_subset)
qed

lemma lookup_section_name:
  assumes wf: "tmpfs_wf s" and c: "proper_name c" and d: "vn_type (vnodes s v) = E_COM_VNODE_TYPE_DIR"
    and w: "tmpfs_child s v c = Some w" "mountpointof (vnodes s w) = None"
  shows "lookup_section tmpfs_optab c v s = Some (Ok (Inr (Some v, w), COM_FS_VFS_VNODE_HOLD w s))"
proof -
  have n: "nodes_wf s" using wf by (simp add: tmpfs_wf_def)
  have data: "tn_data (tnode_of s v) = T_Dir (dir_entries s (extra (vnodes s v)))" by (rule dir_data [OF nodes_wfD(5) [OF n d]])
  have cc: "c \<noteq> ''.''" "c \<noteq> ''..''" using c by (simp_all add: proper_name_def)
  have "com_fs_tmpfs_lookup v c s = Ok (EOK, Some w, COM_FS_VFS_VNODE_HOLD w s)"
    using w(1) cc d data by (auto simp: com_fs_tmpfs_lookup_def tmpfs_child_def bind_eq_Some_conv)
  then show ?thesis using cc d w(2)
    by (simp add: lookup_section_def opt_bind_def tmpfs_optab_def TmpfsNodeOps_def descend.simps COM_FS_VFS_VNODE_HOLD_def)
qed

lemma lookup_section_none:
  assumes wf: "tmpfs_wf s" and c: "proper_name c" and d: "vn_type (vnodes s v) = E_COM_VNODE_TYPE_DIR" and w: "tmpfs_child s v c = None"
  shows "\<exists>s'. lookup_section tmpfs_optab c v s = Some (Ok (Inl ENOENT, s')) \<and> same_tree s s'"
proof -
  have "base_of s c v u \<longleftrightarrow> u = v" for u using c by (simp add: base_of_def proper_name_def)
  then show ?thesis using tmpfs_tree.lookup_section_ok [OF wf wf_mounts [OF wf] same_tree_refl, of c v] c d w by (auto simp: proper_name_def)
qed

text \<open>A path of names, and the nodes it leads through.\<close>

fun join_path :: "string list \<Rightarrow> string" where
  "join_path [] = []"
| "join_path (c # cs) = c @ (if cs = [] then [] else CHR ''/'' # join_path cs)"

fun trail :: "tmpfs_state \<Rightarrow> nat \<Rightarrow> string list \<Rightarrow> nat list option" where
  "trail s v [] = Some [v]"
| "trail s v (c # cs) =
     (if vn_type (vnodes s v) = E_COM_VNODE_TYPE_DIR \<and> proper_name c
      then Option.bind (tmpfs_child s v c) (\<lambda>w.
        if mountpointof (vnodes s w) = None \<and> vn_type (vnodes s w) \<noteq> E_COM_VNODE_TYPE_LINK then map_option (Cons v) (trail s w cs) else None)
      else None)"

lemma trail_same_tree: "same_tree s s' \<Longrightarrow> tmpfs_wf s \<Longrightarrow> trail s' v cs = trail s v cs"
proof (induction cs arbitrary: v)
  case (Cons c cs)
  have "tmpfs_child s' = tmpfs_child s" using tmpfs_tree.tree_kept [OF Cons.prems] by simp
  then show ?case using Cons by (simp add: same_treeD [OF Cons.prems(1)] cong: if_cong)
qed simp

lemma trail_hd: "trail s v cs = Some ns \<Longrightarrow> ns \<noteq> [] \<and> hd ns = v"
  by (cases cs) (auto simp: bind_eq_Some_conv split: if_splits)

lemma lookup1_loop_trail:
  "tmpfs_wf s \<Longrightarrow> trail s v cs = Some ns \<Longrightarrow>
    lookup1_loop tmpfs_optab (join_path cs) v s = Some (Ok (EOK, Some (last ns), None, None, fold COM_FS_VFS_VNODE_HOLD (tl ns) s))"
proof (induction cs arbitrary: v s ns)
  case Nil
  then show ?case by (auto simp: lookup1_loop.simps)
next
  case (Cons c cs)
  obtain w ms where w: "vn_type (vnodes s v) = E_COM_VNODE_TYPE_DIR" "proper_name c" "tmpfs_child s v c = Some w" "mountpointof (vnodes s w) = None"
      "vn_type (vnodes s w) \<noteq> E_COM_VNODE_TYPE_LINK" "trail s w cs = Some ms" "ns = v # ms"
    using Cons.prems(2) by (auto simp: bind_eq_Some_conv split: if_splits)
  note S = lookup_section_name [OF Cons.prems(1) w(2,1,3,4)]
  have t: "same_tree s (COM_FS_VFS_VNODE_HOLD w s)" by (rule same_tree_hold) simp
  have wf: "tmpfs_wf (COM_FS_VFS_VNODE_HOLD w s)" using same_tree_wf [OF t] Cons.prems(1) by simp
  have "trail (COM_FS_VFS_VNODE_HOLD w s) w cs = Some ms" using trail_same_tree [OF t Cons.prems(1)] w(6) by simp
  note IH = Cons.IH [OF wf this]
  have ms: "ms \<noteq> []" "ms = w # tl ms" using trail_hd [OF w(6)] by (simp, metis list.collapse)
  have hold: "fold COM_FS_VFS_VNODE_HOLD ms s = fold COM_FS_VFS_VNODE_HOLD (tl ms) (COM_FS_VFS_VNODE_HOLD w s)" using ms(2) by (metis fold_simps(2))
  show ?case
  proof (cases "cs = []")
    case True
    then have "ms = [w]" using w(6) by simp
    then show ?thesis using True lookup1_loop_name [OF w(2), of "[]" tmpfs_optab v s] S w(5,7) by (simp add: opt_bind_def same_treeD [OF t])
  next
    case False
    then show ?thesis using lookup1_loop_name [OF w(2), of "CHR ''/'' # join_path cs" tmpfs_optab v s] S w(5,7) IH ms(1) hold
      by (simp add: opt_bind_def same_treeD [OF t])
  qed
qed

lemma join_path_relative: "trail s v (c # cs) = Some ns \<Longrightarrow> join_path (c # cs) \<noteq> [] \<and> hd (join_path (c # cs)) \<noteq> CHR ''/''"
  by (auto simp: proper_name_def split: if_splits) (metis hd_append2 hd_in_set)+

lemma lookup_trail:
  assumes wf: "tmpfs_wf s" and t: "trail s v cs = Some ns" and l: "vn_type (vnodes s v) \<noteq> E_COM_VNODE_TYPE_LINK"
  shows "com_fs_vfs_lookup tmpfs_optab (join_path cs) root (Some v) follow s = Some (Ok (EOK, Some (last ns), fold COM_FS_VFS_VNODE_HOLD ns s))"
proof -
  have t': "same_tree s (COM_FS_VFS_VNODE_HOLD v s)" by (rule same_tree_hold) simp
  have wf': "tmpfs_wf (COM_FS_VFS_VNODE_HOLD v s)" using same_tree_wf [OF t'] wf by simp
  have ns: "ns = v # tl ns" using trail_hd [OF t] by (metis list.collapse)
  have hold: "fold COM_FS_VFS_VNODE_HOLD ns s = fold COM_FS_VFS_VNODE_HOLD (tl ns) (COM_FS_VFS_VNODE_HOLD v s)" using ns by (metis fold_simps(2))
  have "vfs_lookup1 tmpfs_optab (join_path cs) root (Some v) s = lookup1_loop tmpfs_optab (join_path cs) v (COM_FS_VFS_VNODE_HOLD v s)"
    using join_path_relative t by (cases cs) (auto simp: vfs_lookup1_def simp del: join_path.simps(2))
  also have "\<dots> = Some (Ok (EOK, Some (last ns), None, None, fold COM_FS_VFS_VNODE_HOLD ns s))"
    using lookup1_loop_trail [OF wf'] trail_same_tree [OF t' wf] t hold by simp
  finally have L: "vfs_lookup1 tmpfs_optab (join_path cs) root (Some v) s = Some (Ok (EOK, Some (last ns), None, None, fold COM_FS_VFS_VNODE_HOLD ns s))" .
  have "vn_type (vnodes s (last ns)) \<noteq> E_COM_VNODE_TYPE_LINK" using t l by (induction cs arbitrary: v ns) (auto simp: bind_eq_Some_conv split: if_splits dest: trail_hd)
  moreover have "same_tree s0 s1 \<Longrightarrow> same_tree s0 (fold COM_FS_VFS_VNODE_HOLD xs s1)" for s0 s1 :: tmpfs_state and xs by (induction xs arbitrary: s1) (auto intro: same_tree_hold)
  then have "same_tree s (fold COM_FS_VFS_VNODE_HOLD ns s)" by simp
  ultimately show ?thesis by (subst com_fs_vfs_lookup.simps) (simp add: L same_treeD)
qed

lemma lookup_name_none:
  assumes wf: "tmpfs_wf s" and c: "proper_name c" and d: "vn_type (vnodes s v) = E_COM_VNODE_TYPE_DIR" and w: "tmpfs_child s v c = None"
  shows "\<exists>s'. com_fs_vfs_lookup tmpfs_optab c root (Some v) follow s = Some (Ok (ENOENT, None, s')) \<and> same_tree s s'"
proof -
  have t: "same_tree s (COM_FS_VFS_VNODE_HOLD v s)" by (rule same_tree_hold) simp
  have wf': "tmpfs_wf (COM_FS_VFS_VNODE_HOLD v s)" "tmpfs_child (COM_FS_VFS_VNODE_HOLD v s) = tmpfs_child s" using tmpfs_tree.tree_kept [OF t wf] by simp_all
  obtain s' where s': "lookup_section tmpfs_optab c v (COM_FS_VFS_VNODE_HOLD v s) = Some (Ok (Inl ENOENT, s'))" "same_tree (COM_FS_VFS_VNODE_HOLD v s) s'"
    using lookup_section_none [OF wf'(1) c, of v] d w wf'(2) same_treeD(1) [OF t] by auto
  have "c \<noteq> []" "hd c \<noteq> CHR ''/''" using c by (cases c; auto simp: proper_name_def)+
  then have "vfs_lookup1 tmpfs_optab c root (Some v) s = Some (Ok (ENOENT, None, None, None, s'))"
    using lookup1_loop_name [OF c, of "[]" tmpfs_optab v "COM_FS_VFS_VNODE_HOLD v s"] s'(1) by (simp add: vfs_lookup1_def opt_bind_def)
  then show ?thesis using same_tree_trans [OF t s'(2)] by (subst com_fs_vfs_lookup.simps) auto
qed

text \<open>A node that was just added.\<close>

lemma child_None:
  assumes "tmpfs_wf s" and "live_dir s d" and "c \<noteq> ''..''"
  shows "tmpfs_child s d c = None \<longleftrightarrow> c \<notin> snd ` set (dir_entries s (extra (vnodes s d)))"
proof -
  have n: "nodes_wf s" using assms(1) by (simp add: tmpfs_wf_def)
  have t: "extra (vnodes s d) < next_tnode s" using live_dirD(3) [OF n assms(2)] .
  have "tn_vnode (tnodes s x) \<noteq> None" if "(x, m) \<in> set (dir_entries s (extra (vnodes s d)))" for x m
    using nodes_wfD(8) [OF n t] nodes_wfD(3) [OF n, of x] that by (auto simp: entries_ok_def)
  note vn = this
  show ?thesis
  proof (cases "find (\<lambda>(_, m). m = c) (dir_entries s (extra (vnodes s d)))")
    case None
    then have "c \<notin> snd ` set (dir_entries s (extra (vnodes s d)))" by (auto simp: find_None_iff)
    then show ?thesis using assms(3) None by (simp add: tmpfs_child_def)
  next
    case (Some e)
    obtain x m where e: "e = (x, m)" by (cases e)
    have "(x, m) \<in> set (dir_entries s (extra (vnodes s d)))" "m = c" using Some e by (auto simp: find_Some_iff in_set_conv_nth)
    then show ?thesis using vn [of x m] Some e assms(3) by (force simp: tmpfs_child_def)
  qed
qed

lemma find_last: "c \<notin> snd ` set es \<Longrightarrow> find (\<lambda>(_, m). m = c) (es @ [(t, c)]) = Some (t, c)"
  by (induction es) auto

lemma added_child:
  assumes wf: "tmpfs_wf s" and d: "live_dir s d" and c: "c \<noteq> ''..''" and none: "tmpfs_child s d c = None"
  shows "tmpfs_child (add_node d ty c data pm s) d c = Some (next_vnode s)"
proof -
  let ?s = "add_node d ty c data pm s"
  have n: "nodes_wf s" using wf by (simp add: tmpfs_wf_def)
  note D = live_dirD [OF n d]
  have "extra (vnodes ?s d) = extra (vnodes s d)" "tn_vnode (tnodes ?s (next_tnode s)) = Some (next_vnode s)" using D by (auto simp: add_node_def Let_def)
  moreover have "find (\<lambda>(_, m). m = c) (dir_entries s (extra (vnodes s d)) @ [(next_tnode s, c)]) = Some (next_tnode s, c)"
    using child_None [OF wf d c] none by (intro find_last) simp
  ultimately show ?thesis using c add_node_entries [OF n d, of ty c data pm "extra (vnodes s d)"] by (simp add: tmpfs_child_def)
qed

text \<open>One name at the front of a path: a symbolic link, another node, nothing.\<close>

lemma walk_link:
  assumes "tmpfs_wf s" and "proper_name c" and "vn_type (vnodes s v) = E_COM_VNODE_TYPE_DIR" and "tmpfs_child s v c = Some w"
    and "mountpointof (vnodes s w) = None" and "vn_type (vnodes s w) = E_COM_VNODE_TYPE_LINK" and "rest = [] \<or> hd rest = CHR ''/''"
  shows "lookup1_loop tmpfs_optab (c @ rest) v s = Some (Ok (EOK, Some w, Some v, if rest = [] then None else Some rest, COM_FS_VFS_VNODE_HOLD w s))"
  unfolding lookup1_loop_name [OF assms(2,7)] using lookup_section_name [OF assms(1-5)] assms(6)
  by (simp add: opt_bind_def same_treeD [OF same_tree_hold [OF same_tree_refl]])

lemma walk_node:
  assumes "tmpfs_wf s" and "proper_name c" and "vn_type (vnodes s v) = E_COM_VNODE_TYPE_DIR" and "tmpfs_child s v c = Some w"
    and "mountpointof (vnodes s w) = None" and "vn_type (vnodes s w) \<noteq> E_COM_VNODE_TYPE_LINK"
  shows "lookup1_loop tmpfs_optab c v s = Some (Ok (EOK, Some w, None, None, COM_FS_VFS_VNODE_HOLD w s))"
  using lookup1_loop_name [OF assms(2), of "[]" tmpfs_optab v s] lookup_section_name [OF assms(1-5)] assms(6)
  by (simp add: opt_bind_def same_treeD [OF same_tree_hold [OF same_tree_refl]])

lemma walk_none:
  assumes "tmpfs_wf s" and "proper_name c" and "vn_type (vnodes s v) = E_COM_VNODE_TYPE_DIR" and "tmpfs_child s v c = None"
  shows "\<exists>s'. lookup1_loop tmpfs_optab c v s = Some (Ok (ENOENT, None, None, None, s')) \<and> same_tree s s'"
  using lookup1_loop_name [OF assms(2), of "[]" tmpfs_optab v s] lookup_section_none [OF assms] by (auto simp: opt_bind_def)

lemma release_tmpfs [simp]: "COM_FS_VFS_VNODE_RELEASE tmpfs_optab (Some v) s = Ok (upd_ref (\<lambda>n. n - 1) v s)"
  by (simp add: COM_FS_VFS_VNODE_RELEASE_def Let_def com_fs_vfs_close_def tmpfs_optab_def TmpfsNodeOps_def no_ops_def)

lemma follow_link:
  assumes "tmpfs_wf s" and "vn_type (vnodes s w) = E_COM_VNODE_TYPE_LINK"
  shows "lookup2_loop tmpfs_optab (Suc n) root cwd w s =
    opt_bind (vfs_lookup1 tmpfs_optab (tmpfs_target s w) root cwd (upd_ref (\<lambda>n. n - 1) w s)) (\<lambda>(ret, link', dir, _, s2).
      if ret \<noteq> EOK then Some (Ok (ret, None, s2))
      else case link' of None \<Rightarrow> Some Panic | Some l \<Rightarrow> lookup2_loop tmpfs_optab n root (if dir = None then cwd else dir) l s2)"
  using tmpfs_tree.reads_link [OF assms] assms(2) by (auto simp: com_fs_vfs_readlink_def opt_bind_def)

lemma vfs_lookup1_name: "proper_name c \<Longrightarrow> rest = [] \<or> hd rest = CHR ''/'' \<Longrightarrow>
    vfs_lookup1 optab (c @ rest) root (Some v) s = lookup1_loop optab (c @ rest) v (COM_FS_VFS_VNODE_HOLD v s)"
  by (cases c) (auto simp: vfs_lookup1_def proper_name_def)

text \<open>A link as the last section whose target is a missing name, next to the link or, behind a slash, in the root.\<close>

lemma lookup_dangling:
  assumes wf: "tmpfs_wf s" and c: "proper_name c" and x: "proper_name x" and d: "vn_type (vnodes s d) = E_COM_VNODE_TYPE_DIR"
    and w: "tmpfs_child s d c = Some w" "mountpointof (vnodes s w) = None" "vn_type (vnodes s w) = E_COM_VNODE_TYPE_LINK"
    and p: "p = c \<and> v = d \<or> p = CHR ''/'' # c \<and> root = d"
    and y: "tmpfs_target s w = x \<and> tmpfs_child s d x = None \<or>
      tmpfs_target s w = CHR ''/'' # x \<and> vn_type (vnodes s root) = E_COM_VNODE_TYPE_DIR \<and> tmpfs_child s root x = None"
  shows "\<exists>s'. com_fs_vfs_lookup tmpfs_optab p root (Some v) True s = Some (Ok (ENOENT, None, s')) \<and> same_tree s s'"
proof -
  define s1 where "s1 = COM_FS_VFS_VNODE_HOLD d s"
  define s2 where "s2 = COM_FS_VFS_VNODE_HOLD w s1"
  define s3 where "s3 = upd_ref (\<lambda>n. n - 1) w s2"
  have t1: "same_tree s s1" unfolding s1_def by (rule same_tree_hold) simp
  have t2: "same_tree s s2" unfolding s2_def by (rule same_tree_hold [OF t1])
  have t3: "same_tree s s3" unfolding s3_def using t2 by (simp add: same_tree_upd_ref)
  note K1 = tmpfs_tree.tree_kept [OF t1 wf] and K2 = tmpfs_tree.tree_kept [OF t2 wf]
  have "vfs_lookup1 tmpfs_optab p root (Some v) s = lookup1_loop tmpfs_optab c d s1"
    using p vfs_lookup1_name [OF c, of "[]"] by (auto simp: vfs_lookup1_def s1_def)
  also have "\<dots> = Some (Ok (EOK, Some w, Some d, None, s2))"
    using walk_link [of s1 c d w "[]"] K1 c d w by (simp add: same_treeD [OF t1] s2_def)
  finally have L1: "vfs_lookup1 tmpfs_optab p root (Some v) s = Some (Ok (EOK, Some w, Some d, None, s2))" .
  define b where "b = (if tmpfs_target s w = x then d else root)"
  have b: "vn_type (vnodes s b) = E_COM_VNODE_TYPE_DIR" "tmpfs_child s b x = None" using y d x by (auto simp: b_def proper_name_def)
  have t4: "same_tree s (COM_FS_VFS_VNODE_HOLD b s3)" by (rule same_tree_hold [OF t3])
  have ne: "CHR ''/'' # x \<noteq> x" by simp
  have rel: "vfs_lookup1 tmpfs_optab x root (Some d) s3 = lookup1_loop tmpfs_optab x d (COM_FS_VFS_VNODE_HOLD d s3)"
    using vfs_lookup1_name [OF x, of "[]" tmpfs_optab root d s3] by simp
  have abs: "vfs_lookup1 tmpfs_optab (CHR ''/'' # x) root (Some d) s3 = lookup1_loop tmpfs_optab x root (COM_FS_VFS_VNODE_HOLD root s3)"
    by (simp add: vfs_lookup1_def)
  have "tmpfs_target s2 w = tmpfs_target s w" using K2 by simp
  then have "vfs_lookup1 tmpfs_optab (tmpfs_target s2 w) root (Some d) s3 = lookup1_loop tmpfs_optab x b (COM_FS_VFS_VNODE_HOLD b s3)"
    using y rel abs ne unfolding b_def by (elim disjE conjE) (simp_all only: if_True if_False simp_thms)
  moreover obtain s' where "lookup1_loop tmpfs_optab x b (COM_FS_VFS_VNODE_HOLD b s3) = Some (Ok (ENOENT, None, None, None, s'))" and t5: "same_tree (COM_FS_VFS_VNODE_HOLD b s3) s'"
    using walk_none [of "COM_FS_VFS_VNODE_HOLD b s3" x b] tmpfs_tree.tree_kept [OF t4 wf] x b by (auto simp: same_treeD [OF t4])
  ultimately have "lookup2_loop tmpfs_optab (Suc 31) root (Some d) w s2 = Some (Ok (ENOENT, None, s'))"
    using follow_link [of s2 w 31] K2 w(3) by (simp add: same_treeD [OF t2] opt_bind_def s3_def [symmetric])
  then have "com_fs_vfs_lookup tmpfs_optab p root (Some v) True s = Some (Ok (ENOENT, None, s'))"
    using w(3) by (subst com_fs_vfs_lookup.simps) (simp add: L1 same_treeD [OF t2] vfs_lookup2_def CONFIG_SYMLINK_MAX_def)
  then show ?thesis using same_tree_trans [OF t4 t5] by blast
qed

text \<open>The split of a path without a slash, and of one whose only slash is its first character.\<close>

lemma of_char_slash: "(of_char c :: u8) = 47 \<longleftrightarrow> c = CHR ''/''"
proof
  assume a: "(of_char c :: u8) = 47"
  have "unat (of_nat (of_char c) :: u8) = of_char c mod 2 ^ 8" by (simp add: unat_of_nat)
  also have "\<dots> = of_char c" using of_char_mod_256 [of c] by simp
  finally have "unat (of_char c :: u8) = of_char c" unfolding of_nat_of_char .
  then have "of_char c = (of_char (CHR ''/'') :: nat)" using a by simp
  then show "c = CHR ''/''" by (rule of_char_eqI)
qed simp

lemma path_mem_slash:
  assumes "length p < 2 ^ 64" and "i < length p"
  shows "path_mem p (0 + of_nat i) = 47 \<longleftrightarrow> p ! i = CHR ''/''"
proof -
  have "unat (of_nat i :: u64) = i" using assms by (intro unat_of_nat64) simp
  then show ?thesis using assms(2) by (simp add: path_mem_def of_char_slash)
qed

lemma strip_name:
  assumes "length p < 2 ^ 64" and "p \<noteq> []" and "last p \<noteq> CHR ''/''"
  shows "strip_slashes (path_mem p) 0 (length p) = length p"
proof -
  obtain n where n: "length p = Suc n" using assms(2) by (cases p) auto
  then have "path_mem p (0 + of_nat n) \<noteq> 47" using path_mem_slash [OF assms(1), of n] assms(2,3) by (simp add: last_conv_nth)
  then show ?thesis by (simp add: n)
qed

lemma penult_name:
  assumes "proper_name c" and "length c < 2 ^ 64 - 1"
  shows "kstrpathpenult (path_mem c) 0 (of_nat (length c)) = (0, 0, of_nat (length c))"
    and "kstrpathpenult (path_mem (CHR ''/'' # c)) 0 (of_nat (length (CHR ''/'' # c))) = (0, 1, of_nat (length c))"
proof -
  have c: "c \<noteq> []" "CHR ''/'' \<notin> set c" "last c \<noteq> CHR ''/''" using assms(1) by (auto simp: proper_name_def) (metis last_in_set)
  have no: "c ! i \<noteq> CHR ''/''" if "i < length c" for i using c(2) that by (metis nth_mem)
  have u: "unat (of_nat (length c) :: u64) = length c" "unat (of_nat (length (CHR ''/'' # c)) :: u64) = length (CHR ''/'' # c)"
    using assms(2) by (intro unat_of_nat64; simp)+
  have "\<not> (\<exists>i<length c. path_mem c (0 + of_nat i) = 47)" using path_mem_slash [of c] no assms(2) by auto
  then have "rchr_loop (path_mem c) 0 47 (length c) = None" using rchr_loop_last [of "length c" "path_mem c" 0 47] assms(2) by simp
  then show "kstrpathpenult (path_mem c) 0 (of_nat (length c)) = (0, 0, of_nat (length c))"
    using strip_name [of c] c assms(2) u by (simp add: kstrpathpenult_def kmemrchr_def)
  let ?p = "CHR ''/'' # c"
  have p: "length ?p < 2 ^ 64" using assms(2) by simp
  have sl: "path_mem ?p (0 + of_nat i) = 47 \<longleftrightarrow> i = 0" if "i < length ?p" for i
    using path_mem_slash [OF p that] no that by (cases i) auto
  have "{i. i < length ?p \<and> path_mem ?p (0 + of_nat i) = 47} = {0}" using sl by auto
  moreover have "\<exists>i<length ?p. path_mem ?p (0 + of_nat i) = 47" using sl [of 0] by (intro exI [of _ 0]) simp
  ultimately have "rchr_loop (path_mem ?p) 0 47 (length ?p) = Some 0" using rchr_loop_last [of "length ?p" "path_mem ?p" 0 47] p by simp
  then show "kstrpathpenult (path_mem ?p) 0 (of_nat (length ?p)) = (0, 1, of_nat (length c))"
    using strip_name [OF p] c u(2) by (simp add: kstrpathpenult_def kmemrchr_def)
qed

text \<open>Creation by path, once the path is known to lead nowhere.\<close>

lemma lookup_missing:
  assumes wf: "tmpfs_wf s" and c: "proper_name c" and d: "vn_type (vnodes s d) = E_COM_VNODE_TYPE_DIR" and w: "tmpfs_child s d c = None"
    and p: "p = c \<and> v = d \<or> p = CHR ''/'' # c \<and> root = d"
  shows "\<exists>s'. com_fs_vfs_lookup tmpfs_optab p root (Some v) follow s = Some (Ok (ENOENT, None, s')) \<and> same_tree s s'"
proof -
  let ?s = "COM_FS_VFS_VNODE_HOLD d s"
  have t: "same_tree s ?s" by (rule same_tree_hold) simp
  obtain s' where s': "lookup1_loop tmpfs_optab c d ?s = Some (Ok (ENOENT, None, None, None, s'))" "same_tree ?s s'"
    using walk_none [of ?s c d] tmpfs_tree.tree_kept [OF t wf] c d w by (auto simp: same_treeD [OF t])
  have "vfs_lookup1 tmpfs_optab p root (Some v) s = lookup1_loop tmpfs_optab c d ?s"
    using p vfs_lookup1_name [OF c, of "[]"] by (auto simp: vfs_lookup1_def)
  then show ?thesis using same_tree_trans [OF t s'(2)] s'(1) by (subst com_fs_vfs_lookup.simps) auto
qed

lemma child_upd_ref [simp]: "tmpfs_child (upd_ref f v s) = tmpfs_child s"
  by (intro ext) (simp add: tmpfs_child_def dir_entries_def cong: option.case_cong)

lemma create_any_adds:
  assumes wf: "tmpfs_wf s" and d: "live_dir s d" and c: "proper_name c" "length c < 2 ^ 64 - 1" and m: "pg_free (pmem s) \<noteq> []"
    and p: "p = c \<or> p = CHR ''/'' # c" and l: "com_fs_vfs_lookup tmpfs_optab p root (Some d) follow s = Some (Ok (ENOENT, None, s1))" "same_tree s s1"
  shows "\<exists>f pm s2. same_tree s s2 \<and> com_fs_vfs_create_any tmpfs_optab p root (Some d) attr excl follow (com_fs_vfs_create tmpfs_optab) s =
    Some (Ok (EOK, Some (next_vnode s), upd_ref (\<lambda>n. n - 1) d (add_node d E_COM_VNODE_TYPE_FILE c (T_File f) pm s2)))"
proof -
  define s2 where "s2 = COM_FS_VFS_VNODE_HOLD d s1"
  have t: "same_tree s s2" unfolding s2_def by (rule same_tree_hold [OF l(2)])
  have wf1: "tmpfs_wf s1" "tmpfs_wf s2" using same_tree_wf [OF l(2)] same_tree_wf [OF t] wf by simp_all
  have "vn_type (vnodes s1 d) \<noteq> E_COM_VNODE_TYPE_LINK" using d by (simp add: live_dir_def same_treeD [OF l(2)])
  then have e: "com_fs_vfs_lookup tmpfs_optab [] root (Some d) True s1 = Some (Ok (EOK, Some d, s2))"
    using lookup_trail [OF wf1(1), of d "[]" "[d]" root True] by (simp add: s2_def)
  have n: "nodes_wf s2" using wf1(2) by (simp add: tmpfs_wf_def)
  have "live_dir s2 d" "pg_free (pmem s2) \<noteq> []" using d m by (simp_all add: live_dir_def same_treeD [OF t] same_tree_tmpfs [OF t])
  then obtain f pm where cr: "com_fs_vfs_create tmpfs_optab d c attr s2 = Ok (EOK, Some (next_vnode s2), add_node d E_COM_VNODE_TYPE_FILE c (T_File f) pm s2)"
    using create_adds [OF n] by blast
  have u: "unat (of_nat (length c) :: u64) = length c" using c(2) by (intro unat_of_nat64) simp
  have "\<exists>i. kstrpathpenult (path_mem p) 0 (of_nat (length p)) = (0, i, of_nat (length c)) \<and> take (length c) (drop (unat i) p) = c"
    using p penult_name [OF c] by auto
  then obtain i where i: "kstrpathpenult (path_mem p) 0 (of_nat (length p)) = (0, i, of_nat (length c))" "take (length c) (drop (unat i) p) = c" by blast
  have "com_fs_vfs_create_any tmpfs_optab p root (Some d) attr excl follow (com_fs_vfs_create tmpfs_optab) s =
    Some (Ok (EOK, Some (next_vnode s), upd_ref (\<lambda>n. n - 1) d (add_node d E_COM_VNODE_TYPE_FILE c (T_File f) pm s2)))"
    unfolding com_fs_vfs_create_any_def l(1) by (simp add: opt_bind_def i u e cr same_treeD [OF t])
  then show ?thesis using t by blast
qed

lemma find_first: "find P es = Some e \<Longrightarrow> find P (es @ fs) = Some e"
  by (induction es) auto

lemma kept_child:
  assumes wf: "tmpfs_wf s" and d: "live_dir s d" and c: "c \<noteq> ''..''" and w: "tmpfs_child s d c = Some w"
  shows "tmpfs_child (add_node d ty n data pm s) d c = Some w"
proof -
  have nw: "nodes_wf s" using wf by (simp add: tmpfs_wf_def)
  note D = live_dirD [OF nw d]
  obtain x m where x: "find (\<lambda>(_, m). m = c) (dir_entries s (extra (vnodes s d))) = Some (x, m)" "tn_vnode (tnodes s x) = Some w"
    using w c by (auto simp: tmpfs_child_def bind_eq_Some_conv)
  have "(x, m) \<in> set (dir_entries s (extra (vnodes s d)))" using x(1) by (auto simp: find_Some_iff in_set_conv_nth)
  then have "x < next_tnode s" using nodes_wfD(8) [OF nw D(3)] by (auto simp: entries_ok_def)
  then have "tn_vnode (tnodes (add_node d ty n data pm s) x) = Some w" using x(2) by (auto simp: add_node_def Let_def)
  moreover have "extra (vnodes (add_node d ty n data pm s) d) = extra (vnodes s d)" using D by (auto simp: add_node_def Let_def)
  ultimately show ?thesis using c find_first [OF x(1)] add_node_entries [OF nw d, of ty n data pm "extra (vnodes s d)"] by (simp add: tmpfs_child_def)
qed

lemma other_child_None:
  assumes wf: "tmpfs_wf s" and d: "live_dir s d" and d': "live_dir s d'" "d' \<noteq> d" and c: "c \<noteq> ''..''" and w: "tmpfs_child s d' c = None"
    and wf': "tmpfs_wf (add_node d ty n data pm s)"
  shows "tmpfs_child (add_node d ty n data pm s) d' c = None"
proof -
  have nw: "nodes_wf s" using wf by (simp add: tmpfs_wf_def)
  note D = live_dirD [OF nw d] and D' = live_dirD [OF nw d'(1)]
  have ne: "extra (vnodes s d') \<noteq> extra (vnodes s d)" using nodes_wfD(2) [OF nw D(1)] nodes_wfD(2) [OF nw D'(1)] d'(2) by auto
  have x: "vnodes (add_node d ty n data pm s) d' = vnodes s d'" "live_dir (add_node d ty n data pm s) d'" using D' by (auto simp: add_node_def Let_def live_dir_def)
  have "dir_entries (add_node d ty n data pm s) (extra (vnodes s d')) = dir_entries s (extra (vnodes s d'))"
    using add_node_entries [OF nw d, of ty n data pm "extra (vnodes s d')"] ne D'(3) by simp
  then show ?thesis using child_None [OF wf' x(2) c] child_None [OF wf d'(1) c] w x(1) by simp
qed

section \<open>A sample tree\<close>

text \<open>The directories \<^verbatim>\<open>/x\<close> and \<^verbatim>\<open>/y\<close>, then with the links \<^verbatim>\<open>/a\<close> to \<^verbatim>\<open>x\<close> and \<^verbatim>\<open>/x/b\<close> to \<^verbatim>\<open>/y\<close>.\<close>

definition sample_mem :: page_mem where
  "sample_mem = \<lparr>pg_byte = (\<lambda>_ _. 0), pg_free = [0..<40]\<rparr>"

definition sample_dirs :: tmpfs_state where
  "sample_dirs = add_node 0 E_COM_VNODE_TYPE_DIR ''y'' (T_Dir []) sample_mem
     (add_node 0 E_COM_VNODE_TYPE_DIR ''x'' (T_Dir []) sample_mem (add_root None (empty_state sample_mem)))"

definition sample_links :: tmpfs_state where
  "sample_links = add_node 1 E_COM_VNODE_TYPE_LINK ''b'' (T_Link ''/y'') sample_mem
     (add_node 0 E_COM_VNODE_TYPE_LINK ''a'' (T_Link ''x'') sample_mem sample_dirs)"

lemmas sample_defs = sample_dirs_def sample_links_def sample_mem_def add_node_def add_root_def empty_state_def Let_def dir_entries_def live_dir_def

lemma reachable_add_root: "reachable pm (add_root None (empty_state pm))"
  by (rule reachable_root [OF mount_adds]) simp

lemma reachable_mkdir: "reachable pm s \<Longrightarrow> live_dir s d \<Longrightarrow> reachable pm (add_node d E_COM_VNODE_TYPE_DIR name (T_Dir []) (pmem s) s)"
  using reachable_step [of pm s "Mk_Dir d name"] mkdir_adds [of s d name 0] reachable_wf [of pm s] by (simp add: tmpfs_wf_def)

lemma reachable_symlink: "reachable pm s \<Longrightarrow> live_dir s d \<Longrightarrow> reachable pm (add_node d E_COM_VNODE_TYPE_LINK name (T_Link path) (pmem s) s)"
  using reachable_step [of pm s "Mk_Link d name path"] symlink_adds [of s d name path] reachable_wf [of pm s] by (simp add: tmpfs_wf_def)

lemma sample_dirs_reachable: "reachable sample_mem sample_dirs"
proof -
  let ?s = "add_root None (empty_state sample_mem)"
  let ?x = "add_node 0 E_COM_VNODE_TYPE_DIR ''x'' (T_Dir []) (pmem ?s) ?s"
  have "reachable sample_mem ?x" by (rule reachable_mkdir [OF reachable_add_root]) (simp add: sample_defs)
  then have "reachable sample_mem (add_node 0 E_COM_VNODE_TYPE_DIR ''y'' (T_Dir []) (pmem ?x) ?x)" by (rule reachable_mkdir) (simp add: sample_defs)
  moreover have "pmem ?s = sample_mem" "pmem ?x = sample_mem" by (simp_all add: add_node_def add_root_def empty_state_def Let_def)
  ultimately show ?thesis unfolding sample_dirs_def by simp
qed

lemma sample_links_reachable: "reachable sample_mem sample_links"
proof -
  let ?s = sample_dirs
  let ?x = "add_node 0 E_COM_VNODE_TYPE_LINK ''a'' (T_Link ''x'') (pmem ?s) ?s"
  have "reachable sample_mem ?x" by (rule reachable_symlink [OF sample_dirs_reachable]) (simp add: sample_defs)
  then have "reachable sample_mem (add_node 1 E_COM_VNODE_TYPE_LINK ''b'' (T_Link ''/y'') (pmem ?x) ?x)" by (rule reachable_symlink) (simp add: sample_defs)
  moreover have "pmem ?s = sample_mem" "pmem ?x = sample_mem" by (simp_all add: sample_dirs_def add_node_def add_root_def empty_state_def Let_def)
  ultimately show ?thesis unfolding sample_links_def by simp
qed

lemma sample_facts:
  "vn_type (vnodes sample_dirs 0) = E_COM_VNODE_TYPE_DIR" "vn_type (vnodes sample_dirs 1) = E_COM_VNODE_TYPE_DIR" "live_dir sample_dirs 0" "live_dir sample_dirs 1"
  "mountpointof (vnodes sample_dirs 1) = None" "pg_free (pmem sample_dirs) \<noteq> []"
  "tmpfs_child sample_dirs 0 ''x'' = Some 1" "tmpfs_child sample_dirs 0 ''c'' = None" "tmpfs_child sample_dirs 1 ''c'' = None"
  "proper_name ''x''" "proper_name ''c''" "proper_name ''a''" "proper_name ''b''" "proper_name ''y''"
  by (simp_all add: sample_defs tmpfs_child_def proper_name_def)

lemma sample_link_facts:
  "vn_type (vnodes sample_links 0) = E_COM_VNODE_TYPE_DIR" "vn_type (vnodes sample_links 1) = E_COM_VNODE_TYPE_DIR" "live_dir sample_links 1"
  "vn_type (vnodes sample_links 3) = E_COM_VNODE_TYPE_LINK" "vn_type (vnodes sample_links 4) = E_COM_VNODE_TYPE_LINK" "vn_type (vnodes sample_links 2) = E_COM_VNODE_TYPE_DIR"
  "mountpointof (vnodes sample_links v) = None" "pg_free (pmem sample_links) \<noteq> []" "live_dir sample_links 0"
  "tmpfs_child sample_links 0 ''a'' = Some 3" "tmpfs_child sample_links 0 ''x'' = Some 1" "tmpfs_child sample_links 0 ''y'' = Some 2"
  "tmpfs_child sample_links 1 ''b'' = Some 4" "tmpfs_child sample_links 1 ''y'' = None" "tmpfs_target sample_links 3 = ''x''" "tmpfs_target sample_links 4 = ''/y''"
  by (simp_all add: sample_defs tmpfs_child_def tmpfs_target_def)

definition sample_dangling :: tmpfs_state where
  "sample_dangling = add_node 0 E_COM_VNODE_TYPE_LINK ''c'' (T_Link ''x'') sample_mem (add_root None (empty_state sample_mem))"

lemma sample_dangling_reachable: "reachable sample_mem sample_dangling"
proof -
  let ?s = "add_root None (empty_state sample_mem)"
  have "reachable sample_mem (add_node 0 E_COM_VNODE_TYPE_LINK ''c'' (T_Link ''x'') (pmem ?s) ?s)"
    by (rule reachable_symlink [OF reachable_add_root]) (simp add: sample_defs)
  moreover have "pmem ?s = sample_mem" by (simp add: add_root_def empty_state_def Let_def)
  ultimately show ?thesis by (simp add: sample_dangling_def)
qed

lemma sample_dangling_facts:
  "live_dir sample_dangling 0" "tmpfs_child sample_dangling 0 ''c'' = Some 1" "vn_type (vnodes sample_dangling 1) = E_COM_VNODE_TYPE_LINK"
  "mountpointof (vnodes sample_dangling 1) = None" "tmpfs_target sample_dangling 1 = ''x''" "tmpfs_child sample_dangling 0 ''x'' = None"
  "pg_free (pmem sample_dangling) \<noteq> []"
  by (simp_all add: sample_dangling_def sample_defs tmpfs_child_def tmpfs_target_def)

section \<open>Properties\<close>



text \<open>
  C13: Path resolution terminates. On every reachable tree, with whatever mounts and symbolic links,
  loops of links included, a look-up that starts from nodes which are not links returns; it finds
  a node or reports a missing name, a file used as a directory or too many links, and when it
  follows links the node is not a link.
\<close>

theorem vfs_lookup_terminates:
  assumes "reachable pm s" and "vn_type (vnodes s root) \<noteq> E_COM_VNODE_TYPE_LINK" and "vn_type (vnodes s cwd) \<noteq> E_COM_VNODE_TYPE_LINK"
  shows "\<exists>e r s'. com_fs_vfs_lookup tmpfs_optab path root (Some cwd) follow s = Some (Ok (e, r, s')) \<and> same_tree s s' \<and>
    (case r of None \<Rightarrow> e \<in> {ENOENT, ENOTDIR, ELOOP} | Some w \<Rightarrow> e = EOK \<and> (follow \<longrightarrow> vn_type (vnodes s w) \<noteq> E_COM_VNODE_TYPE_LINK))"
proof -
  have wf: "tmpfs_wf s" by (rule reachable_wf [OF assms(1)])
  obtain e r s' where l: "com_fs_vfs_lookup tmpfs_optab path root (Some cwd) follow s = Some (Ok (e, r, s'))" "same_tree s s'"
      "if follow then link_post s e r else (case r of None \<Rightarrow> e = ENOENT \<or> e = ENOTDIR \<or> e = ELOOP | Some w \<Rightarrow> e = EOK)"
    using tmpfs_tree.com_fs_vfs_lookup_returns [OF wf wf_mounts [OF wf] same_tree_refl assms(2,3)] by blast
  then show ?thesis by (cases follow; cases r) (auto simp: link_post_def)
qed

theorem vfs_lookup_terminates_witness:
  "\<exists>e r s'. com_fs_vfs_lookup tmpfs_optab ''a/b/../a'' 0 (Some 0) True sample_links = Some (Ok (e, r, s')) \<and> same_tree sample_links s'"
  using vfs_lookup_terminates [OF sample_links_reachable, of 0 0 "''a/b/../a''" True] sample_link_facts by auto

text \<open>
  C14: On a tree without symbolic links, path resolution is the walk along the sections of the path:
  it returns an error and a node exactly when splitting the path at its slashes and following the
  sections one by one, from the root for a path that starts with a slash and from the working
  directory for any other, leads to them.
\<close>

theorem vfs_lookup_is_walk:
  assumes "reachable pm s" and "\<forall>x. vn_type (vnodes s x) \<noteq> E_COM_VNODE_TYPE_LINK"
  shows "(\<exists>s'. com_fs_vfs_lookup tmpfs_optab path root (Some cwd) follow s = Some (Ok (e, r, s'))) \<longleftrightarrow>
    walks (tmpfs_child s) s (if path \<noteq> [] \<and> hd path = CHR ''/'' then root else cwd) (sections path) e r"
proof -
  have wf: "tmpfs_wf s" by (rule reachable_wf [OF assms(1)])
  show ?thesis using tmpfs_tree.com_fs_vfs_lookup_walks [OF wf wf_mounts [OF wf] assms(2)] unfolding walk_start_def .
qed

theorem vfs_lookup_is_walk_witness:
  "\<exists>s'. com_fs_vfs_lookup tmpfs_optab ''/x//c'' 0 (Some 1) True sample_dirs = Some (Ok (ENOENT, None, s'))"
proof -
  have "\<forall>x. vn_type (vnodes sample_dirs x) \<noteq> E_COM_VNODE_TYPE_LINK" by (simp add: sample_defs)
  note W = vfs_lookup_is_walk [OF sample_dirs_reachable this, of "''/x//c''" 0 1 True ENOENT None]
  have "walks (tmpfs_child sample_dirs) sample_dirs 1 [''c''] ENOENT None"
    by (rule walks_noent [of _ _ 1 1]) (use sample_facts in \<open>simp_all add: base_of_def\<close>)
  then have "walks (tmpfs_child sample_dirs) sample_dirs 1 [[], ''c''] ENOENT None" by (rule walks_stay [rotated]) simp
  moreover have "descends sample_dirs 0 1 0 1" by (rule descends_stay) (use sample_facts(5) in \<open>simp add: down_edge_def\<close>)
  ultimately have "walks (tmpfs_child sample_dirs) sample_dirs 0 [''x'', [], ''c''] ENOENT None"
    by (intro walks_step [of "''x''" _ 0 0 _ 1 0 1]) (simp_all add: base_of_def sample_facts)
  then have "walks (tmpfs_child sample_dirs) sample_dirs 0 (sections ''/x//c'') ENOENT None" by (simp add: walks_stay)
  then show ?thesis using W by simp
qed

text \<open>
  C36: Path resolution leaks references. A look-up of a path through directories holds every node it
  comes through and releases none, so that with the node it returns, the working directory and
  each directory on the way stay referenced for good.
\<close>

theorem vfs_lookup_holds_trail:
  assumes "reachable pm s" and "trail s cwd cs = Some ns" and "vn_type (vnodes s cwd) \<noteq> E_COM_VNODE_TYPE_LINK"
  shows "com_fs_vfs_lookup tmpfs_optab (join_path cs) root (Some cwd) follow s = Some (Ok (EOK, Some (last ns), fold COM_FS_VFS_VNODE_HOLD ns s))"
  by (rule lookup_trail [OF reachable_wf [OF assms(1)] assms(2,3)])

theorem vfs_lookup_holds_trail_witness:
  "com_fs_vfs_lookup tmpfs_optab ''x'' 0 (Some 0) True sample_dirs = Some (Ok (EOK, Some 1, COM_FS_VFS_VNODE_HOLD 1 (COM_FS_VFS_VNODE_HOLD 0 sample_dirs)))"
  using vfs_lookup_holds_trail [OF sample_dirs_reachable, of 0 "[''x'']" "[0, 1]" 0 True] sample_facts by simp

text \<open>
  C35: Creation, look-up and removal of a file agree. In a directory without the name, a created file
  is what a look-up of the name finds; it can be removed, and then the name is gone again.
\<close>

theorem tmpfs_create_lookup_unlink:
  assumes "reachable pm s" and "live_dir s d" and "proper_name c" and "tmpfs_child s d c = None" and "pg_free (pmem s) \<noteq> []"
  shows "\<exists>v s1 s2 s3 s4. com_fs_vfs_create tmpfs_optab d c attr s = Ok (EOK, Some v, s1) \<and>
    com_fs_vfs_lookup tmpfs_optab c root (Some d) follow s1 = Some (Ok (EOK, Some v, s2)) \<and>
    com_fs_vfs_unlink tmpfs_optab v False s2 = Ok (EOK, s3) \<and>
    com_fs_vfs_lookup tmpfs_optab c root (Some d) follow s3 = Some (Ok (ENOENT, None, s4))"
proof -
  have wf: "tmpfs_wf s" and n: "nodes_wf s" using reachable_wf [OF assms(1)] by (simp_all add: tmpfs_wf_def)
  have c: "c \<noteq> ''..''" using assms(3) by (simp add: proper_name_def)
  note D = live_dirD [OF n assms(2)]
  let ?p = "extra (vnodes s d)" and ?t = "next_tnode s" and ?v = "next_vnode s"
  obtain f pm where cr: "com_fs_vfs_create tmpfs_optab d c attr s = Ok (EOK, Some ?v, add_node d E_COM_VNODE_TYPE_FILE c (T_File f) pm s)"
    using create_adds [OF n assms(2,5)] by blast
  define s1 where "s1 = add_node d E_COM_VNODE_TYPE_FILE c (T_File f) pm s"
  have wf1: "tmpfs_wf s1" unfolding s1_def by (rule wf_add_node [OF wf assms(2)]) simp_all
  have S1: "vnodes s1 d = vnodes s d" "vn_type (vnodes s1 ?v) = E_COM_VNODE_TYPE_FILE" "mountpointof (vnodes s1 ?v) = None" "extra (vnodes s1 ?v) = ?t"
      "next_vnode s1 = Suc ?v" "tn_parent (tnodes s1 ?t) = Some ?p" "dir_entries s1 ?p = dir_entries s ?p @ [(?t, c)]"
    using D add_node_entries [OF n assms(2)] by (auto simp: s1_def add_node_def Let_def)
  have ch: "tmpfs_child s1 d c = Some ?v" unfolding s1_def by (rule added_child [OF wf assms(2) c assms(4)])
  define s2 where "s2 = COM_FS_VFS_VNODE_HOLD ?v (COM_FS_VFS_VNODE_HOLD d s1)"
  have "trail s1 d [c] = Some [d, ?v]" using D(2) S1 ch assms(3) by simp
  from lookup_trail [OF wf1 this, of root follow] have l1: "com_fs_vfs_lookup tmpfs_optab c root (Some d) follow s1 = Some (Ok (EOK, Some ?v, s2))"
    using D(2) S1(1) by (simp add: s2_def)
  have st: "same_tree s1 s2" unfolding s2_def by (intro same_tree_hold) simp
  have wf2: "tmpfs_wf s2" using same_tree_wf [OF st] wf1 by simp
  have e2: "dir_entries s2 x = dir_entries s1 x" for x by (simp add: dir_entries_def same_tree_tmpfs [OF st])
  have fresh: "?t \<notin> fst ` set (dir_entries s ?p)" using nodes_wfD(8) [OF n D(3)] unfolding entries_ok_def by (metis imageE less_irrefl prod.collapse)
  then have keep: "filter (\<lambda>(x, _). x \<noteq> ?t) (dir_entries s ?p @ [(?t, c)]) = dir_entries s ?p" by (force simp: filter_id_conv)
  define s3 where "s3 = upd_ref (\<lambda>n. n - 1) ?v (set_data ?p (T_Dir (dir_entries s ?p)) s2)"
  have ul: "com_fs_vfs_unlink tmpfs_optab ?v False s2 = Ok (EOK, s3)"
    using S1(2,4,6,7) keep
    by (simp add: com_fs_vfs_unlink_def tmpfs_optab_def TmpfsNodeOps_def com_fs_tmpfs_unlink_def Let_def same_treeD [OF st] same_tree_tmpfs [OF st] e2
        COM_FS_VFS_VNODE_RELEASE_def com_fs_vfs_close_def no_ops_def s3_def)
  have "?p < next_tnode s2" "is_dir_data (tn_data (tnodes s2 ?p))"
    using nodes_wfD(1,5) [of s2 d] wf2 D(1,2) S1(1,5) same_treeD [OF st] same_tree_tmpfs [OF st] by (auto simp: tmpfs_wf_def)
  then have wf3: "tmpfs_wf s3" using wf_remove_entry [OF wf2, of ?p "\<lambda>(x, _). x \<noteq> ?t"] keep by (simp add: s3_def e2 S1(7))
  have S3: "vn_type (vnodes s3 d) = E_COM_VNODE_TYPE_DIR" "extra (vnodes s3 d) = ?p" "d < next_vnode s3" "dir_entries s3 ?p = dir_entries s ?p"
    using D S1 by (simp_all add: s3_def set_data_def set_tnode_def same_treeD [OF st] dir_entries_def)
  have "tmpfs_child s3 d c = None" using child_None [OF wf3 _ c, of d] child_None [OF wf assms(2) c] assms(4) S3 by (simp add: live_dir_def)
  then obtain s4 where "com_fs_vfs_lookup tmpfs_optab c root (Some d) follow s3 = Some (Ok (ENOENT, None, s4))"
    using lookup_name_none [OF wf3 assms(3) S3(1)] by blast
  then show ?thesis using cr l1 ul unfolding s1_def [symmetric] by blast
qed

theorem tmpfs_create_lookup_unlink_witness:
  "\<exists>v s1 s2 s3 s4. com_fs_vfs_create tmpfs_optab 1 ''c'' 0 sample_dirs = Ok (EOK, Some v, s1) \<and>
    com_fs_vfs_lookup tmpfs_optab ''c'' 0 (Some 1) True s1 = Some (Ok (EOK, Some v, s2)) \<and>
    com_fs_vfs_unlink tmpfs_optab v False s2 = Ok (EOK, s3) \<and>
    com_fs_vfs_lookup tmpfs_optab ''c'' 0 (Some 1) True s3 = Some (Ok (ENOENT, None, s4))"
  using tmpfs_create_lookup_unlink [OF sample_dirs_reachable] sample_facts by blast

text \<open>
  C37: Path resolution loses the root behind a symbolic link. When a path goes through a link, the rest
  of it is walked with the target of that link in place of the root: an absolute link found there
  is looked up inside the target, so the path is not found although the link, on its own, leads to
  an existing node.
\<close>

theorem vfs_lookup_loses_root:
  assumes "reachable pm s" and "proper_name a" "proper_name b" "proper_name x" "proper_name y"
    and "vn_type (vnodes s d) = E_COM_VNODE_TYPE_DIR" "vn_type (vnodes s e) = E_COM_VNODE_TYPE_DIR" "vn_type (vnodes s root) = E_COM_VNODE_TYPE_DIR"
    and "tmpfs_child s d a = Some l" "vn_type (vnodes s l) = E_COM_VNODE_TYPE_LINK" "mountpointof (vnodes s l) = None" "tmpfs_target s l = x"
    and "tmpfs_child s d x = Some e" "mountpointof (vnodes s e) = None"
    and "tmpfs_child s e b = Some k" "vn_type (vnodes s k) = E_COM_VNODE_TYPE_LINK" "mountpointof (vnodes s k) = None" "tmpfs_target s k = CHR ''/'' # y"
    and "tmpfs_child s e y = None"
    and "tmpfs_child s root y = Some z" "mountpointof (vnodes s z) = None" "vn_type (vnodes s z) \<noteq> E_COM_VNODE_TYPE_LINK"
  shows "(\<exists>s'. com_fs_vfs_lookup tmpfs_optab (CHR ''/'' # y) root (Some d) True s = Some (Ok (EOK, Some z, s'))) \<and>
    (\<exists>s'. com_fs_vfs_lookup tmpfs_optab (a @ CHR ''/'' # b) root (Some d) True s = Some (Ok (ENOENT, None, s')))"
proof
  have wf: "tmpfs_wf s" by (rule reachable_wf [OF assms(1)])
  let ?r = "COM_FS_VFS_VNODE_HOLD root s"
  have tr: "same_tree s ?r" by (rule same_tree_hold) simp
  have "lookup1_loop tmpfs_optab y root ?r = Some (Ok (EOK, Some z, None, None, COM_FS_VFS_VNODE_HOLD z ?r))"
    using walk_node [of ?r y root z] tmpfs_tree.tree_kept [OF tr wf] assms by (simp add: same_treeD [OF tr])
  then show "\<exists>s'. com_fs_vfs_lookup tmpfs_optab (CHR ''/'' # y) root (Some d) True s = Some (Ok (EOK, Some z, s'))"
    using assms(22) by (subst com_fs_vfs_lookup.simps) (simp add: vfs_lookup1_def same_treeD [OF same_tree_hold [OF tr]])
  define s1 where "s1 = COM_FS_VFS_VNODE_HOLD d s"
  define s2 where "s2 = COM_FS_VFS_VNODE_HOLD l s1"
  define s3 where "s3 = COM_FS_VFS_VNODE_HOLD d (upd_ref (\<lambda>n. n - 1) l s2)"
  define s4 where "s4 = COM_FS_VFS_VNODE_HOLD e s3"
  have t1: "same_tree s s1" unfolding s1_def by (rule same_tree_hold) simp
  have t2: "same_tree s s2" unfolding s2_def by (rule same_tree_hold [OF t1])
  have t3: "same_tree s s3" unfolding s3_def using t2 by (intro same_tree_hold) (simp add: same_tree_upd_ref)
  have t4: "same_tree s s4" unfolding s4_def by (rule same_tree_hold [OF t3])
  have L1: "vfs_lookup1 tmpfs_optab (a @ CHR ''/'' # b) root (Some d) s = Some (Ok (EOK, Some l, Some d, Some (CHR ''/'' # b), s2))"
    using vfs_lookup1_name [OF assms(2), of "CHR ''/'' # b" tmpfs_optab root d s] walk_link [of s1 a d l "CHR ''/'' # b"] tmpfs_tree.tree_kept [OF t1 wf] assms
    by (simp add: same_treeD [OF t1] s2_def s1_def [symmetric])
  have x: "vfs_lookup1 tmpfs_optab x root (Some d) (upd_ref (\<lambda>n. n - 1) l s2) = Some (Ok (EOK, Some e, None, None, s4))"
    using vfs_lookup1_name [OF assms(4), of "[]" tmpfs_optab root d "upd_ref (\<lambda>n. n - 1) l s2"] walk_node [of s3 x d e] tmpfs_tree.tree_kept [OF t3 wf] assms
    by (simp add: same_treeD [OF t3] s4_def s3_def [symmetric])
  have "vn_type (vnodes s4 e) \<noteq> E_COM_VNODE_TYPE_LINK" using assms(7) by (simp add: same_treeD [OF t4])
  then have e: "lookup2_loop tmpfs_optab (Suc 30) root (Some d) e s4 = Some (Ok (EOK, Some e, s4))" by (simp only: lookup2_loop.simps if_True simp_thms)
  have "lookup2_loop tmpfs_optab (Suc (Suc 30)) root (Some d) l s2 = Some (Ok (EOK, Some e, s4))"
    using follow_link [of s2 l "Suc 30" root "Some d"] tmpfs_tree.tree_kept [OF t2 wf] assms(10,12) x e by (simp add: opt_bind_def same_treeD [OF t2])
  then have L2: "vfs_lookup2 tmpfs_optab root (Some d) l s2 = Some (Ok (EOK, Some e, s4))" by (simp add: vfs_lookup2_def CONFIG_SYMLINK_MAX_def)
  obtain s' where "com_fs_vfs_lookup tmpfs_optab (CHR ''/'' # b) e (Some e) True s4 = Some (Ok (ENOENT, None, s'))"
    using lookup_dangling [of s4 b y e k "CHR ''/'' # b" e e] tmpfs_tree.tree_kept [OF t4 wf] assms by (auto simp: same_treeD [OF t4])
  then show "\<exists>s'. com_fs_vfs_lookup tmpfs_optab (a @ CHR ''/'' # b) root (Some d) True s = Some (Ok (ENOENT, None, s'))"
    by (subst com_fs_vfs_lookup.simps) (simp add: L1 L2)
qed

theorem vfs_lookup_loses_root_witness:
  "(\<exists>s'. com_fs_vfs_lookup tmpfs_optab ''/y'' 0 (Some 0) True sample_links = Some (Ok (EOK, Some 2, s'))) \<and>
   (\<exists>s'. com_fs_vfs_lookup tmpfs_optab ''a/b'' 0 (Some 0) True sample_links = Some (Ok (ENOENT, None, s')))"
  using vfs_lookup_loses_root [OF sample_links_reachable, of "''a''" "''b''" "''x''" "''y''" 0 1 0 3 4 2] sample_facts sample_link_facts by simp

text \<open>
  C38: Creating a file in the root by its absolute path puts it in the working directory. The directory
  part of \<^verbatim>\<open>/name\<close> is the empty path, which is walked from the working directory, so the new file
  appears there and the root still has no such name.
\<close>

theorem create_any_misses_root:
  assumes "reachable pm s" and "live_dir s root" and "live_dir s cwd" and "root \<noteq> cwd" and "proper_name c" and "length c < 2 ^ 64 - 1"
    and "tmpfs_child s root c = None" and "tmpfs_child s cwd c = None" and "pg_free (pmem s) \<noteq> []"
  shows "\<exists>v s'. com_fs_vfs_create_any tmpfs_optab (CHR ''/'' # c) root (Some cwd) attr excl follow (com_fs_vfs_create tmpfs_optab) s = Some (Ok (EOK, Some v, s')) \<and>
    tmpfs_child s' cwd c = Some v \<and> tmpfs_child s' root c = None"
proof -
  have wf: "tmpfs_wf s" by (rule reachable_wf [OF assms(1)])
  have c: "c \<noteq> ''..''" using assms(5) by (simp add: proper_name_def)
  obtain s1 where s1: "com_fs_vfs_lookup tmpfs_optab (CHR ''/'' # c) root (Some cwd) follow s = Some (Ok (ENOENT, None, s1))" "same_tree s s1"
    using lookup_missing [OF wf assms(5) _ assms(7) disjI2, of "CHR ''/'' # c" root cwd follow] assms(2) by (auto simp: live_dir_def)
  obtain f pm' s2 where cr: "com_fs_vfs_create_any tmpfs_optab (CHR ''/'' # c) root (Some cwd) attr excl follow (com_fs_vfs_create tmpfs_optab) s =
      Some (Ok (EOK, Some (next_vnode s), upd_ref (\<lambda>n. n - 1) cwd (add_node cwd E_COM_VNODE_TYPE_FILE c (T_File f) pm' s2)))" and t: "same_tree s s2"
    using create_any_adds [OF wf assms(3,5,6,9) disjI2 [OF refl] s1] by blast
  note K = tmpfs_tree.tree_kept [OF t wf]
  have d: "live_dir s2 cwd" "live_dir s2 root" using assms(2,3) by (simp_all add: live_dir_def same_treeD [OF t])
  have wf2: "tmpfs_wf (add_node cwd E_COM_VNODE_TYPE_FILE c (T_File f) pm' s2)" using K d by (intro wf_add_node) simp_all
  have "tmpfs_child (add_node cwd E_COM_VNODE_TYPE_FILE c (T_File f) pm' s2) cwd c = Some (next_vnode s)"
    using added_child [of s2 cwd c] K d c assms(8) by (simp add: same_treeD [OF t])
  moreover have "tmpfs_child (add_node cwd E_COM_VNODE_TYPE_FILE c (T_File f) pm' s2) root c = None"
    using other_child_None [OF _ d assms(4) c _ wf2] K assms(7) by simp
  ultimately show ?thesis using cr by auto
qed

theorem create_any_misses_root_witness:
  "\<exists>v s'. com_fs_vfs_create_any tmpfs_optab ''/c'' 0 (Some 1) 0 True True (com_fs_vfs_create tmpfs_optab) sample_dirs = Some (Ok (EOK, Some v, s')) \<and>
    tmpfs_child s' 1 ''c'' = Some v \<and> tmpfs_child s' 0 ''c'' = None"
  using create_any_misses_root [OF sample_dirs_reachable, of 0 1 "''c''" 0 True True] sample_facts by simp

text \<open>
  Creating through a dangling symbolic link duplicates its name. The file gets the name of the link
  in the directory of the link, not the name the link points to: the directory then holds two
  entries of that name, and the name still leads to the link.
\<close>

theorem create_any_duplicates_name:
  assumes "reachable pm s" and "live_dir s d" and "proper_name c" and "length c < 2 ^ 64 - 1" and "proper_name x"
    and "tmpfs_child s d c = Some l" "vn_type (vnodes s l) = E_COM_VNODE_TYPE_LINK" "mountpointof (vnodes s l) = None" "tmpfs_target s l = x"
    and "tmpfs_child s d x = None" and "pg_free (pmem s) \<noteq> []"
  shows "\<exists>v s'. com_fs_vfs_create_any tmpfs_optab c root (Some d) attr excl True (com_fs_vfs_create tmpfs_optab) s = Some (Ok (EOK, Some v, s')) \<and>
    tmpfs_child s' d c = Some l \<and> tmpfs_child s' d x = None \<and> dir_entries s' (extra (vnodes s d)) = dir_entries s (extra (vnodes s d)) @ [(next_tnode s, c)]"
proof -
  have wf: "tmpfs_wf s" by (rule reachable_wf [OF assms(1)])
  have c: "c \<noteq> ''..''" "x \<noteq> ''..''" using assms(3,5) by (simp_all add: proper_name_def)
  obtain s1 where s1: "com_fs_vfs_lookup tmpfs_optab c root (Some d) True s = Some (Ok (ENOENT, None, s1))" "same_tree s s1"
    using lookup_dangling [OF wf assms(3,5) _ assms(6,8,7), of c d root] assms(2,9,10) by (auto simp: live_dir_def)
  obtain f pm' s2 where cr: "com_fs_vfs_create_any tmpfs_optab c root (Some d) attr excl True (com_fs_vfs_create tmpfs_optab) s =
      Some (Ok (EOK, Some (next_vnode s), upd_ref (\<lambda>n. n - 1) d (add_node d E_COM_VNODE_TYPE_FILE c (T_File f) pm' s2)))" and t: "same_tree s s2"
    using create_any_adds [OF wf assms(2,3,4,11) disjI1 [OF refl] s1] by blast
  let ?s = "add_node d E_COM_VNODE_TYPE_FILE c (T_File f) pm' s2"
  note K = tmpfs_tree.tree_kept [OF t wf]
  have d: "live_dir s2 d" "nodes_wf s2" using assms(2) K by (simp_all add: live_dir_def same_treeD [OF t] tmpfs_wf_def)
  have wf2: "tmpfs_wf ?s" using K d(1) by (intro wf_add_node) simp_all
  have e: "dir_entries ?s (extra (vnodes s d)) = dir_entries s (extra (vnodes s d)) @ [(next_tnode s, c)]"
    using add_node_entries [OF d(2,1), of E_COM_VNODE_TYPE_FILE c "T_File f" pm' "extra (vnodes s d)"] by (simp add: same_treeD [OF t] same_tree_tmpfs [OF t] dir_entries_def)
  have "tmpfs_child ?s d c = Some l" using kept_child [of s2 d c l] K d c assms(6) by simp
  moreover have "tmpfs_child ?s d x = None"
  proof -
    have "extra (vnodes ?s d) = extra (vnodes s d)" "live_dir ?s d"
      using live_dirD(1,2) [OF d(2,1)] by (auto simp: add_node_def Let_def live_dir_def same_treeD [OF t])
    moreover have "x \<noteq> c" using assms(6,10) by auto
    ultimately show ?thesis using child_None [OF wf2 _ c(2), of d] child_None [OF wf assms(2) c(2)] assms(10) e by simp
  qed
  ultimately show ?thesis using cr e by (auto simp: dir_entries_def)
qed

theorem create_any_duplicates_name_witness:
  "\<exists>v s'. com_fs_vfs_create_any tmpfs_optab ''c'' 0 (Some 0) 0 True True (com_fs_vfs_create tmpfs_optab) sample_dangling = Some (Ok (EOK, Some v, s')) \<and>
    tmpfs_child s' 0 ''c'' = Some 1 \<and> tmpfs_child s' 0 ''x'' = None \<and> dir_entries s' 0 = [(1, ''c''), (2, ''c'')]"
proof -
  have "extra (vnodes sample_dangling 0) = 0" "dir_entries sample_dangling 0 = [(1, ''c'')]" "next_tnode sample_dangling = 2" by (simp_all add: sample_dangling_def sample_defs)
  then show ?thesis using create_any_duplicates_name [OF sample_dangling_reachable, of 0 "''c''" "''x''" 1 0 0 True] sample_facts(10,11) sample_dangling_facts by simp
qed

end
