(* ===== verification/Mmu.thy ===== *)
theory Mmu
  imports Pmm
begin

text \<open>
  Page tables of x86-64, \<^verbatim>\<open>src/platform/x86-64/mmu.c\<close>. A table is a page of 512 entries, named by its
  physical address; entries are words of flags and an address. The tables come from the page cache
  of the processor, which the model keeps as the list of pages it hands out next; such a page reads
  as zero. The pages that tables map are counted by the page allocator of theory \<open>Pmm\<close>.

  The translation buffers of the processors, and with them the broadcast that invalidates them, are
  not modelled: an entry takes effect when it is stored.
\<close>

section \<open>State\<close>

record mmu_state =
  tables :: "u64 \<Rightarrow> u64 \<Rightarrow> u64"
  pt_pool :: "u64 list"
  mmu_pmm :: pmm
  RootTable :: u64
  cr3 :: u64

definition ADDRMASK :: u64 where
  "ADDRMASK = 0x7ffffffffffff000"

definition PTMASK :: u64 where
  "PTMASK = push_bit 12 511"

definition PDMASK :: u64 where
  "PDMASK = push_bit 21 511"

definition PDPTMASK :: u64 where
  "PDPTMASK = push_bit 30 511"

definition PML4MASK :: u64 where
  "PML4MASK = push_bit 39 511"

definition DEPTH_PDPT :: nat where
  "DEPTH_PDPT = 1"

definition DEPTH_PD :: nat where
  "DEPTH_PD = 2"

definition DEPTH_PT :: nat where
  "DEPTH_PT = 3"

definition ARCH_MMU_FLAGS_READ :: u64 where
  "ARCH_MMU_FLAGS_READ = 1"

definition ARCH_MMU_FLAGS_WRITE :: u64 where
  "ARCH_MMU_FLAGS_WRITE = 2"

definition ARCH_MMU_FLAGS_USER :: u64 where
  "ARCH_MMU_FLAGS_USER = 4"

definition ARCH_MMU_FLAGS_PRESENT :: u64 where
  "ARCH_MMU_FLAGS_PRESENT = 1"

definition ARCH_MMU_FLAGS_NOEXEC :: u64 where
  "ARCH_MMU_FLAGS_NOEXEC = push_bit 63 1"

definition ARCH_MMU_FLAGS_GLOBAL :: u64 where
  "ARCH_MMU_FLAGS_GLOBAL = push_bit 8 1"

definition ARCH_MMU_FLAGS_WT :: u64 where
  "ARCH_MMU_FLAGS_WT = push_bit 3 1"

definition ARCH_MMU_FLAGS_WC :: u64 where
  "ARCH_MMU_FLAGS_WC = push_bit 7 1 OR ARCH_MMU_FLAGS_WT"

definition ARCH_MMU_EXTRA_FLAGS_SHARED :: u64 where
  "ARCH_MMU_EXTRA_FLAGS_SHARED = push_bit 10 1"

definition ARCH_MMU_EXTRA_FLAGS_PRIVATE :: u64 where
  "ARCH_MMU_EXTRA_FLAGS_PRIVATE = push_bit 9 1"

definition ARCH_MMU_EXTRA_FLAGS_NOCOPY :: u64 where
  "ARCH_MMU_EXTRA_FLAGS_NOCOPY = push_bit 11 1"

section \<open>Tables\<close>

text \<open>The cache allocates on its own, so that it returns a page unless the kernel panics.\<close>

definition internal_alloc_phys :: "mmu_state \<Rightarrow> (u64 option \<times> mmu_state) res" where
  "internal_alloc_phys s =
     (case pt_pool s of
        [] \<Rightarrow> Panic
      | p # ps \<Rightarrow> Ok (Some p, s\<lparr>tables := (tables s)(p := (\<lambda>_. 0)), pt_pool := ps\<rparr>))"

definition internal_free_phys :: "u64 \<Rightarrow> mmu_state \<Rightarrow> mmu_state" where
  "internal_free_phys page s = s\<lparr>tables := (tables s)(page := (\<lambda>_. 0)), pt_pool := page # pt_pool s\<rparr>"

definition next_table :: "u64 \<Rightarrow> u64 option" where
  "next_table entry = (if entry = 0 then None else Some (entry AND ADDRMASK))"

definition set_entry :: "u64 \<Rightarrow> u64 \<Rightarrow> u64 \<Rightarrow> mmu_state \<Rightarrow> mmu_state" where
  "set_entry p i e s = s\<lparr>tables := (tables s)(p := (tables s p)(i := e))\<rparr>"

definition ptoffset :: "u64 \<Rightarrow> u64" where
  "ptoffset addr = drop_bit 12 (addr AND PTMASK)"

definition pdoffset :: "u64 \<Rightarrow> u64" where
  "pdoffset addr = drop_bit 21 (addr AND PDMASK)"

definition pdptoffset :: "u64 \<Rightarrow> u64" where
  "pdptoffset addr = drop_bit 30 (addr AND PDPTMASK)"

definition pml4offset :: "u64 \<Rightarrow> u64" where
  "pml4offset addr = drop_bit 39 (addr AND PML4MASK)"

text \<open>The place of an entry: its table and its index.\<close>

definition get_page :: "u64 \<Rightarrow> u64 \<Rightarrow> mmu_state \<Rightarrow> (u64 \<times> u64) option" where
  "get_page pml4 vaddr s =
     (case next_table (tables s pml4 (pml4offset vaddr)) of
        None \<Rightarrow> None
      | Some pdpt \<Rightarrow>
          (case next_table (tables s pdpt (pdptoffset vaddr)) of
             None \<Rightarrow> None
           | Some pd \<Rightarrow>
               (case next_table (tables s pd (pdoffset vaddr)) of
                  None \<Rightarrow> None
                | Some pt \<Rightarrow> Some (pt, ptoffset vaddr))))"

text \<open>The table an entry points to; an empty entry gets a new table. \<open>None\<close> is a failed allocation.\<close>

definition next_or_new :: "u64 \<Rightarrow> u64 \<Rightarrow> mmu_state \<Rightarrow> (u64 option \<times> mmu_state) res" where
  "next_or_new p i s =
     (case next_table (tables s p i) of
        Some q \<Rightarrow> Ok (Some q, s)
      | None \<Rightarrow>
          res_bind (internal_alloc_phys s) (\<lambda>(r, s1).
            case r of
              None \<Rightarrow> Ok (None, s1)
            | Some q \<Rightarrow> Ok (Some q, set_entry p i (q OR ARCH_MMU_FLAGS_READ OR ARCH_MMU_FLAGS_WRITE OR ARCH_MMU_FLAGS_USER) s1)))"

definition add_page :: "u64 \<Rightarrow> u64 \<Rightarrow> u64 \<Rightarrow> nat \<Rightarrow> mmu_state \<Rightarrow> (bool \<times> mmu_state) res" where
  "add_page pml4 vaddr entry depth s =
     (if depth = DEPTH_PDPT then Ok (True, set_entry pml4 (pml4offset vaddr) entry s)
      else res_bind (next_or_new pml4 (pml4offset vaddr) s) (\<lambda>(r1, s1).
        case r1 of
          None \<Rightarrow> Ok (False, s1)
        | Some pdpt \<Rightarrow>
            if depth = DEPTH_PD then Ok (True, set_entry pdpt (pdptoffset vaddr) entry s1)
            else res_bind (next_or_new pdpt (pdptoffset vaddr) s1) (\<lambda>(r2, s2).
              case r2 of
                None \<Rightarrow> Ok (False, s2)
              | Some pd \<Rightarrow>
                  if depth = DEPTH_PT then Ok (True, set_entry pd (pdoffset vaddr) entry s2)
                  else res_bind (next_or_new pd (pdoffset vaddr) s2) (\<lambda>(r3, s3).
                    case r3 of
                      None \<Rightarrow> Ok (False, s3)
                    | Some pt \<Rightarrow> Ok (True, set_entry pt (ptoffset vaddr) entry s3)))))"

text \<open>A loop over the entries of a table.\<close>

fun for_each :: "('a \<Rightarrow> 's \<Rightarrow> 's res) \<Rightarrow> 'a list \<Rightarrow> 's \<Rightarrow> 's res" where
  "for_each f [] s = Ok s"
| "for_each f (x # xs) s = res_bind (f x s) (for_each f xs)"

definition indices :: "nat \<Rightarrow> u64 list" where
  "indices n = map of_nat [0..<n]"

text \<open>
  Copying a table and what it points to. Pages at the bottom are shared, without the permission to
  write unless they are meant to be shared; both tables get the new entry.
\<close>

definition copied_entry :: "u64 \<Rightarrow> u64" where
  "copied_entry entry =
     (if ARCH_MMU_EXTRA_FLAGS_SHARED AND entry \<noteq> 0 then entry
      else (entry AND NOT ARCH_MMU_FLAGS_WRITE) OR (if ARCH_MMU_FLAGS_WRITE AND entry \<noteq> 0 then push_bit 9 1 else 0))"

primrec duplicate_recursive :: "nat \<Rightarrow> u64 \<Rightarrow> mmu_state \<Rightarrow> (u64 \<times> mmu_state) res" where
  "duplicate_recursive 0 entry s =
     (if ARCH_MMU_FLAGS_PRESENT AND entry = 0 then Ok (0, s)
      else res_bind (com_mm_pmm_hold (mmu_pmm s) (unat (entry AND ADDRMASK))) (\<lambda>pm.
        Ok (copied_entry entry, s\<lparr>mmu_pmm := pm\<rparr>)))"
| "duplicate_recursive (Suc level) entry s =
     (if ARCH_MMU_FLAGS_PRESENT AND entry = 0 then Ok (0, s)
      else res_bind (internal_alloc_phys s) (\<lambda>(r, s1).
        let virt = entry AND ADDRMASK; new = (case r of None \<Rightarrow> 0 | Some q \<Rightarrow> q)
        in res_bind
             (for_each (\<lambda>i s.
                if ARCH_MMU_FLAGS_PRESENT AND tables s virt i = 0 then Ok s
                else res_bind (duplicate_recursive level (tables s virt i) s) (\<lambda>(e, s').
                  let s2 = set_entry new i e s'
                  in Ok (if level = 0 then set_entry virt i (tables s2 new i) s2 else s2))) (indices 512) s1)
             (\<lambda>s3. Ok (new OR (entry AND NOT ADDRMASK), s3))))"

primrec destroy_recursive :: "nat \<Rightarrow> u64 \<Rightarrow> mmu_state \<Rightarrow> mmu_state res" where
  "destroy_recursive 0 entry s =
     res_bind (com_mm_pmm_free (mmu_pmm s) (unat (entry AND ADDRMASK))) (\<lambda>pm. Ok (s\<lparr>mmu_pmm := pm\<rparr>))"
| "destroy_recursive (Suc level) entry s =
     (let directory = entry AND ADDRMASK
      in res_bind
           (for_each (\<lambda>i s.
              if ARCH_MMU_FLAGS_PRESENT AND tables s directory i = 0 then Ok s
              else destroy_recursive level (tables s directory i) s) (indices 512) s)
           (\<lambda>s1. Ok (internal_free_phys directory s1)))"

section \<open>Interface\<close>

definition arch_mmu_new_table :: "mmu_state \<Rightarrow> (u64 option \<times> mmu_state) res" where
  "arch_mmu_new_table s =
     res_bind (internal_alloc_phys s) (\<lambda>(r, s1).
       case r of
         None \<Rightarrow> Ok (None, s1)
       | Some table \<Rightarrow>
           Ok (Some table, s1\<lparr>tables := (tables s1)(table := (\<lambda>i. if 256 \<le> i then tables s1 (RootTable s1) i else tables s1 table i))\<rparr>))"

definition arch_mmu_destroy_table :: "u64 \<Rightarrow> mmu_state \<Rightarrow> mmu_state res" where
  "arch_mmu_destroy_table pt s =
     res_bind
       (for_each (\<lambda>i s.
          if ARCH_MMU_FLAGS_PRESENT AND tables s pt i = 0 then Ok s else destroy_recursive 3 (tables s pt i) s) (indices 256) s)
       (\<lambda>s1. Ok (internal_free_phys pt s1))"

definition arch_mmu_duplicate_table :: "u64 \<Rightarrow> mmu_state \<Rightarrow> (u64 option \<times> mmu_state) res" where
  "arch_mmu_duplicate_table pt s =
     res_bind (arch_mmu_new_table s) (\<lambda>(r, s1).
       case r of
         None \<Rightarrow> Ok (None, s1)
       | Some new_pt \<Rightarrow>
           res_bind
             (for_each (\<lambda>i s.
                if ARCH_MMU_FLAGS_PRESENT AND tables s pt i = 0 then Ok s
                else res_bind (duplicate_recursive 3 (tables s pt i) s) (\<lambda>(e, s'). Ok (set_entry new_pt i e s'))) (indices 256) s1)
             (\<lambda>s2. Ok (Some new_pt, s2)))"

definition arch_mmu_map :: "u64 \<Rightarrow> u64 \<Rightarrow> u64 \<Rightarrow> u64 \<Rightarrow> mmu_state \<Rightarrow> (bool \<times> mmu_state) res" where
  "arch_mmu_map pt virt phys flags s = add_page pt virt ((phys AND ADDRMASK) OR flags) 0 s"

definition arch_mmu_chflags :: "u64 \<Rightarrow> u64 \<Rightarrow> u64 \<Rightarrow> mmu_state \<Rightarrow> bool \<times> mmu_state" where
  "arch_mmu_chflags pt virt new_flags s =
     (case get_page pt virt s of
        None \<Rightarrow> (False, s)
      | Some (p, i) \<Rightarrow> (True, set_entry p i ((tables s p i AND ADDRMASK) OR new_flags) s))"

text \<open>The address that was mapped, where the call stores one.\<close>

definition arch_mmu_unmap :: "u64 \<Rightarrow> u64 \<Rightarrow> mmu_state \<Rightarrow> bool \<times> u64 option \<times> mmu_state" where
  "arch_mmu_unmap pt virt s =
     (case get_page pt virt s of
        None \<Rightarrow> (False, None, s)
      | Some (p, i) \<Rightarrow> (True, Some (tables s p i AND ADDRMASK), set_entry p i 0 s))"

definition arch_mmu_switch :: "u64 \<Rightarrow> mmu_state \<Rightarrow> mmu_state" where
  "arch_mmu_switch pt s = s\<lparr>cr3 := pt\<rparr>"

definition arch_mmu_switch_default :: "mmu_state \<Rightarrow> mmu_state" where
  "arch_mmu_switch_default s = arch_mmu_switch (RootTable s) s"

definition arch_mmu_get_table :: "mmu_state \<Rightarrow> u64" where
  "arch_mmu_get_table s = cr3 s"

definition arch_mmu_get_physical :: "u64 \<Rightarrow> u64 \<Rightarrow> mmu_state \<Rightarrow> u64 option" where
  "arch_mmu_get_physical pagetable virt_addr s =
     (case get_page pagetable virt_addr s of
        None \<Rightarrow> None
      | Some (p, i) \<Rightarrow>
          if tables s p i AND ADDRMASK = 0 then None
          else Some ((tables s p i AND ADDRMASK) + (virt_addr AND (of_nat ARCH_PAGE_SIZE - 1))))"

definition arch_mmu_is_cow :: "u64 \<Rightarrow> u64 \<Rightarrow> mmu_state \<Rightarrow> bool" where
  "arch_mmu_is_cow pagetable virt_addr s =
     (case get_page pagetable virt_addr s of
        None \<Rightarrow> False
      | Some (p, i) \<Rightarrow> ARCH_MMU_EXTRA_FLAGS_PRIVATE AND tables s p i \<noteq> 0)"

definition arch_mmu_is_executable :: "u64 \<Rightarrow> u64 \<Rightarrow> mmu_state \<Rightarrow> bool" where
  "arch_mmu_is_executable pagetable virt_addr s =
     (case get_page pagetable virt_addr s of
        None \<Rightarrow> False
      | Some (p, i) \<Rightarrow> ARCH_MMU_FLAGS_NOEXEC AND tables s p i = 0)"

text \<open>
  At boot: a table for every entry of the upper half, the direct map of all memory, and the sections
  of the kernel image, whose bounds the linker provides.
\<close>

definition ARCH_PHYS_TO_HHDM :: "u64 \<Rightarrow> u64" where
  "ARCH_PHYS_TO_HHDM addr = 0xffff800000000000 + addr"

definition ARCH_MEMMAP_IS_MAPPABLE :: "arch_memmap_entry \<Rightarrow> bool" where
  "ARCH_MEMMAP_IS_MAPPABLE entry \<longleftrightarrow>
     mm_type entry \<in> {LIMINE_MEMMAP_USABLE, LIMINE_MEMMAP_BOOTLOADER_RECLAIMABLE, LIMINE_MEMMAP_KERNEL_AND_MODULES, LIMINE_MEMMAP_FRAMEBUFFER}"

definition ARCH_MEMMAP_IS_FRAMEBUFFER :: "arch_memmap_entry \<Rightarrow> bool" where
  "ARCH_MEMMAP_IS_FRAMEBUFFER entry \<longleftrightarrow> mm_type entry = LIMINE_MEMMAP_FRAMEBUFFER"

definition page_steps :: "nat \<Rightarrow> u64 list" where
  "page_steps len = map (\<lambda>k. of_nat (k * ARCH_PAGE_SIZE)) [0..<(len + ARCH_PAGE_SIZE - 1) div ARCH_PAGE_SIZE]"

definition add_root_page :: "u64 \<Rightarrow> u64 \<Rightarrow> mmu_state \<Rightarrow> mmu_state res" where
  "add_root_page vaddr entry s = res_bind (add_page (RootTable s) vaddr entry 0 s) (\<lambda>(ok, s'). kassert ok (Ok s'))"

definition map_memmap_entry :: "arch_memmap_entry \<Rightarrow> mmu_state \<Rightarrow> mmu_state res" where
  "map_memmap_entry entry s =
     (if ARCH_MEMMAP_IS_MAPPABLE entry then
        let other_flags = (if ARCH_MEMMAP_IS_FRAMEBUFFER entry then ARCH_MMU_FLAGS_WC else 0)
        in for_each (\<lambda>i. add_root_page (ARCH_PHYS_TO_HHDM (of_nat (mm_base entry) + i))
             (((of_nat (mm_base entry) + i) AND ADDRMASK) OR ARCH_MMU_FLAGS_READ OR ARCH_MMU_FLAGS_WRITE OR ARCH_MMU_FLAGS_NOEXEC OR other_flags))
             (page_steps (mm_length entry)) s
      else Ok s)"

definition map_section :: "u64 \<Rightarrow> u64 \<Rightarrow> nat \<times> nat \<Rightarrow> mmu_state \<Rightarrow> mmu_state res" where
  "map_section vp_delta flags section s =
     (let (start, stop) = section
      in for_each (\<lambda>i. add_root_page (of_nat start + i) (((of_nat start + i - vp_delta) AND ADDRMASK) OR flags)) (page_steps (stop - start)) s)"

definition arch_mmu_init :: "arch_memmap_entry list \<Rightarrow> u64 \<Rightarrow> nat \<times> nat \<Rightarrow> nat \<times> nat \<Rightarrow> nat \<times> nat \<Rightarrow> mmu_state \<Rightarrow> mmu_state res" where
  "arch_mmu_init memmap vp_delta text_section rodata_section data_section s =
     res_bind (internal_alloc_phys s) (\<lambda>(r, s1).
       case r of
         None \<Rightarrow> Panic
       | Some root \<Rightarrow>
           res_bind
             (for_each (\<lambda>i s.
                res_bind (internal_alloc_phys s) (\<lambda>(r, s').
                  case r of
                    None \<Rightarrow> Panic
                  | Some entry \<Rightarrow>
                      Ok (set_entry (RootTable s') i (entry OR ARCH_MMU_FLAGS_WRITE OR ARCH_MMU_FLAGS_READ OR ARCH_MMU_FLAGS_GLOBAL) s')))
                (map of_nat [256..<512]) (s1\<lparr>RootTable := root\<rparr>)) (\<lambda>s2.
           res_bind (for_each map_memmap_entry memmap s2) (\<lambda>s3.
           res_bind (map_section vp_delta (ARCH_MMU_FLAGS_READ OR ARCH_MMU_FLAGS_GLOBAL) text_section s3) (\<lambda>s4.
           res_bind (map_section vp_delta (ARCH_MMU_FLAGS_READ OR ARCH_MMU_FLAGS_NOEXEC OR ARCH_MMU_FLAGS_GLOBAL) rodata_section s4) (\<lambda>s5.
           res_bind (map_section vp_delta (ARCH_MMU_FLAGS_READ OR ARCH_MMU_FLAGS_WRITE OR ARCH_MMU_FLAGS_NOEXEC OR ARCH_MMU_FLAGS_GLOBAL) data_section s5) (\<lambda>s6.
             Ok (arch_mmu_switch (RootTable s6) s6)))))))"

section \<open>Address spaces\<close>

text \<open>
  A table with \<open>n\<close> levels of tables below it, of which the first \<open>B\<close> entries count: the tables it
  consists of, that no table is used twice, and the entry at the bottom that a list of indices
  leads to.
\<close>

type_synonym table_mem = "u64 \<Rightarrow> u64 \<Rightarrow> u64"

abbreviation present :: "u64 \<Rightarrow> bool" where
  "present e \<equiv> ARCH_MMU_FLAGS_PRESENT AND e \<noteq> 0"

primrec footprint :: "u64 \<Rightarrow> nat \<Rightarrow> table_mem \<Rightarrow> u64 \<Rightarrow> u64 set" where
  "footprint B 0 t p = {p}"
| "footprint B (Suc n) t p = insert p (\<Union>i \<in> {i. i < B \<and> t p i \<noteq> 0}. footprint 512 n t (t p i AND ADDRMASK))"

primrec tree_ok :: "u64 \<Rightarrow> nat \<Rightarrow> table_mem \<Rightarrow> u64 \<Rightarrow> bool" where
  "tree_ok B 0 t p = True"
| "tree_ok B (Suc n) t p =
     ((\<forall>i < B. t p i \<noteq> 0 \<longrightarrow> present (t p i) \<and> tree_ok 512 n t (t p i AND ADDRMASK) \<and> p \<notin> footprint 512 n t (t p i AND ADDRMASK)) \<and>
      (\<forall>i < B. \<forall>j < B. i \<noteq> j \<and> t p i \<noteq> 0 \<and> t p j \<noteq> 0 \<longrightarrow>
         footprint 512 n t (t p i AND ADDRMASK) \<inter> footprint 512 n t (t p j AND ADDRMASK) = {}))"

primrec leaf :: "nat \<Rightarrow> table_mem \<Rightarrow> u64 \<Rightarrow> u64 list \<Rightarrow> u64" where
  "leaf 0 t p is = t p (hd is)"
| "leaf (Suc n) t p is = (if t p (hd is) = 0 then 0 else leaf n t (t p (hd is) AND ADDRMASK) (tl is))"

definition indices_ok :: "u64 \<Rightarrow> nat \<Rightarrow> u64 list \<Rightarrow> bool" where
  "indices_ok B n is \<longleftrightarrow> length is = Suc n \<and> (n = 0 \<or> hd is < B) \<and> (\<forall>i \<in> set is. i < 512)"

text \<open>The user half of an address space, by the number of a virtual page.\<close>

definition addr_indices :: "u64 \<Rightarrow> u64 list" where
  "addr_indices va = [pml4offset va, pdptoffset va, pdoffset va, ptoffset va]"

definition entry_at :: "mmu_state \<Rightarrow> u64 \<Rightarrow> u64 \<Rightarrow> u64" where
  "entry_at s pml4 va = (case get_page pml4 va s of None \<Rightarrow> 0 | Some (p, i) \<Rightarrow> tables s p i)"

definition vpn :: "u64 \<Rightarrow> u64" where
  "vpn va = drop_bit 12 (take_bit 48 va)"

text \<open>Storing an entry, level by level.\<close>

primrec put_entry :: "nat \<Rightarrow> u64 \<Rightarrow> u64 list \<Rightarrow> u64 \<Rightarrow> mmu_state \<Rightarrow> (bool \<times> mmu_state) res" where
  "put_entry 0 p is e s = Ok (True, set_entry p (hd is) e s)"
| "put_entry (Suc n) p is e s =
     res_bind (next_or_new p (hd is) s) (\<lambda>(r, s1). case r of None \<Rightarrow> Ok (False, s1) | Some q \<Rightarrow> put_entry n q (tl is) e s1)"

text \<open>Sequences of operations on several address spaces, and what they should do to each.\<close>

datatype mmu_op = New_Table | Fork_Table nat | Map_Page nat u64 u64 u64 | Unmap_Page nat u64 | Set_Flags nat u64 u64

fun mmu_step :: "mmu_op \<Rightarrow> u64 list \<times> mmu_state \<Rightarrow> (u64 list \<times> mmu_state) res" where
  "mmu_step New_Table (ts, s) = res_bind (arch_mmu_new_table s) (\<lambda>(r, s'). case r of None \<Rightarrow> Panic | Some p \<Rightarrow> Ok (ts @ [p], s'))"
| "mmu_step (Fork_Table k) (ts, s) = res_bind (arch_mmu_duplicate_table (ts ! k) s) (\<lambda>(r, s'). case r of None \<Rightarrow> Panic | Some p \<Rightarrow> Ok (ts @ [p], s'))"
| "mmu_step (Map_Page k va pa fl) (ts, s) = res_bind (arch_mmu_map (ts ! k) va pa fl s) (\<lambda>(ok, s'). kassert ok (Ok (ts, s')))"
| "mmu_step (Unmap_Page k va) (ts, s) = Ok (ts, snd (snd (arch_mmu_unmap (ts ! k) va s)))"
| "mmu_step (Set_Flags k va fl) (ts, s) = Ok (ts, snd (arch_mmu_chflags (ts ! k) va fl s))"

definition copy_leaf :: "u64 \<Rightarrow> u64" where
  "copy_leaf e = (if present e then copied_entry e else 0)"

definition cow_leaf :: "u64 \<Rightarrow> u64" where
  "cow_leaf e = (if present e then copied_entry e else e)"

fun space_step :: "(u64 \<Rightarrow> u64) list \<Rightarrow> mmu_op \<Rightarrow> (u64 \<Rightarrow> u64) list" where
  "space_step ms New_Table = ms @ [\<lambda>_. 0]"
| "space_step ms (Fork_Table k) = ms[k := cow_leaf \<circ> (ms ! k)] @ [copy_leaf \<circ> (ms ! k)]"
| "space_step ms (Map_Page k va pa fl) = ms[k := (ms ! k)(vpn va := (pa AND ADDRMASK) OR fl)]"
| "space_step ms (Unmap_Page k va) = ms[k := (ms ! k)(vpn va := 0)]"
| "space_step ms (Set_Flags k va fl) = ms[k := (ms ! k)(vpn va := ((ms ! k) (vpn va) AND ADDRMASK) OR fl)]"

text \<open>Pages that can be held: the allocator knows them and has handed them out.\<close>

definition holdable :: "pmm \<Rightarrow> nat \<Rightarrow> bool" where
  "holdable pm a \<longleftrightarrow> (\<exists>r. page_meta_get pm a = Ok r \<and> pm_state (read_meta pm r) \<noteq> E_PAGE_STATE_FREE)"

definition valid_entry :: "pmm \<Rightarrow> u64 \<Rightarrow> bool" where
  "valid_entry pm e \<longleftrightarrow> present e \<longrightarrow> holdable pm (unat (e AND ADDRMASK))"

fun mmu_op_ok :: "pmm \<Rightarrow> (u64 \<Rightarrow> u64) list \<Rightarrow> mmu_op \<Rightarrow> bool" where
  "mmu_op_ok pm ms New_Table = True"
| "mmu_op_ok pm ms (Fork_Table k) = (k < length ms)"
| "mmu_op_ok pm ms (Map_Page k va pa fl) = (k < length ms \<and> va < 2 ^ 47 \<and> valid_entry pm ((pa AND ADDRMASK) OR fl))"
| "mmu_op_ok pm ms (Unmap_Page k va) = (k < length ms \<and> va < 2 ^ 47)"
| "mmu_op_ok pm ms (Set_Flags k va fl) =
     (k < length ms \<and> va < 2 ^ 47 \<and> (ms ! k) (vpn va) \<noteq> 0 \<and> valid_entry pm (((ms ! k) (vpn va) AND ADDRMASK) OR fl))"

fun mmu_ops_ok :: "pmm \<Rightarrow> (u64 \<Rightarrow> u64) list \<Rightarrow> mmu_op list \<Rightarrow> bool" where
  "mmu_ops_ok pm ms [] = True"
| "mmu_ops_ok pm ms (a # as) = (mmu_op_ok pm ms a \<and> mmu_ops_ok pm (space_step ms a) as)"

section \<open>Indices\<close>

lemma and_511: "(x :: u64) AND 511 = take_bit 9 x"
  by (simp add: take_bit_eq_mask mask_eq_exp_minus_1)

lemma offset_eqs:
  "ptoffset va = take_bit 9 (drop_bit 12 va)" "pdoffset va = take_bit 9 (drop_bit 21 va)"
  "pdptoffset va = take_bit 9 (drop_bit 30 va)" "pml4offset va = take_bit 9 (drop_bit 39 va)"
proof -
  have "drop_bit k (va AND push_bit k 511) = drop_bit k va AND (511 :: u64)" if "k \<le> 39" for k
    by (intro bit_eqI) (auto simp: bit_simps dest: bit_imp_le_length)
  then show "ptoffset va = take_bit 9 (drop_bit 12 va)" "pdoffset va = take_bit 9 (drop_bit 21 va)"
      "pdptoffset va = take_bit 9 (drop_bit 30 va)" "pml4offset va = take_bit 9 (drop_bit 39 va)"
    by (simp_all add: ptoffset_def pdoffset_def pdptoffset_def pml4offset_def PTMASK_def PDMASK_def PDPTMASK_def PML4MASK_def and_511)
qed

lemma take_bit_9_less: "take_bit 9 (x :: u64) < 512"
  using take_bit_nat_less_exp [of 9 "unat x"] by (simp add: word_less_nat_alt unsigned_take_bit_eq)

lemma offset_bounds: "ptoffset va < 512" "pdoffset va < 512" "pdptoffset va < 512" "pml4offset va < 512"
  by (simp_all add: offset_eqs take_bit_9_less)

lemma user_offset:
  assumes "va < 2 ^ 47"
  shows "pml4offset va < 256"
proof -
  have "unat (drop_bit 39 va) < 256" using assms by (simp add: drop_bit_eq_div word_less_nat_alt unat_div less_mult_imp_div_less)
  then have "drop_bit 39 va < 256" by (simp add: word_less_nat_alt)
  moreover have "pml4offset va \<le> drop_bit 39 va" by (simp add: offset_eqs word_le_nat_alt unsigned_take_bit_eq)
  ultimately show ?thesis by (rule le_less_trans [rotated])
qed

lemma addr_indices_ok: "va < 2 ^ 47 \<Longrightarrow> indices_ok 256 3 (addr_indices va)"
  by (simp add: indices_ok_def addr_indices_def offset_bounds user_offset)

lemma addr_indices_vpn: "addr_indices va = addr_indices va' \<longleftrightarrow> vpn va = vpn va'"
proof
  assume a: "addr_indices va = addr_indices va'"
  have "bit va n = bit va' n" if "12 \<le> n" "n < 48" for n
  proof -
    have split: "n = 12 + (n - 12) \<and> n - 12 < 9 \<or> n = 21 + (n - 21) \<and> n - 21 < 9 \<or> n = 30 + (n - 30) \<and> n - 30 < 9 \<or> n = 39 + (n - 39) \<and> n - 39 < 9" using that by linarith
    have "bit (take_bit 9 (drop_bit k va)) m = bit (take_bit 9 (drop_bit k va')) m" if "k \<in> {12, 21, 30, 39}" for k m
      using a that by (auto simp: addr_indices_def offset_eqs)
    then have "m < 9 \<Longrightarrow> bit va (k + m) = bit va' (k + m)" if "k \<in> {12, 21, 30, 39}" for k m using that by (auto simp: bit_simps)
    then show ?thesis using split by (metis insert_iff)
  qed
  then show "vpn va = vpn va'" by (intro bit_eqI) (auto simp: vpn_def bit_simps)
next
  assume v: "vpn va = vpn va'"
  have "bit va (12 + n) = bit va' (12 + n)" if "n < 36" for n
    using arg_cong [OF v, of "\<lambda>x. bit x n"] that by (simp add: vpn_def bit_simps)
  then have *: "bit va n = bit va' n" if "12 \<le> n" "n < 48" for n using that by (auto simp: le_iff_add)
  have "take_bit 9 (drop_bit k va) = take_bit 9 (drop_bit k va')" if "k \<in> {12, 21, 30, 39}" for k
    by (intro bit_eqI) (use that * in \<open>auto simp: bit_simps\<close>)
  then show "addr_indices va = addr_indices va'" by (simp add: addr_indices_def offset_eqs)
qed

lemma entry_at_leaf: "entry_at s p va = leaf 3 (tables s) p (addr_indices va)"
  by (simp add: entry_at_def get_page_def next_table_def addr_indices_def numeral_3_eq_3)

lemma add_page_put: "add_page p va e 0 s = put_entry 3 p (addr_indices va) e s"
  by (simp add: add_page_def addr_indices_def numeral_3_eq_3 DEPTH_PDPT_def DEPTH_PD_def DEPTH_PT_def cong: option.case_cong)

section \<open>Trees of tables\<close>

lemma footprint_self: "p \<in> footprint B n t p"
  by (cases n) simp_all

lemma frame_tree:
  "\<forall>q \<in> footprint B n t p. t' q = t q \<Longrightarrow>
    footprint B n t' p = footprint B n t p \<and> tree_ok B n t' p = tree_ok B n t p \<and> (\<forall>is. indices_ok B n is \<longrightarrow> leaf n t' p is = leaf n t p is)"
proof (induction n arbitrary: B p)
  case (Suc n)
  have p: "t' p = t p" using Suc.prems by simp
  have c: "footprint 512 n t' (t p i AND ADDRMASK) = footprint 512 n t (t p i AND ADDRMASK) \<and>
      tree_ok 512 n t' (t p i AND ADDRMASK) = tree_ok 512 n t (t p i AND ADDRMASK) \<and>
      (\<forall>is. indices_ok 512 n is \<longrightarrow> leaf n t' (t p i AND ADDRMASK) is = leaf n t (t p i AND ADDRMASK) is)" if "i < B" "t p i \<noteq> 0" for i
    using Suc.prems that by (intro Suc.IH) auto
  have "leaf (Suc n) t' p is = leaf (Suc n) t p is" if "indices_ok B (Suc n) is" for "is"
  proof (cases "t p (hd is) = 0")
    case False
    have "hd is < B" "indices_ok 512 n (tl is)" using that by (cases "is"; cases "tl is"; auto simp: indices_ok_def)+
    then show ?thesis using c [of "hd is"] False p by simp
  qed (simp add: p)
  then show ?case using c p by (auto simp del: leaf.simps)
qed simp

lemma tree_okD:
  assumes "tree_ok B (Suc n) t p" and "i < B" and "t p i \<noteq> 0"
  shows "present (t p i)" "tree_ok 512 n t (t p i AND ADDRMASK)" "p \<notin> footprint 512 n t (t p i AND ADDRMASK)"
    "j < B \<Longrightarrow> j \<noteq> i \<Longrightarrow> t p j \<noteq> 0 \<Longrightarrow> footprint 512 n t (t p i AND ADDRMASK) \<inter> footprint 512 n t (t p j AND ADDRMASK) = {}"
  using assms by auto

lemma indices_ok_Suc: "indices_ok B (Suc n) is \<Longrightarrow> hd is < B \<and> indices_ok 512 n (tl is) \<and> is = hd is # tl is"
  by (cases "is"; cases "tl is") (auto simp: indices_ok_def)

text \<open>Changing the tree below one entry, with tables that were outside before.\<close>

lemma change_below:
  assumes ok: "tree_ok B (Suc n) t p" and i: "i < B" "e \<noteq> 0" "present e"
    and t': "t' p = (t p)(i := e)"
    and below: "tree_ok 512 n t' (e AND ADDRMASK)" "p \<notin> footprint 512 n t' (e AND ADDRMASK)"
      "\<forall>j < B. j \<noteq> i \<and> t p j \<noteq> 0 \<longrightarrow> footprint 512 n t (t p j AND ADDRMASK) \<inter> footprint 512 n t' (e AND ADDRMASK) = {}"
    and frame: "\<forall>q. q \<noteq> p \<and> q \<notin> footprint 512 n t' (e AND ADDRMASK) \<and> q \<in> footprint B (Suc n) t p \<longrightarrow> t' q = t q"
  shows "tree_ok B (Suc n) t' p"
    and "footprint B (Suc n) t' p = insert p (\<Union>j \<in> {j. j < B \<and> j \<noteq> i \<and> t p j \<noteq> 0}. footprint 512 n t (t p j AND ADDRMASK)) \<union> footprint 512 n t' (e AND ADDRMASK)"
    and "indices_ok B (Suc n) is \<Longrightarrow> leaf (Suc n) t' p is = (if hd is = i then leaf n t' (e AND ADDRMASK) (tl is) else leaf (Suc n) t p is)"
proof -
  have sib: "footprint 512 n t' (t p j AND ADDRMASK) = footprint 512 n t (t p j AND ADDRMASK) \<and> tree_ok 512 n t' (t p j AND ADDRMASK) \<and>
      (\<forall>is. indices_ok 512 n is \<longrightarrow> leaf n t' (t p j AND ADDRMASK) is = leaf n t (t p j AND ADDRMASK) is)" if j: "j < B" "j \<noteq> i" "t p j \<noteq> 0" for j
  proof -
    have "\<forall>q \<in> footprint 512 n t (t p j AND ADDRMASK). t' q = t q"
      using tree_okD(3) [OF ok j(1,3)] below(3) j frame by (auto 0 4)
    then show ?thesis using frame_tree [of 512 n t "t p j AND ADDRMASK" t'] tree_okD(2) [OF ok j(1,3)] by simp
  qed
  show "tree_ok B (Suc n) t' p"
  proof -
    have "present (t' p j) \<and> tree_ok 512 n t' (t' p j AND ADDRMASK) \<and> p \<notin> footprint 512 n t' (t' p j AND ADDRMASK)" if "j < B" "t' p j \<noteq> 0" for j
      using that sib [of j] i below tree_okD [OF ok, of j] by (cases "j = i") (auto simp: t')
    moreover have "footprint 512 n t' (t' p j AND ADDRMASK) \<inter> footprint 512 n t' (t' p k AND ADDRMASK) = {}"
      if jk: "j < B" "k < B" "j \<noteq> k" "t' p j \<noteq> 0" "t' p k \<noteq> 0" for j k
    proof -
      consider "j = i" "k \<noteq> i" | "k = i" "j \<noteq> i" | "j \<noteq> i" "k \<noteq> i" using jk(3) by blast
      then show ?thesis
        using jk sib [of j] sib [of k] below(3) tree_okD(4) [OF ok jk(1), of k] by cases (auto simp: t')
    qed
    ultimately show ?thesis by simp
  qed
  show "footprint B (Suc n) t' p = insert p (\<Union>j \<in> {j. j < B \<and> j \<noteq> i \<and> t p j \<noteq> 0}. footprint 512 n t (t p j AND ADDRMASK)) \<union> footprint 512 n t' (e AND ADDRMASK)"
  proof -
    have "{j. j < B \<and> t' p j \<noteq> 0} = insert i {j. j < B \<and> j \<noteq> i \<and> t p j \<noteq> 0}" using i by (auto simp: t')
    moreover have "footprint 512 n t' (t' p j AND ADDRMASK) = footprint 512 n t (t p j AND ADDRMASK)" if "j < B" "j \<noteq> i" "t p j \<noteq> 0" for j
      using sib [OF that] that by (simp add: t')
    ultimately show ?thesis by (auto simp: t')
  qed
  show "leaf (Suc n) t' p is = (if hd is = i then leaf n t' (e AND ADDRMASK) (tl is) else leaf (Suc n) t p is)" if "indices_ok B (Suc n) is"
    using indices_ok_Suc [OF that] sib [of "hd is"] i by (auto simp: t')
qed

lemma footprint_split:
  assumes "tree_ok B (Suc n) t p" and "i < B" and "t p i \<noteq> 0"
  shows "footprint B (Suc n) t p =
    insert p (\<Union>j \<in> {j. j < B \<and> j \<noteq> i \<and> t p j \<noteq> 0}. footprint 512 n t (t p j AND ADDRMASK)) \<union> footprint 512 n t (t p i AND ADDRMASK)"
proof -
  have "{j. j < B \<and> t p j \<noteq> 0} = insert i {j. j < B \<and> j \<noteq> i \<and> t p j \<noteq> 0}" using assms by auto
  then show ?thesis by auto
qed

text \<open>Hanging a tree into an empty entry, and changing a tree below an entry without a change of its pages.\<close>

lemma graft:
  assumes q: "tree_ok B (Suc n) t q" "i < B" "t q i = 0" and e: "e \<noteq> 0" "present e" "e AND ADDRMASK = r"
    and r: "tree_ok 512 n t r" "footprint B (Suc n) t q \<inter> footprint 512 n t r = {}"
  defines "t' \<equiv> t(q := (t q)(i := e))"
  shows "tree_ok B (Suc n) t' q" "footprint B (Suc n) t' q = footprint B (Suc n) t q \<union> footprint 512 n t r"
    "\<And>js. indices_ok B (Suc n) js \<Longrightarrow> leaf (Suc n) t' q js = (if hd js = i then leaf n t r (tl js) else leaf (Suc n) t q js)"
proof -
  have qr: "q \<notin> footprint 512 n t r" using r(2) footprint_self [of q B "Suc n" t] by blast
  then have "\<forall>x \<in> footprint 512 n t r. t' x = t x" by (auto simp: t'_def)
  note r' = frame_tree [OF this]
  have sib: "\<forall>j < B. j \<noteq> i \<and> t q j \<noteq> 0 \<longrightarrow> footprint 512 n t (t q j AND ADDRMASK) \<inter> footprint 512 n t' (e AND ADDRMASK) = {}"
    using r(2) r' e(3) unfolding footprint.simps(2) by fastforce
  have t': "t' q = (t q)(i := e)" "\<forall>x. x \<noteq> q \<and> x \<notin> footprint 512 n t' (e AND ADDRMASK) \<and> x \<in> footprint B (Suc n) t q \<longrightarrow> t' x = t x" by (simp_all add: t'_def)
  have sub: "tree_ok 512 n t' (e AND ADDRMASK)" "q \<notin> footprint 512 n t' (e AND ADDRMASK)" unfolding e(3) using r' r(1) qr by blast+
  note ch = change_below [OF q(1,2) e(1,2) t'(1) sub sib t'(2)]
  show "tree_ok B (Suc n) t' q" by (fact ch(1))
  have "{j. j < B \<and> j \<noteq> i \<and> t q j \<noteq> 0} = {j. j < B \<and> t q j \<noteq> 0}" using q(3) by auto
  then show "footprint B (Suc n) t' q = footprint B (Suc n) t q \<union> footprint 512 n t r" using ch(2) r' e(3) by simp
  show "leaf (Suc n) t' q js = (if hd js = i then leaf n t r (tl js) else leaf (Suc n) t q js)" if "indices_ok B (Suc n) js" for js
    using ch(3) [OF that] r' e(3) indices_ok_Suc [OF that] by simp
qed

lemma regrow:
  assumes p: "tree_ok B (Suc n) t p" "i < B" "t p i \<noteq> 0" "t' p = t p"
    and c: "tree_ok 512 n t' (t p i AND ADDRMASK)" "footprint 512 n t' (t p i AND ADDRMASK) = footprint 512 n t (t p i AND ADDRMASK)"
    and frame: "\<forall>x \<in> footprint B (Suc n) t p. x \<notin> footprint 512 n t (t p i AND ADDRMASK) \<longrightarrow> t' x = t x"
  shows "tree_ok B (Suc n) t' p" "footprint B (Suc n) t' p = footprint B (Suc n) t p"
    "\<And>js. indices_ok B (Suc n) js \<Longrightarrow> leaf (Suc n) t' p js = (if hd js = i then leaf n t' (t p i AND ADDRMASK) (tl js) else leaf (Suc n) t p js)"
proof -
  have t': "t' p = (t p)(i := t p i)" using p(4) by simp
  have "\<forall>j < B. j \<noteq> i \<and> t p j \<noteq> 0 \<longrightarrow> footprint 512 n t (t p j AND ADDRMASK) \<inter> footprint 512 n t' (t p i AND ADDRMASK) = {}"
    using tree_okD(4) [OF p(1-3)] c(2) by blast
  moreover have "p \<notin> footprint 512 n t' (t p i AND ADDRMASK)" using tree_okD(3) [OF p(1-3)] c(2) by simp
  moreover have "\<forall>q. q \<noteq> p \<and> q \<notin> footprint 512 n t' (t p i AND ADDRMASK) \<and> q \<in> footprint B (Suc n) t p \<longrightarrow> t' q = t q" unfolding c(2) using frame by blast
  ultimately have ch: "tree_ok B (Suc n) t' p"
      "footprint B (Suc n) t' p = insert p (\<Union>j \<in> {j. j < B \<and> j \<noteq> i \<and> t p j \<noteq> 0}. footprint 512 n t (t p j AND ADDRMASK)) \<union> footprint 512 n t' (t p i AND ADDRMASK)"
      "\<And>js. indices_ok B (Suc n) js \<Longrightarrow> leaf (Suc n) t' p js = (if hd js = i then leaf n t' (t p i AND ADDRMASK) (tl js) else leaf (Suc n) t p js)"
    using change_below [OF p(1-3) tree_okD(1) [OF p(1-3)] t' c(1)] by blast+
  show "tree_ok B (Suc n) t' p" by (fact ch(1))
  show "footprint B (Suc n) t' p = footprint B (Suc n) t p" using ch(2) footprint_split [OF p(1-3)] c(2) by simp
  show "leaf (Suc n) t' p js = (if hd js = i then leaf n t' (t p i AND ADDRMASK) (tl js) else leaf (Suc n) t p js)" if "indices_ok B (Suc n) js" for js
    using ch(3) [OF that] .
qed

text \<open>The pages the cache still has are outside a set of tables.\<close>

definition pool_ok :: "u64 list \<Rightarrow> u64 set \<Rightarrow> bool" where
  "pool_ok pool F \<longleftrightarrow> distinct pool \<and> set pool \<inter> F = {} \<and> (\<forall>q \<in> set pool. q AND ADDRMASK = q)"

text \<open>A tree that took \<open>k\<close> pages of the cache.\<close>

definition grown :: "u64 \<Rightarrow> nat \<Rightarrow> u64 \<Rightarrow> nat \<Rightarrow> mmu_state \<Rightarrow> mmu_state \<Rightarrow> bool" where
  "grown B n p k s s' \<longleftrightarrow>
     pt_pool s' = drop k (pt_pool s) \<and> mmu_pmm s' = mmu_pmm s \<and> RootTable s' = RootTable s \<and> cr3 s' = cr3 s \<and>
     tree_ok B n (tables s') p \<and> footprint B n (tables s') p = footprint B n (tables s) p \<union> set (take k (pt_pool s)) \<and>
     (\<forall>q. q \<notin> footprint B n (tables s') p \<longrightarrow> tables s' q = tables s q)"

lemma pool_ok_mono: "pool_ok pool F \<Longrightarrow> F' \<subseteq> F \<Longrightarrow> pool_ok pool F'"
  by (auto simp: pool_ok_def)

lemma zero_table:
  assumes "t q = (\<lambda>_. 0)"
  shows "footprint B n t q = {q}" "tree_ok B n t q" "leaf n t q is = 0"
  using assms by (cases n; simp)+

lemma table_entry:
  assumes "q AND ADDRMASK = q"
  shows "(q OR ARCH_MMU_FLAGS_READ OR ARCH_MMU_FLAGS_WRITE OR ARCH_MMU_FLAGS_USER) AND ADDRMASK = q"
    "present (q OR ARCH_MMU_FLAGS_READ OR ARCH_MMU_FLAGS_WRITE OR ARCH_MMU_FLAGS_USER)"
    "q OR ARCH_MMU_FLAGS_READ OR ARCH_MMU_FLAGS_WRITE OR ARCH_MMU_FLAGS_USER \<noteq> 0"
proof -
  let ?e = "q OR ARCH_MMU_FLAGS_READ OR ARCH_MMU_FLAGS_WRITE OR ARCH_MMU_FLAGS_USER"
  have "?e AND ADDRMASK = (q AND ADDRMASK) OR ((ARCH_MMU_FLAGS_READ OR ARCH_MMU_FLAGS_WRITE OR ARCH_MMU_FLAGS_USER) AND ADDRMASK)"
    by (simp add: bit.conj_disj_distrib2 or.assoc)
  also have "\<dots> = q" using assms by (simp add: ARCH_MMU_FLAGS_READ_def ARCH_MMU_FLAGS_WRITE_def ARCH_MMU_FLAGS_USER_def ADDRMASK_def)
  finally show "?e AND ADDRMASK = q" .
  have b: "bit ?e 0" by (simp add: bit_simps ARCH_MMU_FLAGS_READ_def)
  then show "?e \<noteq> 0" by (metis bit_0_eq bot_apply bot_bool_def)
  have "bit (ARCH_MMU_FLAGS_PRESENT AND ?e) 0" using b by (simp add: bit_simps ARCH_MMU_FLAGS_PRESENT_def)
  then show "present ?e" by (metis bit_0_eq bot_apply bot_bool_def)
qed

lemma put_below:
  assumes IH: "\<And>B p s is. tree_ok B n (tables s) p \<Longrightarrow> pool_ok (pt_pool s) (footprint B n (tables s) p) \<Longrightarrow> n \<le> length (pt_pool s) \<Longrightarrow> indices_ok B n is \<Longrightarrow>
      \<exists>s' k. k \<le> n \<and> put_entry n p is e s = Ok (True, s') \<and> grown B n p k s s' \<and>
        (\<forall>js. indices_ok B n js \<longrightarrow> leaf n (tables s') p js = (if js = is then e else leaf n (tables s) p js))"
    and ok: "tree_ok B (Suc n) (tables s) p" "pool_ok (pt_pool s) (footprint B (Suc n) (tables s) p)" "n \<le> length (pt_pool s)" "indices_ok B (Suc n) is"
    and nz: "tables s p (hd is) \<noteq> 0"
  shows "\<exists>s' k. k \<le> n \<and> put_entry n (tables s p (hd is) AND ADDRMASK) (tl is) e s = Ok (True, s') \<and> grown B (Suc n) p k s s' \<and>
    (\<forall>js. indices_ok B (Suc n) js \<longrightarrow> leaf (Suc n) (tables s') p js = (if js = is then e else leaf (Suc n) (tables s) p js))"
proof -
  let ?i = "hd is" and ?c = "tables s p (hd is) AND ADDRMASK"
  have i: "?i < B" "indices_ok 512 n (tl is)" "is = ?i # tl is" using indices_ok_Suc [OF ok(4)] by auto
  note T = tree_okD [OF ok(1) i(1) nz]
  note F = footprint_split [OF ok(1) i(1) nz]
  have "pool_ok (pt_pool s) (footprint 512 n (tables s) ?c)" by (rule pool_ok_mono [OF ok(2)]) (simp only: F Un_upper2)
  then obtain s' k where s': "k \<le> n" "put_entry n ?c (tl is) e s = Ok (True, s')" "grown 512 n ?c k s s'"
      "\<And>js. indices_ok 512 n js \<Longrightarrow> leaf n (tables s') ?c js = (if js = tl is then e else leaf n (tables s) ?c js)"
    using IH [OF T(2) _ ok(3) i(2)] by blast
  have fp: "footprint 512 n (tables s') ?c = footprint 512 n (tables s) ?c \<union> set (take k (pt_pool s))" using s'(3) by (simp add: grown_def)
  have out: "set (take k (pt_pool s)) \<inter> footprint B (Suc n) (tables s) p = {}" using ok(2) set_take_subset [of k "pt_pool s"] by (auto simp: pool_ok_def)
  have p: "p \<notin> footprint 512 n (tables s') ?c" using T(3) out footprint_self [of p B "Suc n" "tables s"] by (auto simp: fp)
  have frame: "tables s' q = tables s q" if "q \<notin> footprint 512 n (tables s') ?c" for q using s'(3) that by (simp add: grown_def)
  have tp: "tables s' p = (tables s p)(?i := tables s p ?i)" using frame [OF p] by simp
  have sib: "\<forall>j<B. j \<noteq> ?i \<and> tables s p j \<noteq> 0 \<longrightarrow> footprint 512 n (tables s) (tables s p j AND ADDRMASK) \<inter> footprint 512 n (tables s') ?c = {}"
    using T(4) out by (fastforce simp: fp)
  have ok': "tree_ok 512 n (tables s') ?c" using s'(3) by (simp add: grown_def)
  note C = change_below [OF ok(1) i(1) nz T(1) tp ok' p sib]
  have G: "grown B (Suc n) p k s s'"
    using C(1,2) s'(3) frame F fp unfolding grown_def by (auto simp del: footprint.simps tree_ok.simps)
  have "leaf (Suc n) (tables s') p js = (if js = is then e else leaf (Suc n) (tables s) p js)" if "indices_ok B (Suc n) js" for js
  proof -
    have j: "indices_ok 512 n (tl js)" "js = hd js # tl js" using indices_ok_Suc [OF that] by auto
    have "js = is \<longleftrightarrow> hd js = ?i \<and> tl js = tl is" using i(3) j(2) by metis
    then show ?thesis using C(3) [OF _ that] frame s'(4) [OF j(1)] nz by auto
  qed
  then show ?thesis using s'(1,2) G by blast
qed

lemma new_table_below:
  assumes ok: "tree_ok B (Suc n) (tables s) p" "pool_ok (pt_pool s) (footprint B (Suc n) (tables s) p)" and i: "i < B" "tables s p i = 0" and pool: "pt_pool s = q # ps"
  shows "\<exists>s1. next_or_new p i s = Ok (Some q, s1) \<and> grown B (Suc n) p 1 s s1 \<and> tables s1 p i \<noteq> 0 \<and> tables s1 p i AND ADDRMASK = q \<and>
    (\<forall>js. indices_ok B (Suc n) js \<longrightarrow> leaf (Suc n) (tables s1) p js = leaf (Suc n) (tables s) p js)"
proof -
  let ?e = "q OR ARCH_MMU_FLAGS_READ OR ARCH_MMU_FLAGS_WRITE OR ARCH_MMU_FLAGS_USER"
  define s1 where "s1 = set_entry p i ?e (s\<lparr>tables := (tables s)(q := (\<lambda>_. 0)), pt_pool := ps\<rparr>)"
  have q: "q AND ADDRMASK = q" "q \<notin> footprint B (Suc n) (tables s) p" using ok(2) pool by (auto simp: pool_ok_def)
  note E = table_entry [OF q(1)]
  have qp: "q \<noteq> p" using q(2) footprint_self by metis
  have nx: "next_or_new p i s = Ok (Some q, s1)" using i pool by (simp add: next_or_new_def next_table_def internal_alloc_phys_def s1_def)
  have t1: "tables s1 q = (\<lambda>_. 0)" "tables s1 p = (tables s p)(i := ?e)" "\<And>x. x \<noteq> p \<Longrightarrow> x \<noteq> q \<Longrightarrow> tables s1 x = tables s x"
    using qp by (auto simp: s1_def set_entry_def)
  have Z: "footprint 512 n (tables s1) (?e AND ADDRMASK) = {q}" "tree_ok 512 n (tables s1) (?e AND ADDRMASK)" "\<And>js. leaf n (tables s1) (?e AND ADDRMASK) js = 0"
    using zero_table [of "tables s1" q, OF t1(1)] E(1) by simp_all
  have "\<forall>j<B. j \<noteq> i \<and> tables s p j \<noteq> 0 \<longrightarrow> footprint 512 n (tables s) (tables s p j AND ADDRMASK) \<inter> footprint 512 n (tables s1) (?e AND ADDRMASK) = {}"
    using q(2) by (auto simp: Z(1))
  note C = change_below [OF ok(1) i(1) E(3,2) t1(2) Z(2) _ this]
  have pq: "p \<notin> footprint 512 n (tables s1) (?e AND ADDRMASK)" using qp by (simp add: Z(1))
  have fr: "\<forall>x. x \<noteq> p \<and> x \<notin> footprint 512 n (tables s1) (?e AND ADDRMASK) \<and> x \<in> footprint B (Suc n) (tables s) p \<longrightarrow> tables s1 x = tables s x"
    using t1(3) by (simp add: Z(1))
  have "footprint B (Suc n) (tables s1) p = footprint B (Suc n) (tables s) p \<union> {q}"
    using C(2) [OF pq fr] i by (auto simp: Z(1))
  moreover have "pt_pool s1 = ps" "mmu_pmm s1 = mmu_pmm s" "RootTable s1 = RootTable s" "cr3 s1 = cr3 s" by (simp_all add: s1_def set_entry_def)
  moreover have "x \<noteq> p" if "x \<notin> footprint B (Suc n) (tables s) p" for x using that footprint_self [of p B "Suc n" "tables s"] by metis
  ultimately have "grown B (Suc n) p 1 s s1"
    using C(1) [OF pq fr] t1(3) pool
    unfolding grown_def by (auto simp del: footprint.simps tree_ok.simps)
  moreover have "leaf (Suc n) (tables s1) p js = leaf (Suc n) (tables s) p js" if "indices_ok B (Suc n) js" for js
    using C(3) [OF pq fr that] Z(3) i(2) by auto
  ultimately show ?thesis using nx E t1(2) by (auto simp del: leaf.simps)
qed

lemma grown_trans:
  assumes "grown B n p k s s1" and "grown B n p k' s1 s2" and "k \<le> length (pt_pool s)"
  shows "grown B n p (k + k') s s2"
proof -
  have "take (k + k') (pt_pool s) = take k (pt_pool s) @ take k' (drop k (pt_pool s))" by (rule take_add)
  then show ?thesis using assms unfolding grown_def by (auto simp: ac_simps)
qed

lemma pool_ok_grown: "pool_ok (pt_pool s) (footprint B n (tables s) p) \<Longrightarrow> grown B n p k s s' \<Longrightarrow> pool_ok (pt_pool s') (footprint B n (tables s') p)"
  using set_drop_subset [of k "pt_pool s"] set_take_disj_set_drop_if_distinct [of "pt_pool s" k k] unfolding grown_def pool_ok_def by auto

lemma put_ok:
  "tree_ok B n (tables s) p \<Longrightarrow> pool_ok (pt_pool s) (footprint B n (tables s) p) \<Longrightarrow> n \<le> length (pt_pool s) \<Longrightarrow> indices_ok B n is \<Longrightarrow>
    \<exists>s' k. k \<le> n \<and> put_entry n p is e s = Ok (True, s') \<and> grown B n p k s s' \<and>
      (\<forall>js. indices_ok B n js \<longrightarrow> leaf n (tables s') p js = (if js = is then e else leaf n (tables s) p js))"
proof (induction n arbitrary: B p s "is")
  case 0
  have "js = is \<longleftrightarrow> hd js = hd is" if "indices_ok B 0 js" for js using that 0(4) by (cases js; cases "is") (auto simp: indices_ok_def)
  then show ?case by (auto simp: grown_def set_entry_def)
next
  case (Suc n)
  let ?i = "hd is"
  have i: "?i < B" using indices_ok_Suc [OF Suc.prems(4)] by simp
  show ?case
  proof (cases "tables s p ?i = 0")
    case False
    obtain s' k where "k \<le> n" "put_entry n (tables s p ?i AND ADDRMASK) (tl is) e s = Ok (True, s')" "grown B (Suc n) p k s s'"
        "\<forall>js. indices_ok B (Suc n) js \<longrightarrow> leaf (Suc n) (tables s') p js = (if js = is then e else leaf (Suc n) (tables s) p js)"
      using put_below [OF Suc.IH Suc.prems(1,2) Suc_leD [OF Suc.prems(3)] Suc.prems(4) False] by blast
    then show ?thesis using False by (intro exI [of _ s'] exI [of _ k]) (simp add: next_or_new_def next_table_def del: leaf.simps)
  next
    case True
    obtain q ps where pool: "pt_pool s = q # ps" using Suc.prems(3) by (cases "pt_pool s") auto
    obtain s1 where s1: "next_or_new p ?i s = Ok (Some q, s1)" "grown B (Suc n) p 1 s s1" "tables s1 p ?i \<noteq> 0" "tables s1 p ?i AND ADDRMASK = q"
        "\<forall>js. indices_ok B (Suc n) js \<longrightarrow> leaf (Suc n) (tables s1) p js = leaf (Suc n) (tables s) p js"
      using new_table_below [OF Suc.prems(1,2) i True pool] by blast
    have len: "n \<le> length (pt_pool s1)" using s1(2) pool Suc.prems(3) by (simp add: grown_def)
    have tr: "tree_ok B (Suc n) (tables s1) p" using s1(2) unfolding grown_def by blast
    obtain s' k where s': "k \<le> n" "put_entry n q (tl is) e s1 = Ok (True, s')" "grown B (Suc n) p k s1 s'"
        "\<forall>js. indices_ok B (Suc n) js \<longrightarrow> leaf (Suc n) (tables s') p js = (if js = is then e else leaf (Suc n) (tables s1) p js)"
      using put_below [OF Suc.IH tr pool_ok_grown [OF Suc.prems(2) s1(2)] len Suc.prems(4) s1(3)] unfolding s1(4) by blast
    have "grown B (Suc n) p (1 + k) s s'" using grown_trans [OF s1(2) s'(3)] pool by simp
    then show ?thesis using s1(1,5) s'(1,2,4) by (intro exI [of _ s'] exI [of _ "1 + k"]) (simp del: leaf.simps)
  qed
qed

section \<open>Copying trees\<close>

declare footprint.simps(2) [simp del] tree_ok.simps(2) [simp del] leaf.simps(2) [simp del]

lemma for_each_indices:
  assumes "P 0 s" and "\<And>m s. m < n \<Longrightarrow> P m s \<Longrightarrow> \<exists>s'. f (of_nat m) s = Ok s' \<and> P (Suc m) s'"
  shows "\<exists>s'. for_each f (indices n) s = Ok s' \<and> P n s'"
proof -
  have "\<exists>s'. for_each f (map of_nat [m..<n]) s = Ok s' \<and> P n s'" if "m \<le> n" "P m s" for m s
    using that
  proof (induction "n - m" arbitrary: m s)
    case (Suc d)
    have "m < n" using Suc.hyps(2) by simp
    then obtain s1 where s1: "f (of_nat m) s = Ok s1" "P (Suc m) s1" using assms(2) [of m s] Suc.prems by auto
    have "[m..<n] = m # [Suc m..<n]" using Suc.hyps(2) by (simp add: upt_conv_Cons)
    then show ?case using Suc.hyps(1) [of "Suc m" s1] Suc.hyps(2) s1 by simp
  qed simp
  then show ?thesis using assms(1) by (simp add: indices_def)
qed

lemma keeps_state: "pm_state (xs[i := (xs ! i)\<lparr>pm_num_ref := v\<rparr>] ! j) = pm_state (xs ! j)"
  by (cases "i < length xs"; cases "i = j") (simp_all add: list_update_beyond)

lemma hold_ok:
  assumes "holdable pm a"
  shows "\<exists>pm'. com_mm_pmm_hold pm a = Ok pm' \<and> (\<forall>b. holdable pm' b = holdable pm b)"
proof -
  obtain r where r: "page_meta_get pm a = Ok r" "pm_state (read_meta pm r) \<noteq> E_PAGE_STATE_FREE" using assms by (auto simp: holdable_def)
  define pm' where "pm' = write_meta pm r ((read_meta pm r)\<lparr>pm_num_ref := pm_num_ref (read_meta pm r) + 1\<rparr>)"
  have "page_meta_get pm' b = page_meta_get pm b" for b by (cases r) (simp_all add: pm'_def page_meta_get_def write_meta_def)
  moreover have "pm_state (read_meta pm' r') = pm_state (read_meta pm r')" for r'
    by (cases r; cases r') (simp_all add: pm'_def read_meta_def write_meta_def keeps_state)
  moreover have "com_mm_pmm_hold pm a = Ok pm'" using r by (simp add: com_mm_pmm_hold_def pm'_def Let_def)
  ultimately show ?thesis by (auto simp: holdable_def)
qed

text \<open>The first \<open>m\<close> entries of the table \<open>p\<close> are copied to \<open>q\<close>, with \<open>k\<close> pages of the cache.\<close>

definition copied :: "u64 \<Rightarrow> nat \<Rightarrow> nat \<Rightarrow> u64 \<Rightarrow> u64 \<Rightarrow> nat \<Rightarrow> mmu_state \<Rightarrow> mmu_state \<Rightarrow> bool" where
  "copied B n m p q k s s' \<longleftrightarrow>
     pt_pool s' = drop k (pt_pool s) \<and> RootTable s' = RootTable s \<and> cr3 s' = cr3 s \<and>
     (\<forall>a. holdable (mmu_pmm s') a = holdable (mmu_pmm s) a) \<and>
     tree_ok B n (tables s') p \<and> footprint B n (tables s') p = footprint B n (tables s) p \<and>
     tree_ok B n (tables s') q \<and> footprint B n (tables s') q = set (take k (pt_pool s)) \<and>
     (\<forall>x. x \<notin> footprint B n (tables s) p \<and> x \<notin> set (take k (pt_pool s)) \<longrightarrow> tables s' x = tables s x) \<and>
     (\<forall>js. indices_ok B n js \<longrightarrow>
        leaf n (tables s') q js = (if unat (hd js) < m then copy_leaf (leaf n (tables s) p js) else 0) \<and>
        leaf n (tables s') p js = (if unat (hd js) < m then cow_leaf (leaf n (tables s) p js) else leaf n (tables s) p js))"

definition holdable_leaves :: "u64 \<Rightarrow> nat \<Rightarrow> u64 \<Rightarrow> mmu_state \<Rightarrow> bool" where
  "holdable_leaves B n p s \<longleftrightarrow>
     (\<forall>js. indices_ok B n js \<and> present (leaf n (tables s) p js) \<longrightarrow> holdable (mmu_pmm s) (unat (leaf n (tables s) p js AND ADDRMASK)))"

lemma copied_entry_link:
  assumes "r AND ADDRMASK = r" and "present e"
  shows "(r OR (e AND NOT ADDRMASK)) AND ADDRMASK = r" "present (r OR (e AND NOT ADDRMASK))" "r OR (e AND NOT ADDRMASK) \<noteq> 0"
proof -
  have "(r OR (e AND NOT ADDRMASK)) AND ADDRMASK = (r AND ADDRMASK) OR (e AND (NOT ADDRMASK AND ADDRMASK))" by (simp add: bit.conj_disj_distrib2 and.assoc)
  then show "(r OR (e AND NOT ADDRMASK)) AND ADDRMASK = r" using assms(1) by simp
  have one: "ARCH_MMU_FLAGS_PRESENT AND x = (if bit x 0 then 1 else 0)" for x :: u64
    by (simp add: ARCH_MMU_FLAGS_PRESENT_def one_and_eq mod2_eq_if bit_0)
  have "bit e 0" using assms(2) by (simp add: one split: if_splits)
  then have b: "bit (r OR (e AND NOT ADDRMASK)) 0" by (simp add: bit_simps ADDRMASK_def)
  then show "present (r OR (e AND NOT ADDRMASK))" by (simp add: one)
  show "r OR (e AND NOT ADDRMASK) \<noteq> 0" using b by (metis bit_0_eq bot_apply bot_bool_def)
qed

lemma present_nonzero: "present e \<Longrightarrow> e \<noteq> 0"
  by auto

text \<open>The body of the copying loop.\<close>

definition dup_body :: "(u64 \<Rightarrow> mmu_state \<Rightarrow> (u64 \<times> mmu_state) res) \<Rightarrow> bool \<Rightarrow> u64 \<Rightarrow> u64 \<Rightarrow> u64 \<Rightarrow> mmu_state \<Rightarrow> mmu_state res" where
  "dup_body rec both virt new i s =
     (if ARCH_MMU_FLAGS_PRESENT AND tables s virt i = 0 then Ok s
      else res_bind (rec (tables s virt i) s) (\<lambda>(e, s'). let s2 = set_entry new i e s' in Ok (if both then set_entry virt i (tables s2 new i) s2 else s2)))"

lemma duplicate_Suc:
  assumes "present entry" and "pt_pool s = q # ps"
  shows "duplicate_recursive (Suc level) entry s =
    res_bind (for_each (dup_body (duplicate_recursive level) (level = 0) (entry AND ADDRMASK) q) (indices 512) (s\<lparr>tables := (tables s)(q := (\<lambda>_. 0)), pt_pool := ps\<rparr>))
      (\<lambda>s3. Ok (q OR (entry AND NOT ADDRMASK), s3))"
  using assms by (simp add: internal_alloc_phys_def Let_def dup_body_def [abs_def] cong: if_cong)

text \<open>A table of the lowest level.\<close>

lemma dup_bottom:
  assumes e: "present entry" and p: "p = entry AND ADDRMASK" and pool: "pool_ok (pt_pool s) {p}" "pt_pool s = q # ps" and h: "holdable_leaves 512 0 p s"
  shows "\<exists>s'. duplicate_recursive (Suc 0) entry s = Ok (q OR (entry AND NOT ADDRMASK), s') \<and> copied 512 0 512 p q 1 s s'"
proof -
  define s1 where "s1 = s\<lparr>tables := (tables s)(q := (\<lambda>_. 0)), pt_pool := ps\<rparr>"
  have qp: "q \<noteq> p" using pool by (auto simp: pool_ok_def)
  define f where "f = dup_body (duplicate_recursive 0) True p q"
  let ?P = "\<lambda>m (s' :: mmu_state). pt_pool s' = ps \<and> RootTable s' = RootTable s \<and> cr3 s' = cr3 s \<and> (\<forall>a. holdable (mmu_pmm s') a = holdable (mmu_pmm s) a) \<and>
      (\<forall>x. x \<noteq> p \<and> x \<noteq> q \<longrightarrow> tables s' x = tables s x) \<and>
      (\<forall>i. tables s' q i = (if unat i < m then copy_leaf (tables s p i) else 0) \<and> tables s' p i = (if unat i < m then cow_leaf (tables s p i) else tables s p i))"
  have "\<exists>s'. for_each f (indices 512) s1 = Ok s' \<and> ?P 512 s'"
  proof (rule for_each_indices)
    show "?P 0 s1" using qp by (simp add: s1_def)
  next
    fix m and s' :: mmu_state
    assume m: "m < 512" and P: "?P m s'"
    let ?i = "of_nat m :: u64"
    have u: "unat ?i = m" using m by (intro unat_of_nat64) simp
    then have less: "unat i < Suc m \<longleftrightarrow> unat i < m \<or> i = ?i" for i by (metis less_Suc_eq word_unat_eq_iff)
    have ti: "tables s' p ?i = tables s p ?i" using P u by simp
    show "\<exists>s''. f ?i s' = Ok s'' \<and> ?P (Suc m) s''"
    proof (cases "present (tables s p ?i)")
      case False
      then have "f ?i s' = Ok s'" "copy_leaf (tables s p ?i) = 0" "cow_leaf (tables s p ?i) = tables s p ?i" by (simp_all add: f_def dup_body_def ti copy_leaf_def cow_leaf_def)
      then show ?thesis using P u unfolding less by (intro exI [of _ s']) auto
    next
      case True
      have "?i < 512" using m u by (simp add: word_less_nat_alt)
      then have "holdable (mmu_pmm s) (unat (tables s p ?i AND ADDRMASK))" using h True unfolding holdable_leaves_def by (auto simp: indices_ok_def dest!: spec [of _ "[?i]"])
      then have "holdable (mmu_pmm s') (unat (tables s p ?i AND ADDRMASK))" using P by simp
      from hold_ok [OF this] obtain pm where pm: "com_mm_pmm_hold (mmu_pmm s') (unat (tables s p ?i AND ADDRMASK)) = Ok pm" "\<forall>a. holdable pm a = holdable (mmu_pmm s') a"
        by blast
      let ?s = "set_entry p ?i (copied_entry (tables s p ?i)) (set_entry q ?i (copied_entry (tables s p ?i)) (s'\<lparr>mmu_pmm := pm\<rparr>))"
      have "f ?i s' = Ok ?s" using True pm(1) qp by (simp add: f_def dup_body_def ti) (simp add: set_entry_def Let_def)
      moreover have "copy_leaf (tables s p ?i) = copied_entry (tables s p ?i)" "cow_leaf (tables s p ?i) = copied_entry (tables s p ?i)" using True by (simp_all add: copy_leaf_def cow_leaf_def)
      ultimately show ?thesis using P pm(2) qp u unfolding less by (intro exI [of _ ?s]) (auto simp: set_entry_def)
    qed
  qed
  then obtain s' where s': "for_each f (indices 512) s1 = Ok s'" "?P 512 s'" by blast
  have "duplicate_recursive (Suc 0) entry s = Ok (q OR (entry AND NOT ADDRMASK), s')"
    using duplicate_Suc [OF e pool(2), of 0] s'(1) by (simp add: f_def s1_def p)
  moreover have "unat (hd js) < 512" if "indices_ok 512 0 js" for js using that by (cases js) (auto simp: indices_ok_def word_less_nat_alt)
  then have "copied 512 0 512 p q 1 s s'" using s'(2) pool(2) by (auto simp: copied_def)
  ultimately show ?thesis by blast
qed

text \<open>Tables of the other levels: one round of the loop, then the loop.\<close>

definition copying :: "u64 \<Rightarrow> nat \<Rightarrow> nat \<Rightarrow> u64 \<Rightarrow> u64 \<Rightarrow> nat \<Rightarrow> mmu_state \<Rightarrow> mmu_state \<Rightarrow> bool" where
  "copying B n m p q k s s' \<longleftrightarrow>
     copied B (Suc n) m p q k s s' \<and> tables s' p = tables s p \<and> (\<forall>i < B. m \<le> unat i \<longrightarrow> tables s' q i = 0) \<and>
     (\<forall>j < B. m \<le> unat j \<and> tables s p j \<noteq> 0 \<longrightarrow> (\<forall>x \<in> footprint 512 n (tables s) (tables s p j AND ADDRMASK). tables s' x = tables s x))"

definition dup_ok :: "nat \<Rightarrow> bool" where
  "dup_ok n \<longleftrightarrow>
     (\<forall>entry s. present entry \<and> tree_ok 512 n (tables s) (entry AND ADDRMASK) \<and>
        pool_ok (pt_pool s) (footprint 512 n (tables s) (entry AND ADDRMASK)) \<and> card (footprint 512 n (tables s) (entry AND ADDRMASK)) \<le> length (pt_pool s) \<and>
        holdable_leaves 512 n (entry AND ADDRMASK) s \<longrightarrow>
        (\<exists>s' q k. duplicate_recursive (Suc n) entry s = Ok (q OR (entry AND NOT ADDRMASK), s') \<and> q AND ADDRMASK = q \<and>
           k \<le> card (footprint 512 n (tables s) (entry AND ADDRMASK)) \<and> copied 512 n 512 (entry AND ADDRMASK) q k s s'))"

lemma dup_okD:
  assumes "dup_ok n" and "present entry" and "tree_ok 512 n (tables s) (entry AND ADDRMASK)" and "pool_ok (pt_pool s) (footprint 512 n (tables s) (entry AND ADDRMASK))"
    and "card (footprint 512 n (tables s) (entry AND ADDRMASK)) \<le> length (pt_pool s)" and "holdable_leaves 512 n (entry AND ADDRMASK) s"
  shows "\<exists>s' q k. duplicate_recursive (Suc n) entry s = Ok (q OR (entry AND NOT ADDRMASK), s') \<and> q AND ADDRMASK = q \<and>
    k \<le> card (footprint 512 n (tables s) (entry AND ADDRMASK)) \<and> copied 512 n 512 (entry AND ADDRMASK) q k s s'"
  using assms unfolding dup_ok_def by blast

lemma finite_u64 [simp]: "finite (A :: u64 set)"
proof -
  have "A \<subseteq> of_nat ` {..<2 ^ 64}" using unat_lt64 by (metis (no_types) image_eqI lessThan_iff of_nat_unat64 subsetI)
  then show ?thesis by (rule finite_subset) simp
qed

lemma less_Suc_index: "m < 512 \<Longrightarrow> unat (x :: u64) < Suc m \<longleftrightarrow> unat x < m \<or> x = of_nat m"
proof -
  assume "m < 512"
  then have "unat (of_nat m :: u64) = m" by (intro unat_of_nat64) simp
  then show ?thesis by (auto simp: less_Suc_eq word_unat_eq_iff)
qed

lemma copying_child:
  assumes ok: "tree_ok B (Suc n) (tables s) p" "pool_ok (pt_pool s) (footprint B (Suc n) (tables s) p)" "holdable_leaves B (Suc n) p s"
    and C: "copying B n m p q k s s'" and i: "i < B" "B \<le> 512" "m \<le> unat i" "tables s p i \<noteq> 0"
  defines "c \<equiv> tables s p i AND ADDRMASK"
  shows "footprint 512 n (tables s') c = footprint 512 n (tables s) c" "tree_ok 512 n (tables s') c"
    "\<And>js. indices_ok 512 n js \<Longrightarrow> leaf n (tables s') c js = leaf (Suc n) (tables s) p (i # js)"
    "pool_ok (pt_pool s') (footprint 512 n (tables s') c)" "holdable_leaves 512 n c s'"
proof -
  have agree: "\<forall>x \<in> footprint 512 n (tables s) c. tables s' x = tables s x" using C i unfolding copying_def c_def by blast
  note F = frame_tree [OF agree]
  have sub: "footprint 512 n (tables s) c \<subseteq> footprint B (Suc n) (tables s) p" using i by (auto simp: c_def footprint.simps(2))
  show fp: "footprint 512 n (tables s') c = footprint 512 n (tables s) c" and "tree_ok 512 n (tables s') c"
    using F tree_okD(2) [OF ok(1) i(1,4)] by (simp_all add: c_def)
  show lf: "leaf n (tables s') c js = leaf (Suc n) (tables s) p (i # js)" if "indices_ok 512 n js" for js
    using F that i(4) by (simp add: c_def leaf.simps(2))
  have pool: "pt_pool s' = drop k (pt_pool s)" using C by (simp add: copying_def copied_def)
  show "pool_ok (pt_pool s') (footprint 512 n (tables s') c)"
    using pool_ok_mono [OF ok(2) sub] set_drop_subset [of k "pt_pool s"] unfolding pool_ok_def fp pool by (auto simp: distinct_drop)
  have "indices_ok B (Suc n) (i # js)" if "indices_ok 512 n js" for js using that i(1,2) unfolding indices_ok_def by (auto intro: less_le_trans)
  then show "holdable_leaves 512 n c s'"
    using ok(3) C lf unfolding holdable_leaves_def copying_def copied_def by metis
qed

lemma pool_parts:
  assumes "pool_ok ps F"
  shows "set (take k ps) \<inter> F = {}" "set (take k' (drop k ps)) \<inter> F = {}" "set (take k ps) \<inter> set (take k' (drop k ps)) = {}"
    "set (take (k + k') ps) = set (take k ps) \<union> set (take k' (drop k ps))"
  using assms set_take_subset [of k ps] set_take_subset [of k' "drop k ps"] set_drop_subset [of k ps] set_take_disj_set_drop_if_distinct [of ps k k]
  unfolding pool_ok_def by (blast, blast, blast, simp add: take_add)

lemma copying_step:
  assumes ok: "tree_ok B (Suc n) (tables s) p" "pool_ok (pt_pool s) (footprint B (Suc n) (tables s) p)" "holdable_leaves B (Suc n) p s"
    and C: "copying B n m p q k s s'" and i: "i < B" "B \<le> 512" "i = of_nat m" "m < 512" "tables s p i \<noteq> 0"
    and r: "copied 512 n 512 (tables s p i AND ADDRMASK) r k' s' s1" "r AND ADDRMASK = r"
  shows "copying B n (Suc m) p q (k + k') s (set_entry q i (r OR (tables s p i AND NOT ADDRMASK)) s1)" (is "copying _ _ _ _ _ _ _ ?s2")
proof -
  let ?c = "tables s p i AND ADDRMASK" and ?e = "r OR (tables s p i AND NOT ADDRMASK)"
  let ?t = "tables s" and ?t' = "tables s'" and ?t1 = "tables s1" and ?t2 = "tables ?s2"
  define F where "F = footprint B (Suc n) ?t p"
  define Fc where "Fc = footprint 512 n ?t ?c"
  define Q where "Q = set (take k (pt_pool s))"
  define R where "R = set (take k' (drop k (pt_pool s)))"
  have ui: "unat i = m" using i(3,4) by (simp add: unat_of_nat64)
  then have mi: "m \<le> unat i" by simp
  have less: "unat x < Suc m \<longleftrightarrow> unat x < m \<or> x = i" for x :: u64 using less_Suc_index [OF i(4)] i(3) by simp
  have Cc: "copied B (Suc n) m p q k s s'" and Cp: "?t' p = ?t p" and Cz: "\<And>j. j < B \<Longrightarrow> m \<le> unat j \<Longrightarrow> ?t' q j = 0"
    and Cu: "\<And>j x. j < B \<Longrightarrow> m \<le> unat j \<Longrightarrow> ?t p j \<noteq> 0 \<Longrightarrow> x \<in> footprint 512 n ?t (?t p j AND ADDRMASK) \<Longrightarrow> ?t' x = ?t x"
    using C unfolding copying_def by blast+
  note child = copying_child [OF ok C i(1,2) mi i(5)]
  have pool': "pt_pool s' = drop k (pt_pool s)" "tree_ok B (Suc n) ?t' p" "footprint B (Suc n) ?t' p = F" "tree_ok B (Suc n) ?t' q" "footprint B (Suc n) ?t' q = Q"
    using Cc unfolding copied_def F_def Q_def by blast+
  have R1: "pt_pool s1 = drop (k + k') (pt_pool s)" "tree_ok 512 n ?t1 ?c" "footprint 512 n ?t1 ?c = Fc" "tree_ok 512 n ?t1 r" "footprint 512 n ?t1 r = R"
      "\<And>x. x \<notin> Fc \<Longrightarrow> x \<notin> R \<Longrightarrow> ?t1 x = ?t' x"
    using r(1) child(1) pool'(1) unfolding copied_def Fc_def R_def by (auto simp: add.commute)
  have FcF: "Fc \<subseteq> F" "p \<in> F" "p \<notin> Fc" using i(1,5) tree_okD(3) [OF ok(1) i(1,5)] by (auto simp: F_def Fc_def footprint.simps(2))
  have QR: "Q \<inter> F = {}" "R \<inter> F = {}" "Q \<inter> R = {}" "set (take (k + k') (pt_pool s)) = Q \<union> R"
    unfolding Q_def R_def F_def by (rule pool_parts [OF ok(2)])+
  have q: "q \<in> Q" using footprint_self [of q B "Suc n" ?t'] pool'(5) by simp
  have t1p: "?t1 p = ?t p" using R1(6) [of p] FcF QR Cp by auto
  have t1q: "?t1 q = ?t' q" using R1(6) [of q] q FcF QR by auto
  have t2: "?t2 = ?t1(q := (?t1 q)(i := ?e))" by (simp add: set_entry_def)
  have t2x: "?t2 x = ?t1 x" if "x \<noteq> q" for x using that t2 by simp
  have pres: "present (?t p i)" by (rule tree_okD(1) [OF ok(1) i(1,5)])
  note E = copied_entry_link [OF r(2) pres]
  have "\<forall>x \<in> footprint B (Suc n) ?t' q. ?t1 x = ?t' x" using R1(6) QR(1,3) FcF(1) pool'(5) by blast
  note q1 = frame_tree [OF this]
  have "?t1 q i = 0" "footprint B (Suc n) ?t1 q \<inter> footprint 512 n ?t1 r = {}" using Cz [OF i(1) mi] t1q q1 pool'(5) R1(5) QR(3) by simp_all
  note ch = graft [of B n ?t1 q, OF _ i(1) this(1) E(3,2,1) R1(4) this(2), folded t2]
  have qt: "tree_ok B (Suc n) ?t1 q" using q1 pool'(4) by simp
  have fq: "footprint B (Suc n) ?t2 q = Q \<union> R" using ch(2) [OF qt] q1 pool'(5) R1(5) by simp
  have c': "?t' p i AND ADDRMASK = ?c" "?t' p i \<noteq> 0" "?t1 p = ?t' p" using Cp i(5) t1p by simp_all
  have cf: "footprint 512 n ?t1 ?c = footprint 512 n ?t' ?c" "\<forall>x \<in> footprint B (Suc n) ?t' p. x \<notin> footprint 512 n ?t' ?c \<longrightarrow> ?t1 x = ?t' x"
    unfolding child(1) pool'(3) Fc_def [symmetric] using R1(3,6) QR(2) by blast+
  note cp = regrow [of B n ?t' p i ?t1, OF pool'(2) i(1) c'(2,3), unfolded c'(1), OF R1(2) cf, unfolded pool'(3)]
  have Fq: "x \<noteq> q" if "x \<in> F" for x using that q QR(1) by auto
  then have "\<forall>x \<in> footprint B (Suc n) ?t1 p. ?t2 x = ?t1 x" using t2x by (simp add: cp(2))
  note p2 = frame_tree [OF this]
  \<comment> \<open>the entries\<close>
  have leaves: "leaf (Suc n) ?t2 q js = (if unat (hd js) < Suc m then copy_leaf (leaf (Suc n) ?t p js) else 0)"
      "leaf (Suc n) ?t2 p js = (if unat (hd js) < Suc m then cow_leaf (leaf (Suc n) ?t p js) else leaf (Suc n) ?t p js)" if js: "indices_ok B (Suc n) js" for js
  proof -
    have tl: "indices_ok 512 n (tl js)" "js = hd js # tl js" using indices_ok_Suc [OF js] by auto
    have u: "unat (hd (tl js)) < 512" using tl(1) by (cases "tl js") (auto simp: indices_ok_def word_less_nat_alt)
    have c: "leaf n ?t' ?c (tl js) = leaf (Suc n) ?t p js" if "hd js = i" using child(3) [OF tl(1)] tl(2) that by metis
    have hit: "leaf n ?t1 r (tl js) = copy_leaf (leaf (Suc n) ?t p js)" "leaf n ?t1 ?c (tl js) = cow_leaf (leaf (Suc n) ?t p js)" if "hd js = i"
      using r(1) tl(1) u c [OF that] unfolding copied_def by simp_all
    have miss: "leaf (Suc n) ?t1 q js = leaf (Suc n) ?t' q js" "leaf (Suc n) ?t2 p js = leaf (Suc n) ?t1 p js" using q1 p2 js by blast+
    have old: "leaf (Suc n) ?t' q js = (if unat (hd js) < m then copy_leaf (leaf (Suc n) ?t p js) else 0)"
        "leaf (Suc n) ?t' p js = (if unat (hd js) < m then cow_leaf (leaf (Suc n) ?t p js) else leaf (Suc n) ?t p js)"
      using Cc js unfolding copied_def by blast+
    show "leaf (Suc n) ?t2 q js = (if unat (hd js) < Suc m then copy_leaf (leaf (Suc n) ?t p js) else 0)"
      using ch(3) [OF qt js] hit(1) miss(1) old(1) unfolding less by auto
    show "leaf (Suc n) ?t2 p js = (if unat (hd js) < Suc m then cow_leaf (leaf (Suc n) ?t p js) else leaf (Suc n) ?t p js)"
      using cp(3) [OF js] hit(2) miss(2) old(2) unfolding less by auto
  qed
  have rest: "?t2 x = ?t x" if "x \<notin> F" "x \<notin> Q \<union> R" for x
  proof -
    have "x \<noteq> q" "x \<notin> Fc" "x \<notin> R" "x \<notin> Q" using that q FcF(1) by auto
    moreover have "?t' x = ?t x" using Cc that unfolding copied_def F_def [symmetric] Q_def [symmetric] by simp
    ultimately show ?thesis using t2x R1(6) by simp
  qed
  have misc: "RootTable s1 = RootTable s" "cr3 s1 = cr3 s" "\<And>a. holdable (mmu_pmm s1) a = holdable (mmu_pmm s) a" using r(1) Cc unfolding copied_def by simp_all
  have "tree_ok B (Suc n) ?t2 p" "footprint B (Suc n) ?t2 p = F" using p2 cp(1,2) by simp_all
  moreover have "pt_pool ?s2 = pt_pool s1" "mmu_pmm ?s2 = mmu_pmm s1" "RootTable ?s2 = RootTable s1" "cr3 ?s2 = cr3 s1" by (simp_all add: set_entry_def)
  ultimately have "copied B (Suc n) (Suc m) p q (k + k') s ?s2"
    unfolding copied_def QR(4) F_def [symmetric] using R1(1) misc ch(1) [OF qt] fq rest leaves by simp
  moreover have "?t2 p = ?t p" using t2x [of p] t1p q FcF QR by auto
  moreover have "?t2 q j = 0" if "j < B" "Suc m \<le> unat j" for j using Cz [OF that(1)] that(2) t2 t1q ui by (auto simp: Suc_le_eq)
  moreover have "?t2 x = ?t x" if j: "j < B" "Suc m \<le> unat j" "?t p j \<noteq> 0" "x \<in> footprint 512 n ?t (?t p j AND ADDRMASK)" for j x
  proof -
    have "j \<noteq> i" using j(2) ui by auto
    then have "x \<notin> Fc" using tree_okD(4) [OF ok(1) i(1,5) j(1)] j(3,4) unfolding Fc_def by blast
    moreover have "x \<in> F" using j by (auto simp: F_def footprint.simps(2))
    ultimately have "x \<noteq> q" "x \<notin> Fc" "x \<notin> R" using Fq QR(2) by auto
    then show ?thesis using t2x R1(6) Cu [OF j(1) Suc_leD [OF j(2)] j(3,4)] by simp
  qed
  ultimately show ?thesis unfolding copying_def by blast
qed

definition pages_before :: "u64 \<Rightarrow> nat \<Rightarrow> nat \<Rightarrow> table_mem \<Rightarrow> u64 \<Rightarrow> u64 set" where
  "pages_before B n m t p = (\<Union>j \<in> {j. j < B \<and> unat j < m \<and> t p j \<noteq> 0}. footprint 512 n t (t p j AND ADDRMASK))"

lemma pages_before_card:
  assumes ok: "tree_ok B (Suc n) t p" and i: "i < B" "unat i = m" "m < 512" "t p i \<noteq> 0"
  shows "card (pages_before B n (Suc m) t p) = card (pages_before B n m t p) + card (footprint 512 n t (t p i AND ADDRMASK))"
proof -
  have "{j. j < B \<and> unat j < Suc m \<and> t p j \<noteq> 0} = insert i {j. j < B \<and> unat j < m \<and> t p j \<noteq> 0}"
    using i less_Suc_index [OF i(3)] by (auto simp: word_unat_eq_iff less_Suc_eq)
  then have "pages_before B n (Suc m) t p = footprint 512 n t (t p i AND ADDRMASK) \<union> pages_before B n m t p" by (simp add: pages_before_def)
  moreover have "footprint 512 n t (t p i AND ADDRMASK) \<inter> pages_before B n m t p = {}"
    using tree_okD(4) [OF ok i(1,4)] i(2) by (fastforce simp: pages_before_def)
  ultimately show ?thesis by (simp add: card_Un_disjoint)
qed

lemma pages_before_le:
  assumes "tree_ok B (Suc n) t p"
  shows "1 + card (pages_before B n m t p) \<le> card (footprint B (Suc n) t p)"
proof -
  have "p \<notin> pages_before B n m t p" using tree_okD(3) [OF assms] by (auto simp: pages_before_def)
  then have "1 + card (pages_before B n m t p) = card (insert p (pages_before B n m t p))" by simp
  also have "\<dots> \<le> card (footprint B (Suc n) t p)" by (rule card_mono) (auto simp: pages_before_def footprint.simps(2))
  finally show ?thesis .
qed

lemma pages_before_mono: "card (pages_before B n m t p) \<le> card (pages_before B n (Suc m) t p)"
  by (rule card_mono) (auto simp: pages_before_def)

lemma copying_skip:
  assumes "copying B n m p q k s s'" and "i = of_nat m" and "m < 512" and "tables s p i = 0"
  shows "copying B n (Suc m) p q k s s'"
proof -
  have less: "unat x < Suc m \<longleftrightarrow> unat x < m \<or> x = i" for x :: u64 using less_Suc_index [OF assms(3)] assms(2) by simp
  have "leaf (Suc n) (tables s) p js = 0" if "hd js = i" for js using that assms(4) by (simp add: leaf.simps(2))
  then have "copied B (Suc n) (Suc m) p q k s s'" using assms(1) unfolding copying_def copied_def less by (auto simp: copy_leaf_def cow_leaf_def)
  then show ?thesis using assms(1) unfolding copying_def by (meson Suc_leD)
qed

lemma copying_start:
  assumes "pt_pool s = q # ps" and "pool_ok (pt_pool s) (footprint B (Suc n) (tables s) p)" and "tree_ok B (Suc n) (tables s) p" and "\<forall>i < B. z i = 0"
  shows "copying B n 0 p q 1 s (s\<lparr>tables := (tables s)(q := z), pt_pool := ps\<rparr>)"
proof -
  let ?t = "(tables s)(q := z)"
  have q: "q \<notin> footprint B (Suc n) (tables s) p" using assms(1,2) by (auto simp: pool_ok_def)
  then have F: "footprint B (Suc n) ?t p = footprint B (Suc n) (tables s) p \<and> tree_ok B (Suc n) ?t p = tree_ok B (Suc n) (tables s) p \<and>
      (\<forall>is. indices_ok B (Suc n) is \<longrightarrow> leaf (Suc n) ?t p is = leaf (Suc n) (tables s) p is)" by (intro frame_tree) auto
  have "q \<noteq> p" using q footprint_self by metis
  have empty: "{i. i < B \<and> ?t q i \<noteq> 0} = {}" using assms(4) by auto
  have "footprint B (Suc n) ?t q = {q}" unfolding footprint.simps(2) empty by simp
  moreover have "tree_ok B (Suc n) ?t q" using assms(4) by (auto simp: tree_ok.simps(2))
  moreover have "leaf (Suc n) ?t q js = 0" if "indices_ok B (Suc n) js" for js using assms(4) indices_ok_Suc [OF that] by (simp add: leaf.simps(2))
  moreover have "x \<noteq> q" if "j < B" "tables s p j \<noteq> 0" "x \<in> footprint 512 n (tables s) (tables s p j AND ADDRMASK)" for x j
    using that q by (auto simp: footprint.simps(2))
  ultimately show ?thesis using F assms(1,3,4) \<open>q \<noteq> p\<close> unfolding copying_def copied_def by auto
qed

lemma dup_loop:
  assumes IH: "dup_ok n" and ok: "tree_ok B (Suc n) (tables s) p" "pool_ok (pt_pool s) (footprint B (Suc n) (tables s) p)"
      "card (footprint B (Suc n) (tables s) p) \<le> length (pt_pool s)" "holdable_leaves B (Suc n) p s"
    and pool: "pt_pool s = q # ps" and B: "B \<le> 512" "unat B = b" and z: "\<forall>i < B. z i = 0"
  shows "\<exists>s' k. for_each (dup_body (duplicate_recursive (Suc n)) False p q) (indices b) (s\<lparr>tables := (tables s)(q := z), pt_pool := ps\<rparr>) = Ok s' \<and>
    k \<le> card (footprint B (Suc n) (tables s) p) \<and> copied B (Suc n) b p q k s s'"
proof -
  let ?U = "\<lambda>m. card (pages_before B n m (tables s) p)"
  let ?P = "\<lambda>m s'. \<exists>k \<le> 1 + ?U m. copying B n m p q k s s'"
  have "\<exists>s'. for_each (dup_body (duplicate_recursive (Suc n)) False p q) (indices b) (s\<lparr>tables := (tables s)(q := z), pt_pool := ps\<rparr>) = Ok s' \<and> ?P b s'"
  proof (rule for_each_indices)
    show "?P 0 (s\<lparr>tables := (tables s)(q := z), pt_pool := ps\<rparr>)" using copying_start [OF pool ok(2,1) z] by (intro exI [of _ 1]) simp
  next
    fix m and s' :: mmu_state
    assume m: "m < b" and "?P m s'"
    then obtain k where k: "k \<le> 1 + ?U m" "copying B n m p q k s s'" by blast
    let ?i = "of_nat m :: u64"
    have m': "m < 512" using m B by (simp add: word_le_nat_alt)
    then have u: "unat ?i = m" by (intro unat_of_nat64) simp
    then have i: "?i < B" using m B(2) by (simp add: word_less_nat_alt)
    have tp: "tables s' p = tables s p" using k(2) by (simp add: copying_def)
    show "\<exists>s''. dup_body (duplicate_recursive (Suc n)) False p q ?i s' = Ok s'' \<and> ?P (Suc m) s''"
    proof (cases "tables s p ?i = 0")
      case True
      have "k \<le> 1 + ?U (Suc m)" using k(1) pages_before_mono [of B n m "tables s" p] by linarith
      then show ?thesis using copying_skip [OF k(2) refl m' True] True by (intro exI [of _ s']) (auto simp: dup_body_def tp)
    next
      case False
      let ?c = "tables s p ?i AND ADDRMASK"
      have mi: "m \<le> unat ?i" using u by simp
      note ch = copying_child [OF ok(1,2,4) k(2) i B(1) mi False]
      have pr: "present (tables s p ?i)" by (rule tree_okD(1) [OF ok(1) i False])
      have more: "?U (Suc m) = ?U m + card (footprint 512 n (tables s) ?c)" by (rule pages_before_card [OF ok(1) i u m' False])
      have "pt_pool s' = drop k (pt_pool s)" using k(2) by (simp add: copying_def copied_def)
      then have "card (footprint 512 n (tables s') ?c) \<le> length (pt_pool s')"
        using k(1) more pages_before_le [OF ok(1), of "Suc m"] ok(3) ch(1) by simp
      note D = dup_okD [OF IH pr ch(2,4) this ch(5)]
      then obtain s1 r k' where r: "duplicate_recursive (Suc n) (tables s p ?i) s' = Ok (r OR (tables s p ?i AND NOT ADDRMASK), s1)" "r AND ADDRMASK = r"
          "k' \<le> card (footprint 512 n (tables s') ?c)" "copied 512 n 512 ?c r k' s' s1"
        by blast
      have "copying B n (Suc m) p q (k + k') s (set_entry q ?i (r OR (tables s p ?i AND NOT ADDRMASK)) s1)"
        by (rule copying_step [OF ok(1,2,4) k(2) i B(1) refl m' False r(4,2)])
      moreover have "k + k' \<le> 1 + ?U (Suc m)" using k(1) r(3) more ch(1) by simp
      ultimately show ?thesis using r(1) pr by (auto simp: dup_body_def tp)
    qed
  qed
  then show ?thesis using pages_before_le [OF ok(1), of b] unfolding copying_def by (meson le_trans)
qed

lemma dup_all_ok: "dup_ok n"
proof (induction n)
  case 0
  show ?case unfolding dup_ok_def
  proof (intro allI impI, elim conjE)
    fix entry s
    let ?p = "entry AND ADDRMASK"
    assume a: "present entry" "pool_ok (pt_pool s) (footprint 512 0 (tables s) ?p)" "card (footprint 512 0 (tables s) ?p) \<le> length (pt_pool s)" "holdable_leaves 512 0 ?p s"
    obtain q ps where q: "pt_pool s = q # ps" using a(3) by (cases "pt_pool s") auto
    have "pool_ok (pt_pool s) {?p}" "q AND ADDRMASK = q" using a(2) q by (simp_all add: pool_ok_def)
    then show "\<exists>s' q k. duplicate_recursive (Suc 0) entry s = Ok (q OR (entry AND NOT ADDRMASK), s') \<and> q AND ADDRMASK = q \<and>
        k \<le> card (footprint 512 0 (tables s) ?p) \<and> copied 512 0 512 ?p q k s s'"
      using dup_bottom [OF a(1) refl _ q a(4)] by fastforce
  qed
next
  case (Suc n)
  show ?case unfolding dup_ok_def
  proof (intro allI impI, elim conjE)
    fix entry s
    let ?p = "entry AND ADDRMASK"
    assume a: "present entry" "tree_ok 512 (Suc n) (tables s) ?p" "pool_ok (pt_pool s) (footprint 512 (Suc n) (tables s) ?p)"
      "card (footprint 512 (Suc n) (tables s) ?p) \<le> length (pt_pool s)" "holdable_leaves 512 (Suc n) ?p s"
    have "0 < card (footprint 512 (Suc n) (tables s) ?p)" using footprint_self by (metis card_gt_0_iff empty_iff finite_u64)
    then obtain q ps where q: "pt_pool s = q # ps" using a(4) by (cases "pt_pool s") auto
    obtain s' k where s': "for_each (dup_body (duplicate_recursive (Suc n)) False ?p q) (indices 512) (s\<lparr>tables := (tables s)(q := (\<lambda>_. 0)), pt_pool := ps\<rparr>) = Ok s'"
        "k \<le> card (footprint 512 (Suc n) (tables s) ?p)" "copied 512 (Suc n) 512 ?p q k s s'"
      using dup_loop [OF Suc.IH a(2-5) q, of 512 "\<lambda>_. 0"] by auto
    have "q AND ADDRMASK = q" using a(3) q by (simp add: pool_ok_def)
    moreover have "duplicate_recursive (Suc (Suc n)) entry s = Ok (q OR (entry AND NOT ADDRMASK), s')"
      using duplicate_Suc [OF a(1) q, of "Suc n"] s'(1) by (simp del: duplicate_recursive.simps)
    ultimately show "\<exists>s' q k. duplicate_recursive (Suc (Suc n)) entry s = Ok (q OR (entry AND NOT ADDRMASK), s') \<and> q AND ADDRMASK = q \<and>
        k \<le> card (footprint 512 (Suc n) (tables s) ?p) \<and> copied 512 (Suc n) 512 ?p q k s s'"
      using s'(2,3) by blast
  qed
qed

section \<open>Several address spaces\<close>

definition spaces_ok :: "u64 list \<Rightarrow> mmu_state \<Rightarrow> bool" where
  "spaces_ok ts s \<longleftrightarrow>
     (\<forall>p \<in> set ts. tree_ok 256 3 (tables s) p) \<and>
     (\<forall>k < length ts. \<forall>l < length ts. k \<noteq> l \<longrightarrow> footprint 256 3 (tables s) (ts ! k) \<inter> footprint 256 3 (tables s) (ts ! l) = {}) \<and>
     pool_ok (pt_pool s) (\<Union>p \<in> set ts. footprint 256 3 (tables s) p)"

lemma spaces_okD:
  assumes "spaces_ok ts s" and "k < length ts"
  shows "tree_ok 256 3 (tables s) (ts ! k)" "pool_ok (pt_pool s) (footprint 256 3 (tables s) (ts ! k))"
    "l < length ts \<Longrightarrow> l \<noteq> k \<Longrightarrow> footprint 256 3 (tables s) (ts ! k) \<inter> footprint 256 3 (tables s) (ts ! l) = {}"
proof -
  have "footprint 256 3 (tables s) (ts ! k) \<subseteq> (\<Union>p \<in> set ts. footprint 256 3 (tables s) p)" using nth_mem [OF assms(2)] by blast
  then show "pool_ok (pt_pool s) (footprint 256 3 (tables s) (ts ! k))" using assms(1) pool_ok_mono unfolding spaces_ok_def by blast
qed (use assms in \<open>auto simp: spaces_ok_def\<close>)

lemma other_space:
  assumes ok: "spaces_ok ts s" and k: "k < length ts" "l < length ts" "l \<noteq> k"
    and frame: "\<forall>x. x \<notin> footprint 256 3 (tables s) (ts ! k) \<and> x \<notin> set (pt_pool s) \<longrightarrow> tables s' x = tables s x"
  shows "footprint 256 3 (tables s') (ts ! l) = footprint 256 3 (tables s) (ts ! l)" "tree_ok 256 3 (tables s') (ts ! l)"
    "indices_ok 256 3 js \<Longrightarrow> leaf 3 (tables s') (ts ! l) js = leaf 3 (tables s) (ts ! l) js"
proof -
  have "tables s' x = tables s x" if "x \<in> footprint 256 3 (tables s) (ts ! l)" for x
  proof -
    have "x \<notin> footprint 256 3 (tables s) (ts ! k)" using spaces_okD(3) [OF ok k(1,2,3)] that by blast
    moreover have "x \<notin> set (pt_pool s)" using spaces_okD(2) [OF ok k(2)] that unfolding pool_ok_def by blast
    ultimately show ?thesis using frame by blast
  qed
  then have F: "footprint 256 3 (tables s') (ts ! l) = footprint 256 3 (tables s) (ts ! l) \<and> tree_ok 256 3 (tables s') (ts ! l) = tree_ok 256 3 (tables s) (ts ! l) \<and>
      (\<forall>is. indices_ok 256 3 is \<longrightarrow> leaf 3 (tables s') (ts ! l) is = leaf 3 (tables s) (ts ! l) is)" by (intro frame_tree) blast
  then show "footprint 256 3 (tables s') (ts ! l) = footprint 256 3 (tables s) (ts ! l)" "tree_ok 256 3 (tables s') (ts ! l)"
      "indices_ok 256 3 js \<Longrightarrow> leaf 3 (tables s') (ts ! l) js = leaf 3 (tables s) (ts ! l) js"
    using spaces_okD(1) [OF ok k(2)] by auto
qed

text \<open>Spaces whose tables come from a part of the cache that is used up.\<close>

lemma spaces_okI:
  assumes tree: "\<And>k. k < length ts \<Longrightarrow> tree_ok 256 3 (tables s) (ts ! k)"
    and apart: "\<And>k l. k < length ts \<Longrightarrow> l < length ts \<Longrightarrow> k \<noteq> l \<Longrightarrow> footprint 256 3 (tables s) (ts ! k) \<inter> footprint 256 3 (tables s) (ts ! l) = {}"
    and pool: "distinct (pt_pool s)" "\<forall>q \<in> set (pt_pool s). q AND ADDRMASK = q" "\<And>k. k < length ts \<Longrightarrow> set (pt_pool s) \<inter> footprint 256 3 (tables s) (ts ! k) = {}"
  shows "spaces_ok ts s"
proof -
  have "set (pt_pool s) \<inter> (\<Union>p \<in> set ts. footprint 256 3 (tables s) p) = {}" using pool(3) by (fastforce simp: in_set_conv_nth [of _ ts])
  then show ?thesis using tree apart pool(1,2) unfolding spaces_ok_def pool_ok_def by (auto simp: in_set_conv_nth)
qed

lemma spaces_grow:
  assumes ok: "spaces_ok ts s" and k: "k < length ts" and g: "grown 256 3 (ts ! k) j s s'"
  shows "spaces_ok ts s'" "\<And>l js. l < length ts \<Longrightarrow> l \<noteq> k \<Longrightarrow> indices_ok 256 3 js \<Longrightarrow> leaf 3 (tables s') (ts ! l) js = leaf 3 (tables s) (ts ! l) js"
    "\<And>l. l < length ts \<Longrightarrow> l \<noteq> k \<Longrightarrow> footprint 256 3 (tables s') (ts ! l) = footprint 256 3 (tables s) (ts ! l)"
proof -
  let ?f = "footprint 256 3 (tables s)" and ?f' = "footprint 256 3 (tables s')"
  have P: "pool_ok (pt_pool s) (?f (ts ! l))" if "l < length ts" for l by (rule spaces_okD(2) [OF ok that])
  have G: "pt_pool s' = drop j (pt_pool s)" "tree_ok 256 3 (tables s') (ts ! k)" "?f' (ts ! k) = ?f (ts ! k) \<union> set (take j (pt_pool s))"
      "\<And>q. q \<notin> ?f' (ts ! k) \<Longrightarrow> tables s' q = tables s q" using g unfolding grown_def by blast+
  have "\<forall>x. x \<notin> ?f (ts ! k) \<and> x \<notin> set (pt_pool s) \<longrightarrow> tables s' x = tables s x" using G(3,4) set_take_subset [of j "pt_pool s"] by blast
  note O = other_space [OF ok k _ _ this]
  show "leaf 3 (tables s') (ts ! l) js = leaf 3 (tables s) (ts ! l) js" if "l < length ts" "l \<noteq> k" "indices_ok 256 3 js" for l js by (rule O(3) [OF that])
  show fl: "?f' (ts ! l) = ?f (ts ! l)" if "l < length ts" "l \<noteq> k" for l by (rule O(1) [OF that])
  have td: "set (take j (pt_pool s)) \<inter> set (drop j (pt_pool s)) = {}" using P [OF k] set_take_disj_set_drop_if_distinct [of "pt_pool s" j j] by (simp add: pool_ok_def)
  have out: "set (pt_pool s) \<inter> ?f (ts ! l) = {}" if "l < length ts" for l using P [OF that] by (simp add: pool_ok_def)
  have in_k: "?f' (ts ! k) \<inter> ?f' (ts ! l) = {}" if "l < length ts" "l \<noteq> k" for l
    using spaces_okD(3) [OF ok k that] out [OF that(1)] set_take_subset [of j "pt_pool s"] unfolding fl [OF that] G(3) by blast
  show "spaces_ok ts s'"
  proof (rule spaces_okI)
    show "tree_ok 256 3 (tables s') (ts ! l)" if "l < length ts" for l using O(2) [OF that] G(2) by (cases "l = k") auto
    show "?f' (ts ! a) \<inter> ?f' (ts ! b) = {}" if "a < length ts" "b < length ts" "a \<noteq> b" for a b
      using in_k [OF that(1)] in_k [OF that(2)] fl [OF that(1)] fl [OF that(2)] spaces_okD(3) [OF ok that(1,2)] that(3) by (cases "a = k"; cases "b = k") auto
    show "distinct (pt_pool s')" "\<forall>q \<in> set (pt_pool s'). q AND ADDRMASK = q" using P [OF k] set_drop_subset [of j "pt_pool s"] unfolding G(1) pool_ok_def by auto
    show "set (pt_pool s') \<inter> ?f' (ts ! l) = {}" if "l < length ts" for l
      using out [OF that] out [OF k] td set_drop_subset [of j "pt_pool s"] fl [OF that] G(3) unfolding G(1) by (cases "l = k") auto
  qed
qed

text \<open>The relation between the tables and the functions that describe them, after \<open>n\<close> operations.\<close>

definition space_inv :: "pmm \<Rightarrow> nat \<Rightarrow> u64 list \<Rightarrow> mmu_state \<Rightarrow> (u64 \<Rightarrow> u64) list \<Rightarrow> bool" where
  "space_inv pm n ts s ms \<longleftrightarrow>
     spaces_ok ts s \<and> length ms = length ts \<and> (\<forall>a. holdable (mmu_pmm s) a = holdable pm a) \<and>
     (\<forall>k < length ts.
        (\<forall>va < 2 ^ 47. leaf 3 (tables s) (ts ! k) (addr_indices va) = (ms ! k) (vpn va)) \<and>
        (\<forall>js. indices_ok 256 3 js \<longrightarrow> valid_entry pm (leaf 3 (tables s) (ts ! k) js)) \<and>
        card (footprint 256 3 (tables s) (ts ! k)) \<le> 1 + 3 * n)"

lemma space_invD:
  assumes "space_inv pm n ts s ms"
  shows "spaces_ok ts s" "length ms = length ts" "holdable (mmu_pmm s) a = holdable pm a"
    "k < length ts \<Longrightarrow> va < 2 ^ 47 \<Longrightarrow> leaf 3 (tables s) (ts ! k) (addr_indices va) = (ms ! k) (vpn va)"
    "k < length ts \<Longrightarrow> indices_ok 256 3 js \<Longrightarrow> valid_entry pm (leaf 3 (tables s) (ts ! k) js)"
    "k < length ts \<Longrightarrow> card (footprint 256 3 (tables s) (ts ! k)) \<le> 1 + 3 * n"
  using assms unfolding space_inv_def by blast+

lemma space_inv_Suc: "space_inv pm n ts s ms \<Longrightarrow> space_inv pm (Suc n) ts s ms"
  unfolding space_inv_def by (meson add_le_mono1 le_SucI le_trans mult_le_mono2 nat_add_left_cancel_le order_refl)

lemma put_step:
  assumes I: "space_inv pm n ts s ms" and k: "k < length ts" and va: "va < 2 ^ 47" and e: "valid_entry pm e" and pool: "3 \<le> length (pt_pool s)"
  shows "\<exists>s'. put_entry 3 (ts ! k) (addr_indices va) e s = Ok (True, s') \<and> space_inv pm (Suc n) ts s' (ms[k := (ms ! k)(vpn va := e)]) \<and>
    length (pt_pool s) \<le> length (pt_pool s') + 3"
proof -
  note D = space_invD [OF I]
  note S = spaces_okD [OF D(1) k]
  obtain s' j where j: "j \<le> 3" "put_entry 3 (ts ! k) (addr_indices va) e s = Ok (True, s')" "grown 256 3 (ts ! k) j s s'"
      "\<And>js. indices_ok 256 3 js \<Longrightarrow> leaf 3 (tables s') (ts ! k) js = (if js = addr_indices va then e else leaf 3 (tables s) (ts ! k) js)"
    using put_ok [OF S(1,2) pool addr_indices_ok [OF va], of e] by blast
  note G = spaces_grow [OF D(1) k j(3)]
  have fp: "footprint 256 3 (tables s') (ts ! k) = footprint 256 3 (tables s) (ts ! k) \<union> set (take j (pt_pool s))" "mmu_pmm s' = mmu_pmm s" "pt_pool s' = drop j (pt_pool s)"
    using j(3) unfolding grown_def by blast+
  have "card (set (take j (pt_pool s))) \<le> 3" using j(1) card_length [of "take j (pt_pool s)"] by simp
  then have cd: "card (footprint 256 3 (tables s') (ts ! k)) \<le> 1 + 3 * Suc n"
    using card_Un_le [of "footprint 256 3 (tables s) (ts ! k)" "set (take j (pt_pool s))"] D(6) [OF k] unfolding fp(1) by simp
  have "(\<forall>va' < 2 ^ 47. leaf 3 (tables s') (ts ! l) (addr_indices va') = (ms[k := (ms ! k)(vpn va := e)] ! l) (vpn va')) \<and>
      (\<forall>js. indices_ok 256 3 js \<longrightarrow> valid_entry pm (leaf 3 (tables s') (ts ! l) js)) \<and> card (footprint 256 3 (tables s') (ts ! l)) \<le> 1 + 3 * Suc n" if l: "l < length ts" for l
  proof (cases "l = k")
    case True
    show ?thesis using j(4) addr_indices_ok D(2,4,5) k e cd by (auto simp: True addr_indices_vpn)
  next
    case False
    have "card (footprint 256 3 (tables s) (ts ! l)) \<le> 1 + 3 * Suc n" using D(6) [OF l] by simp
    then show ?thesis using G(2) [OF l False] G(3) [OF l False] addr_indices_ok D(4,5) [OF l] False by simp
  qed
  then have "space_inv pm (Suc n) ts s' (ms[k := (ms ! k)(vpn va := e)])" using G(1) D(2,3) fp(2) unfolding space_inv_def by simp
  then show ?thesis using j(1,2) fp(3) by auto
qed

lemma put_present:
  assumes "get_page p va s = Some (q, i)"
  shows "put_entry 3 p (addr_indices va) e s = Ok (True, set_entry q i e s)" "tables s q i = leaf 3 (tables s) p (addr_indices va)"
  using assms entry_at_leaf [of s p va]
  by (auto simp: entry_at_def get_page_def addr_indices_def numeral_3_eq_3 next_or_new_def next_table_def split: option.splits if_splits)

lemma get_page_none: "get_page p va s = None \<Longrightarrow> leaf 3 (tables s) p (addr_indices va) = 0"
  using entry_at_leaf [of s p va] by (simp add: entry_at_def)

lemma map_step:
  assumes "space_inv pm n ts s ms" and "mmu_op_ok pm ms (Map_Page k va pa fl)" and "3 \<le> length (pt_pool s)"
  shows "\<exists>s'. mmu_step (Map_Page k va pa fl) (ts, s) = Ok (ts, s') \<and> space_inv pm (Suc n) ts s' (space_step ms (Map_Page k va pa fl)) \<and> length (pt_pool s) \<le> length (pt_pool s') + 3"
  using put_step [OF assms(1), of k va "(pa AND ADDRMASK) OR fl"] assms space_invD(2) [OF assms(1)] by (auto simp: arch_mmu_map_def add_page_put)

lemma unmap_step:
  assumes I: "space_inv pm n ts s ms" and ok: "mmu_op_ok pm ms (Unmap_Page k va)" and pool: "3 \<le> length (pt_pool s)"
  shows "\<exists>s'. mmu_step (Unmap_Page k va) (ts, s) = Ok (ts, s') \<and> space_inv pm (Suc n) ts s' (space_step ms (Unmap_Page k va)) \<and> length (pt_pool s) \<le> length (pt_pool s') + 3"
proof -
  have k: "k < length ts" "va < 2 ^ 47" using ok space_invD(2) [OF I] by simp_all
  show ?thesis
  proof (cases "get_page (ts ! k) va s")
    case None
    then have "(ms ! k) (vpn va) = 0" using get_page_none [OF None] space_invD(4) [OF I k] by simp
    then have "ms[k := (ms ! k)(vpn va := 0)] = ms" by (metis fun_upd_triv list_update_id)
    then show ?thesis using None space_inv_Suc [OF I] by (simp add: arch_mmu_unmap_def)
  next
    case (Some x)
    obtain q i where x: "get_page (ts ! k) va s = Some (q, i)" using Some by (cases x) auto
    have "valid_entry pm 0" by (simp add: valid_entry_def)
    then show ?thesis using put_step [OF I k, of 0] pool put_present(1) [OF x, of 0] x by (auto simp: arch_mmu_unmap_def)
  qed
qed

lemma flags_step:
  assumes I: "space_inv pm n ts s ms" and ok: "mmu_op_ok pm ms (Set_Flags k va fl)" and pool: "3 \<le> length (pt_pool s)"
  shows "\<exists>s'. mmu_step (Set_Flags k va fl) (ts, s) = Ok (ts, s') \<and> space_inv pm (Suc n) ts s' (space_step ms (Set_Flags k va fl)) \<and> length (pt_pool s) \<le> length (pt_pool s') + 3"
proof -
  have k: "k < length ts" "va < 2 ^ 47" using ok space_invD(2) [OF I] by simp_all
  note L = space_invD(4) [OF I k]
  obtain q i where x: "get_page (ts ! k) va s = Some (q, i)" using get_page_none [of "ts ! k" va s] L ok by (cases "get_page (ts ! k) va s") auto
  show ?thesis using put_step [OF I k] pool ok put_present [OF x] x L by (auto simp: arch_mmu_chflags_def)
qed

lemma spaces_append:
  assumes ok: "spaces_ok ts s" and old: "\<And>l. l < length ts \<Longrightarrow> footprint 256 3 (tables s') (ts ! l) = footprint 256 3 (tables s) (ts ! l) \<and> tree_ok 256 3 (tables s') (ts ! l)"
    and q: "tree_ok 256 3 (tables s') q" "footprint 256 3 (tables s') q = set (take j (pt_pool s))" and pool: "pt_pool s' = drop j (pt_pool s)"
  shows "spaces_ok (ts @ [q]) s'"
proof -
  let ?f = "footprint 256 3 (tables s)" and ?f' = "footprint 256 3 (tables s')"
  have P: "distinct (pt_pool s)" "\<forall>x \<in> set (pt_pool s). x AND ADDRMASK = x" using ok unfolding spaces_ok_def pool_ok_def by blast+
  have out: "set (pt_pool s) \<inter> ?f (ts ! l) = {}" if "l < length ts" for l using spaces_okD(2) [OF ok that] by (simp add: pool_ok_def)
  have qs: "?f' q \<inter> ?f' (ts ! l) = {}" if "l < length ts" for l using out [OF that] old [OF that] set_take_subset [of j "pt_pool s"] unfolding q(2) by auto
  have at: "(ts @ [q]) ! l = (if l = length ts then q else ts ! l)" if "l < length (ts @ [q])" for l using that by (auto simp: nth_append)
  show ?thesis
  proof (rule spaces_okI)
    show "tree_ok 256 3 (tables s') ((ts @ [q]) ! l)" if "l < length (ts @ [q])" for l using that old [of l] q(1) by (auto simp: at)
    show "?f' ((ts @ [q]) ! a) \<inter> ?f' ((ts @ [q]) ! b) = {}" if "a < length (ts @ [q])" "b < length (ts @ [q])" "a \<noteq> b" for a b
      unfolding at [OF that(1)] at [OF that(2)] using that qs [of a] qs [of b] old [of a] old [of b] spaces_okD(3) [OF ok, of a b]
      by (cases "a = length ts"; cases "b = length ts") auto
    show "distinct (pt_pool s')" "\<forall>x \<in> set (pt_pool s'). x AND ADDRMASK = x" using P set_drop_subset [of j "pt_pool s"] unfolding pool by auto
    show "set (pt_pool s') \<inter> ?f' ((ts @ [q]) ! l) = {}" if "l < length (ts @ [q])" for l
    proof (cases "l = length ts")
      case True
      then show ?thesis using set_take_disj_set_drop_if_distinct [OF P(1), of j j] by (simp add: pool q(2) Int_commute)
    next
      case False
      then have "l < length ts" using that by simp
      from out [OF this] have "set (drop j (pt_pool s)) \<inter> ?f (ts ! l) = {}" using set_drop_subset [of j "pt_pool s"] by blast
      then show ?thesis using old [OF \<open>l < length ts\<close>] False that by (simp add: at pool)
    qed
  qed
qed

lemma copied_frame: "copied_entry e AND ADDRMASK = e AND ADDRMASK"
proof -
  have "(x OR y) AND ADDRMASK = (x AND ADDRMASK) OR (y AND ADDRMASK)" for x y :: u64 by (simp add: bit.conj_disj_distrib2)
  moreover have "(e AND NOT ARCH_MMU_FLAGS_WRITE) AND ADDRMASK = e AND ADDRMASK"
    by (simp add: and.assoc ARCH_MMU_FLAGS_WRITE_def ADDRMASK_def)
  ultimately show ?thesis by (simp add: copied_entry_def ADDRMASK_def)
qed

lemma valid_copies: "valid_entry pm e \<Longrightarrow> valid_entry pm (copy_leaf e)" "valid_entry pm e \<Longrightarrow> valid_entry pm (cow_leaf e)"
  by (auto simp: valid_entry_def copy_leaf_def cow_leaf_def copied_frame)

lemma new_table_ok:
  assumes "pt_pool s = q # ps"
  shows "\<exists>z. arch_mmu_new_table s = Ok (Some q, s\<lparr>tables := (tables s)(q := z), pt_pool := ps\<rparr>) \<and> (\<forall>i < 256. z i = 0)"
proof -
  let ?s = "s\<lparr>tables := (tables s)(q := (\<lambda>_. 0)), pt_pool := ps\<rparr>"
  let ?z = "\<lambda>i. if 256 \<le> i then tables ?s (RootTable ?s) i else tables ?s q i"
  have "arch_mmu_new_table s = Ok (Some q, s\<lparr>tables := (tables s)(q := ?z), pt_pool := ps\<rparr>)"
    using assms by (simp add: arch_mmu_new_table_def internal_alloc_phys_def)
  moreover have "\<forall>i < 256. ?z i = 0" by (auto dest: leD)
  ultimately show ?thesis by blast
qed

lemma new_step:
  assumes I: "space_inv pm n ts s ms" and pool: "1 \<le> length (pt_pool s)"
  shows "\<exists>ts' s'. mmu_step New_Table (ts, s) = Ok (ts', s') \<and> space_inv pm (Suc n) ts' s' (space_step ms New_Table) \<and> length (pt_pool s) \<le> length (pt_pool s') + 1"
proof -
  note D = space_invD [OF I]
  obtain q ps where q: "pt_pool s = q # ps" using pool by (cases "pt_pool s") auto
  obtain z where z: "arch_mmu_new_table s = Ok (Some q, s\<lparr>tables := (tables s)(q := z), pt_pool := ps\<rparr>)" "\<forall>i < 256. z i = 0" using new_table_ok [OF q] by blast
  let ?s = "s\<lparr>tables := (tables s)(q := z), pt_pool := ps\<rparr>"
  have q_out: "q \<notin> footprint 256 3 (tables s) (ts ! l)" if "l < length ts" for l using spaces_okD(2) [OF D(1) that] q by (auto simp: pool_ok_def)
  have old: "footprint 256 3 (tables ?s) (ts ! l) = footprint 256 3 (tables s) (ts ! l) \<and> tree_ok 256 3 (tables ?s) (ts ! l) = tree_ok 256 3 (tables s) (ts ! l) \<and>
      (\<forall>is. indices_ok 256 3 is \<longrightarrow> leaf 3 (tables ?s) (ts ! l) is = leaf 3 (tables s) (ts ! l) is)" if "l < length ts" for l
    using q_out [OF that] by (intro frame_tree) auto
  have "{i. i < 256 \<and> tables ?s q i \<noteq> 0} = {}" using z(2) by auto
  then have new: "footprint 256 3 (tables ?s) q = {q}" "tree_ok 256 3 (tables ?s) q" "\<And>js. indices_ok 256 3 js \<Longrightarrow> leaf 3 (tables ?s) q js = 0"
    using z(2) indices_ok_Suc by (auto simp: numeral_3_eq_3 numeral_2_eq_2 footprint.simps(2) tree_ok.simps(2) leaf.simps(2))
  have "spaces_ok (ts @ [q]) ?s"
    using old spaces_okD(1) [OF D(1)] new q by (intro spaces_append [OF D(1), where j = 1]) auto
  moreover have "(\<forall>va < 2 ^ 47. leaf 3 (tables ?s) ((ts @ [q]) ! l) (addr_indices va) = ((ms @ [\<lambda>_. 0]) ! l) (vpn va)) \<and>
      (\<forall>js. indices_ok 256 3 js \<longrightarrow> valid_entry pm (leaf 3 (tables ?s) ((ts @ [q]) ! l) js)) \<and> card (footprint 256 3 (tables ?s) ((ts @ [q]) ! l)) \<le> 1 + 3 * Suc n"
    if l: "l < length (ts @ [q])" for l
  proof (cases "l = length ts")
    case True
    then show ?thesis using new addr_indices_ok D(2) by (auto simp: nth_append valid_entry_def)
  next
    case False
    then have l': "l < length ts" using l by simp
    then have "card (footprint 256 3 (tables s) (ts ! l)) \<le> 1 + 3 * Suc n" using D(6) [OF l'] by simp
    then show ?thesis using old [OF l'] D(2) D(4,5) [OF l'] addr_indices_ok l' by (simp add: nth_append)
  qed
  ultimately have "space_inv pm (Suc n) (ts @ [q]) ?s (ms @ [\<lambda>_. 0])" using D(2,3) unfolding space_inv_def by simp
  then show ?thesis using z(1) q by simp
qed

lemma duplicate_ok:
  assumes ok: "tree_ok 256 3 (tables s) p" "pool_ok (pt_pool s) (footprint 256 3 (tables s) p)" "card (footprint 256 3 (tables s) p) \<le> length (pt_pool s)" "holdable_leaves 256 3 p s"
  shows "\<exists>s' q k. arch_mmu_duplicate_table p s = Ok (Some q, s') \<and> k \<le> card (footprint 256 3 (tables s) p) \<and> copied 256 3 256 p q k s s'"
proof -
  have three: "3 = Suc 2" and B: "(256 :: u64) \<le> 512" "unat (256 :: u64) = 256" by simp_all
  have "0 < card (footprint 256 3 (tables s) p)" using footprint_self by (metis card_gt_0_iff empty_iff finite_u64)
  then obtain q ps where q: "pt_pool s = q # ps" using ok(3) by (cases "pt_pool s") auto
  obtain z where z: "arch_mmu_new_table s = Ok (Some q, s\<lparr>tables := (tables s)(q := z), pt_pool := ps\<rparr>)" "\<forall>i < 256. z i = 0" using new_table_ok [OF q] by blast
  obtain s' k where "for_each (dup_body (duplicate_recursive 3) False p q) (indices 256) (s\<lparr>tables := (tables s)(q := z), pt_pool := ps\<rparr>) = Ok s'"
      "k \<le> card (footprint 256 3 (tables s) p)" "copied 256 3 256 p q k s s'"
    using dup_loop [OF dup_all_ok ok [unfolded three] q B z(2)] unfolding three by auto
  moreover have "dup_body (duplicate_recursive 3) False p q =
      (\<lambda>i s. if ARCH_MMU_FLAGS_PRESENT AND tables s p i = 0 then Ok s else res_bind (duplicate_recursive 3 (tables s p i) s) (\<lambda>(e, s'). Ok (set_entry q i e s')))"
    by (simp add: dup_body_def fun_eq_iff Let_def)
  ultimately show ?thesis using z(1) unfolding arch_mmu_duplicate_table_def by (simp del: duplicate_recursive.simps) blast
qed

lemma fork_step:
  assumes I: "space_inv pm n ts s ms" and ok: "mmu_op_ok pm ms (Fork_Table k)" and pool: "1 + 3 * n \<le> length (pt_pool s)"
  shows "\<exists>ts' s'. mmu_step (Fork_Table k) (ts, s) = Ok (ts', s') \<and> space_inv pm (Suc n) ts' s' (space_step ms (Fork_Table k)) \<and>
    length (pt_pool s) \<le> length (pt_pool s') + (1 + 3 * n)"
proof -
  note D = space_invD [OF I]
  have k: "k < length ts" using ok D(2) by simp
  note S = spaces_okD [OF D(1) k]
  have "holdable_leaves 256 3 (ts ! k) s" using D(3,5) k unfolding holdable_leaves_def valid_entry_def by blast
  then obtain s' q j where q: "arch_mmu_duplicate_table (ts ! k) s = Ok (Some q, s')" "j \<le> card (footprint 256 3 (tables s) (ts ! k))" "copied 256 3 256 (ts ! k) q j s s'"
    using duplicate_ok [OF S(1,2)] D(6) [OF k] pool by (meson le_trans)
  have j: "j \<le> 1 + 3 * n" using q(2) D(6) [OF k] by simp
  have C: "pt_pool s' = drop j (pt_pool s)" "\<And>a. holdable (mmu_pmm s') a = holdable (mmu_pmm s) a"
      "tree_ok 256 3 (tables s') (ts ! k)" "footprint 256 3 (tables s') (ts ! k) = footprint 256 3 (tables s) (ts ! k)" "tree_ok 256 3 (tables s') q"
      "footprint 256 3 (tables s') q = set (take j (pt_pool s))" "\<And>x. x \<notin> footprint 256 3 (tables s) (ts ! k) \<Longrightarrow> x \<notin> set (take j (pt_pool s)) \<Longrightarrow> tables s' x = tables s x"
    using q(3) unfolding copied_def by blast+
  have lf: "leaf 3 (tables s') q js = copy_leaf (leaf 3 (tables s) (ts ! k) js)" "leaf 3 (tables s') (ts ! k) js = cow_leaf (leaf 3 (tables s) (ts ! k) js)" if "indices_ok 256 3 js" for js
    using q(3) that unfolding copied_def by (auto simp: indices_ok_def word_less_nat_alt)
  have "\<forall>x. x \<notin> footprint 256 3 (tables s) (ts ! k) \<and> x \<notin> set (pt_pool s) \<longrightarrow> tables s' x = tables s x" using C(7) set_take_subset [of j "pt_pool s"] by blast
  note O = other_space [OF D(1) k _ _ this]
  have old: "footprint 256 3 (tables s') (ts ! l) = footprint 256 3 (tables s) (ts ! l) \<and> tree_ok 256 3 (tables s') (ts ! l)" if "l < length ts" for l
    using O(1,2) [OF that] C(3,4) by (cases "l = k") auto
  have "spaces_ok (ts @ [q]) s'" by (rule spaces_append [OF D(1) old C(5,6,1)])
  moreover have "card (footprint 256 3 (tables s') q) \<le> 1 + 3 * Suc n" using j card_length [of "take j (pt_pool s)"] by (simp add: C(6))
  then have "(\<forall>va < 2 ^ 47. leaf 3 (tables s') ((ts @ [q]) ! l) (addr_indices va) = (space_step ms (Fork_Table k) ! l) (vpn va)) \<and>
      (\<forall>js. indices_ok 256 3 js \<longrightarrow> valid_entry pm (leaf 3 (tables s') ((ts @ [q]) ! l) js)) \<and> card (footprint 256 3 (tables s') ((ts @ [q]) ! l)) \<le> 1 + 3 * Suc n"
    if l: "l < length (ts @ [q])" for l
  proof -
    consider "l = length ts" | "l = k" | "l < length ts" "l \<noteq> k" using l by fastforce
    then show ?thesis
    proof cases
      case 1
      then show ?thesis using lf(1) addr_indices_ok D(2,4,5) k valid_copies(1) \<open>card (footprint 256 3 (tables s') q) \<le> _\<close> by (simp add: nth_append)
    next
      case 2
      have "card (footprint 256 3 (tables s') (ts ! k)) \<le> 1 + 3 * Suc n" using D(6) [OF k] C(4) by simp
      then show ?thesis using lf(2) addr_indices_ok D(2,4,5) k valid_copies(2) 2 by (simp add: nth_append)
    next
      case 3
      have "card (footprint 256 3 (tables s') (ts ! l)) \<le> 1 + 3 * Suc n" using D(6) [OF 3(1)] old [OF 3(1)] by simp
      then show ?thesis using O(3) [OF 3] addr_indices_ok D(2,4,5) 3 by (simp add: nth_append)
    qed
  qed
  ultimately have "space_inv pm (Suc n) (ts @ [q]) s' (space_step ms (Fork_Table k))" using D(2,3) C(2) unfolding space_inv_def by simp
  then show ?thesis using q(1) j C(1) by (auto simp: le_diff_conv)
qed

lemma mmu_step_ok:
  assumes "space_inv pm n ts s ms" and "mmu_op_ok pm ms a" and "3 + 3 * n \<le> length (pt_pool s)"
  shows "\<exists>ts' s'. mmu_step a (ts, s) = Ok (ts', s') \<and> space_inv pm (Suc n) ts' s' (space_step ms a) \<and> length (pt_pool s) \<le> length (pt_pool s') + (3 + 3 * n)"
proof (cases a)
  case New_Table
  then show ?thesis using new_step [OF assms(1)] assms(3) by fastforce
next
  case (Fork_Table k)
  then show ?thesis using fork_step [OF assms(1), of k] assms(2,3) by fastforce
next
  case (Map_Page k va pa fl)
  then show ?thesis using map_step [OF assms(1), of k va pa fl] assms(2,3) by fastforce
next
  case (Unmap_Page k va)
  then show ?thesis using unmap_step [OF assms(1), of k va] assms(2,3) by fastforce
next
  case (Set_Flags k va fl)
  then show ?thesis using flags_step [OF assms(1), of k va fl] assms(2,3) by fastforce
qed

lemma mmu_run_ok:
  assumes "space_inv pm n ts s ms" and "mmu_ops_ok pm ms as" and "length as * (3 + 3 * (n + length as)) \<le> length (pt_pool s)"
  shows "\<exists>ts' s'. for_each mmu_step as (ts, s) = Ok (ts', s') \<and> space_inv pm (n + length as) ts' s' (foldl space_step ms as)"
  using assms
proof (induction as arbitrary: n ts s ms)
  case (Cons a as)
  let ?N = "3 + 3 * (n + length (a # as))"
  have need: "?N + length as * ?N \<le> length (pt_pool s)" using Cons.prems(3) by simp
  then obtain ts1 s1 where s1: "mmu_step a (ts, s) = Ok (ts1, s1)" "space_inv pm (Suc n) ts1 s1 (space_step ms a)" "length (pt_pool s) \<le> length (pt_pool s1) + (3 + 3 * n)"
    using mmu_step_ok [OF Cons.prems(1)] Cons.prems(2) by fastforce
  have "length as * (3 + 3 * (Suc n + length as)) \<le> length (pt_pool s1)" using need s1(3) by simp
  then show ?case using Cons.IH [OF s1(2)] Cons.prems(2) s1(1) by simp
qed simp

section \<open>Properties\<close>

definition sample_frames :: pmm where
  "sample_frames =
     \<lparr>pmm_list = [], pmm_lock = False, pmm_meta = replicate 16 taken_model, pmm_len = 16, pmm_reserved_start = 16, pmm_extended_len = 16,
      pmm_fake = taken_model, pmm_stats = \<lparr>st_total = 0, st_usable = 0, st_reserved = 0, st_free = 0, st_used = 0\<rparr>\<rparr>"

definition sample_mmu :: mmu_state where
  "sample_mmu = \<lparr>tables = (\<lambda>_ _. 0), pt_pool = map (\<lambda>k. of_nat (4096 * k)) [16..<76], mmu_pmm = sample_frames, RootTable = 0, cr3 = 0\<rparr>"

lemma sample_pool: "pool_ok (pt_pool sample_mmu) {}"
proof -
  have "inj_on (\<lambda>k. of_nat (4096 * k) :: u64) {16..<76}"
    by (rule inj_onI, drule arg_cong [of _ _ unat]) (simp add: unat_of_nat64 del: of_nat_mult)
  then have "distinct (pt_pool sample_mmu)" unfolding sample_mmu_def by (simp only: mmu_state.simps distinct_map distinct_upt set_upt simp_thms)
  moreover have "\<forall>q \<in> set (pt_pool sample_mmu). q AND ADDRMASK = q" by (simp add: sample_mmu_def ADDRMASK_def)
  ultimately show ?thesis by (simp only: pool_ok_def Int_empty_right simp_thms)
qed



end
