(* ===== verification/Vmm.thy ===== *)
theory Vmm
  imports Mmu
begin

text \<open>
  Virtual memory, \<^verbatim>\<open>src/com/mm/vmm.c\<close>, the page fault handler of \<^verbatim>\<open>src/platform/x86-64/mmu.c\<close> and the
  system calls \<^verbatim>\<open>mmap\<close> and \<^verbatim>\<open>munmap\<close>. A context is an address space with the number of pages its
  anonymous range has given out; contexts are numbers and the kernel's own is 0. The bytes of the
  pages that are mapped are part of the state.

  A page that the allocator hands out reads as zero: the allocator clears all memory at boot and
  never takes a page back. Spin locks around single updates are left out.
\<close>

section \<open>State\<close>

record com_vmm_context =
  pagetable :: u64
  anon_pages :: u64

text \<open>The current thread, if there is one: whether it runs in user mode, and the context of its process.\<close>

record vmm_state =
  mmu :: mmu_state
  frame_bytes :: "u64 \<Rightarrow> u64 \<Rightarrow> u8"
  contexts :: "nat \<Rightarrow> com_vmm_context"
  next_context :: nat
  ZeroPage :: u64
  curr_thread :: "(bool \<times> nat option) option"

definition RootContext :: nat where
  "RootContext = 0"

definition PAGE :: u64 where
  "PAGE = of_nat Pmm.ARCH_PAGE_SIZE"

definition COM_MM_VMM_FLAGS_ANONYMOUS :: u32 where
  "COM_MM_VMM_FLAGS_ANONYMOUS = 1"

definition COM_MM_VMM_FLAGS_NOHINT :: u32 where
  "COM_MM_VMM_FLAGS_NOHINT = 2"

definition COM_MM_VMM_FLAGS_PHYSICAL :: u32 where
  "COM_MM_VMM_FLAGS_PHYSICAL = 4"

definition COM_MM_VMM_FLAGS_SHARED :: u32 where
  "COM_MM_VMM_FLAGS_SHARED = 32"

definition COM_MM_VMM_FLAGS_ALLOCATE :: u32 where
  "COM_MM_VMM_FLAGS_ALLOCATE = 128"

definition COM_MM_VMM_FLAGS_PRIVATE :: u32 where
  "COM_MM_VMM_FLAGS_PRIVATE = 256"

definition COM_MM_VMM_FAULT_ATTR_COW :: u32 where
  "COM_MM_VMM_FAULT_ATTR_COW = 1"

definition COM_MM_VMM_FAULT_ATTR_MAP :: u32 where
  "COM_MM_VMM_FAULT_ATTR_MAP = 2"

definition COM_MM_VMM_PREFAULT_SUPPORTED_ATTR :: u32 where
  "COM_MM_VMM_PREFAULT_SUPPORTED_ATTR = COM_MM_VMM_FAULT_ATTR_MAP"

definition CONFIG_VMM_PREFAULT_MAX :: nat where
  "CONFIG_VMM_PREFAULT_MAX = 512"

definition CONFIG_VMM_ANON_START :: u64 where
  "CONFIG_VMM_ANON_START = 0x100000000"

definition UNMAP_MAX_ARRAY_ON_STACK :: u64 where
  "UNMAP_MAX_ARRAY_ON_STACK = 64"

definition set_context :: "nat \<Rightarrow> com_vmm_context \<Rightarrow> vmm_state \<Rightarrow> vmm_state" where
  "set_context c x s = s\<lparr>contexts := (contexts s)(c := x)\<rparr>"

section \<open>Contexts\<close>

definition vmm_current_context :: "vmm_state \<Rightarrow> nat" where
  "vmm_current_context s = (case curr_thread s of Some (_, Some c) \<Rightarrow> c | _ \<Rightarrow> RootContext)"

definition vmm_ensure_context :: "nat option \<Rightarrow> vmm_state \<Rightarrow> nat res" where
  "vmm_ensure_context context s =
     kassert (context \<noteq> Some RootContext) (Ok (case context of None \<Rightarrow> vmm_current_context s | Some c \<Rightarrow> c))"

definition com_mm_vmm_new_context :: "u64 option \<Rightarrow> vmm_state \<Rightarrow> (nat \<times> vmm_state) res" where
  "com_mm_vmm_new_context pt s =
     res_bind (case pt of None \<Rightarrow> arch_mmu_new_table (mmu s) | Some p \<Rightarrow> Ok (Some p, mmu s)) (\<lambda>(r, m).
       let c = next_context s
       in Ok (c, set_context c \<lparr>pagetable = (case r of None \<Rightarrow> 0 | Some p \<Rightarrow> p), anon_pages = 0\<rparr> (s\<lparr>mmu := m, next_context := c + 1\<rparr>)))"

definition com_mm_vmm_destroy_context :: "nat option \<Rightarrow> vmm_state \<Rightarrow> vmm_state res" where
  "com_mm_vmm_destroy_context context s =
     (case context of
        None \<Rightarrow> Panic
      | Some c \<Rightarrow>
          kassert (c \<noteq> RootContext) (kassert (pagetable (contexts s RootContext) \<noteq> pagetable (contexts s c))
            (kassert (c \<noteq> vmm_current_context s) (kassert (pagetable (contexts s c) \<noteq> arch_mmu_get_table (mmu s))
              (kassert (pagetable (contexts s c) \<noteq> 0) (Ok s))))))"

definition com_mm_vmm_duplicate_context :: "nat option \<Rightarrow> vmm_state \<Rightarrow> (nat \<times> vmm_state) res" where
  "com_mm_vmm_duplicate_context context s =
     (case context of
        None \<Rightarrow> com_mm_vmm_new_context None s
      | Some c \<Rightarrow>
          res_bind (arch_mmu_duplicate_table (pagetable (contexts s c)) (mmu s)) (\<lambda>(new_pt, m).
            res_bind (com_mm_vmm_new_context new_pt (s\<lparr>mmu := m\<rparr>)) (\<lambda>(n, s1).
              Ok (n, set_context n ((contexts s1 n)\<lparr>anon_pages := anon_pages (contexts s1 c)\<rparr>) s1))))"

section \<open>Mapping\<close>

definition hold_page :: "u64 \<Rightarrow> vmm_state \<Rightarrow> vmm_state res" where
  "hold_page page s =
     res_bind (com_mm_pmm_hold (mmu_pmm (mmu s)) (unat page)) (\<lambda>pm. Ok (s\<lparr>mmu := (mmu s)\<lparr>mmu_pmm := pm\<rparr>\<rparr>))"

definition free_page :: "u64 \<Rightarrow> vmm_state \<Rightarrow> vmm_state res" where
  "free_page page s =
     res_bind (com_mm_pmm_free (mmu_pmm (mmu s)) (unat page)) (\<lambda>pm. Ok (s\<lparr>mmu := (mmu s)\<lparr>mmu_pmm := pm\<rparr>\<rparr>))"

text \<open>The flags of the entries, and the changed flags of the call.\<close>

definition map_flags :: "u32 \<Rightarrow> u64 \<Rightarrow> u32 \<times> u64" where
  "map_flags vmm_flags mmu_flags =
     (let mmu1 = (if COM_MM_VMM_FLAGS_SHARED AND vmm_flags \<noteq> 0 then mmu_flags OR ARCH_MMU_EXTRA_FLAGS_SHARED else mmu_flags);
          (vmm2, mmu2) = (if COM_MM_VMM_FLAGS_ALLOCATE AND vmm_flags \<noteq> 0
                          then (vmm_flags OR COM_MM_VMM_FLAGS_PRIVATE, mmu1 OR ARCH_MMU_EXTRA_FLAGS_NOCOPY) else (vmm_flags, mmu1));
          mmu3 = (if COM_MM_VMM_FLAGS_PRIVATE AND vmm2 \<noteq> 0 \<and> ARCH_MMU_FLAGS_WRITE AND mmu2 \<noteq> 0
                  then (mmu2 AND NOT ARCH_MMU_FLAGS_WRITE) OR ARCH_MMU_EXTRA_FLAGS_PRIVATE else mmu2)
      in (vmm2, mmu3))"

text \<open>One page of a mapping.\<close>

definition map_one :: "u64 \<Rightarrow> bool \<Rightarrow> u64 \<Rightarrow> u64 \<Rightarrow> u64 \<Rightarrow> u64 \<Rightarrow> vmm_state \<Rightarrow> vmm_state res" where
  "map_one pt allocate virt page_paddr mmu_flags i s =
     (let offset = i * PAGE; vaddr = virt + offset
      in res_bind (if allocate then hold_page (ZeroPage s) s else Ok s) (\<lambda>s1.
           let paddr = (if allocate then ZeroPage s else page_paddr + offset)
           in res_bind (arch_mmu_map pt vaddr paddr mmu_flags (mmu s1)) (\<lambda>(success, m). kassert success (Ok (s1\<lparr>mmu := m\<rparr>)))))"

definition com_mm_vmm_map :: "nat option \<Rightarrow> u64 \<Rightarrow> u64 \<Rightarrow> u64 \<Rightarrow> u32 \<Rightarrow> u64 \<Rightarrow> vmm_state \<Rightarrow> (u64 \<times> vmm_state) res" where
  "com_mm_vmm_map context virt phys len vmm_flags0 mmu_flags0 s =
     (let allocate = (COM_MM_VMM_FLAGS_ALLOCATE AND vmm_flags0 \<noteq> 0);
          phys = (if allocate then 0 else phys);
          (vmm_flags, mmu_flags) = map_flags vmm_flags0 mmu_flags0;
          page_paddr = phys AND NOT (PAGE - 1); page_off = phys mod PAGE; size_p_off = page_off + len;
          size_in_pages = (size_p_off + PAGE - 1) div PAGE
      in res_bind (vmm_ensure_context context s) (\<lambda>c.
         res_bind
           (if COM_MM_VMM_FLAGS_NOHINT AND vmm_flags \<noteq> 0 then
              if COM_MM_VMM_FLAGS_ANONYMOUS AND vmm_flags \<noteq> 0 then
                kassert (c \<noteq> RootContext) (kassert (pagetable (contexts s RootContext) \<noteq> pagetable (contexts s c))
                  (Ok (anon_pages (contexts s c) * PAGE + CONFIG_VMM_ANON_START, mmu_flags,
                       set_context c ((contexts s c)\<lparr>anon_pages := anon_pages (contexts s c) + size_in_pages\<rparr>) s)))
              else if COM_MM_VMM_FLAGS_PHYSICAL AND vmm_flags \<noteq> 0 then
                Ok (ARCH_PHYS_TO_HHDM page_paddr, mmu_flags OR ARCH_MMU_FLAGS_GLOBAL, s)
              else Panic
            else Ok (virt AND NOT (PAGE - 1), mmu_flags, s))
           (\<lambda>(virt, mmu_flags, s1).
              res_bind (for_each (map_one (pagetable (contexts s1 c)) allocate virt page_paddr mmu_flags) (indices (unat size_in_pages)) s1)
                (\<lambda>s2. Ok (virt + page_off, s2)))))"

definition com_mm_vmm_switch :: "nat option \<Rightarrow> vmm_state \<Rightarrow> vmm_state" where
  "com_mm_vmm_switch context s =
     (let c = (case context of None \<Rightarrow> RootContext | Some c \<Rightarrow> c) in s\<lparr>mmu := arch_mmu_switch (pagetable (contexts s c)) (mmu s)\<rparr>)"

definition com_mm_vmm_get_physical :: "nat option \<Rightarrow> u64 \<Rightarrow> vmm_state \<Rightarrow> u64 option res" where
  "com_mm_vmm_get_physical context virt_addr s =
     res_bind (vmm_ensure_context context s) (\<lambda>c. Ok (arch_mmu_get_physical (pagetable (contexts s c)) virt_addr (mmu s)))"

text \<open>The pages that were unmapped, in order; the loop ends at the first address without a table.\<close>

fun unmap_loop :: "u64 \<Rightarrow> u64 \<Rightarrow> nat \<Rightarrow> mmu_state \<Rightarrow> u64 list \<times> mmu_state" where
  "unmap_loop pt virt 0 m = ([], m)"
| "unmap_loop pt virt (Suc n) m =
     (case arch_mmu_unmap pt virt m of
        (True, Some phys, m1) \<Rightarrow> (let (ps, m2) = unmap_loop pt (virt + PAGE) n m1 in (phys # ps, m2))
      | (_, _, m1) \<Rightarrow> ([], m1))"

definition com_mm_vmm_unmap :: "nat option \<Rightarrow> u64 \<Rightarrow> u64 \<Rightarrow> vmm_state \<Rightarrow> vmm_state res" where
  "com_mm_vmm_unmap context virt len s =
     res_bind (vmm_ensure_context context s) (\<lambda>c.
       let page_off = virt mod PAGE; size_p_off = page_off + len;
           size_in_pages = (size_p_off + PAGE - 1) div PAGE; virt = virt AND NOT (PAGE - 1);
           tmp_phys_buf_pages = (size_in_pages * 8 + PAGE - 1) div PAGE
       in res_bind
            (if UNMAP_MAX_ARRAY_ON_STACK < size_in_pages
             then res_bind (com_mm_pmm_alloc_many (mmu_pmm (mmu s)) (unat tmp_phys_buf_pages)) (\<lambda>(buf, pm). Ok (buf, s\<lparr>mmu := (mmu s)\<lparr>mmu_pmm := pm\<rparr>\<rparr>))
             else Ok (0, s))
            (\<lambda>(tmp_phys_buf, s1).
               let (unmapped, m) = unmap_loop (pagetable (contexts s1 c)) virt (unat size_in_pages) (mmu s1)
               in res_bind (for_each free_page unmapped (s1\<lparr>mmu := m\<rparr>)) (\<lambda>s2.
                    if UNMAP_MAX_ARRAY_ON_STACK < size_in_pages
                    then res_bind (com_mm_pmm_free_many (mmu_pmm (mmu s2)) tmp_phys_buf (unat tmp_phys_buf_pages)) (\<lambda>pm. Ok (s2\<lparr>mmu := (mmu s2)\<lparr>mmu_pmm := pm\<rparr>\<rparr>))
                    else Ok s2)))"

definition com_mm_vmm_prealloc_range :: "nat option \<Rightarrow> u64 \<Rightarrow> vmm_state \<Rightarrow> (u64 \<times> vmm_state) res" where
  "com_mm_vmm_prealloc_range context len s =
     res_bind (vmm_ensure_context context s) (\<lambda>c.
       kassert (c \<noteq> RootContext) (kassert (pagetable (contexts s RootContext) \<noteq> pagetable (contexts s c))
         (Ok (anon_pages (contexts s c) * PAGE + CONFIG_VMM_ANON_START,
              set_context c ((contexts s c)\<lparr>anon_pages := anon_pages (contexts s c) + (len + PAGE - 1) div PAGE\<rparr>) s))))"

definition com_mm_vmm_init :: "vmm_state \<Rightarrow> vmm_state res" where
  "com_mm_vmm_init s =
     (let s1 = set_context RootContext ((contexts s RootContext)\<lparr>pagetable := arch_mmu_get_table (mmu s)\<rparr>) s
      in res_bind (com_mm_pmm_alloc_zero (mmu_pmm (mmu s1))) (\<lambda>(page, pm).
           Ok (s1\<lparr>mmu := (mmu s1)\<lparr>mmu_pmm := pm\<rparr>, frame_bytes := (frame_bytes s1)(of_nat page := (\<lambda>_. 0)), ZeroPage := of_nat page\<rparr>)))"

section \<open>Page faults\<close>

datatype fault_result = Resumed | Signalled

definition fresh_frames :: "u64 \<Rightarrow> nat \<Rightarrow> vmm_state \<Rightarrow> vmm_state" where
  "fresh_frames phys n s = s\<lparr>frame_bytes := (\<lambda>p. if p \<in> (\<lambda>i. phys + PAGE * i) ` set (indices n) then (\<lambda>_. 0) else frame_bytes s p)\<rparr>"

definition map_fault :: "u64 \<Rightarrow> u64 \<Rightarrow> u64 \<Rightarrow> u64 \<Rightarrow> vmm_state \<Rightarrow> vmm_state res" where
  "map_fault pt virt phys flags s = res_bind (arch_mmu_map pt virt phys flags (mmu s)) (\<lambda>(_, m). Ok (s\<lparr>mmu := m\<rparr>))"

definition com_mm_vmm_handle_fault :: "u64 \<Rightarrow> u64 \<Rightarrow> bool \<Rightarrow> u64 \<Rightarrow> u32 \<Rightarrow> nat \<Rightarrow> vmm_state \<Rightarrow> (fault_result \<times> vmm_state) res" where
  "com_mm_vmm_handle_fault fault_virt fault_phys fault_user mmu_flags_hint attr num_pages_hint s =
     (case curr_thread s of
        None \<Rightarrow> Panic
      | Some (is_user, proc) \<Rightarrow>
          (case proc of
             None \<Rightarrow> Panic
           | Some c \<Rightarrow>
               if \<not> is_user then Panic
               else
                 let pt = pagetable (contexts s c); fault_virt_page = fault_virt AND NOT (PAGE - 1)
                 in if COM_MM_VMM_FAULT_ATTR_MAP AND attr \<noteq> 0 then
                      res_bind (com_mm_pmm_alloc_many_zero (mmu_pmm (mmu s)) num_pages_hint) (\<lambda>(new, pm).
                        let new_phys = of_nat new
                        in res_bind
                             (for_each (\<lambda>i. map_fault pt (fault_virt_page + PAGE * i) (new_phys + PAGE * i) mmu_flags_hint) (indices num_pages_hint)
                                (fresh_frames new_phys num_pages_hint (s\<lparr>mmu := (mmu s)\<lparr>mmu_pmm := pm\<rparr>\<rparr>)))
                             (\<lambda>s1. Ok (Resumed, s1)))
                    else if COM_MM_VMM_FAULT_ATTR_COW AND attr \<noteq> 0 then
                      let fault_phys_page = fault_phys AND NOT (PAGE - 1)
                      in res_bind (com_mm_pmm_is_shared (mmu_pmm (mmu s)) (unat fault_phys_page)) (\<lambda>shared.
                           if \<not> shared then res_bind (map_fault pt fault_virt_page fault_phys_page mmu_flags_hint s) (\<lambda>s1. Ok (Resumed, s1))
                           else
                             res_bind (com_mm_pmm_alloc (mmu_pmm (mmu s))) (\<lambda>(new, pm).
                               let new_phys = of_nat new;
                                   s1 = s\<lparr>mmu := (mmu s)\<lparr>mmu_pmm := pm\<rparr>, frame_bytes := (frame_bytes s)(new_phys := frame_bytes s fault_phys_page)\<rparr>
                               in res_bind (map_fault pt fault_virt_page new_phys mmu_flags_hint s1) (\<lambda>s2.
                                  res_bind (free_page fault_phys_page s2) (\<lambda>s3. Ok (Resumed, s3)))))
                    else if fault_user then Ok (Signalled, s)
                    else Panic))"

text \<open>
  The handler looks for neighbours of the page that can be mapped with it: first downwards, then
  upwards. The count of pages goes on from the first loop to the second.
\<close>

function prefault_back :: "u64 \<Rightarrow> u64 \<Rightarrow> u64 \<Rightarrow> nat \<Rightarrow> u64 \<Rightarrow> u64 \<Rightarrow> mmu_state \<Rightarrow> nat \<times> u64 \<times> u64" where
  "prefault_back pt fault_virt mmu_flags num_pages start_entry start_virt m =
     (if num_pages < CONFIG_VMM_PREFAULT_MAX div 2 then
        (case get_page pt (fault_virt - PAGE * of_nat num_pages) m of
           None \<Rightarrow> (num_pages, start_entry, start_virt)
         | Some (p, i) \<Rightarrow>
             if mmu_flags \<noteq> tables m p i AND NOT ADDRMASK then (num_pages, start_entry, start_virt)
             else prefault_back pt fault_virt mmu_flags (num_pages + 1) (tables m p i) (start_virt - PAGE) m)
      else (num_pages, start_entry, start_virt))"
  by pat_completeness auto
termination by (relation "measure (\<lambda>(_, _, _, n, _). CONFIG_VMM_PREFAULT_MAX - n)") (auto simp: CONFIG_VMM_PREFAULT_MAX_def)

function prefault_forward :: "u64 \<Rightarrow> u64 \<Rightarrow> u64 \<Rightarrow> nat \<Rightarrow> mmu_state \<Rightarrow> nat" where
  "prefault_forward pt fault_virt mmu_flags num_pages m =
     (if num_pages < CONFIG_VMM_PREFAULT_MAX then
        (case get_page pt (fault_virt + PAGE * of_nat num_pages) m of
           None \<Rightarrow> num_pages
         | Some (p, i) \<Rightarrow> if mmu_flags \<noteq> tables m p i AND NOT ADDRMASK then num_pages else prefault_forward pt fault_virt mmu_flags (num_pages + 1) m)
      else num_pages)"
  by pat_completeness auto
termination by (relation "measure (\<lambda>(_, _, _, n, _). CONFIG_VMM_PREFAULT_MAX - n)") (auto simp: CONFIG_VMM_PREFAULT_MAX_def)

declare prefault_back.simps [simp del] prefault_forward.simps [simp del]

text \<open>Reading the entry of an address without a table follows a null pointer.\<close>

definition x86_64_mmu_fault_isr :: "u64 \<Rightarrow> bool \<Rightarrow> vmm_state \<Rightarrow> (fault_result \<times> vmm_state) res" where
  "x86_64_mmu_fault_isr fault_virt fault_user s =
     (let curr_pt = arch_mmu_get_table (mmu s) in
      case get_page curr_pt fault_virt (mmu s) of
        None \<Rightarrow> Panic
      | Some (p, i) \<Rightarrow>
          let entry = tables (mmu s) p i; mmu_flags = entry AND NOT ADDRMASK;
              (hint1, attr1) = (if ARCH_MMU_EXTRA_FLAGS_PRIVATE AND entry \<noteq> 0
                                then ((mmu_flags AND NOT ARCH_MMU_EXTRA_FLAGS_PRIVATE) OR ARCH_MMU_FLAGS_WRITE, COM_MM_VMM_FAULT_ATTR_COW) else (mmu_flags, 0));
              (hint2, attr2) = (if ARCH_MMU_EXTRA_FLAGS_NOCOPY AND entry \<noteq> 0
                                then (hint1 AND NOT ARCH_MMU_EXTRA_FLAGS_NOCOPY, (attr1 AND NOT COM_MM_VMM_FAULT_ATTR_COW) OR COM_MM_VMM_FAULT_ATTR_MAP) else (hint1, attr1))
          in if COM_MM_VMM_PREFAULT_SUPPORTED_ATTR AND attr2 = 0
             then com_mm_vmm_handle_fault fault_virt (entry AND ADDRMASK) fault_user hint2 attr2 1 s
             else
               let (n1, start_entry, start_virt) = prefault_back curr_pt fault_virt mmu_flags 1 entry fault_virt (mmu s);
                   n2 = prefault_forward curr_pt fault_virt mmu_flags n1 (mmu s)
               in com_mm_vmm_handle_fault start_virt (start_entry AND ADDRMASK) fault_user hint2 attr2 n2 s)"

section \<open>System calls\<close>

definition ARCH_MMU_KERNELSPACE_START :: u64 where
  "ARCH_MMU_KERNELSPACE_START = 0xffff800000000000"

text \<open>
  The flags of \<^verbatim>\<open>mmap\<close> are the truth values of the bits the code tests. A mapping of a file goes to
  the file system, the argument \<open>file_mmap\<close>.
\<close>

record mmap_flags =
  MAP_FIXED :: bool
  MAP_ANONYMOUS :: bool
  MAP_SHARED :: bool
  MAP_PRIVATE :: bool

definition make_vmm_flags :: "mmap_flags \<Rightarrow> u32" where
  "make_vmm_flags flags =
     (if MAP_FIXED flags then 0 else COM_MM_VMM_FLAGS_NOHINT) OR (if MAP_ANONYMOUS flags then COM_MM_VMM_FLAGS_ANONYMOUS else 0) OR
     (if MAP_SHARED flags then COM_MM_VMM_FLAGS_SHARED else if MAP_PRIVATE flags then COM_MM_VMM_FLAGS_PRIVATE else 0)"

definition make_mmu_flags :: "bool \<Rightarrow> bool \<Rightarrow> u64" where
  "make_mmu_flags prot_read prot_write =
     ARCH_MMU_FLAGS_PRESENT OR ARCH_MMU_FLAGS_USER OR (if prot_write then ARCH_MMU_FLAGS_WRITE else 0) OR (if prot_read then ARCH_MMU_FLAGS_READ else 0)"

definition com_sys_syscall_mmap ::
  "(int \<Rightarrow> u64 \<Rightarrow> u32 \<Rightarrow> u64 \<Rightarrow> u64 \<Rightarrow> u64 \<Rightarrow> vmm_state \<Rightarrow> ((errno + u64) \<times> vmm_state) res)
   \<Rightarrow> u64 \<Rightarrow> u64 \<Rightarrow> mmap_flags \<Rightarrow> bool \<Rightarrow> bool \<Rightarrow> int \<Rightarrow> u64 \<Rightarrow> vmm_state \<Rightarrow> ((errno + u64) \<times> vmm_state) res" where
  "com_sys_syscall_mmap file_mmap hint len flags prot_read prot_write fd off s =
     (let vmm_flags = make_vmm_flags flags; mmu_flags = make_mmu_flags prot_read prot_write
      in if fd \<noteq> -1 then file_mmap fd len (vmm_flags OR COM_MM_VMM_FLAGS_ANONYMOUS) mmu_flags off hint s
         else res_bind (com_mm_vmm_map (Some (vmm_current_context s)) hint 0 len (vmm_flags OR COM_MM_VMM_FLAGS_ALLOCATE) mmu_flags s)
                (\<lambda>(virt, s1). Ok (Inr virt, s1)))"

definition com_sys_syscall_munmap :: "u64 \<Rightarrow> u64 \<Rightarrow> vmm_state \<Rightarrow> (errno \<times> vmm_state) res" where
  "com_sys_syscall_munmap addr len s =
     (if addr mod PAGE \<noteq> 0 \<or> ARCH_MMU_KERNELSPACE_START < addr \<or> len = 0 \<or> ARCH_MMU_KERNELSPACE_START < addr + len then Ok (EINVAL, s)
      else res_bind (com_mm_vmm_unmap (Some (vmm_current_context s)) addr len s) (\<lambda>s1. Ok (EOK, s1)))"

section \<open>Pages and their addresses\<close>

lemma PAGE_simps: "PAGE = 4096" "PAGE - 1 = 4095" "NOT (PAGE - 1) = NOT 4095"
  by (simp_all add: PAGE_def Pmm.ARCH_PAGE_SIZE_def)

lemma unat_vpn:
  assumes "unat va < 2 ^ 48"
  shows "unat (vpn va) = unat va div 4096"
  using assms by (simp add: vpn_def drop_bit_eq_div unat_div unsigned_take_bit_eq take_bit_nat_eq_self)

lemma page_address:
  assumes "unat va + i * 4096 < 2 ^ 48"
  shows "unat (va + PAGE * of_nat i) = unat va + i * 4096" "unat (vpn (va + PAGE * of_nat i)) = unat va div 4096 + i"
proof -
  have "unat (PAGE * of_nat i) = 4096 * i" using assms by (simp add: PAGE_simps unat_mult_lem [THEN iffD1] unat_of_nat64)
  then show 1: "unat (va + PAGE * of_nat i) = unat va + i * 4096" using assms by (simp add: unat_add_no_wrap)
  then show "unat (vpn (va + PAGE * of_nat i)) = unat va div 4096 + i" using assms by (simp add: unat_vpn)
qed

lemma addr_indices_page: "addr_indices (va AND NOT (PAGE - 1)) = addr_indices va"
proof -
  have "PAGE - 1 = mask 12" by (simp add: PAGE_simps mask_eq_exp_minus_1)
  then have "vpn (va AND NOT (PAGE - 1)) = vpn va" by (intro bit_eqI) (auto simp: vpn_def bit_simps)
  then show ?thesis by (simp add: addr_indices_vpn)
qed

text \<open>Tables in which \<open>n\<close> pages from an address on were mapped.\<close>

definition range_mapped :: "u64 \<Rightarrow> u64 \<Rightarrow> (u64 \<Rightarrow> u64) \<Rightarrow> u64 \<Rightarrow> nat \<Rightarrow> mmu_state \<Rightarrow> mmu_state \<Rightarrow> bool" where
  "range_mapped pt va pa fl n m m' \<longleftrightarrow>
     mmu_pmm m' = mmu_pmm m \<and> cr3 m' = cr3 m \<and> tree_ok 256 3 (tables m') pt \<and> pool_ok (pt_pool m') (footprint 256 3 (tables m') pt) \<and>
     length (pt_pool m) \<le> length (pt_pool m') + 3 * n \<and>
     (\<forall>i < n. entry_at m' pt (va + PAGE * of_nat i) = (pa (of_nat i) AND ADDRMASK) OR fl) \<and>
     (\<forall>va'. va' < 2 ^ 47 \<and> (\<forall>i < n. vpn va' \<noteq> vpn (va + PAGE * of_nat i)) \<longrightarrow> entry_at m' pt va' = entry_at m pt va')"

lemma map_range_step:
  assumes R: "range_mapped pt va pa fl k m m'" and len: "3 \<le> length (pt_pool m')" and va: "unat va + Suc k * 4096 \<le> 2 ^ 47"
  shows "\<exists>m''. arch_mmu_map pt (va + PAGE * of_nat k) (pa (of_nat k)) fl m' = Ok (True, m'') \<and> range_mapped pt va pa fl (Suc k) m m''"
proof -
  let ?va = "\<lambda>i. va + PAGE * of_nat i" and ?e = "(pa (of_nat k) AND ADDRMASK) OR fl"
  have addr: "?va i < 2 ^ 47" "unat (vpn (?va i)) = unat va div 4096 + i" if "i \<le> k" for i
    using va that page_address [of va i] by (simp_all add: word_less_nat_alt)
  have R': "tree_ok 256 3 (tables m') pt" "pool_ok (pt_pool m') (footprint 256 3 (tables m') pt)" using R by (simp_all add: range_mapped_def)
  obtain m'' j where m'': "j \<le> 3" "put_entry 3 pt (addr_indices (?va k)) ?e m' = Ok (True, m'')" "grown 256 3 pt j m' m''"
      "\<And>js. indices_ok 256 3 js \<Longrightarrow> leaf 3 (tables m'') pt js = (if js = addr_indices (?va k) then ?e else leaf 3 (tables m') pt js)"
    using put_ok [OF R' len addr_indices_ok [OF addr(1) [OF order_refl]], of ?e] by blast
  have upd: "entry_at m'' pt x = (if vpn x = vpn (?va k) then ?e else entry_at m' pt x)" if "x < 2 ^ 47" for x
    using m''(4) [OF addr_indices_ok [OF that]] by (simp add: entry_at_leaf addr_indices_vpn)
  have "vpn (?va i) \<noteq> vpn (?va k)" if "i < k" for i using addr(2) [of i] addr(2) [of k] that by auto
  then have "\<forall>i < Suc k. entry_at m'' pt (?va i) = (pa (of_nat i) AND ADDRMASK) OR fl"
    using R upd addr(1) by (auto simp: range_mapped_def less_Suc_eq)
  moreover have "\<forall>x. x < 2 ^ 47 \<and> (\<forall>i < Suc k. vpn x \<noteq> vpn (?va i)) \<longrightarrow> entry_at m'' pt x = entry_at m pt x"
    using R upd by (auto simp: range_mapped_def)
  moreover have "length (pt_pool m) \<le> length (pt_pool m'') + 3 * Suc k"
  proof -
    have "length (pt_pool m) \<le> length (pt_pool m') + 3 * k" "length (pt_pool m'') = length (pt_pool m') - j" using R m''(3) by (simp_all add: range_mapped_def grown_def)
    then show ?thesis using m''(1) unfolding mult_Suc_right by linarith
  qed
  moreover have "tree_ok 256 3 (tables m'') pt" "pool_ok (pt_pool m'') (footprint 256 3 (tables m'') pt)" "mmu_pmm m'' = mmu_pmm m'" "cr3 m'' = cr3 m'"
    using m''(3) pool_ok_grown [OF R'(2) m''(3)] unfolding grown_def by blast+
  ultimately have "range_mapped pt va pa fl (Suc k) m m''" using R m''(1) unfolding range_mapped_def by simp
  then show ?thesis using m''(2) by (simp add: arch_mmu_map_def add_page_put)
qed

lemma map_range:
  assumes ok: "tree_ok 256 3 (tables (mmu s)) pt" "pool_ok (pt_pool (mmu s)) (footprint 256 3 (tables (mmu s)) pt)" "3 * n \<le> length (pt_pool (mmu s))"
    and va: "unat va + n * 4096 \<le> 2 ^ 47"
    and step: "\<And>i s m'. arch_mmu_map pt (va + PAGE * i) (pa i) fl (mmu s) = Ok (True, m') \<Longrightarrow> g i s = Ok (s\<lparr>mmu := m'\<rparr>)"
  shows "\<exists>m'. for_each g (indices n) s = Ok (s\<lparr>mmu := m'\<rparr>) \<and> range_mapped pt va pa fl n (mmu s) m'"
proof -
  let ?P = "\<lambda>k s'. \<exists>m'. s' = s\<lparr>mmu := m'\<rparr> \<and> range_mapped pt va pa fl k (mmu s) m'"
  have "\<exists>s'. for_each g (indices n) s = Ok s' \<and> ?P n s'"
  proof (rule for_each_indices)
    show "?P 0 s" using ok by (intro exI [of _ "mmu s"]) (simp add: range_mapped_def)
  next
    fix k s'
    assume k: "k < n" and "?P k s'"
    then obtain m' where m': "s' = s\<lparr>mmu := m'\<rparr>" "range_mapped pt va pa fl k (mmu s) m'" by blast
    have "length (pt_pool (mmu s)) \<le> length (pt_pool m') + 3 * k" using m'(2) by (simp add: range_mapped_def)
    then have len: "3 \<le> length (pt_pool m')" using ok(3) k by linarith
    have "unat va + Suc k * 4096 \<le> 2 ^ 47" using va k by (meson Suc_leI add_le_mono le_trans mult_le_mono1 order_refl)
    from map_range_step [OF m'(2) len this] obtain m'' where m'': "arch_mmu_map pt (va + PAGE * of_nat k) (pa (of_nat k)) fl m' = Ok (True, m'')" "range_mapped pt va pa fl (Suc k) (mmu s) m''" by blast
    have "g (of_nat k) s' = Ok (s'\<lparr>mmu := m''\<rparr>)" using m''(1) by (intro step) (simp add: m'(1))
    then show "\<exists>s''. g (of_nat k) s' = Ok s'' \<and> ?P (Suc k) s''" using m''(2) m'(1) by auto
  qed
  then show ?thesis by blast
qed

lemma page_floor:
  fixes x :: u64
  shows "unat (x AND NOT (PAGE - 1)) = unat x div 4096 * 4096"
proof -
  have "PAGE - 1 = mask 12" by (simp add: PAGE_simps mask_eq_exp_minus_1)
  then have "x AND NOT (PAGE - 1) = push_bit 12 (drop_bit 12 x)" by (intro bit_eqI) (auto simp: bit_simps)
  also have "\<dots> = x div 4096 * 4096" by (simp add: push_bit_eq_mult drop_bit_eq_div)
  finally show ?thesis using unat_lt64 [of x] by (simp add: unat_mult_lem [THEN iffD1] unat_div)
qed

lemma page_rest: "unat ((x :: u64) mod PAGE) = unat x mod 4096" "unat ((x :: u64) AND (PAGE - 1)) = unat x mod 4096"
proof -
  show "unat (x mod PAGE) = unat x mod 4096" by (simp add: PAGE_simps unat_mod)
  have "x AND (PAGE - 1) = take_bit 12 x" by (simp add: PAGE_simps take_bit_eq_mask mask_eq_exp_minus_1)
  then show "unat (x AND (PAGE - 1)) = unat x mod 4096" by (simp add: unsigned_take_bit_eq take_bit_eq_mod unat_mod)
qed

lemma frame_address:
  fixes x :: u64
  assumes "unat x mod 4096 = 0" and "unat x < 2 ^ 63"
  shows "x AND ADDRMASK = x"
proof -
  have A: "ADDRMASK = mask 63 AND NOT (mask 12)" by (simp add: ADDRMASK_def mask_eq_exp_minus_1)
  have "take_bit 12 x = 0" using assms(1) by (simp add: word_unat_eq_iff unsigned_take_bit_eq take_bit_eq_mod unat_mod)
  then have low: "\<not> bit x n" if "n < 12" for n using that by (metis bit_0_eq bit_take_bit_iff bot_apply bot_bool_def)
  have "take_bit 63 x = x" using assms(2) by (simp add: word_unat_eq_iff unsigned_take_bit_eq take_bit_nat_eq_self)
  then have high: "\<not> bit x n" if "63 \<le> n" for n using that by (metis bit_take_bit_iff not_less)
  show ?thesis unfolding A
  proof (rule bit_eqI)
    fix n
    show "bit (x AND mask 63 AND NOT (mask 12)) n = bit x n" using low [of n] high [of n] by (cases "n < 12"; cases "63 \<le> n") (auto simp: bit_simps)
  qed
qed

lemma map_flags_mask:
  assumes "fl AND ADDRMASK = 0"
  shows "snd (map_flags vf fl) AND ADDRMASK = 0"
proof -
  have or: "(x OR y) AND ADDRMASK = (x AND ADDRMASK) OR (y AND ADDRMASK)" for x y :: u64 by (simp add: bit.conj_disj_distrib2)
  have nw: "(x AND NOT ARCH_MMU_FLAGS_WRITE) AND ADDRMASK = x AND ADDRMASK" for x :: u64 by (simp add: and.assoc ARCH_MMU_FLAGS_WRITE_def ADDRMASK_def)
  have "ARCH_MMU_EXTRA_FLAGS_SHARED AND ADDRMASK = 0" "ARCH_MMU_EXTRA_FLAGS_NOCOPY AND ADDRMASK = 0" "ARCH_MMU_EXTRA_FLAGS_PRIVATE AND ADDRMASK = 0"
    by (simp_all add: ARCH_MMU_EXTRA_FLAGS_SHARED_def ARCH_MMU_EXTRA_FLAGS_NOCOPY_def ARCH_MMU_EXTRA_FLAGS_PRIVATE_def ADDRMASK_def)
  then show ?thesis using assms by (simp add: map_flags_def Let_def or nw)
qed

text \<open>The flags that are tested after they were changed.\<close>

lemma map_flags_hint: "COM_MM_VMM_FLAGS_NOHINT AND fst (map_flags vf fl) = COM_MM_VMM_FLAGS_NOHINT AND vf"
proof -
  have "COM_MM_VMM_FLAGS_NOHINT AND (vf OR COM_MM_VMM_FLAGS_PRIVATE) = (COM_MM_VMM_FLAGS_NOHINT AND vf) OR (COM_MM_VMM_FLAGS_NOHINT AND COM_MM_VMM_FLAGS_PRIVATE)"
    by (simp add: bit.conj_disj_distrib)
  also have "\<dots> = COM_MM_VMM_FLAGS_NOHINT AND vf" by (simp add: COM_MM_VMM_FLAGS_NOHINT_def COM_MM_VMM_FLAGS_PRIVATE_def)
  finally show ?thesis by (simp add: map_flags_def Let_def)
qed

lemma entry_at_same_page: "vpn x = vpn y \<Longrightarrow> entry_at m pt x = entry_at m pt y"
  using addr_indices_vpn [of x y] by (simp add: entry_at_leaf)

lemma get_physical_entry:
  assumes "entry_at m pt x AND ADDRMASK \<noteq> 0"
  shows "arch_mmu_get_physical pt x m = Some ((entry_at m pt x AND ADDRMASK) + (x AND (PAGE - 1)))"
  using assms by (auto simp: arch_mmu_get_physical_def entry_at_def PAGE_def split: option.splits)

lemma map_one_step:
  "arch_mmu_map pt (va + PAGE * i) (pa + i * PAGE) fl (mmu s) = Ok (True, m') \<Longrightarrow> map_one pt False va pa fl i s = Ok (s\<lparr>mmu := m'\<rparr>)"
  by (simp add: map_one_def mult.commute)

text \<open>The address a byte of a mapped range lies at.\<close>

lemma mapped_byte:
  assumes R: "range_mapped pt va (\<lambda>j. pa + j * PAGE) fl n m m'" and fl: "fl AND ADDRMASK = 0"
    and va: "unat va mod 4096 = 0" "unat va + n * 4096 \<le> 2 ^ 47" and pa: "unat pa mod 4096 = 0" "pa \<noteq> 0" "unat pa + n * 4096 \<le> 2 ^ 63" and q: "unat q < n * 4096"
  shows "arch_mmu_get_physical pt (va + q) m' = Some (pa + q)"
proof -
  define j where "j = unat q div 4096"
  have j: "j < n" using q by (simp add: j_def less_mult_imp_div_less)
  have uq: "unat q = j * 4096 + unat q mod 4096" unfolding j_def by presburger
  have uv: "unat (va + q) = unat va + unat q" using va(2) q by (intro unat_add_no_wrap) simp
  have jb: "j * 4096 + 4096 \<le> n * 4096" using j by (metis Suc_leI add.commute mult_Suc mult_le_mono1)
  have "unat (vpn (va + PAGE * of_nat j)) = unat va div 4096 + j" using va(2) jb by (intro page_address(2)) simp
  moreover have "unat (vpn (va + q)) = (unat va + unat q) div 4096" using uv va(2) q by (simp add: unat_vpn)
  moreover have "(unat va + unat q) div 4096 = unat va div 4096 + j" using va(1) unfolding j_def by (auto elim!: dvdE simp: mod_eq_0_iff_dvd)
  ultimately have "vpn (va + q) = vpn (va + PAGE * of_nat j)" by (simp add: word_unat_eq_iff)
  then have e: "entry_at m' pt (va + q) = ((pa + of_nat j * PAGE) AND ADDRMASK) OR fl"
    using entry_at_same_page [of "va + q"] R j by (simp add: range_mapped_def)
  have "unat (of_nat j * PAGE) = j * 4096" using pa(3) jb by (simp add: PAGE_simps unat_mult_lem [THEN iffD1] unat_of_nat64)
  then have up: "unat (pa + of_nat j * PAGE) = unat pa + j * 4096" using pa(3) jb by (simp add: unat_add_no_wrap)
  have "unat (pa + of_nat j * PAGE) mod 4096 = 0" "unat (pa + of_nat j * PAGE) < 2 ^ 63" using up pa(1,3) jb by simp_all
  then have f: "(pa + of_nat j * PAGE) AND ADDRMASK = pa + of_nat j * PAGE" by (rule frame_address)
  have "(((pa + of_nat j * PAGE) AND ADDRMASK) OR fl) AND ADDRMASK = pa + of_nat j * PAGE" using f fl by (simp add: bit.conj_disj_distrib2)
  moreover have "pa + of_nat j * PAGE \<noteq> 0" using up pa(2) by (metis add_is_0 unat_eq_0 unat_0)
  ultimately have "arch_mmu_get_physical pt (va + q) m' = Some (pa + of_nat j * PAGE + ((va + q) AND (PAGE - 1)))" using get_physical_entry [of m' pt "va + q"] e by simp
  moreover have "unat (pa + of_nat j * PAGE + ((va + q) AND (PAGE - 1))) = unat (pa + q)"
  proof -
    have "unat ((va + q) AND (PAGE - 1)) = unat q mod 4096" unfolding page_rest(2) uv using va(1) by (metis add_0 mod_add_left_eq)
    moreover have "unat (pa + q) = unat pa + unat q" using pa(3) q by (intro unat_add_no_wrap) simp
    moreover have "unat (pa + of_nat j * PAGE) + unat q mod 4096 = unat pa + unat q" using up uq by linarith
    moreover have "unat pa + unat q < 2 ^ 64" using pa(3) q by simp
    ultimately show ?thesis by (simp add: unat_add_no_wrap)
  qed
  ultimately show ?thesis by (simp add: word_unat_eq_iff)
qed

lemma page_parts: "(x AND NOT (PAGE - 1)) + x mod PAGE = x"
proof -
  have "unat (x AND NOT (PAGE - 1)) + unat (x mod PAGE) = unat x" by (simp add: page_floor page_rest)
  then show ?thesis using unat_lt64 [of x] by (simp add: word_unat_eq_iff unat_add_no_wrap)
qed

lemma get_page_same_page:
  assumes "addr_indices x = addr_indices y"
  shows "get_page pt x m = get_page pt y m"
  using assms by (simp add: addr_indices_def get_page_def cong: option.case_cong)

lemma map_present:
  assumes "get_page pt va m = Some (p, i)" and "vpn va' = vpn va"
  shows "arch_mmu_map pt va' pa fl m = Ok (True, set_entry p i ((pa AND ADDRMASK) OR fl) m)"
proof -
  have "get_page pt va' m = Some (p, i)" using get_page_same_page [of va' va] assms addr_indices_vpn by simp
  from put_present(1) [OF this] show ?thesis by (simp add: arch_mmu_map_def add_page_put)
qed

lemma vpn_page: "vpn (va AND NOT (PAGE - 1)) = vpn va"
  using addr_indices_page addr_indices_vpn by blast

lemma alloc_fresh:
  assumes "com_mm_pmm_alloc pm = Ok (a, pm')" and "com_mm_pmm_is_shared pm b = Ok x"
  shows "a \<noteq> b"
proof
  assume "a = b"
  moreover obtain fl r where "page_meta_get (pm\<lparr>pmm_list := fl\<rparr>) a = Ok r" "pm_state (read_meta (pm\<lparr>pmm_list := fl\<rparr>) r) = E_PAGE_STATE_FREE"
    using assms(1) by (auto simp: com_mm_pmm_alloc_def res_bind_eq_Ok Let_def clear_header_def split: if_splits)
  moreover have "page_meta_get (pm\<lparr>pmm_list := fl\<rparr>) = page_meta_get pm" "read_meta (pm\<lparr>pmm_list := fl\<rparr>) = read_meta pm"
    by (auto simp: page_meta_get_def read_meta_def fun_eq_iff split: meta_ref.splits)
  ultimately show False using assms(2) by (auto simp: com_mm_pmm_is_shared_def res_bind_eq_Ok Let_def)
qed

lemma flags_part: "((e AND NOT ADDRMASK) AND NOT x OR ARCH_MMU_FLAGS_WRITE) AND ADDRMASK = 0"
proof -
  have w: "ARCH_MMU_FLAGS_WRITE AND ADDRMASK = 0" by (simp add: ARCH_MMU_FLAGS_WRITE_def ADDRMASK_def)
  have "((e AND NOT ADDRMASK) AND NOT x) AND ADDRMASK = 0" by (rule bit_eqI) (auto simp: bit_and_iff bit_not_iff)
  with w show ?thesis by (simp add: bit.conj_disj_distrib2)
qed

lemma write_set: "ARCH_MMU_FLAGS_WRITE AND (x OR (y OR ARCH_MMU_FLAGS_WRITE)) \<noteq> 0"
proof -
  have "bit ARCH_MMU_FLAGS_WRITE 1" by (simp add: ARCH_MMU_FLAGS_WRITE_def bit_1_iff bit_simps)
  then have "bit (ARCH_MMU_FLAGS_WRITE AND (x OR (y OR ARCH_MMU_FLAGS_WRITE))) 1" by (simp add: bit_and_iff bit_or_iff)
  then show ?thesis by auto
qed

lemma free_inside: "a div 4096 < pmm_extended_len pm \<Longrightarrow> \<exists>pm'. com_mm_pmm_free pm a = Ok pm'"
  by (simp add: com_mm_pmm_free_def page_meta_get_def PHYS_TO_META_INDEX_def Pmm.ARCH_PAGE_SIZE_def kassert_def Let_def)

lemma mmap_make_flags:
  fixes flags prot_read prot_write
  defines "vf \<equiv> make_vmm_flags flags OR COM_MM_VMM_FLAGS_ALLOCATE" and "mf \<equiv> make_mmu_flags prot_read prot_write"
  assumes "MAP_FIXED flags"
  shows "COM_MM_VMM_FLAGS_NOHINT AND vf = 0" "COM_MM_VMM_FLAGS_ALLOCATE AND vf \<noteq> 0" "snd (map_flags vf mf) AND ADDRMASK = 0" "ARCH_MMU_FLAGS_USER AND snd (map_flags vf mf) \<noteq> 0"
  using assms(3) unfolding vf_def mf_def
  by (simp_all add: make_vmm_flags_def make_mmu_flags_def map_flags_def COM_MM_VMM_FLAGS_NOHINT_def COM_MM_VMM_FLAGS_ALLOCATE_def COM_MM_VMM_FLAGS_ANONYMOUS_def
    COM_MM_VMM_FLAGS_SHARED_def COM_MM_VMM_FLAGS_PRIVATE_def ARCH_MMU_FLAGS_PRESENT_def ARCH_MMU_FLAGS_USER_def ARCH_MMU_FLAGS_WRITE_def ARCH_MMU_FLAGS_READ_def
    ARCH_MMU_EXTRA_FLAGS_SHARED_def ARCH_MMU_EXTRA_FLAGS_PRIVATE_def ARCH_MMU_EXTRA_FLAGS_NOCOPY_def ADDRMASK_def)

lemma one_page:
  assumes "0 < len" and "len \<le> PAGE"
  shows "(len + PAGE - 1) div PAGE = 1"
proof -
  have "0 < unat len" "unat len \<le> 4096" using assms by (simp_all add: PAGE_simps word_less_nat_alt word_le_nat_alt)
  moreover from this have "unat (len + 4095) = unat len + 4095" by (simp add: unat_add_no_wrap)
  ultimately have "unat ((len + 4095) div 4096) = 1" by (simp add: unat_div)
  then have "(len + 4095) div 4096 = 1" by (simp add: word_unat_eq_iff)
  then show ?thesis by (simp add: PAGE_simps add.commute)
qed

section \<open>A small machine\<close>

text \<open>An address space whose first two megabytes have a table, and one process that runs in it.\<close>

definition sample_tables :: "(u64 \<Rightarrow> u64) \<Rightarrow> u64 \<Rightarrow> u64 \<Rightarrow> u64" where
  "sample_tables entries p i =
     (if p = 0x4000 then entries i
      else if i = 0 then if p = 0x1000 then 0x2007 else if p = 0x2000 then 0x3007 else if p = 0x3000 then 0x4007 else 0
      else 0)"

definition sample_vmm :: "(u64 \<Rightarrow> u64) \<Rightarrow> pmm \<Rightarrow> vmm_state" where
  "sample_vmm entries pm =
     \<lparr>mmu = \<lparr>tables = sample_tables entries, pt_pool = [], mmu_pmm = pm, RootTable = 0, cr3 = 0x1000\<rparr>, frame_bytes = (\<lambda>p j. ucast p + ucast j),
      contexts = (\<lambda>c. \<lparr>pagetable = (if c = 1 then 0x1000 else 0), anon_pages = 0\<rparr>), next_context = 2, ZeroPage = 0x7000,
      curr_thread = Some (True, Some 1)\<rparr>"

lemma sample_get_page:
  assumes "tables m = sample_tables es" and "pml4offset va = 0" "pdptoffset va = 0" "pdoffset va = 0"
  shows "get_page 0x1000 va m = Some (0x4000, ptoffset va)"
  using assms by (simp add: get_page_def sample_tables_def next_table_def ADDRMASK_def)

text \<open>Pages 4, 5 and 7 were mapped and not used yet, so they show the zero page; the other pages have the entry \<open>e\<close>.\<close>

definition lazy_entries :: "u64 \<Rightarrow> u64 \<Rightarrow> u64" where
  "lazy_entries e i = (if i \<in> {4, 5, 7} then 0x7a05 else e)"

definition three_free :: pmm where
  "three_free = sample_frames\<lparr>pmm_list := [\<lparr>fe_base = 0x8000, fe_pages = 3\<rparr>], pmm_meta := (replicate 16 taken_model)[8 := free_meta, 9 := free_meta, 10 := free_meta]\<rparr>"

lemmas offset_defs = pml4offset_def pdptoffset_def pdoffset_def ptoffset_def PML4MASK_def PDPTMASK_def PDMASK_def PTMASK_def

lemma sample_map_fault:
  assumes "tables (mmu s) = sample_tables es" and "pml4offset va = 0" "pdptoffset va = 0" "pdoffset va = 0"
  shows "map_fault 0x1000 va pa fl s = Ok (s\<lparr>mmu := (mmu s)\<lparr>tables := sample_tables (es(ptoffset va := (pa AND ADDRMASK) OR fl))\<rparr>\<rparr>)"
proof -
  have "set_entry 0x4000 (ptoffset va) e (mmu s) = (mmu s)\<lparr>tables := sample_tables (es(ptoffset va := e))\<rparr>" for e
    by (simp add: set_entry_def assms(1)) (simp add: sample_tables_def fun_eq_iff)
  then show ?thesis using map_present [OF sample_get_page [OF assms] refl, of pa fl] by (simp add: map_fault_def)
qed

lemma three_pages:
  "\<exists>s'. com_mm_vmm_handle_fault 0x4008 0x7000 True 7 COM_MM_VMM_FAULT_ATTR_MAP 3 (sample_vmm es three_free) = Ok (Resumed, s') \<and>
    entry_at (mmu s') 0x1000 0x6000 = 0xa007 \<and> frame_bytes s' 0xa000 = (\<lambda>_. 0)"
proof -
  let ?s = "sample_vmm es three_free"
  obtain pm where al: "com_mm_pmm_alloc_many_zero three_free 3 = Ok (0x8000, pm)"
    by (simp add: com_mm_pmm_alloc_many_zero_def com_mm_pmm_alloc_many_def three_free_def sample_frames_def freelist_pop_front_nolock_def KMIN_def clear_header_def
      page_meta_set_def page_meta_get_def fill_meta_def PHYS_TO_META_INDEX_def Pmm.ARCH_PAGE_SIZE_def kassert_def Let_def)
  define s0 where "s0 = fresh_frames 0x8000 3 (?s\<lparr>mmu := (mmu ?s)\<lparr>mmu_pmm := pm\<rparr>\<rparr>)"
  define s1 where "s1 = s0\<lparr>mmu := (mmu s0)\<lparr>tables := sample_tables (es(4 := 0x8007))\<rparr>\<rparr>"
  define s2 where "s2 = s1\<lparr>mmu := (mmu s1)\<lparr>tables := sample_tables (es(4 := 0x8007, 5 := 0x9007))\<rparr>\<rparr>"
  define s3 where "s3 = s2\<lparr>mmu := (mmu s2)\<lparr>tables := sample_tables (es(4 := 0x8007, 5 := 0x9007, 6 := 0xa007))\<rparr>\<rparr>"
  have "tables (mmu s0) = sample_tables es" by (simp add: s0_def fresh_frames_def sample_vmm_def)
  then have "map_fault 0x1000 0x4000 0x8000 7 s0 = Ok s1" using sample_map_fault [of s0 es "0x4000"] by (simp add: offset_defs s1_def ADDRMASK_def)
  moreover have "map_fault 0x1000 0x5000 0x9000 7 s1 = Ok s2" using sample_map_fault [of s1 "es(4 := 0x8007)" "0x5000"] by (simp add: offset_defs s1_def s2_def ADDRMASK_def)
  moreover have "map_fault 0x1000 0x6000 0xa000 7 s2 = Ok s3" using sample_map_fault [of s2 "es(4 := 0x8007, 5 := 0x9007)" "0x6000"] by (simp add: offset_defs s2_def s3_def ADDRMASK_def)
  moreover have "indices 3 = [0, 1, 2]" by (simp add: indices_def numeral_3_eq_3)
  ultimately have "com_mm_vmm_handle_fault 0x4008 0x7000 True 7 COM_MM_VMM_FAULT_ATTR_MAP 3 ?s = Ok (Resumed, s3)"
    using al unfolding s0_def by (simp add: com_mm_vmm_handle_fault_def COM_MM_VMM_FAULT_ATTR_MAP_def sample_vmm_def PAGE_simps)
  moreover have "entry_at (mmu s3) 0x1000 0x6000 = 0xa007"
    using sample_get_page [of "mmu s3" "es(4 := 0x8007, 5 := 0x9007, 6 := 0xa007)" "0x6000"] by (simp add: entry_at_def offset_defs s3_def) (simp add: sample_tables_def)
  moreover have "frame_bytes s3 0xa000 = (\<lambda>_. 0)"
    by (simp add: s3_def s2_def s1_def s0_def fresh_frames_def PAGE_simps indices_def numeral_3_eq_3)
  ultimately show ?thesis by blast
qed

section \<open>Properties\<close>



text \<open>
  C16: Copy on write isolates. A write to a page that is marked for copying and shared gives the process
  a page of its own, different from the shared one, with the same bytes and writable; no other
  entry of any table and no byte of any other page changes.
\<close>

theorem cow_fault_isolates:
  fixes s :: vmm_state
  defines "m \<equiv> mmu s"
  assumes "curr_thread s = Some (True, Some c)" and "pagetable (contexts s c) = cr3 m" and "get_page (cr3 m) va m = Some (p, i)"
    and "ARCH_MMU_EXTRA_FLAGS_PRIVATE AND tables m p i \<noteq> 0" and "ARCH_MMU_EXTRA_FLAGS_NOCOPY AND tables m p i = 0"
    and "com_mm_pmm_is_shared (mmu_pmm m) (unat (tables m p i AND ADDRMASK)) = Ok True"
    and "com_mm_pmm_alloc (mmu_pmm m) = Ok (new, pm1)" and "new mod 4096 = 0" and "new < 2 ^ 63"
    and "com_mm_pmm_free pm1 (unat (tables m p i AND ADDRMASK)) = Ok pm2"
  shows "\<exists>s'. x86_64_mmu_fault_isr va u s = Ok (Resumed, s') \<and> of_nat new \<noteq> tables m p i AND ADDRMASK \<and>
    tables (mmu s') p i AND ADDRMASK = of_nat new \<and> ARCH_MMU_FLAGS_WRITE AND tables (mmu s') p i \<noteq> 0 \<and>
    frame_bytes s' = (frame_bytes s)(of_nat new := frame_bytes s (tables m p i AND ADDRMASK)) \<and>
    tables (mmu s') = (tables m)(p := (tables m p)(i := tables (mmu s') p i))"
proof -
  let ?e = "tables m p i" and ?old = "tables m p i AND ADDRMASK" and ?va = "va AND NOT (PAGE - 1)"
  let ?hint = "((?e AND NOT ADDRMASK) AND NOT ARCH_MMU_EXTRA_FLAGS_PRIVATE) OR ARCH_MMU_FLAGS_WRITE"
  let ?new = "of_nat new :: u64"
  have un: "unat ?new = new" using assms(10) by (simp add: unat_of_nat64)
  have nf: "?new AND ADDRMASK = ?new" using assms(9,10) un by (intro frame_address) simp_all
  have ne: "?new \<noteq> ?old" using alloc_fresh [OF assms(8,7)] un by auto
  have "ADDRMASK AND NOT (PAGE - 1) = ADDRMASK" by (simp add: PAGE_simps ADDRMASK_def)
  then have old: "?old AND NOT (PAGE - 1) = ?old" by (simp add: and.assoc)
  define s1 where "s1 = s\<lparr>mmu := m\<lparr>mmu_pmm := pm1\<rparr>, frame_bytes := (frame_bytes s)(?new := frame_bytes s ?old)\<rparr>"
  define s2 where "s2 = s1\<lparr>mmu := set_entry p i (?new OR ?hint) (mmu s1)\<rparr>"
  define s3 where "s3 = s2\<lparr>mmu := (mmu s2)\<lparr>mmu_pmm := pm2\<rparr>\<rparr>"
  have "get_page (cr3 m) va (mmu s1) = Some (p, i)" using assms(4) by (simp add: s1_def get_page_def cong: option.case_cong)
  then have m2: "map_fault (cr3 m) ?va ?new ?hint s1 = Ok s2" using map_present [OF _ vpn_page] nf by (simp add: map_fault_def s2_def)
  have "mmu_pmm (mmu s2) = pm1" by (simp add: s2_def s1_def set_entry_def)
  then have f3: "free_page ?old s2 = Ok s3" using assms(11) by (simp add: free_page_def s3_def)
  have "com_mm_vmm_handle_fault va ?old u ?hint COM_MM_VMM_FAULT_ATTR_COW 1 s = Ok (Resumed, s3)"
    using assms(2,3,7,8) m2 f3 old unfolding m_def s1_def
    by (simp add: com_mm_vmm_handle_fault_def COM_MM_VMM_FAULT_ATTR_COW_def COM_MM_VMM_FAULT_ATTR_MAP_def Let_def)
  then have "x86_64_mmu_fault_isr va u s = Ok (Resumed, s3)"
    using assms(4,5,6) unfolding m_def
    by (simp add: x86_64_mmu_fault_isr_def arch_mmu_get_table_def Let_def COM_MM_VMM_PREFAULT_SUPPORTED_ATTR_def COM_MM_VMM_FAULT_ATTR_COW_def COM_MM_VMM_FAULT_ATTR_MAP_def)
  moreover have "tables (mmu s3) p i = ?new OR ?hint" "tables (mmu s3) = (tables m)(p := (tables m p)(i := ?new OR ?hint))" "frame_bytes s3 = (frame_bytes s)(?new := frame_bytes s ?old)"
    by (simp_all add: s3_def s2_def s1_def set_entry_def)
  moreover have "(?new OR ?hint) AND ADDRMASK = ?new" using nf flags_part by (simp add: bit.conj_disj_distrib2)
  ultimately show ?thesis using ne write_set by (intro exI [of _ s3]) simp
qed

theorem cow_fault_isolates_witness:
  "\<exists>s'. x86_64_mmu_fault_isr 0x3008 True (sample_vmm (\<lambda>_. 0x5205) (sample_frames\<lparr>pmm_list := [\<lparr>fe_base = 0x6000, fe_pages = 1\<rparr>],
        pmm_meta := (replicate 16 taken_model)[5 := taken_model\<lparr>pm_num_ref := 2\<rparr>, 6 := free_meta]\<rparr>)) = Ok (Resumed, s') \<and>
     tables (mmu s') 0x4000 3 AND ADDRMASK = 0x6000 \<and> tables (mmu s') 0x4000 2 = 0x5205 \<and> frame_bytes s' 0x6000 9 = 9"
proof -
  let ?pm = "sample_frames\<lparr>pmm_list := [\<lparr>fe_base = 0x6000, fe_pages = 1\<rparr>], pmm_meta := (replicate 16 taken_model)[5 := taken_model\<lparr>pm_num_ref := 2\<rparr>, 6 := free_meta]\<rparr>"
  let ?s = "sample_vmm (\<lambda>_. 0x5205) ?pm"
  have m: "tables (mmu ?s) = sample_tables (\<lambda>_. 0x5205)" "cr3 (mmu ?s) = 0x1000" "mmu_pmm (mmu ?s) = ?pm" "curr_thread ?s = Some (True, Some 1)"
      "pagetable (contexts ?s 1) = 0x1000" "tables (mmu ?s) 0x4000 3 = 0x5205"
    by (simp_all add: sample_vmm_def sample_tables_def)
  have g: "get_page (cr3 (mmu ?s)) 0x3008 (mmu ?s) = Some (0x4000, 3)"
    unfolding m(2) using sample_get_page [OF m(1), of "0x3008"] by (simp add: pml4offset_def pdptoffset_def pdoffset_def ptoffset_def PML4MASK_def PDPTMASK_def PDMASK_def PTMASK_def)
  have "(0x5205 :: u64) AND ADDRMASK = 0x5000" by (simp add: ADDRMASK_def)
  then have sh: "com_mm_pmm_is_shared (mmu_pmm (mmu ?s)) (unat (tables (mmu ?s) 0x4000 3 AND ADDRMASK)) = Ok True"
    unfolding m(3,6) by (simp add: com_mm_pmm_is_shared_def page_meta_get_def read_meta_def sample_frames_def PHYS_TO_META_INDEX_def Pmm.ARCH_PAGE_SIZE_def taken_model_def kassert_def nth_list_update)
  obtain pm1 where al: "com_mm_pmm_alloc (mmu_pmm (mmu ?s)) = Ok (0x6000, pm1)" "pmm_extended_len pm1 = 16"
    unfolding m(3) by (simp add: com_mm_pmm_alloc_def freelist_pop_rear_nolock_def clear_header_def page_meta_get_def read_meta_def write_meta_def add_used_def sample_frames_def PHYS_TO_META_INDEX_def Pmm.ARCH_PAGE_SIZE_def free_meta_def kassert_def nth_list_update)
  then obtain pm2 where fr: "com_mm_pmm_free pm1 (unat (tables (mmu ?s) 0x4000 3 AND ADDRMASK)) = Ok pm2"
    using free_inside [of "unat (tables (mmu ?s) 0x4000 3 AND ADDRMASK)" pm1] unfolding m(6) by (auto simp: ADDRMASK_def)
  have fl: "ARCH_MMU_EXTRA_FLAGS_PRIVATE AND tables (mmu ?s) 0x4000 3 \<noteq> 0" "ARCH_MMU_EXTRA_FLAGS_NOCOPY AND tables (mmu ?s) 0x4000 3 = 0" "pagetable (contexts ?s 1) = cr3 (mmu ?s)"
    unfolding m(2,5,6) by (simp_all add: ARCH_MMU_EXTRA_FLAGS_PRIVATE_def ARCH_MMU_EXTRA_FLAGS_NOCOPY_def)
  have n: "(0x6000 :: nat) mod 4096 = 0" "(0x6000 :: nat) < 2 ^ 63" by simp_all
  obtain s' where s': "x86_64_mmu_fault_isr 0x3008 True ?s = Ok (Resumed, s')" "tables (mmu s') 0x4000 3 AND ADDRMASK = of_nat 0x6000"
      "frame_bytes s' = (frame_bytes ?s)(of_nat 0x6000 := frame_bytes ?s (tables (mmu ?s) 0x4000 3 AND ADDRMASK))"
      "tables (mmu s') = (tables (mmu ?s))(0x4000 := (tables (mmu ?s) 0x4000)(3 := tables (mmu s') 0x4000 3))"
    using cow_fault_isolates [OF m(4) fl(3) g fl(1,2) sh al(1) n fr] by blast
  have "tables (mmu s') 0x4000 2 = 0x5205" by (subst s'(4)) (simp add: sample_vmm_def sample_tables_def)
  moreover have "frame_bytes s' 0x6000 9 = 9" unfolding s'(3) m(6) by (simp add: ADDRMASK_def sample_vmm_def)
  ultimately show ?thesis using s'(1,2) by auto
qed

text \<open>
  C39: A first touch can lose the page behind it. The handler maps the neighbours of a new page
  together with it, but the count it takes along from the pages below makes it start the
  check above too far: the page right above is mapped anew, unchecked. Whatever entry it had, it
  is replaced by that of an empty page.
\<close>

theorem prefault_replaces_neighbour:
  assumes "e AND NOT ADDRMASK \<noteq> 0xa05"
  shows "\<exists>s'. x86_64_mmu_fault_isr 0x5008 True (sample_vmm (lazy_entries e) three_free) = Ok (Resumed, s') \<and>
    entry_at (mmu (sample_vmm (lazy_entries e) three_free)) 0x1000 0x6000 = e \<and>
    entry_at (mmu s') 0x1000 0x6000 = 0xa007 \<and> frame_bytes s' 0xa000 = (\<lambda>_. 0)"
proof -
  let ?s = "sample_vmm (lazy_entries e) three_free"
  have t: "tables (mmu ?s) = sample_tables (lazy_entries e)" "cr3 (mmu ?s) = 0x1000" by (simp_all add: sample_vmm_def)
  have g: "get_page 0x1000 0x3008 (mmu ?s) = Some (0x4000, 3)" "get_page 0x1000 0x4008 (mmu ?s) = Some (0x4000, 4)" "get_page 0x1000 0x5008 (mmu ?s) = Some (0x4000, 5)"
      "get_page 0x1000 0x7008 (mmu ?s) = Some (0x4000, 7)" "get_page 0x1000 0x8008 (mmu ?s) = Some (0x4000, 8)"
    by (subst sample_get_page [OF t(1)]; simp add: offset_defs)+
  have es: "tables (mmu ?s) 0x4000 3 = e" "tables (mmu ?s) 0x4000 4 = 0x7a05" "tables (mmu ?s) 0x4000 5 = 0x7a05" "tables (mmu ?s) 0x4000 7 = 0x7a05" "tables (mmu ?s) 0x4000 8 = e"
    by (simp_all add: t(1) sample_tables_def lazy_entries_def)
  have lazy: "(0x7a05 :: u64) AND NOT ADDRMASK = 0xa05" by (simp add: ADDRMASK_def)
  have b: "prefault_back 0x1000 0x5008 0xa05 1 0x7a05 0x5008 (mmu ?s) = (2, 0x7a05, 0x4008)"
    using assms by (subst prefault_back.simps, subst prefault_back.simps) (simp add: CONFIG_VMM_PREFAULT_MAX_def PAGE_simps g es lazy)
  have f: "prefault_forward 0x1000 0x5008 0xa05 2 (mmu ?s) = 3"
    using assms by (subst prefault_forward.simps, subst prefault_forward.simps) (simp add: CONFIG_VMM_PREFAULT_MAX_def PAGE_simps g es lazy)
  have "\<exists>s'. com_mm_vmm_handle_fault 0x4008 0x7000 True 7 COM_MM_VMM_FAULT_ATTR_MAP 3 ?s = Ok (Resumed, s') \<and> entry_at (mmu s') 0x1000 0x6000 = 0xa007 \<and> frame_bytes s' 0xa000 = (\<lambda>_. 0)"
    by (rule three_pages)
  moreover have "x86_64_mmu_fault_isr 0x5008 True ?s = com_mm_vmm_handle_fault 0x4008 0x7000 True 7 COM_MM_VMM_FAULT_ATTR_MAP 3 ?s"
    using g es b f lazy by (simp add: x86_64_mmu_fault_isr_def arch_mmu_get_table_def t(2) Let_def COM_MM_VMM_PREFAULT_SUPPORTED_ATTR_def COM_MM_VMM_FAULT_ATTR_COW_def
      COM_MM_VMM_FAULT_ATTR_MAP_def ARCH_MMU_EXTRA_FLAGS_PRIVATE_def ARCH_MMU_EXTRA_FLAGS_NOCOPY_def ARCH_MMU_FLAGS_WRITE_def ADDRMASK_def)
  moreover have "entry_at (mmu ?s) 0x1000 0x6000 = e" 
    using sample_get_page [OF t(1), of "0x6000"] by (simp add: entry_at_def offset_defs t(1) sample_tables_def lazy_entries_def)
  ultimately show ?thesis by simp
qed

theorem prefault_replaces_neighbour_witness:
  "\<exists>s'. x86_64_mmu_fault_isr 0x5008 True (sample_vmm (lazy_entries 0x5007) three_free) = Ok (Resumed, s') \<and> entry_at (mmu s') 0x1000 0x6000 = 0xa007"
proof -
  have "(0x5007 :: u64) AND NOT ADDRMASK \<noteq> 0xa05" by (simp add: ADDRMASK_def)
  from prefault_replaces_neighbour [OF this] show ?thesis by blast
qed

text \<open>
  C40: A fixed anonymous mapping is not kept out of the kernel's half. For any address that has a
  table, the kernel's included, the call succeeds and the entry becomes one of the zero page that
  user programs may use.
\<close>

theorem mmap_fixed_anywhere:
  fixes s :: vmm_state and prot_write :: bool
  defines "m \<equiv> mmu s" and "c \<equiv> vmm_current_context s"
  assumes "c \<noteq> RootContext" and "MAP_FIXED flags" and "hint mod PAGE = 0" and "ARCH_MMU_KERNELSPACE_START \<le> hint" and "0 < len" and "len \<le> PAGE"
    and "get_page (pagetable (contexts s c)) hint m = Some (p, i)" and "com_mm_pmm_hold (mmu_pmm m) (unat (ZeroPage s)) = Ok pm"
  shows "\<exists>s'. com_sys_syscall_mmap file_mmap hint len flags prot_read prot_write (-1) off s = Ok (Inr hint, s') \<and>
    tables (mmu s') p i AND ADDRMASK = ZeroPage s AND ADDRMASK \<and> ARCH_MMU_FLAGS_USER AND tables (mmu s') p i \<noteq> 0"
proof -
  let ?pt = "pagetable (contexts s c)"
  let ?vf = "make_vmm_flags flags OR COM_MM_VMM_FLAGS_ALLOCATE" and ?mf = "make_mmu_flags prot_read prot_write"
  define fl where "fl = snd (map_flags ?vf ?mf)"
  note F = mmap_make_flags(1,2) [OF assms(4)] mmap_make_flags(3,4) [OF assms(4), of prot_read prot_write]
  have fl: "fl AND ADDRMASK = 0" "ARCH_MMU_FLAGS_USER AND fl \<noteq> 0" using F(3,4) by (simp_all add: fl_def)
  have hint: "hint AND NOT (PAGE - 1) = hint" using page_parts [of hint] assms(5) by simp
  define s1 where "s1 = s\<lparr>mmu := m\<lparr>mmu_pmm := pm\<rparr>\<rparr>"
  define s2 where "s2 = s1\<lparr>mmu := set_entry p i ((ZeroPage s AND ADDRMASK) OR fl) (mmu s1)\<rparr>"
  have "get_page ?pt hint (mmu s1) = Some (p, i)" using assms(9) by (simp add: s1_def get_page_def cong: option.case_cong)
  then have "map_one ?pt True hint 0 fl 0 s = Ok s2"
    using assms(10) map_present [OF _ refl] unfolding m_def by (simp add: map_one_def hold_page_def s2_def s1_def m_def kassert_def)
  then have "com_mm_vmm_map (Some c) hint 0 len ?vf ?mf s = Ok (hint, s2)"
    using F(1,2) map_flags_hint [of ?vf ?mf] hint one_page [OF assms(7,8)] assms(3) unfolding fl_def
    by (simp add: com_mm_vmm_map_def Let_def case_prod_unfold vmm_ensure_context_def kassert_def indices_def)
  then have "com_sys_syscall_mmap file_mmap hint len flags prot_read prot_write (-1) off s = Ok (Inr hint, s2)"
    by (simp add: com_sys_syscall_mmap_def Let_def c_def)
  moreover have "tables (mmu s2) p i = (ZeroPage s AND ADDRMASK) OR fl" by (simp add: s2_def set_entry_def)
  moreover have "ARCH_MMU_FLAGS_USER AND ((ZeroPage s AND ADDRMASK) OR fl) \<noteq> 0" using fl(2) by (simp add: bit.conj_disj_distrib or_eq_0_iff)
  ultimately show ?thesis using fl by (intro exI [of _ s2]) (simp add: bit.conj_disj_distrib2 and.assoc)
qed

theorem mmap_fixed_anywhere_witness:
  "\<exists>s'. com_sys_syscall_mmap (\<lambda>_ _ _ _ _ _ _. Panic) 0xffff800000000000 0x1000 \<lparr>MAP_FIXED = True, MAP_ANONYMOUS = True, MAP_SHARED = False, MAP_PRIVATE = True\<rparr> True True (-1) 0
       (sample_vmm (\<lambda>_. 0x5001) sample_frames\<lparr>mmu := \<lparr>tables = (\<lambda>p i. if p = 0x1000 then 0x2003 else if p = 0x2000 then 0x3003 else if p = 0x3000 then 0x4003 else 0x5001),
          pt_pool = [], mmu_pmm = sample_frames, RootTable = 0, cr3 = 0x1000\<rparr>\<rparr>) = Ok (Inr 0xffff800000000000, s') \<and> tables (mmu s') 0x4000 0 AND ADDRMASK = 0x7000"
proof -
  let ?s = "sample_vmm (\<lambda>_. 0x5001) sample_frames\<lparr>mmu := \<lparr>tables = (\<lambda>p i. if p = 0x1000 then 0x2003 else if p = 0x2000 then 0x3003 else if p = 0x3000 then 0x4003 else 0x5001),
          pt_pool = [], mmu_pmm = sample_frames, RootTable = 0, cr3 = 0x1000\<rparr>\<rparr>"
  have c: "vmm_current_context ?s = 1" "pagetable (contexts ?s 1) = 0x1000" "ZeroPage ?s = 0x7000" "mmu_pmm (mmu ?s) = sample_frames"
    by (simp_all add: vmm_current_context_def sample_vmm_def)
  have "get_page (pagetable (contexts ?s (vmm_current_context ?s))) 0xffff800000000000 (mmu ?s) = Some (0x4000, 0)"
    unfolding c by (simp add: get_page_def next_table_def ADDRMASK_def offset_defs)
  moreover obtain pm where "com_mm_pmm_hold (mmu_pmm (mmu ?s)) (unat (ZeroPage ?s)) = Ok pm"
    unfolding c by (simp add: com_mm_pmm_hold_def page_meta_get_def read_meta_def sample_frames_def PHYS_TO_META_INDEX_def Pmm.ARCH_PAGE_SIZE_def taken_model_def kassert_def Let_def)
  ultimately show ?thesis
    using mmap_fixed_anywhere [of ?s "\<lparr>MAP_FIXED = True, MAP_ANONYMOUS = True, MAP_SHARED = False, MAP_PRIVATE = True\<rparr>" "0xffff800000000000" "0x1000" "0x4000" 0 pm "\<lambda>_ _ _ _ _ _ _. Panic" True True 0]
    by (auto simp: c RootContext_def PAGE_simps ARCH_MMU_KERNELSPACE_START_def ADDRMASK_def)
qed

end
