(* ===== verification/Spec2Isabelle.thy ===== *)
theory Spec2Isabelle
  imports Mem Str Ringbuffer Hashmap Radixtree Pmm Slab PmmCache Ioviter Vfs Sched Fdtable Tmpfs Vmm
begin

text \<open>
  A verification development for the SalernOS kernel, a Unix-like kernel in C for x86-64.

  \<^bold>\<open>The program.\<close> The kernel proper is \<^verbatim>\<open>src/com\<close>, what depends on the processor is \<^verbatim>\<open>src/platform\<close>.
  Its lowest layer is a library: memory and string routines, a ring buffer, a hash table, a radix
  tree, iterators over user buffers, and the locks. Memory management is a stack: the physical
  memory manager keeps a free list of blocks and metadata for every page; the page cache batches requests to
  it, the slab allocator cuts its pages into small objects, the page tables take their pages from a
  page cache, and the virtual memory manager maps pages into address spaces and handles page faults.
  Threads are scheduled by one run queue for each processor; they sleep on waitlists and are woken by
  notifications, signals or the timed callbacks of the callout queue, on which mutexes and reader-writer
  locks build. Files are reached through descriptors, which refer to counted file objects, which refer
  to nodes of the virtual file system; paths are resolved there, and the operations of a node are
  those of its file system, of which tmpfs, in memory with a page cache in a radix tree, is the root.

  \<^bold>\<open>The theories.\<close> Each models a component, its state as records, its operations as functions with the
  names of the code.
  \<^item> \<^verbatim>\<open>Kernel_Prelude\<close>: machine words, error numbers, the result type of an operation, the macros of
    \<^verbatim>\<open>include/lib/util.h\<close> and the facts about words and lists that the others share.
  \<^item> \<^verbatim>\<open>Interfaces\<close>: contracts as locales. A byte channel (interpreted by the ring buffer), a store from keys
    to values (by the hash table and the radix tree), a source of pages (by the physical memory
    manager and the page cache). \<^verbatim>\<open>Vfs\<close> adds the contract of a file system that path
    resolution relies on, which \<^verbatim>\<open>Tmpfs\<close> interprets.
  \<^item> \<^verbatim>\<open>Mem\<close>, \<^verbatim>\<open>Str\<close>: \<^verbatim>\<open>lib/mem.c\<close> and \<^verbatim>\<open>lib/str.c\<close> on memory of bytes, addressed by 64-bit words that wrap.
  \<^item> \<^verbatim>\<open>Ringbuffer\<close>, \<^verbatim>\<open>Hashmap\<close>, \<^verbatim>\<open>Radixtree\<close>, \<^verbatim>\<open>Ioviter\<close>: the files of \<^verbatim>\<open>lib\<close> with these names.
  \<^item> \<^verbatim>\<open>Pmm\<close>, \<^verbatim>\<open>Slab\<close>, \<^verbatim>\<open>PmmCache\<close>: \<^verbatim>\<open>mm/pmm.c\<close>, \<^verbatim>\<open>mm/slab.c\<close>, \<^verbatim>\<open>mm/pmmcache.c\<close>.
  \<^item> \<^verbatim>\<open>Mmu\<close>, \<^verbatim>\<open>Vmm\<close>: the page tables of \<^verbatim>\<open>platform/x86-64/mmu.c\<close>; \<^verbatim>\<open>mm/vmm.c\<close>, the page fault handler,
    and the system calls \<^verbatim>\<open>mmap\<close> and \<^verbatim>\<open>munmap\<close>.
  \<^item> \<^verbatim>\<open>Callout\<close>, \<^verbatim>\<open>Locks\<close>, \<^verbatim>\<open>Sched\<close>: \<^verbatim>\<open>sys/callout.c\<close>; \<^verbatim>\<open>lib/spinlock.c\<close>, \<^verbatim>\<open>lib/mutex.c\<close>, \<^verbatim>\<open>lib/rwlock.c\<close>; \<^verbatim>\<open>sys/sched.c\<close>
    and \<^verbatim>\<open>sys/thread.c\<close>.
  \<^item> \<^verbatim>\<open>Fdtable\<close>: the descriptor part of \<^verbatim>\<open>sys/proc.c\<close> and the system calls on descriptors.
  \<^item> \<^verbatim>\<open>Vfs\<close>, \<^verbatim>\<open>Tmpfs_File\<close>, \<^verbatim>\<open>Tmpfs\<close>: \<^verbatim>\<open>fs/vfs.c\<close>; the contents of files in \<^verbatim>\<open>fs/tmpfs.c\<close> over \<^verbatim>\<open>fs/pagecache.c\<close>;
    the directories and the table of operations of \<^verbatim>\<open>fs/tmpfs.c\<close>.

  \<^bold>\<open>Conventions.\<close> Integers keep their width where it matters, as words; counters that count objects in
  memory and addresses of pages can be natural numbers. An operation returns \<open>Ok\<close> with its results
  and the new state, \<open>Panic\<close> where an assertion fails, a wild pointer is followed or the kernel panics, and
  \<open>Blocked\<close> where it would wait, for a lock that is held or asleep. An \<^verbatim>\<open>int\<close> result is an \<open>errno\<close>, and \<open>NULL\<close> is \<open>None\<close>. Function pointers are
  arguments. A tail queue is a list. Where critical sections can interleave, an operation is
  split at its locks and the threads form a transition system, or the events that come in between are
  an explicit list.
\<close>

text \<open>
  \<^bold>\<open>What is shown.\<close>
  \<^item> Library. The hash table and the radix tree behave as finite maps under every sequence of
    operations; the ring buffer delivers the bytes it accepted in order, and a blocking write returns when
    readers make room; numbers that were printed read back; an iterator copies as from and to the flat
    list of its addresses. \<^verbatim>\<open>kmemmove\<close> as compiled for x86-64 misses its destination.
  \<^item> Memory. Boot establishes the invariant of the physical memory manager, and no sequence of
    requests is given a page twice; the same holds through the page cache, and slab objects
    never overlap. Page tables behave as independent functions from pages to
    entries, across forks; a mapping translates every byte to where it should; a copy-on-write
    fault gives a page of its own and touches no other. The mapping of neighbours of a
    new page can replace one that is in use, and a fixed mapping is not kept out of the kernel.
  \<^item> Concurrency. Every sequence of scheduler operations keeps each thread in exactly one place;
    a tick runs the callouts that are due and no other; reader-writer locks and
    mutexes exclude, and do not leave sleepers on a free lock. The races that the code has,
    between a notification and a timeout and within a cancellation, are shown on runs.
  \<^item> Files. A file object counts exactly the descriptors that refer to it; files of tmpfs behave as lists of
    bytes; the tree of nodes stays well-formed, and path resolution returns on every such tree,
    also with loops of links, and is the walk along the path without links. Several error paths that lose
    references, names or descriptors are theorems as well.

  \<^bold>\<open>Bounds and fuel.\<close> No function has fuel. Loops that need not end are partial functions with
  values in \<open>option\<close>, and that they return is part of the theorems. Hypotheses on size are the
  range in which machine arithmetic does not wrap: files up to \<open>2 ^ 48\<close> bytes, radix trees of 1 to 7
  layers, which address 63 bits, user addresses below \<open>2 ^ 47\<close>. The theorem about page tables asks
  for three pages of the cache for a mapping and a bound on those a fork copies, so that the budget for a run is
  quadratic in its length. A path follows at most \<open>CONFIG_SYMLINK_MAX\<close> symbolic links, the bound of the code.

  \<^bold>\<open>Not modelled.\<close> Register contexts, descriptor tables of the processor, port and device I/O and
  assembly have no state that HOL could express beyond a stub; with them go the drivers, the
  board code, the console back ends, the invalidation of translation buffers and the creation of threads. The
  profiler, logging and the table of system calls change no state that another part reads. Processes, their groups and
  sessions (other than their descriptors), signals, sockets, terminals, devfs, pipefs, sockfs, initrd and the ELF
  loader are not modelled; the system calls that only wrap them are left out with them. Where a
  modelled operation calls such a part, the call is an argument or an outcome of the model: the signal of
  a bad access, the mapping of a file, the yield at the end of a tick. Page contents appear
  where code reads them: in the string and memory routines, the ring buffer, files and copy on write.
\<close>

end
